(* ===== verification/Prelude.thy ===== *)
theory Prelude
  imports Main "HOL-Library.Word"
begin

section \<open>Shared types, control flow and generic lemmas\<close>

text \<open>
  The prelude of the development: the C integer types as words of their width, addresses, the
  result of a loop body (fall through to the next iteration, or leave the loop by
  \<^verbatim>\<open>goto\<close> or \<^verbatim>\<open>return\<close>), the \<^verbatim>\<open>for\<close> loops over linked structures, and the lemmas
  on lists, options and words that several components use.  The collection
  \<open>list_ops\<close> gathers the unfoldings of the pointer operations of \<^verbatim>\<open>probe/list.h\<close>.
\<close>

unbundle bit_operations_syntax

type_synonym u8 = "8 word"
type_synonym u16 = "16 word"
type_synonym u32 = "32 word"
type_synonym u64 = "64 word"

type_synonym addr = nat

abbreviation (input) NULL :: addr where
  "NULL \<equiv> 0"

abbreviation UINT_MAX :: u32 where
  "UINT_MAX \<equiv> - 1"

named_theorems list_ops \<open>unfoldings of the pointer operations of list.h\<close>

text \<open>What a C program can run into instead of returning: the access through a null pointer, the
  access outside an array, the loop that never ends, the use of an object that was never given a value,
  the remainder by zero, the failed \<^verbatim>\<open>assert\<close> (or call of \<^verbatim>\<open>abort\<close>).\<close>

datatype fault = Null_pointer | Out_of_bounds | Endless_loop | Indeterminate_value | Division_by_zero | Aborted

fun and_then :: "'e + 'a \<Rightarrow> ('a \<Rightarrow> 'e + 'b) \<Rightarrow> 'e + 'b" where
  "and_then (Inl f) k = Inl f"
| "and_then (Inr x) k = k x"

lemma and_then_Inr: "and_then m k = Inr y \<longleftrightarrow> (\<exists>x. m = Inr x \<and> k x = Inr y)"
  by (cases m) auto

lemma and_then_Inl: "and_then m k = Inl f \<longleftrightarrow> m = Inl f \<or> (\<exists>x. m = Inr x \<and> k x = Inl f)"
  by (cases m) auto

definition or_endless :: "'a option \<Rightarrow> fault + 'a" where
  "or_endless x = (case x of None \<Rightarrow> Inl Endless_loop | Some y \<Rightarrow> Inr y)"

lemma or_endless_simps [simp]:
  "or_endless (Some y) = Inr y" "or_endless x \<noteq> Inl Null_pointer" "or_endless x \<noteq> Inl Out_of_bounds"
  by (simp_all add: or_endless_def split: option.split)

subsection \<open>Loops that walk a linked structure\<close>

text \<open>
  A loop body either falls through (\<open>Go\<close>) or leaves the loop (\<open>Leave\<close>: \<^verbatim>\<open>break\<close>,
  \<^verbatim>\<open>goto\<close>, \<^verbatim>\<open>return\<close>).  \<open>walk\<close> is
  \<^verbatim>\<open>for (pos = start; pos != stop; pos = step(pos)) body\<close> where \<open>step\<close> reads the pointer
  from the state after the body ran; \<open>walk_safe\<close> is the variant that fetches the successor
  before the body runs.  A loop that never reaches \<open>stop\<close> has no value: \<open>None\<close>.
\<close>

datatype 's flow = Go 's | Leave 's

primrec flow_state :: "'s flow \<Rightarrow> 's" where
  "flow_state (Go s) = s"
| "flow_state (Leave s) = s"

partial_function (option) walk ::
  "('s \<Rightarrow> addr \<Rightarrow> addr) \<Rightarrow> (addr \<Rightarrow> 's \<Rightarrow> 's flow) \<Rightarrow> addr \<Rightarrow> addr \<Rightarrow> 's \<Rightarrow> 's flow option" where
  "walk step body stop pos s =
     (if pos = stop then Some (Go s)
      else (case body pos s of
              Leave s' \<Rightarrow> Some (Leave s')
            | Go s' \<Rightarrow> walk step body stop (step s' pos) s'))"

partial_function (option) walk_safe ::
  "('s \<Rightarrow> addr \<Rightarrow> addr) \<Rightarrow> (addr \<Rightarrow> 's \<Rightarrow> 's flow) \<Rightarrow> addr \<Rightarrow> addr \<Rightarrow> addr \<Rightarrow> 's
     \<Rightarrow> 's flow option" where
  "walk_safe step body stop pos n s =
     (if pos = stop then Some (Go s)
      else (case body pos s of
              Leave s' \<Rightarrow> Some (Leave s')
            | Go s' \<Rightarrow> walk_safe step body stop n (step s' n) s'))"

text \<open>The same bodies run over a list of positions: what the walks compute on a well-linked list.\<close>

fun run_body :: "(addr \<Rightarrow> 's \<Rightarrow> 's flow) \<Rightarrow> addr list \<Rightarrow> 's \<Rightarrow> 's flow" where
  "run_body body [] s = Go s"
| "run_body body (p # ps) s =
     (case body p s of Leave s' \<Rightarrow> Leave s' | Go s' \<Rightarrow> run_body body ps s')"

lemma run_body_append:
  "run_body body (ps @ qs) s =
     (case run_body body ps s of Leave s' \<Rightarrow> Leave s' | Go s' \<Rightarrow> run_body body qs s')"
  by (induction ps arbitrary: s) (auto split: flow.splits)

subsection \<open>Lists\<close>

lemma distinct_split_unique:
  assumes "distinct (xs @ a # ys)"
  shows "a \<notin> set xs" "a \<notin> set ys"
  using assms by auto

lemma last_Cons_append: "last (a # xs @ [b]) = b"
  by simp

lemma remove1_middle [simp]: "a \<notin> set xs \<Longrightarrow> remove1 a (xs @ a # ys) = xs @ ys"
  by (induction xs) auto

lemma count_list_update:
  "i < length xs \<Longrightarrow> xs ! i = c \<Longrightarrow> d \<noteq> c \<Longrightarrow> Suc (count_list (xs[i := d]) c) = count_list xs c"
  by (induction xs arbitrary: i) (auto simp: nth_Cons split: nat.splits)

lemma takeWhile_neq_shorter: "c \<in> set xs \<Longrightarrow> length (takeWhile (\<lambda>x. x \<noteq> c) xs) < length xs"
  by (induction xs) auto

lemma filter_update:
  "k < length xs \<Longrightarrow> length (filter P (xs[k := y])) + (if P (xs ! k) then 1 else 0) = length (filter P xs) + (if P y then 1 else 0)"
proof (induction xs arbitrary: k)
  case (Cons x xs)
  then show ?case by (cases k) auto
qed simp

subsection \<open>Decimal numbers\<close>

text \<open>\<^verbatim>\<open>printf("%u")\<close> of a number, and \<^verbatim>\<open>atoi\<close>: white space, an optional sign, the digits up to
  the first other character.\<close>

definition digit :: "nat \<Rightarrow> char" where
  "digit k = char_of (48 + k :: nat)"

definition digit_val :: "char \<Rightarrow> nat" where
  "digit_val c = of_char c - 48"

definition is_digit :: "char \<Rightarrow> bool" where
  "is_digit c \<longleftrightarrow> 48 \<le> (of_char c :: nat) \<and> (of_char c :: nat) \<le> 57"

fun decimal :: "nat \<Rightarrow> string" where
  "decimal n = (if n < 10 then [digit n] else decimal (n div 10) @ [digit (n mod 10)])"

declare decimal.simps [simp del]

definition digits_val :: "string \<Rightarrow> nat" where
  "digits_val cs = foldl (\<lambda>a c. 10 * a + digit_val c) 0 cs"

definition is_space :: "char \<Rightarrow> bool" where
  "is_space c \<longleftrightarrow> (of_char c :: nat) = 32 \<or> 9 \<le> (of_char c :: nat) \<and> (of_char c :: nat) \<le> 13"

definition atoi :: "string \<Rightarrow> int" where
  "atoi s =
     (let t = dropWhile is_space s
      in case t of
           [] \<Rightarrow> 0
         | c # cs \<Rightarrow>
             if c = CHR ''-'' then - int (digits_val (takeWhile is_digit cs))
             else if c = CHR ''+'' then int (digits_val (takeWhile is_digit cs))
             else int (digits_val (takeWhile is_digit t)))"

lemma digit_props: "k < 10 \<Longrightarrow> is_digit (digit k) \<and> digit_val (digit k) = k"
  by (simp add: is_digit_def digit_def digit_val_def)

lemma digit_not_special: "is_digit c \<Longrightarrow> \<not> is_space c \<and> c \<noteq> CHR ''-'' \<and> c \<noteq> CHR ''+''"
  by (auto simp: is_digit_def is_space_def)

lemma decimal_digits: "list_all is_digit (decimal n)"
proof (induction n rule: decimal.induct)
  case (1 n)
  then show ?case by (subst decimal.simps) (simp add: digit_props)
qed

lemma decimal_not_Nil [simp]: "decimal n \<noteq> []"
  by (subst decimal.simps) simp

lemma digits_val_decimal: "digits_val (decimal n) = n"
proof (induction n rule: decimal.induct)
  case (1 n)
  then show ?case by (subst decimal.simps) (simp add: digits_val_def digit_props)
qed

lemma atoi_decimal: "atoi (decimal n) = int n"
proof -
  obtain c cs where d: "decimal n = c # cs" by (meson decimal_not_Nil list.exhaust)
  then have "is_digit c" "list_all is_digit (c # cs)" using decimal_digits [of n] by simp_all
  then have "dropWhile is_space (decimal n) = decimal n" "takeWhile is_digit (decimal n) = decimal n"
    using d digit_not_special by (auto simp: list_all_iff takeWhile_eq_all_conv)
  then have "atoi (decimal n) = int (digits_val (decimal n))"
    using digit_not_special [OF \<open>is_digit c\<close>] d by (simp add: atoi_def)
  then show ?thesis by (simp add: digits_val_decimal)
qed

lemma decimal_inject [simp]: "decimal m = decimal n \<longleftrightarrow> m = n"
  by (metis digits_val_decimal)

subsection \<open>Words\<close>

lemma unat_UINT_MAX: "unat UINT_MAX = 4294967295"
  by (simp add: unsigned_minus_1_eq_mask mask_eq_exp_minus_1)

lemma unat_mult_u64: "unat a * unat b < 2 ^ 64 \<Longrightarrow> unat (a * b :: u64) = unat a * unat b"
  using unat_mult_lem [of a b] by simp

lemma unat_add_u64: "unat a + unat b < 2 ^ 64 \<Longrightarrow> unat (a + b :: u64) = unat a + unat b"
  using unat_add_lem [of a b] by simp

lemma unat_u32_less: "unat (n :: u32) < 4294967296"
  by (rule less_le_trans [OF unsigned_less]) simp

lemma unat_u64_less: "unat (n :: u64) < 2 ^ 64"
  by (rule less_le_trans [OF unsigned_less]) simp

lemma unat_of_nat_u32: "i < unat (n :: u32) \<Longrightarrow> unat (of_nat i :: u32) = i"
  using unat_u32_less [of n] by (simp add: unsigned_of_nat take_bit_nat_eq_self)

lemma unat_Suc_u32: "unat h < unat (n :: u32) \<Longrightarrow> unat (h + 1 :: u32) = Suc (unat h)"
  using unat_add_lem [of h 1] unat_u32_less [of n] by simp

lemma unat_ucast_u32 [simp]: "unat (ucast (n :: u32) :: u64) = unat n"
  using unat_u32_less [of n] by (simp add: unsigned_ucast_eq take_bit_nat_eq_self)

lemma unat_succ_u32: "unat (i :: u32) < 4294967295 \<Longrightarrow> unat (i + 1) = Suc (unat i)"
  using unat_add_lem [of i 1] by simp

text \<open>Rounding down to a multiple of a power of two.\<close>

lemma page_down: "k < 64 \<Longrightarrow> unat ((a :: u64) AND NOT (2 ^ k - 1)) = unat a div 2 ^ k * 2 ^ k"
proof -
  assume k: "k < 64"
  have "a AND NOT (2 ^ k - 1) = push_bit k (drop_bit k a)"
    by (rule bit_word_eqI) (auto simp: bit_simps mask_eq_exp_minus_1 [symmetric])
  moreover have "take_bit 64 (unat a) = unat a" using unat_u64_less [of a] by (intro take_bit_nat_eq_self) simp
  ultimately have "unat (a AND NOT (2 ^ k - 1)) = take_bit 64 (push_bit k (drop_bit k (unat a)))"
    by (simp add: unsigned_push_bit_eq unsigned_drop_bit_eq)
  moreover have "unat a div 2 ^ k * 2 ^ k \<le> unat a" by simp
  then have "unat a div 2 ^ k * 2 ^ k < 2 ^ 64" using unat_u64_less [of a] by linarith
  ultimately show ?thesis by (simp add: push_bit_eq_mult drop_bit_eq_div take_bit_nat_eq_self)
qed

end
