(* ===== verification/Code_Range.thy ===== *)
theory Code_Range
  imports Prelude
begin

section \<open>Dyninst's codeRange.C: the tree of address ranges\<close>

text \<open>
  The instrumentation library finds the object at an address (a buffer of the file being edited, a function) in a red-black tree
  of ranges.  The entries of the tree point to their children and to their parent; \<^verbatim>\<open>insert\<close> and \<^verbatim>\<open>remove\<close> first
  change the search tree and then walk up from the changed place, recolouring and rotating.  Here the entry a
  loop is at and its chain of parents are a subtree and a list of \<open>frame\<close>s, the innermost first: \<open>plug\<close> is the whole tree again,
  and \<^verbatim>\<open>x = x->parent\<close> takes the first frame from the list.  The sentinel \<^verbatim>\<open>nil\<close> is the constructor \<open>Nil_entry\<close>; it is
  black and has no children: where the code would follow them the result is a fault.
\<close>

datatype color_t = TREE_BLACK | TREE_RED

datatype 'v entry = Nil_entry | Entry "'v entry" color_t u64 'v "'v entry"

datatype 'v frame = In_left color_t u64 'v "'v entry" | In_right "'v entry" color_t u64 'v

fun plug :: "'v entry \<Rightarrow> 'v frame list \<Rightarrow> 'v entry" where
  "plug x [] = x"
| "plug x (In_left c k v r # ps) = plug (Entry x c k v r) ps"
| "plug x (In_right l c k v # ps) = plug (Entry l c k v x) ps"

fun entry_color :: "'v entry \<Rightarrow> color_t" where
  "entry_color Nil_entry = TREE_BLACK"
| "entry_color (Entry l c k v r) = c"

fun frame_color :: "'v frame \<Rightarrow> color_t" where
  "frame_color (In_left c k v r) = c"
| "frame_color (In_right l c k v) = c"

fun paint :: "color_t \<Rightarrow> 'v entry \<Rightarrow> 'v entry" where
  "paint c Nil_entry = Nil_entry"
| "paint c (Entry l _ k v r) = Entry l c k v r"

fun paint_frame :: "color_t \<Rightarrow> 'v frame \<Rightarrow> 'v frame" where
  "paint_frame c (In_left _ k v r) = In_left c k v r"
| "paint_frame c (In_right l _ k v) = In_right l c k v"

text \<open>From an entry to its children.\<close>

fun to_left :: "'v entry \<Rightarrow> 'v frame list \<Rightarrow> 'v entry \<times> 'v frame list" where
  "to_left (Entry l c k v r) ps = (l, In_left c k v r # ps)"
| "to_left Nil_entry ps = (Nil_entry, ps)"

fun to_right :: "'v entry \<Rightarrow> 'v frame list \<Rightarrow> 'v entry \<times> 'v frame list" where
  "to_right (Entry l c k v r) ps = (r, In_right l c k v # ps)"
| "to_right Nil_entry ps = (Nil_entry, ps)"

subsection \<open>Rotations\<close>

fun leftRotate :: "'v entry \<Rightarrow> 'v entry" where
  "leftRotate (Entry a c k v (Entry b d l w e)) = Entry (Entry a c k v b) d l w e"
| "leftRotate pivot = pivot"

fun rightRotate :: "'v entry \<Rightarrow> 'v entry" where
  "rightRotate (Entry (Entry a d l w b) c k v e) = Entry a d l w (Entry b c k v e)"
| "rightRotate pivot = pivot"

subsection \<open>Searching\<close>

fun descend :: "u64 \<Rightarrow> 'v entry \<Rightarrow> 'v frame list \<Rightarrow> 'v entry \<times> 'v frame list" where
  "descend key Nil_entry ps = (Nil_entry, ps)"
| "descend key (Entry l c k v r) ps =
     (if key < k then descend key l (In_left c k v r # ps)
      else if k < key then descend key r (In_right l c k v # ps)
      else (Entry l c k v r, ps))"

definition find_internal :: "u64 \<Rightarrow> 'v entry \<Rightarrow> 'v option" where
  "find_internal element t = (case fst (descend element t []) of Nil_entry \<Rightarrow> None | Entry l c k v r \<Rightarrow> Some v)"

fun precessor_loop :: "u64 \<Rightarrow> 'v entry \<Rightarrow> 'v option \<Rightarrow> 'v option" where
  "precessor_loop key Nil_entry passed = passed"
| "precessor_loop key (Entry l c k v r) passed =
     (if k = key then Some v
      else if key < k then precessor_loop key l passed
      else precessor_loop key r (Some v))"

definition precessor :: "u64 \<Rightarrow> 'v entry \<Rightarrow> 'v option" where
  "precessor key t = precessor_loop key t None"

fun successor_loop :: "u64 \<Rightarrow> 'v entry \<Rightarrow> 'v option \<Rightarrow> 'v option" where
  "successor_loop key Nil_entry passed = passed"
| "successor_loop key (Entry l c k v r) passed =
     (if k = key then Some v
      else if k < key then successor_loop key r passed
      else successor_loop key l (Some v))"

definition successor :: "u64 \<Rightarrow> 'v entry \<Rightarrow> 'v option" where
  "successor key t = successor_loop key t None"

fun traverse :: "'v entry \<Rightarrow> 'v list" where
  "traverse Nil_entry = []"
| "traverse (Entry l c k v r) = traverse l @ [v] @ traverse r"

text \<open>What is stored: anything that has an address and a size.\<close>

record codeRange =
  get_address :: u64
  get_size :: u32

definition range_end :: "'a codeRange_scheme \<Rightarrow> u64" where
  "range_end value = get_address value + ucast (get_size value)"

definition find_range :: "u64 \<Rightarrow> 'a codeRange_scheme entry \<Rightarrow> 'a codeRange_scheme option" where
  "find_range key t =
     (case precessor key t of
        None \<Rightarrow> None
      | Some value \<Rightarrow>
          if get_size value = 0 \<and> key > get_address value then None
          else if get_size value \<noteq> 0 \<and> key \<ge> range_end value then None
          else if key < get_address value then None
          else Some value)"

subsection \<open>Insertion\<close>

lemma length_to_left: "to_left t ps = (x, qs) \<Longrightarrow> length qs \<le> Suc (length ps)"
  by (cases t) auto

lemma length_to_right: "to_right t ps = (x, qs) \<Longrightarrow> length qs \<le> Suc (length ps)"
  by (cases t) auto

text \<open>The loop of \<^verbatim>\<open>insert\<close>: the entry \<open>x\<close> is red, and so may be its parent.\<close>

function insert_fixup :: "'v entry \<Rightarrow> 'v frame list \<Rightarrow> fault + 'v entry" where
  "insert_fixup x [] = Inr (paint TREE_BLACK x)"
| "insert_fixup x [p] = (if frame_color p = TREE_RED then Inl Null_pointer else Inr (paint TREE_BLACK (plug x [p])))"
| "insert_fixup x (p # g # ps) =
     (if frame_color p = TREE_BLACK then Inr (paint TREE_BLACK (plug x (p # g # ps)))
      else case g of
        In_left _ gk gv y \<Rightarrow>
          if entry_color y = TREE_RED
          then insert_fixup (Entry (plug x [paint_frame TREE_BLACK p]) TREE_RED gk gv (paint TREE_BLACK y)) ps
          else let (x', p') = (case p of
                                 In_right _ _ _ _ \<Rightarrow> to_left (leftRotate (plug x [p])) []
                               | In_left _ _ _ _ \<Rightarrow> (x, [p]));
                   (x'', ps') = to_left (rightRotate (Entry (plug x' (map (paint_frame TREE_BLACK) p')) TREE_RED gk gv y)) ps
               in insert_fixup x'' ps'
      | In_right y _ gk gv \<Rightarrow>
          if entry_color y = TREE_RED
          then insert_fixup (Entry (paint TREE_BLACK y) TREE_RED gk gv (plug x [paint_frame TREE_BLACK p])) ps
          else let (x', p') = (case p of
                                 In_left _ _ _ _ \<Rightarrow> to_right (rightRotate (plug x [p])) []
                               | In_right _ _ _ _ \<Rightarrow> (x, [p]));
                   (x'', ps') = to_right (leftRotate (Entry y TREE_RED gk gv (plug x' (map (paint_frame TREE_BLACK) p')))) ps
               in insert_fixup x'' ps')"
  by pat_completeness auto

termination
  by (relation "measure (\<lambda>(x, ps). length ps)") (auto dest: length_to_left length_to_right simp: less_Suc_eq_le split: prod.splits)

record 'v codeRangeTree =
  setData :: "'v entry"
  setSize :: int

definition treeInsert :: "u64 \<Rightarrow> 'v \<Rightarrow> 'v codeRangeTree \<Rightarrow> ('v entry \<times> 'v frame list) option \<times> 'v codeRangeTree" where
  "treeInsert key value t =
     (case descend key (setData t) [] of
        (Entry l c k v r, ps) \<Rightarrow> (None, t\<lparr>setData := plug (Entry l c k value r) ps\<rparr>)
      | (Nil_entry, ps) \<Rightarrow>
          let z = Entry Nil_entry TREE_RED key value Nil_entry
          in (Some (z, ps), t\<lparr>setData := plug z ps, setSize := setSize t + 1\<rparr>))"

definition insert_range :: "'a codeRange_scheme \<Rightarrow> 'a codeRange_scheme codeRangeTree \<Rightarrow> fault + 'a codeRange_scheme codeRangeTree" where
  "insert_range value t =
     (case treeInsert (get_address value) value t of
        (None, t') \<Rightarrow>
          (case find_internal (get_address value) (setData t') of
             None \<Rightarrow> Inl Null_pointer
           | Some v \<Rightarrow> if get_size value = get_size v then Inr t' else Inl Aborted)
      | (Some (x, ps), t') \<Rightarrow> and_then (insert_fixup x ps) (\<lambda>root. Inr (t'\<lparr>setData := root\<rparr>)))"

subsection \<open>Removal\<close>

text \<open>The first case of \<^verbatim>\<open>deleteFixup\<close>, for an entry \<open>x\<close> that is a left child: a red sibling \<open>w\<close> is rotated above the parent.  The
  result is the colour of the parent, the new sibling and the frames above the parent.\<close>

definition black_sibling_right :: "'v entry \<Rightarrow> color_t \<Rightarrow> u64 \<Rightarrow> 'v \<Rightarrow> 'v entry \<Rightarrow> 'v frame list \<Rightarrow> color_t \<times> 'v entry \<times> 'v frame list" where
  "black_sibling_right x pc pk pv w ps =
     (if entry_color w = TREE_RED
      then case leftRotate (Entry x TREE_RED pk pv (paint TREE_BLACK w)) of
             Entry (Entry _ c _ _ w') d k v r \<Rightarrow> (c, w', In_left d k v r # ps)
           | _ \<Rightarrow> (pc, w, ps)
      else (pc, w, ps))"

definition black_sibling_left :: "'v entry \<Rightarrow> color_t \<Rightarrow> u64 \<Rightarrow> 'v \<Rightarrow> 'v entry \<Rightarrow> 'v frame list \<Rightarrow> color_t \<times> 'v entry \<times> 'v frame list" where
  "black_sibling_left w pc pk pv x ps =
     (if entry_color w = TREE_RED
      then case rightRotate (Entry (paint TREE_BLACK w) TREE_RED pk pv x) of
             Entry l d k v (Entry w' c _ _ _) \<Rightarrow> (c, w', In_right l d k v # ps)
           | _ \<Rightarrow> (pc, w, ps)
      else (pc, w, ps))"

lemma color_neq [simp]: "c \<noteq> TREE_BLACK \<longleftrightarrow> c = TREE_RED" "c \<noteq> TREE_RED \<longleftrightarrow> c = TREE_BLACK"
  by (cases c; simp)+

lemma black_sibling_cases:
  "black_sibling_right x pc pk pv w ps = (c, w', ps') \<Longrightarrow> c = TREE_RED \<and> length ps' = Suc (length ps) \<or> c = pc \<and> ps' = ps"
  "black_sibling_left w pc pk pv x ps = (c, w', ps') \<Longrightarrow> c = TREE_RED \<and> length ps' = Suc (length ps) \<or> c = pc \<and> ps' = ps"
  by (cases w; auto simp: black_sibling_right_def black_sibling_left_def split: if_splits)+

text \<open>An iteration goes up by one entry, except after a red sibling; then the parent is red and the loop ends.\<close>

function deleteFixup :: "'v entry \<Rightarrow> 'v frame list \<Rightarrow> fault + 'v entry" where
  "deleteFixup x [] = Inr (paint TREE_BLACK x)"
| "deleteFixup x (In_left pc pk pv w # ps) =
     (if entry_color x = TREE_RED then Inr (plug (paint TREE_BLACK x) (In_left pc pk pv w # ps))
      else let (c, w', ps') = black_sibling_right x pc pk pv w ps in
        case w' of
          Nil_entry \<Rightarrow> Inl Null_pointer
        | Entry wl wc wk wv wr \<Rightarrow>
            if entry_color wl = TREE_BLACK \<and> entry_color wr = TREE_BLACK
            then deleteFixup (Entry x c pk pv (Entry wl TREE_RED wk wv wr)) ps'
            else case if entry_color wr = TREE_BLACK then rightRotate (Entry (paint TREE_BLACK wl) TREE_RED wk wv wr) else w' of
                   Nil_entry \<Rightarrow> Inl Null_pointer
                 | Entry l _ k v r \<Rightarrow>
                     Inr (paint TREE_BLACK (plug (leftRotate (Entry x TREE_BLACK pk pv (Entry l c k v (paint TREE_BLACK r)))) ps')))"
| "deleteFixup x (In_right w pc pk pv # ps) =
     (if entry_color x = TREE_RED then Inr (plug (paint TREE_BLACK x) (In_right w pc pk pv # ps))
      else let (c, w', ps') = black_sibling_left w pc pk pv x ps in
        case w' of
          Nil_entry \<Rightarrow> Inl Null_pointer
        | Entry wl wc wk wv wr \<Rightarrow>
            if entry_color wr = TREE_BLACK \<and> entry_color wl = TREE_BLACK
            then deleteFixup (Entry (Entry wl TREE_RED wk wv wr) c pk pv x) ps'
            else case if entry_color wl = TREE_BLACK then leftRotate (Entry wl TREE_RED wk wv (paint TREE_BLACK wr)) else w' of
                   Nil_entry \<Rightarrow> Inl Null_pointer
                 | Entry l _ k v r \<Rightarrow>
                     Inr (paint TREE_BLACK (plug (rightRotate (Entry (Entry (paint TREE_BLACK l) c k v r) TREE_BLACK pk pv x)) ps')))"
  by pat_completeness auto

termination
  by (relation "measure (\<lambda>(x, ps). 2 * length ps + (if entry_color x = TREE_BLACK then 1 else 0))")
    (auto dest!: black_sibling_cases [OF sym])

fun leftmost :: "'v entry \<Rightarrow> 'v frame list \<Rightarrow> 'v entry \<times> 'v frame list" where
  "leftmost Nil_entry ps = (Nil_entry, ps)"
| "leftmost (Entry Nil_entry c k v r) ps = (Entry Nil_entry c k v r, ps)"
| "leftmost (Entry (Entry a b d e f) c k v r) ps = leftmost (Entry a b d e f) (In_left c k v r # ps)"

text \<open>\<^verbatim>\<open>treeSuccessor\<close>: the leftmost entry on the right, or the first ancestor on whose left the entry is.\<close>

fun climb_right :: "'v entry \<Rightarrow> 'v frame list \<Rightarrow> ('v entry \<times> 'v frame list) option" where
  "climb_right x [] = None"
| "climb_right x (In_right l c k v # ps) = climb_right (Entry l c k v x) ps"
| "climb_right x (In_left c k v r # ps) = Some (Entry x c k v r, ps)"

fun treeSuccessor :: "'v entry \<Rightarrow> 'v frame list \<Rightarrow> ('v entry \<times> 'v frame list) option" where
  "treeSuccessor Nil_entry ps = None"
| "treeSuccessor (Entry l c k v r) ps =
     (case r of Nil_entry \<Rightarrow> climb_right (Entry l c k v r) ps | _ \<Rightarrow> Some (leftmost r (In_right l c k v # ps)))"

text \<open>The entry \<open>y\<close> that is taken out has at most one child \<open>x\<close>, which moves up.\<close>

definition splice_out :: "color_t \<Rightarrow> 'v entry \<Rightarrow> 'v frame list \<Rightarrow> fault + 'v entry" where
  "splice_out yc x ps = (if yc = TREE_BLACK then deleteFixup x ps else Inr (plug x ps))"

definition remove_range :: "u64 \<Rightarrow> 'v codeRangeTree \<Rightarrow> fault + 'v codeRangeTree" where
  "remove_range key t =
     (case descend key (setData t) [] of
        (Nil_entry, _) \<Rightarrow> Inr t
      | (Entry zl zc zk zv zr, ps) \<Rightarrow>
          and_then
            (case (zl, zr) of
               (Nil_entry, _) \<Rightarrow> splice_out zc zr ps
             | (_, Nil_entry) \<Rightarrow> splice_out zc zl ps
             | _ \<Rightarrow>
                 (case leftmost zr [] of
                    (Nil_entry, _) \<Rightarrow> Inl Null_pointer
                  | (Entry yl yc yk yv yr, qs) \<Rightarrow>
                      splice_out yc (case yl of Nil_entry \<Rightarrow> yr | _ \<Rightarrow> yl) (qs @ In_right zl zc yk yv # ps)))
            (\<lambda>root. Inr (t\<lparr>setData := root, setSize := setSize t - 1\<rparr>)))"

definition tree_empty :: "'v codeRangeTree \<Rightarrow> bool" where
  "tree_empty t \<longleftrightarrow> (case setData t of Nil_entry \<Rightarrow> True | _ \<Rightarrow> False)"

definition new_tree :: "'v codeRangeTree" where
  "new_tree = \<lparr>setData = Nil_entry, setSize = 0\<rparr>"

definition tree_clear :: "'v codeRangeTree \<Rightarrow> 'v codeRangeTree" where
  "tree_clear t = (if tree_empty t then t else t\<lparr>setData := Nil_entry, setSize := 0\<rparr>)"

definition elements_of :: "'v codeRangeTree \<Rightarrow> bool \<times> 'v list" where
  "elements_of t = (if tree_empty t then (False, []) else (True, traverse (setData t)))"

subsection \<open>Balance\<close>

text \<open>The children of a red entry are black, and all ways down pass the same number of black entries.\<close>

fun black_height :: "'v entry \<Rightarrow> nat" where
  "black_height Nil_entry = 0"
| "black_height (Entry l c k v r) = black_height l + (if c = TREE_BLACK then 1 else 0)"

fun balanced :: "'v entry \<Rightarrow> bool" where
  "balanced Nil_entry \<longleftrightarrow> True"
| "balanced (Entry l c k v r) \<longleftrightarrow> balanced l \<and> balanced r \<and> black_height l = black_height r
     \<and> (c = TREE_RED \<longrightarrow> entry_color l = TREE_BLACK \<and> entry_color r = TREE_BLACK)"

definition red_black :: "'v entry \<Rightarrow> bool" where
  "red_black t \<longleftrightarrow> balanced t \<and> entry_color t = TREE_BLACK"

fun sibling :: "'v frame \<Rightarrow> 'v entry" where
  "sibling (In_left c k v r) = r"
| "sibling (In_right l c k v) = l"

text \<open>Frames around a subtree of black height \<open>h\<close>, and the colours such a subtree may have.\<close>

fun under_black :: "'v frame list \<Rightarrow> bool" where
  "under_black [] \<longleftrightarrow> False"
| "under_black (p # ps) \<longleftrightarrow> frame_color p = TREE_BLACK"

fun frames_ok :: "'v frame list \<Rightarrow> nat \<Rightarrow> bool" where
  "frames_ok [] h \<longleftrightarrow> True"
| "frames_ok (p # ps) h \<longleftrightarrow> balanced (sibling p) \<and> black_height (sibling p) = h
     \<and> (frame_color p = TREE_RED \<longrightarrow> entry_color (sibling p) = TREE_BLACK \<and> under_black ps)
     \<and> frames_ok ps (h + (if frame_color p = TREE_BLACK then 1 else 0))"

definition fits :: "'v entry \<Rightarrow> 'v frame list \<Rightarrow> bool" where
  "fits x ps \<longleftrightarrow> balanced x \<and> frames_ok ps (black_height x) \<and> (entry_color x = TREE_RED \<longrightarrow> under_black ps)"

lemma paint_simps [simp]: "entry_color (paint TREE_BLACK t) = TREE_BLACK" "balanced t \<Longrightarrow> balanced (paint TREE_BLACK t)"
  "entry_color t = TREE_BLACK \<Longrightarrow> paint TREE_BLACK t = t"
  "entry_color t = TREE_RED \<Longrightarrow> black_height (paint TREE_BLACK t) = Suc (black_height t)"
  by (cases t; simp)+

lemma sibling_paint [simp]: "sibling (paint_frame c p) = sibling p" "frame_color (paint_frame c p) = c"
  by (cases p; simp)+

lemma red_black_plug: "fits x ps \<Longrightarrow> red_black (plug x ps)"
proof (induction x ps rule: plug.induct)
  case (1 x)
  then show ?case by (cases "entry_color x") (simp_all add: fits_def red_black_def)
next
  case (2 x c k v r ps)
  then show ?case by (cases c) (auto simp: fits_def)
next
  case (3 x l c k v ps)
  then show ?case by (cases c) (auto simp: fits_def)
qed

lemma insert_fixup_black: "frame_color p = TREE_BLACK \<Longrightarrow> insert_fixup x (p # ps) = Inr (paint TREE_BLACK (plug x (p # ps)))"
  by (cases ps) simp_all

lemma insert_done:
  assumes "fits x (p # ps)" "frame_color p = TREE_BLACK"
  shows "\<exists>t. insert_fixup x (p # ps) = Inr t \<and> red_black t"
  using red_black_plug [OF assms(1)] insert_fixup_black [OF assms(2)] by (simp add: red_black_def)

lemma insert_recolor:
  assumes "frame_color p = TREE_RED" "entry_color y = TREE_RED"
  shows "insert_fixup x (p # In_left gc gk gv y # ps)
      = insert_fixup (Entry (plug x [paint_frame TREE_BLACK p]) TREE_RED gk gv (paint TREE_BLACK y)) ps"
    "insert_fixup x (p # In_right y gc gk gv # ps)
      = insert_fixup (Entry (paint TREE_BLACK y) TREE_RED gk gv (plug x [paint_frame TREE_BLACK p])) ps"
  using assms by simp_all

lemma insert_rotate:
  assumes "entry_color y = TREE_BLACK"
  shows "insert_fixup x (In_left TREE_RED pk pv s # In_left gc gk gv y # ps)
      = insert_fixup x (In_left TREE_BLACK pk pv (Entry s TREE_RED gk gv y) # ps)"
    "insert_fixup (Entry a xc xk xv b) (In_right s TREE_RED pk pv # In_left gc gk gv y # ps)
      = insert_fixup (Entry s TREE_RED pk pv a) (In_left TREE_BLACK xk xv (Entry b TREE_RED gk gv y) # ps)"
    "insert_fixup x (In_right s TREE_RED pk pv # In_right y gc gk gv # ps)
      = insert_fixup x (In_right (Entry y TREE_RED gk gv s) TREE_BLACK pk pv # ps)"
    "insert_fixup (Entry a xc xk xv b) (In_left TREE_RED pk pv s # In_right y gc gk gv # ps)
      = insert_fixup (Entry b TREE_RED pk pv s) (In_right (Entry y TREE_RED gk gv a) TREE_BLACK xk xv # ps)"
  using assms by simp_all

declare insert_fixup.simps(3) [simp del]

lemma balanced_plug1:
  "balanced x \<Longrightarrow> frames_ok [p] (black_height x) \<or> frames_ok (p # ps) (black_height x) \<Longrightarrow> balanced (plug x [paint_frame TREE_BLACK p])
    \<and> black_height (plug x [paint_frame TREE_BLACK p]) = Suc (black_height x) \<and> entry_color (plug x [paint_frame TREE_BLACK p]) = TREE_BLACK"
  by (cases p) auto

lemma insert_fixup_balanced:
  assumes "balanced x" "entry_color x = TREE_RED" "frames_ok ps (black_height x)"
  shows "\<exists>t. insert_fixup x ps = Inr t \<and> red_black t"
  using assms
proof (induction "length ps" arbitrary: x ps rule: less_induct)
  case less
  consider "ps = []" | p qs where "ps = p # qs" "frame_color p = TREE_BLACK"
    | p g qs where "ps = p # g # qs" "frame_color p = TREE_RED" "frame_color g = TREE_BLACK"
    using less.prems(3) by (cases ps rule: under_black.cases; cases "tl ps"; cases "frame_color (hd ps)") auto
  then show ?case
  proof cases
    case 1
    then show ?thesis using less.prems by (simp add: red_black_def)
  next
    case 2
    then show ?thesis using less.prems by (auto intro!: insert_done simp: fits_def)
  next
    case 3
    note up = balanced_plug1 [OF less.prems(1), of p "g # qs"]
    show ?thesis
    proof (cases "entry_color (sibling g)")
      case TREE_RED
      then show ?thesis using 3 less.prems less.hyps [of qs] up
        by (cases g) (auto simp: insert_recolor)
    next
      case TREE_BLACK
      obtain a k v b where x: "x = Entry a TREE_RED k v b" using less.prems(2) by (cases x) auto
      show ?thesis using TREE_BLACK 3 less.prems x
        by (cases p; cases g) (auto simp: insert_rotate fits_def intro!: insert_done)
    qed
  qed
qed

text \<open>In \<^verbatim>\<open>deleteFixup\<close> the subtree \<open>x\<close> has one black entry too few for its place.\<close>

lemma black_sibling_ok:
  "frames_ok (In_left pc pk pv w # ps) (Suc h) \<Longrightarrow> black_sibling_right x pc pk pv w ps = (c, w', ps')
    \<Longrightarrow> frames_ok (In_left c pk pv w' # ps') (Suc h) \<and> entry_color w' = TREE_BLACK"
  "frames_ok (In_right w pc pk pv # ps) (Suc h) \<Longrightarrow> black_sibling_left w pc pk pv x ps = (c, w', ps')
    \<Longrightarrow> frames_ok (In_right w' c pk pv # ps') (Suc h) \<and> entry_color w' = TREE_BLACK"
  by (cases w; auto simp: black_sibling_right_def black_sibling_left_def split: if_splits)+

lemma black_node:
  assumes "balanced w" "black_height w = Suc h" "entry_color w = TREE_BLACK"
  obtains l k v r where "w = Entry l TREE_BLACK k v r" "balanced l" "balanced r" "black_height l = h" "black_height r = h"
  using assms by (cases w) auto

definition fixed :: "(fault + 'v entry) \<Rightarrow> bool" where
  "fixed r \<longleftrightarrow> (\<exists>t. r = Inr t \<and> red_black t)"

lemma fixed_plug: "fits t ps \<Longrightarrow> fixed (Inr (paint TREE_BLACK (plug t ps)))"
  using red_black_plug by (fastforce simp: fixed_def red_black_def)

lemma delete_rotate:
  assumes "balanced x" "balanced l" "balanced r" "black_height l = black_height x" "black_height r = black_height x"
    "entry_color l = TREE_RED \<or> entry_color r = TREE_RED"
  shows "c = TREE_RED \<longrightarrow> under_black ps \<Longrightarrow> frames_ok ps (Suc (black_height x) + (if c = TREE_BLACK then 1 else 0)) \<Longrightarrow>
      fixed (case if entry_color r = TREE_BLACK then rightRotate (Entry (paint TREE_BLACK l) TREE_RED k v r) else Entry l TREE_BLACK k v r of
        Nil_entry \<Rightarrow> Inl Null_pointer
      | Entry l _ k v r \<Rightarrow>
          Inr (paint TREE_BLACK (plug (leftRotate (Entry x TREE_BLACK pk pv (Entry l c k v (paint TREE_BLACK r)))) ps)))"
    "c = TREE_RED \<longrightarrow> under_black ps \<Longrightarrow> frames_ok ps (Suc (black_height x) + (if c = TREE_BLACK then 1 else 0)) \<Longrightarrow>
      fixed (case if entry_color l = TREE_BLACK then leftRotate (Entry l TREE_RED k v (paint TREE_BLACK r)) else Entry l TREE_BLACK k v r of
        Nil_entry \<Rightarrow> Inl Null_pointer
      | Entry l _ k v r \<Rightarrow>
          Inr (paint TREE_BLACK (plug (rightRotate (Entry (Entry (paint TREE_BLACK l) c k v r) TREE_BLACK pk pv x)) ps)))"
  using assms by (cases l; cases r; auto intro!: fixed_plug simp: fits_def split: if_splits)+

lemma fixed_red: "balanced (paint TREE_BLACK x) \<Longrightarrow> entry_color x = TREE_RED \<Longrightarrow> frames_ok ps (Suc (black_height x)) \<Longrightarrow> fixed (Inr (plug (paint TREE_BLACK x) ps))"
  using red_black_plug [of "paint TREE_BLACK x" ps] by (simp add: fits_def fixed_def)

definition up_measure :: "'v entry \<Rightarrow> 'v frame list \<Rightarrow> nat" where
  "up_measure x ps = 2 * length ps + (if entry_color x = TREE_BLACK then 1 else 0)"

text \<open>One iteration either repairs the tree or goes on with an entry above that has again one black entry too few.\<close>

lemma delete_iteration_left:
  assumes x: "balanced x" "entry_color x = TREE_BLACK" and ok: "frames_ok (In_left pc pk pv w # ps) (Suc (black_height x))"
  shows "fixed (deleteFixup x (In_left pc pk pv w # ps)) \<or> (\<exists>x' ps'. deleteFixup x (In_left pc pk pv w # ps) = deleteFixup x' ps'
    \<and> balanced (paint TREE_BLACK x') \<and> frames_ok ps' (Suc (black_height x')) \<and> up_measure x' ps' < up_measure x (In_left pc pk pv w # ps))"
proof -
  obtain c w' ps' where b: "black_sibling_right x pc pk pv w ps = (c, w', ps')" by (metis prod_cases3)
  have ok': "frames_ok (In_left c pk pv w' # ps') (Suc (black_height x))" "entry_color w' = TREE_BLACK"
    using black_sibling_ok(1) [OF ok b] by simp_all
  then obtain l k v r where w': "w' = Entry l TREE_BLACK k v r" "balanced l" "balanced r" "black_height l = black_height x"
      "black_height r = black_height x" by (auto elim: black_node)
  show ?thesis
  proof (cases "entry_color l = TREE_BLACK \<and> entry_color r = TREE_BLACK")
    case True
    have "up_measure (Entry x c pk pv (Entry l TREE_RED k v r)) ps' < up_measure x (In_left pc pk pv w # ps)"
      using black_sibling_cases(1) [OF b] x(2) by (auto simp: up_measure_def)
    moreover have "deleteFixup x (In_left pc pk pv w # ps) = deleteFixup (Entry x c pk pv (Entry l TREE_RED k v r)) ps'"
      using True x(2) b w'(1) by simp
    moreover have "balanced (paint TREE_BLACK (Entry x c pk pv (Entry l TREE_RED k v r)))" using True x w' by simp
    moreover have "frames_ok ps' (Suc (black_height (Entry x c pk pv (Entry l TREE_RED k v r))))" using ok'(1) by (cases c) simp_all
    ultimately show ?thesis by blast
  next
    case False
    then show ?thesis using delete_rotate(1) [OF x(1) w'(2-5), where c = c and ps = ps' and k = k and v = v and pk = pk and pv = pv] ok' x(2) b w'(1)
      by (intro disjI1) auto
  qed
qed

lemma delete_iteration_right:
  assumes x: "balanced x" "entry_color x = TREE_BLACK" and ok: "frames_ok (In_right w pc pk pv # ps) (Suc (black_height x))"
  shows "fixed (deleteFixup x (In_right w pc pk pv # ps)) \<or> (\<exists>x' ps'. deleteFixup x (In_right w pc pk pv # ps) = deleteFixup x' ps'
    \<and> balanced (paint TREE_BLACK x') \<and> frames_ok ps' (Suc (black_height x')) \<and> up_measure x' ps' < up_measure x (In_right w pc pk pv # ps))"
proof -
  obtain c w' ps' where b: "black_sibling_left w pc pk pv x ps = (c, w', ps')" by (metis prod_cases3)
  have ok': "frames_ok (In_right w' c pk pv # ps') (Suc (black_height x))" "entry_color w' = TREE_BLACK"
    using black_sibling_ok(2) [OF ok b] by simp_all
  then obtain l k v r where w': "w' = Entry l TREE_BLACK k v r" "balanced l" "balanced r" "black_height l = black_height x"
      "black_height r = black_height x" by (auto elim: black_node)
  show ?thesis
  proof (cases "entry_color r = TREE_BLACK \<and> entry_color l = TREE_BLACK")
    case True
    have "up_measure (Entry (Entry l TREE_RED k v r) c pk pv x) ps' < up_measure x (In_right w pc pk pv # ps)"
      using black_sibling_cases(2) [OF b] x(2) by (auto simp: up_measure_def)
    moreover have "deleteFixup x (In_right w pc pk pv # ps) = deleteFixup (Entry (Entry l TREE_RED k v r) c pk pv x) ps'"
      using True x(2) b w'(1) by simp
    moreover have "balanced (paint TREE_BLACK (Entry (Entry l TREE_RED k v r) c pk pv x))" using True x w' by simp
    moreover have "frames_ok ps' (Suc (black_height (Entry (Entry l TREE_RED k v r) c pk pv x)))" using ok'(1) w'(4) by (cases c) simp_all
    ultimately show ?thesis by blast
  next
    case False
    then show ?thesis using delete_rotate(2) [OF x(1) w'(2-5), where c = c and ps = ps' and k = k and v = v and pk = pk and pv = pv] ok' x(2) b w'(1)
      by (intro disjI1) auto
  qed
qed

lemma deleteFixup_balanced:
  assumes "balanced (paint TREE_BLACK x)" "frames_ok ps (Suc (black_height x))"
  shows "fixed (deleteFixup x ps)"
  using assms
proof (induction "up_measure x ps" arbitrary: x ps rule: less_induct)
  case less
  show ?case
  proof (cases ps)
    case Nil
    then show ?thesis using less.prems by (simp add: fixed_def red_black_def)
  next
    case (Cons p qs)
    show ?thesis
    proof (cases "entry_color x")
      case TREE_RED
      then show ?thesis using Cons less.prems fixed_red [OF less.prems(1) TREE_RED less.prems(2)] by (cases p) simp_all
    next
      case TREE_BLACK
      then have "balanced x" using less.prems(1) by simp
      then show ?thesis using Cons less delete_iteration_left [OF _ TREE_BLACK] delete_iteration_right [OF _ TREE_BLACK]
        by (cases p) metis+
    qed
  qed
qed

lemma fits_descend: "fits t ps \<Longrightarrow> descend key t ps = (x, qs) \<Longrightarrow> fits x qs"
proof (induction key t ps arbitrary: x qs rule: descend.induct)
  case (2 key l c k v r ps)
  have "fits l (In_left c k v r # ps)" "fits r (In_right l c k v # ps)" using 2(3) by (cases c; auto simp: fits_def)+
  then show ?case using 2 by (auto split: if_splits)
qed auto

lemma fits_leftmost: "fits t ps \<Longrightarrow> leftmost t ps = (x, qs) \<Longrightarrow> fits x qs"
proof (induction t ps arbitrary: x qs rule: leftmost.induct)
  case (3 a b d e f c k v r ps)
  have "fits (Entry a b d e f) (In_left c k v r # ps)" using 3(2) by (cases c) (auto simp: fits_def)
  then show ?case using 3 by simp
qed auto

lemma leftmost_append: "leftmost t ps = (x, qs) \<Longrightarrow> leftmost t (ps @ rs) = (x, qs @ rs)"
  by (induction t ps arbitrary: x qs rule: leftmost.induct) auto

subsection \<open>The entries in order\<close>

fun inorder :: "'v entry \<Rightarrow> (u64 \<times> 'v) list" where
  "inorder Nil_entry = []"
| "inorder (Entry l c k v r) = inorder l @ (k, v) # inorder r"

fun before :: "'v frame list \<Rightarrow> (u64 \<times> 'v) list" where
  "before [] = []"
| "before (In_left c k v r # ps) = before ps"
| "before (In_right l c k v # ps) = before ps @ inorder l @ [(k, v)]"

fun behind :: "'v frame list \<Rightarrow> (u64 \<times> 'v) list" where
  "behind [] = []"
| "behind (In_left c k v r # ps) = (k, v) # inorder r @ behind ps"
| "behind (In_right l c k v # ps) = behind ps"

lemma inorder_plug [simp]: "inorder (plug x ps) = before ps @ inorder x @ behind ps"
  by (induction x ps rule: plug.induct) simp_all

lemma traverse_inorder: "traverse t = map snd (inorder t)"
  by (induction t) simp_all

lemma inorder_rotate [simp]: "inorder (leftRotate t) = inorder t" "inorder (rightRotate t) = inorder t"
  using leftRotate.elims [of t "leftRotate t"] rightRotate.elims [of t "rightRotate t"] by fastforce+

lemma inorder_paint [simp]: "inorder (paint c t) = inorder t"
  by (cases t) simp_all

lemma inorder_paint_frame [simp]: "before (paint_frame c p # ps) = before (p # ps)" "behind (paint_frame c p # ps) = behind (p # ps)"
  by (cases p; simp)+

lemma frames_append: "before (ps @ qs) = before qs @ before ps" "behind (ps @ qs) = behind ps @ behind qs"
  by (induction ps rule: before.induct) simp_all

lemma to_child_plug: "to_left t ps = (x, qs) \<Longrightarrow> plug x qs = plug t ps" "to_right t ps = (x, qs) \<Longrightarrow> plug x qs = plug t ps"
  by (cases t; auto)+

lemma plug_Cons: "plug x (p # ps) = plug (plug x [p]) ps"
  by (cases p) simp_all

lemma inorder_insert_fixup:
  "x \<noteq> Nil_entry \<Longrightarrow> insert_fixup x ps = Inr t \<Longrightarrow> inorder t = before ps @ inorder x @ behind ps"
proof (induction "length ps" arbitrary: x ps rule: less_induct)
  case less
  consider "ps = []" | p qs where "ps = p # qs" "frame_color p = TREE_BLACK" | p where "ps = [p]" "frame_color p = TREE_RED"
    | p g qs where "ps = p # g # qs" "frame_color p = TREE_RED" by (metis color_t.exhaust list.exhaust)
  then show ?case
  proof cases
    case 1
    then show ?thesis using less.prems by auto
  next
    case 2
    then show ?thesis using less.prems by (auto simp: insert_fixup_black simp del: plug.simps)
  next
    case 3
    then show ?thesis using less.prems by simp
  next
    case 4
    obtain a c k v b where x: "x = Entry a c k v b" using less.prems(1) by (cases x) auto
    show ?thesis
    proof (cases "entry_color (sibling g)")
      case TREE_RED
      have IH: "inorder t = before qs @ inorder y @ behind qs" if "insert_fixup y qs = Inr t" "y \<noteq> Nil_entry" for y
        using less.hyps [of qs y] 4 that by simp
      show ?thesis using 4 TREE_RED less.prems(2) by (cases g; cases p) (auto simp: insert_recolor dest: IH)
    next
      case TREE_BLACK
      have IH: "inorder t = before (q # qs) @ inorder y @ behind (q # qs)" if "insert_fixup y (q # qs) = Inr t" "y \<noteq> Nil_entry" for y q
        using less.hyps [of "q # qs" y] 4 that by simp
      show ?thesis using TREE_BLACK 4 less.prems(2) unfolding x by (cases g; cases p) (auto simp: insert_rotate dest: IH)
    qed
  qed
qed

lemma inorder_black_sibling:
  "black_sibling_right x pc pk pv w ps = (c, w', ps') \<Longrightarrow> before ps' @ inorder x @ (pk, pv) # inorder w' @ behind ps'
      = before ps @ inorder x @ (pk, pv) # inorder w @ behind ps"
  "black_sibling_left w pc pk pv x ps = (c, w', ps') \<Longrightarrow> before ps' @ inorder w' @ (pk, pv) # inorder x @ behind ps'
      = before ps @ inorder w @ (pk, pv) # inorder x @ behind ps"
  by (cases w; auto simp: black_sibling_right_def black_sibling_left_def split: if_splits)+

lemma inorder_delete_rotate:
  "(case rightRotate (Entry (paint TREE_BLACK l) TREE_RED k v r) of
      Nil_entry \<Rightarrow> Inl Null_pointer
    | Entry l _ k v r \<Rightarrow>
        Inr (paint TREE_BLACK (plug (leftRotate (Entry x TREE_BLACK pk pv (Entry l c k v (paint TREE_BLACK r)))) ps))) = Inr t
    \<Longrightarrow> inorder t = before ps @ inorder x @ (pk, pv) # inorder l @ (k, v) # inorder r @ behind ps"
  "(case leftRotate (Entry l TREE_RED k v (paint TREE_BLACK r)) of
      Nil_entry \<Rightarrow> Inl Null_pointer
    | Entry l _ k v r \<Rightarrow>
        Inr (paint TREE_BLACK (plug (rightRotate (Entry (Entry (paint TREE_BLACK l) c k v r) TREE_BLACK pk pv x)) ps))) = Inr t
    \<Longrightarrow> inorder t = before ps @ inorder l @ (k, v) # inorder r @ (pk, pv) # inorder x @ behind ps"
  by (cases l; cases r; auto split: if_splits)+

lemma inorder_deleteFixup: "deleteFixup x ps = Inr t \<Longrightarrow> inorder t = before ps @ inorder x @ behind ps"
proof (induction "up_measure x ps" arbitrary: x ps rule: less_induct)
  case less
  consider "ps = []" | pc pk pv w qs where "ps = In_left pc pk pv w # qs" | w pc pk pv qs where "ps = In_right w pc pk pv # qs"
    by (cases ps rule: before.cases) auto
  then show ?case
  proof cases
    case 1
    then show ?thesis using less.prems by auto
  next
    case (2 pc pk pv w qs)
    obtain c w' ps' where b: "black_sibling_right x pc pk pv w qs = (c, w', ps')" by (metis prod_cases3)
    show ?thesis
    proof (cases "entry_color x = TREE_RED")
      case True
      then show ?thesis using 2 less.prems by auto
    next
      case False
      have IH: "inorder t = before ps' @ inorder y @ behind ps'" if "deleteFixup y ps' = Inr t" "entry_color y = c" for y
        using less.hyps [of y ps'] that False 2 black_sibling_cases(1) [OF b] by (auto simp: up_measure_def)
      show ?thesis using less.prems False 2 b inorder_black_sibling(1) [OF b]
        by (cases w') (auto split: if_splits dest: inorder_delete_rotate(1) IH)
    qed
  next
    case (3 w pc pk pv qs)
    obtain c w' ps' where b: "black_sibling_left w pc pk pv x qs = (c, w', ps')" by (metis prod_cases3)
    show ?thesis
    proof (cases "entry_color x = TREE_RED")
      case True
      then show ?thesis using 3 less.prems by auto
    next
      case False
      have IH: "inorder t = before ps' @ inorder y @ behind ps'" if "deleteFixup y ps' = Inr t" "entry_color y = c" for y
        using less.hyps [of y ps'] that False 3 black_sibling_cases(2) [OF b] by (auto simp: up_measure_def)
      show ?thesis using less.prems False 3 b inorder_black_sibling(2) [OF b]
        by (cases w') (auto split: if_splits dest: inorder_delete_rotate(2) IH)
    qed
  qed
qed

subsection \<open>The tree as a map from addresses\<close>

abbreviation keys_sorted :: "(u64 \<times> 'v) list \<Rightarrow> bool" where
  "keys_sorted xs \<equiv> sorted_wrt (<) (map fst xs)"

definition range_map :: "'v codeRangeTree \<Rightarrow> u64 \<rightharpoonup> 'v" where
  "range_map t = map_of (inorder (setData t))"

definition tree_ok :: "'a codeRange_scheme codeRangeTree \<Rightarrow> bool" where
  "tree_ok t \<longleftrightarrow> red_black (setData t) \<and> keys_sorted (inorder (setData t)) \<and> setSize t = int (length (inorder (setData t)))
     \<and> (\<forall>(k, v) \<in> set (inorder (setData t)). get_address v = k)"

lemma descend_plug: "descend key t ps = (x, qs) \<Longrightarrow> plug x qs = plug t ps"
  by (induction key t ps arbitrary: x qs rule: descend.induct) (auto split: if_splits)

lemma leftmost_plug: "leftmost t ps = (x, qs) \<Longrightarrow> plug x qs = plug t ps"
  by (induction t ps arbitrary: x qs rule: leftmost.induct) auto

lemma leftmost_shape: "leftmost t ps = (x, qs) \<Longrightarrow> t \<noteq> Nil_entry \<Longrightarrow> before ps = [] \<Longrightarrow> before qs = [] \<and> (\<exists>c k v r. x = Entry Nil_entry c k v r)"
  by (induction t ps arbitrary: x qs rule: leftmost.induct) auto

lemma keys_sorted_append [simp]:
  "keys_sorted (xs @ ys) \<longleftrightarrow> keys_sorted xs \<and> keys_sorted ys \<and> (\<forall>a \<in> set xs. \<forall>b \<in> set ys. fst a < fst b)"
  by (auto simp: sorted_wrt_append)

lemma descend_sides:
  assumes "keys_sorted (inorder t)" "\<forall>a \<in> set (before ps). fst a < key" "\<forall>b \<in> set (behind ps). key < fst b" "descend key t ps = (x, qs)"
  shows "(\<forall>a \<in> set (before qs). fst a < key) \<and> (\<forall>b \<in> set (behind qs). key < fst b) \<and> (x = Nil_entry \<or> (\<exists>l c v r. x = Entry l c key v r))"
  using assms
proof (induction key t ps arbitrary: x qs rule: descend.induct)
  case (2 key l c k v r ps)
  have "keys_sorted (inorder l)" "keys_sorted (inorder r)" "\<forall>a \<in> set (inorder l). fst a < k" "\<forall>b \<in> set (inorder r). k < fst b"
    using 2(3) by (simp_all add: sorted_wrt_append)
  note sides = this
  consider "key < k" | "k < key" | "k = key" by fastforce
  then show ?case
  proof cases
    case 1
    then have h: "\<forall>b \<in> set (behind (In_left c k v r # ps)). key < fst b" using 2(5) sides by (auto intro: less_trans)
    have b: "\<forall>a \<in> set (before (In_left c k v r # ps)). fst a < key" using 2(4) by simp
    have "descend key l (In_left c k v r # ps) = (x, qs)" using 1 2(6) by simp
    then show ?thesis by (rule 2(1) [OF 1 sides(1) b h])
  next
    case 2
    then have b: "\<forall>a \<in> set (before (In_right l c k v # ps)). fst a < key" using "2.prems"(2) sides by (auto intro: less_trans)
    have h: "\<forall>b \<in> set (behind (In_right l c k v # ps)). key < fst b" using "2.prems"(3) by simp
    have n: "\<not> key < k" using 2 by simp
    have d: "descend key r (In_right l c k v # ps) = (x, qs)" using n 2 "2.prems"(4) by simp
    show ?thesis by (rule "2.IH"(2) [OF n 2 sides(2) b h d])
  next
    case 3
    then show ?thesis using "2.prems"(2-) by auto
  qed
qed auto

lemma map_of_between:
  assumes "\<forall>a \<in> set xs. fst a < (key :: u64)" "\<forall>b \<in> set ys. key < fst b"
  shows "map_of (xs @ (key, v) # ys) = (map_of (xs @ ys))(key \<mapsto> v)" "map_of (xs @ ys) key = None"
    "map_of (xs @ (key, w) # ys) = (map_of (xs @ ys))(key \<mapsto> w)"
proof -
  have none: "map_of xs key = None" "map_of ys key = None" using assms by (force simp: map_of_eq_None_iff)+
  then show "map_of (xs @ ys) key = None" by (simp add: map_add_def)
  show "map_of (xs @ (key, v) # ys) = (map_of (xs @ ys))(key \<mapsto> v)" for v
    using none by (auto simp: map_add_def fun_eq_iff split: option.split)
  then show "map_of (xs @ (key, w) # ys) = (map_of (xs @ ys))(key \<mapsto> w)" .
qed

text \<open>Where the search for an address ends in a good tree: at the entry with that address, between the lower and the higher ones, or at
  the place where it belongs.\<close>

lemma descend_absent:
  assumes t: "keys_sorted (inorder t)" "red_black t" and d: "descend key t [] = (Nil_entry, ps)"
  shows "frames_ok ps 0" "inorder t = before ps @ behind ps" "\<forall>a \<in> set (before ps). fst a < key" "\<forall>b \<in> set (behind ps). key < fst b"
  using fits_descend [OF _ d] t descend_plug [OF d, THEN arg_cong [of _ _ inorder]] descend_sides [OF t(1) _ _ d]
  by (simp_all add: fits_def red_black_def)

lemma descend_present:
  assumes t: "keys_sorted (inorder t)" "red_black t" and d: "descend key t [] = (Entry l c k v r, ps)"
  shows "k = key" "fits (Entry l c k v r) ps" "inorder t = (before ps @ inorder l) @ (key, v) # (inorder r @ behind ps)"
    "\<forall>a \<in> set (before ps @ inorder l). fst a < key" "\<forall>b \<in> set (inorder r @ behind ps). key < fst b"
proof -
  have "fits t []" using t(2) by (simp add: fits_def red_black_def)
  then show "fits (Entry l c k v r) ps" using fits_descend [OF _ d] by blast
  show k: "k = key" using descend_sides [OF t(1) _ _ d] by simp
  show p: "inorder t = (before ps @ inorder l) @ (key, v) # (inorder r @ behind ps)"
    using descend_plug [OF d, THEN arg_cong [of _ _ inorder]] k by simp
  show "\<forall>a \<in> set (before ps @ inorder l). fst a < key" "\<forall>b \<in> set (inorder r @ behind ps). key < fst b"
    using t(1) unfolding p by (auto simp: sorted_wrt_append)
qed

lemma find_internal_map:
  assumes "keys_sorted (inorder t)" "red_black t"
  shows "find_internal key t = map_of (inorder t) key"
proof -
  obtain x ps where d: "descend key t [] = (x, ps)" by fastforce
  show ?thesis
  proof (cases x)
    case Nil_entry
    show ?thesis using d map_of_between(2) [OF descend_absent(3,4) [OF assms d [unfolded Nil_entry]]]
        descend_absent(2) [OF assms d [unfolded Nil_entry]] by (simp add: find_internal_def Nil_entry map_add_def)
  next
    case (Entry l c k v r)
    note p = descend_present [OF assms d [unfolded Entry]]
    show ?thesis using d map_of_between(1) [OF p(4,5), of v] unfolding p(3) by (simp add: find_internal_def Entry)
  qed
qed

lemma tree_okI:
  assumes "red_black r" "inorder r = xs @ (get_address rg, rg) # ys" "keys_sorted (xs @ ys)" "\<forall>(k, v) \<in> set (xs @ ys). get_address v = k"
    "\<forall>a \<in> set xs. fst a < get_address rg" "\<forall>b \<in> set ys. get_address rg < fst b" "n = int (length (xs @ ys)) + 1"
  shows "tree_ok (t\<lparr>setData := r, setSize := n\<rparr>)"
  using assms by (auto simp: tree_ok_def sorted_wrt_append)

lemma insert_range_map:
  assumes "tree_ok t"
  shows "\<exists>t'. insert_range rg t = Inr t' \<and> tree_ok t' \<and> range_map t' = (range_map t)(get_address rg \<mapsto> rg)"
proof -
  let ?key = "get_address rg"
  obtain x ps where d: "descend ?key (setData t) [] = (x, ps)" by fastforce
  have t: "keys_sorted (inorder (setData t))" "red_black (setData t)" using assms by (simp_all add: tree_ok_def)
  show ?thesis
  proof (cases x)
    case Nil_entry
    let ?z = "Entry Nil_entry TREE_RED ?key rg Nil_entry"
    note p = descend_absent [OF t d [unfolded Nil_entry]]
    obtain r where r: "insert_fixup ?z ps = Inr r" "red_black r" using insert_fixup_balanced [of ?z ps] p(1) by auto
    have i: "inorder r = before ps @ (?key, rg) # behind ps" using inorder_insert_fixup [OF _ r(1)] by simp
    have "insert_range rg t = Inr (t\<lparr>setData := r, setSize := setSize t + 1\<rparr>)"
      using d r(1) Nil_entry by (simp add: insert_range_def treeInsert_def Let_def)
    moreover have "tree_ok (t\<lparr>setData := r, setSize := setSize t + 1\<rparr>)"
      using assms p by (intro tree_okI [OF r(2) i]) (auto simp: tree_ok_def)
    ultimately show ?thesis using i p(2) map_of_between(1) [OF p(3,4), of rg] by (auto simp: range_map_def)
  next
    case (Entry l c k v r)
    note p = descend_present [OF t d [unfolded Entry]]
    let ?r = "plug (Entry l c k rg r) ps"
    have r: "red_black ?r" using p(2) by (intro red_black_plug) (auto simp: fits_def)
    have i: "inorder ?r = (before ps @ inorder l) @ (?key, rg) # (inorder r @ behind ps)" using p(1) by simp
    have "keys_sorted (inorder ?r)" using t(1) unfolding p(3) i by simp
    then have "find_internal ?key ?r = Some rg"
      using find_internal_map [OF _ r] i map_of_between(1) [OF p(4,5), of rg] by simp
    then have "insert_range rg t = Inr (t\<lparr>setData := ?r, setSize := setSize t\<rparr>)"
      using d Entry by (simp add: insert_range_def treeInsert_def)
    moreover have "tree_ok (t\<lparr>setData := ?r, setSize := setSize t\<rparr>)"
      using assms p by (intro tree_okI [OF r i]) (auto simp: tree_ok_def sorted_wrt_append)
    ultimately show ?thesis
      using i p(3) map_of_between(1) [OF p(4,5)] by (auto simp: range_map_def simp del: inorder_plug)
  qed
qed

lemma frames_ok_key: "frames_ok (qs @ In_right l c k v # ps) h \<longleftrightarrow> frames_ok (qs @ In_right l c k' v' # ps) h"
proof (induction qs arbitrary: h)
  case (Cons q qs)
  moreover have "under_black (qs @ In_right l c k v # ps) \<longleftrightarrow> under_black (qs @ In_right l c k' v' # ps)" by (cases qs) simp_all
  ultimately show ?case by (simp only: append_Cons frames_ok.simps)
qed simp

lemma fits_key:
  assumes "fits y (qs @ In_right l c k v # ps)"
  shows "fits y (qs @ In_right l c k' v' # ps)"
proof -
  have "under_black (qs @ In_right l c k v # ps) = under_black (qs @ In_right l c k' v' # ps)" by (cases qs) simp_all
  then show ?thesis using assms frames_ok_key [of qs l c k v ps "black_height y" k' v'] unfolding fits_def by blast
qed

text \<open>An entry with one child at most is taken out.\<close>

lemma splice_out_one:
  assumes fit: "fits (Entry l c k v r) ps" and x: "l = Nil_entry \<and> x = r \<or> r = Nil_entry \<and> x = l"
  shows "\<exists>t. splice_out c x ps = Inr t \<and> red_black t \<and> inorder t = before ps @ inorder x @ behind ps"
proof (cases c)
  case TREE_BLACK
  have "fixed (deleteFixup x ps)"
    using fit x TREE_BLACK by (intro deleteFixup_balanced) (auto simp: fits_def)
  then show ?thesis using TREE_BLACK inorder_deleteFixup by (fastforce simp: splice_out_def fixed_def)
next
  case TREE_RED
  have "fits x ps" using fit x TREE_RED by (auto simp: fits_def)
  then show ?thesis using TREE_RED red_black_plug [of x ps] by (simp add: splice_out_def)
qed

lemma splice_out_two:
  assumes fit: "fits (Entry zl zc zk zv zr) ps" and zr: "zr \<noteq> Nil_entry"
  obtains yc yk yv yr qs t where "leftmost zr [] = (Entry Nil_entry yc yk yv yr, qs)"
    "splice_out yc yr (qs @ In_right zl zc yk yv # ps) = Inr t" "red_black t" "inorder t = before ps @ inorder zl @ inorder zr @ behind ps"
proof -
  obtain y qs where y: "leftmost zr [] = (y, qs)" by fastforce
  obtain yc yk yv yr where e: "y = Entry Nil_entry yc yk yv yr" "before qs = []" using leftmost_shape [OF y zr] by auto
  have "fits zr (In_right zl zc zk zv # ps)" using fit by (cases zc) (auto simp: fits_def)
  from fits_leftmost [OF this leftmost_append [OF y, of "In_right zl zc zk zv # ps", simplified]]
  have "fits y (qs @ In_right zl zc zk zv # ps)" .
  then have "fits (Entry Nil_entry yc yk yv yr) (qs @ In_right zl zc yk yv # ps)" unfolding e(1) by (rule fits_key)
  then obtain t where t: "splice_out yc yr (qs @ In_right zl zc yk yv # ps) = Inr t" "red_black t"
      "inorder t = before (qs @ In_right zl zc yk yv # ps) @ inorder yr @ behind (qs @ In_right zl zc yk yv # ps)"
    using splice_out_one [of Nil_entry yc yk yv yr _ yr] by blast
  moreover have "inorder zr = (yk, yv) # inorder yr @ behind qs"
    using leftmost_plug [OF y, THEN arg_cong [of _ _ inorder]] e by simp
  ultimately show thesis using that [of yc yk yv yr qs t] y e by (simp add: frames_append)
qed

lemma remove_range_map:
  assumes "tree_ok t"
  shows "\<exists>t'. remove_range key t = Inr t' \<and> tree_ok t' \<and> range_map t' = (range_map t)(key := None)"
proof -
  obtain x ps where d: "descend key (setData t) [] = (x, ps)" by fastforce
  have t: "keys_sorted (inorder (setData t))" "red_black (setData t)" using assms by (simp_all add: tree_ok_def)
  show ?thesis
  proof (cases x)
    case Nil_entry
    note p = descend_absent [OF t d [unfolded Nil_entry]]
    have "range_map t key = None" using map_of_between(2) [OF p(3,4)] p(2) by (simp only: range_map_def)
    then show ?thesis using assms d Nil_entry by (simp add: remove_range_def fun_upd_idem)
  next
    case (Entry l c k v r)
    note p = descend_present [OF t d [unfolded Entry]]
    obtain q where q: "remove_range key t = Inr (t\<lparr>setData := q, setSize := setSize t - 1\<rparr>)" "red_black q"
      "inorder q = (before ps @ inorder l) @ (inorder r @ behind ps)"
    proof (cases "l = Nil_entry \<or> r = Nil_entry")
      case True
      then show ?thesis using d Entry p(2) that splice_out_one [of l c k v r ps "if l = Nil_entry then r else l"]
        by (cases l; cases r) (auto simp: remove_range_def)
    next
      case False
      then show ?thesis using d Entry that
        by (cases l; cases r) (auto simp: remove_range_def intro: splice_out_two [OF p(2)])
    qed
    have "map_of (inorder (setData t)) = (map_of (inorder q))(key \<mapsto> v)" "map_of (inorder q) key = None"
      using map_of_between(1) [OF p(4,5), of v] map_of_between(2) [OF p(4,5)] unfolding p(3) q(3) by simp_all
    then have "range_map (t\<lparr>setData := q, setSize := setSize t - 1\<rparr>) = (range_map t)(key := None)"
      by (auto simp: range_map_def fun_eq_iff)
    moreover have "tree_ok (t\<lparr>setData := q, setSize := setSize t - 1\<rparr>)"
      using assms q(2,3) p(3) by (auto simp: tree_ok_def sorted_wrt_append)
    ultimately show ?thesis using q(1) by blast
  qed
qed

subsection \<open>What a lookup finds\<close>

definition nearest_below :: "(u64 \<times> 'v) set \<Rightarrow> u64 \<Rightarrow> u64 \<times> 'v \<Rightarrow> bool" where
  "nearest_below S key e \<longleftrightarrow> e \<in> S \<and> fst e \<le> key \<and> (\<forall>e' \<in> S. fst e' \<le> key \<longrightarrow> fst e' \<le> fst e)"

lemma keys_sorted_Entry: "keys_sorted (inorder (Entry l c k v r)) \<longleftrightarrow> keys_sorted (inorder l) \<and> keys_sorted (inorder r)
    \<and> (\<forall>a \<in> set (inorder l). fst a < k) \<and> (\<forall>b \<in> set (inorder r). k < fst b)"
  by (auto simp: sorted_wrt_append intro: less_trans)

lemma nearest_below_left:
  assumes "key < k" "\<forall>b \<in> R. k < fst b"
  shows "nearest_below (insert (k, w) (L \<union> R)) key e \<longleftrightarrow> nearest_below L key e"
proof -
  have "\<forall>e' \<in> insert (k, w) R. \<not> fst e' \<le> key" using assms by fastforce
  then show ?thesis unfolding nearest_below_def by blast
qed

lemma nearest_below_right:
  assumes "k < key" "\<forall>a \<in> L. fst a < k" "\<forall>b \<in> R. k < fst b"
  shows "nearest_below (insert (k, w) (L \<union> R)) key e \<longleftrightarrow> nearest_below R key e \<or> (\<forall>b \<in> R. key < fst b) \<and> e = (k, w)"
proof (cases "\<exists>b \<in> R. fst b \<le> key")
  case True
  then obtain b where b: "b \<in> R" "fst b \<le> key" "k < fst b" using assms by blast
  have low: "\<forall>e' \<in> insert (k, w) L. fst e' < fst b" using assms b(3) by (auto intro: less_trans)
  have "nearest_below (insert (k, w) (L \<union> R)) key e \<longleftrightarrow> nearest_below R key e"
  proof
    assume n: "nearest_below (insert (k, w) (L \<union> R)) key e"
    then have "fst b \<le> fst e" using b unfolding nearest_below_def by blast
    then have "e \<notin> insert (k, w) L" using low by fastforce
    then show "nearest_below R key e" using n unfolding nearest_below_def by blast
  next
    assume n: "nearest_below R key e"
    then have "fst b \<le> fst e" using b unfolding nearest_below_def by blast
    then have "\<forall>e' \<in> insert (k, w) L. fst e' \<le> fst e" using low by fastforce
    then show "nearest_below (insert (k, w) (L \<union> R)) key e" using n unfolding nearest_below_def by blast
  qed
  then show ?thesis using b by fastforce
next
  case False
  then have "\<not> nearest_below R key e" "\<forall>b \<in> R. key < fst b" by (auto simp: nearest_below_def not_le)
  moreover have "nearest_below (insert (k, w) (L \<union> R)) key e \<longleftrightarrow> e = (k, w)"
    using False assms by (fastforce simp: nearest_below_def)
  ultimately show ?thesis by simp
qed

lemma nearest_below_here: "nearest_below (insert (key, w) S) key (k, v) \<Longrightarrow> k = key"
  by (auto simp: nearest_below_def intro: antisym)

lemma precessor_loop_nearest:
  "keys_sorted (inorder t) \<Longrightarrow> precessor_loop key t p = Some v \<longleftrightarrow>
     (\<exists>k. nearest_below (set (inorder t)) key (k, v)) \<or> (\<forall>e \<in> set (inorder t). key < fst e) \<and> p = Some v"
proof (induction key t p rule: precessor_loop.induct)
  case (2 key l c k w r p)
  let ?L = "set (inorder l)" and ?R = "set (inorder r)"
  have s: "keys_sorted (inorder l)" "keys_sorted (inorder r)" "\<forall>a \<in> ?L. fst a < k" "\<forall>b \<in> ?R. k < fst b"
    using 2(3) [unfolded keys_sorted_Entry] by simp_all
  have S: "set (inorder (Entry l c k w r)) = insert (k, w) (?L \<union> ?R)" by auto
  consider "k = key" | "key < k" | "k < key" by fastforce
  then show ?case
  proof cases
    case 1
    have "nearest_below (insert (k, w) (?L \<union> ?R)) key (k', v) \<longleftrightarrow> k' = key \<and> v = w" for k'
      using nearest_below_here [of key w _ k' v] 1 s(3,4) by (fastforce simp: nearest_below_def)
    then show ?thesis unfolding S using 1 by auto
  next
    case 2
    have "(\<forall>e \<in> insert (k, w) (?L \<union> ?R). key < fst e) \<longleftrightarrow> (\<forall>e \<in> ?L. key < fst e)" using 2 s(4) by (auto intro: less_trans)
    moreover have "k \<noteq> key" using 2 by simp
    ultimately show ?thesis unfolding S nearest_below_left [OF 2 s(4)] using 2 "2.IH"(1) s(1) by simp
  next
    case 3
    then have n: "k \<noteq> key" "\<not> key < k" by auto
    show ?thesis unfolding S nearest_below_right [OF 3 s(3,4)] using n 3 "2.IH"(2) [OF n s(2)] by auto
  qed
qed (simp add: nearest_below_def)

definition covers :: "'a codeRange_scheme \<Rightarrow> u64 \<Rightarrow> bool" where
  "covers rg key \<longleftrightarrow> get_address rg \<le> key \<and> (if get_size rg = 0 then key = get_address rg else key < range_end rg)"

lemma find_range_nearest:
  assumes "keys_sorted (inorder t)"
  shows "find_range key t = Some rg \<longleftrightarrow> (\<exists>k. nearest_below (set (inorder t)) key (k, rg)) \<and> covers rg key"
proof -
  have p: "precessor key t = Some v \<longleftrightarrow> (\<exists>k. nearest_below (set (inorder t)) key (k, v))" for v
    using precessor_loop_nearest [OF assms, of key None v] by (simp add: precessor_def)
  show ?thesis unfolding p [symmetric]
    by (auto simp: find_range_def covers_def not_less not_le split: option.splits if_splits)
qed

lemma successor_first:
  "keys_sorted (inorder t) \<Longrightarrow> successor_loop key t p = (case find (\<lambda>e. key \<le> fst e) (inorder t) of None \<Rightarrow> p | Some e \<Rightarrow> Some (snd e))"
proof (induction key t p rule: successor_loop.induct)
  case (2 key l c k v r p)
  have app: "find P (xs @ ys) = (case find P xs of None \<Rightarrow> find P ys | Some e \<Rightarrow> Some e)" for P and xs ys :: "(u64 \<times> 'a) list"
    by (induction xs) auto
  have s: "keys_sorted (inorder l)" "keys_sorted (inorder r)" "\<forall>a \<in> set (inorder l). fst a < k"
    using 2(3) [unfolded keys_sorted_Entry] by simp_all
  have low: "find (\<lambda>e. key \<le> fst e) (inorder l) = None" if "k \<le> key"
    using that s(3) by (auto simp: find_None_iff dest!: bspec)
  consider "k = key" | "k < key" | "key < k" by fastforce
  then show ?case
  proof cases
    case 1
    then show ?thesis using low by (simp add: app)
  next
    case 2
    then have n: "k \<noteq> key" "k \<le> key" "\<not> key \<le> k" by auto
    then show ?thesis using 2 "2.IH"(1) [OF n(1) 2 s(2)] low by (simp add: app)
  next
    case 3
    then have n: "k \<noteq> key" "\<not> k < key" "key \<le> k" by auto
    then show ?thesis using 3 "2.IH"(2) [OF n(1,2) s(1)] by (simp add: app split: option.split)
  qed
qed simp

subsection \<open>What the users of the tree rely on\<close>

text \<open>Ranges that contain their own address and share no address.\<close>

definition disjoint_ranges :: "(u64 \<rightharpoonup> 'a codeRange_scheme) \<Rightarrow> bool" where
  "disjoint_ranges m \<longleftrightarrow> (\<forall>x \<in> ran m. covers x (get_address x))
     \<and> (\<forall>x \<in> ran m. \<forall>y \<in> ran m. \<forall>key. covers x key \<and> covers y key \<longrightarrow> x = y)"

locale range_index =
  fixes ok :: "'t \<Rightarrow> bool"
    and ranges :: "'t \<Rightarrow> u64 \<rightharpoonup> 'a codeRange_scheme"
    and ins :: "'a codeRange_scheme \<Rightarrow> 't \<Rightarrow> fault + 't"
    and rem :: "u64 \<Rightarrow> 't \<Rightarrow> fault + 't"
    and lookup :: "u64 \<Rightarrow> 't \<Rightarrow> 'a codeRange_scheme option"
  assumes ins: "ok t \<Longrightarrow> \<exists>t'. ins rg t = Inr t' \<and> ok t' \<and> ranges t' = (ranges t)(get_address rg \<mapsto> rg)"
    and rem: "ok t \<Longrightarrow> \<exists>t'. rem key t = Inr t' \<and> ok t' \<and> ranges t' = (ranges t)(key := None)"
    and own_address: "ok t \<Longrightarrow> ranges t k = Some rg \<Longrightarrow> get_address rg = k"
    and lookup: "ok t \<Longrightarrow> lookup key t = Some rg
      \<longleftrightarrow> (\<exists>k. nearest_below {(k, v). ranges t k = Some v} key (k, rg)) \<and> covers rg key"
begin

lemma lookup_covering:
  assumes ok: "ok t" and disj: "disjoint_ranges (ranges t)"
  shows "lookup key t = Some rg \<longleftrightarrow> ranges t (get_address rg) = Some rg \<and> covers rg key"
proof
  assume "lookup key t = Some rg"
  then show "ranges t (get_address rg) = Some rg \<and> covers rg key"
    using lookup [OF ok] own_address [OF ok] by (auto simp: nearest_below_def)
next
  assume rg: "ranges t (get_address rg) = Some rg \<and> covers rg key"
  have "k \<le> get_address rg" if k: "ranges t k = Some v" "k \<le> key" for k v
  proof (rule ccontr)
    assume "\<not> k \<le> get_address rg"
    then have "covers rg k" using rg k(2) by (auto simp: covers_def intro: le_less_trans split: if_splits)
    moreover have "covers v k" "v \<in> ran (ranges t)" "rg \<in> ran (ranges t)"
      using disj k(1) rg own_address [OF ok k(1)] by (auto simp: disjoint_ranges_def ran_def)
    ultimately have "v = rg" using disj by (auto simp: disjoint_ranges_def)
    then show False using \<open>\<not> k \<le> get_address rg\<close> own_address [OF ok k(1)] by simp
  qed
  then have "nearest_below {(k, v). ranges t k = Some v} key (get_address rg, rg)"
    using rg by (auto simp: nearest_below_def covers_def)
  then show "lookup key t = Some rg" using lookup [OF ok] rg by blast
qed

lemma lookup_none:
  assumes "ok t" "disjoint_ranges (ranges t)"
  shows "lookup key t = None \<longleftrightarrow> (\<forall>rg \<in> ran (ranges t). \<not> covers rg key)"
proof -
  have "rg \<in> ran (ranges t) \<longleftrightarrow> ranges t (get_address rg) = Some rg" for rg
    using own_address [OF assms(1)] by (auto simp: ran_def)
  then show ?thesis using lookup_covering [OF assms, of key] by (metis not_Some_eq)
qed

end

interpretation tracker: range_index tree_ok range_map insert_range remove_range "\<lambda>key t. find_range key (setData t)"
proof
  fix t :: "'a codeRange_scheme codeRangeTree" and rg key k
  assume ok: "tree_ok t"
  show "\<exists>t'. insert_range rg t = Inr t' \<and> tree_ok t' \<and> range_map t' = (range_map t)(get_address rg \<mapsto> rg)"
    using insert_range_map [OF ok] .
  show "\<exists>t'. remove_range key t = Inr t' \<and> tree_ok t' \<and> range_map t' = (range_map t)(key := None)"
    using remove_range_map [OF ok] .
  show "range_map t k = Some rg \<Longrightarrow> get_address rg = k"
    using ok by (auto simp: range_map_def tree_ok_def dest!: map_of_SomeD)
  have "distinct (map fst (inorder (setData t)))" using ok by (simp add: tree_ok_def strict_sorted_iff)
  then have "{(k, v). range_map t k = Some v} = set (inorder (setData t))" by (auto simp: range_map_def)
  then show "find_range key (setData t) = Some rg
      \<longleftrightarrow> (\<exists>k. nearest_below {(k, v). range_map t k = Some v} key (k, rg)) \<and> covers rg key"
    using find_range_nearest [of "setData t" key rg] ok by (simp add: tree_ok_def)
qed

subsection \<open>A tree under any sequence of insertions and removals\<close>

datatype 'a range_op = Insert "'a codeRange_scheme" | Remove u64

fun range_run :: "'a range_op list \<Rightarrow> 'a codeRange_scheme codeRangeTree \<Rightarrow> fault + 'a codeRange_scheme codeRangeTree" where
  "range_run [] t = Inr t"
| "range_run (Insert rg # ops) t = and_then (insert_range rg t) (range_run ops)"
| "range_run (Remove key # ops) t = and_then (remove_range key t) (range_run ops)"

fun map_run :: "'a range_op list \<Rightarrow> (u64 \<rightharpoonup> 'a codeRange_scheme) \<Rightarrow> u64 \<rightharpoonup> 'a codeRange_scheme" where
  "map_run [] m = m"
| "map_run (Insert rg # ops) m = map_run ops (m(get_address rg \<mapsto> rg))"
| "map_run (Remove key # ops) m = map_run ops (m(key := None))"

lemma range_run_map: "tree_ok t \<Longrightarrow> \<exists>t'. range_run ops t = Inr t' \<and> tree_ok t' \<and> range_map t' = map_run ops (range_map t)"
proof (induction ops t rule: range_run.induct)
  case (2 rg ops t)
  obtain u where "insert_range rg t = Inr u" "tree_ok u" "range_map u = (range_map t)(get_address rg \<mapsto> rg)"
    using tracker.ins [OF 2(2), of rg] by auto
  then show ?case using 2(1) [of u] by (metis and_then.simps(2) map_run.simps(2) range_run.simps(2))
next
  case (3 key ops t)
  obtain u where "remove_range key t = Inr u" "tree_ok u" "range_map u = (range_map t)(key := None)"
    using tracker.rem [OF 3(2), of key] by auto
  then show ?case using 3(1) [of u] by (metis and_then.simps(2) map_run.simps(3) range_run.simps(3))
qed simp

fun tree_height :: "'v entry \<Rightarrow> nat" where
  "tree_height Nil_entry = 0"
| "tree_height (Entry l c k v r) = Suc (max (tree_height l) (tree_height r))"

lemma balanced_height: "balanced t \<Longrightarrow> tree_height t \<le> 2 * black_height t + (if entry_color t = TREE_RED then 1 else 0)"
  by (induction t) (auto split: if_splits)

lemma balanced_length: "balanced t \<Longrightarrow> 2 ^ black_height t \<le> Suc (length (inorder t))"
  by (induction t) (auto split: if_splits)

lemma red_black_height:
  assumes "red_black t"
  shows "2 ^ (tree_height t div 2) \<le> Suc (length (inorder t))"
proof -
  have "tree_height t div 2 \<le> black_height t" using balanced_height [of t] assms by (auto simp: red_black_def)
  then have "(2 :: nat) ^ (tree_height t div 2) \<le> 2 ^ black_height t" by (rule power_increasing) simp
  also have "\<dots> \<le> Suc (length (inorder t))" using balanced_length [of t] assms by (simp add: red_black_def)
  finally show ?thesis .
qed

text \<open>C20: Whatever is inserted and removed, in whatever order, no pointer of the sentinel is followed and no assertion fails, and the tree
  holds what a map from addresses would hold; its height stays logarithmic in the number of its entries, and a search for an address returns the range
  that covers it, and nothing else, as long as the ranges are disjoint.\<close>

theorem range_tree_refines:
  fixes ops :: "'a range_op list"
  shows "\<exists>t. range_run ops new_tree = Inr t \<and> range_map t = map_run ops Map.empty
     \<and> 2 ^ (tree_height (setData t) div 2) \<le> nat (setSize t) + 1
     \<and> (disjoint_ranges (map_run ops Map.empty) \<longrightarrow>
        (\<forall>key rg. find_range key (setData t) = Some rg \<longleftrightarrow> rg \<in> ran (map_run ops Map.empty) \<and> covers rg key))"
proof -
  let ?new = "new_tree :: 'a codeRange_scheme codeRangeTree"
  have "tree_ok ?new" "range_map ?new = Map.empty" by (simp_all add: tree_ok_def new_tree_def red_black_def range_map_def)
  then obtain t where t: "range_run ops new_tree = Inr t" "tree_ok t" "range_map t = map_run ops Map.empty"
    using range_run_map [of ?new ops] by auto
  have "rg \<in> ran (range_map t) \<longleftrightarrow> range_map t (get_address rg) = Some rg" for rg
    using tracker.own_address [OF t(2)] by (auto simp: ran_def)
  then show ?thesis
    using t tracker.lookup_covering [OF t(2)] red_black_height [of "setData t"] by (auto simp: tree_ok_def)
qed

definition some_ranges :: "unit range_op list" where
  "some_ranges = [Insert \<lparr>get_address = 0x1000, get_size = 16\<rparr>, Insert \<lparr>get_address = 0x2000, get_size = 8\<rparr>,
     Insert \<lparr>get_address = 0x3000, get_size = 32\<rparr>, Remove 0x2000]"

lemma some_ranges_map: "map_run some_ranges Map.empty
    = [0x1000 \<mapsto> \<lparr>get_address = 0x1000, get_size = 16\<rparr>, 0x3000 \<mapsto> \<lparr>get_address = 0x3000, get_size = 32\<rparr>]"
  by (simp add: some_ranges_def fun_eq_iff)

theorem range_tree_refines_witness:
  "disjoint_ranges (map_run some_ranges Map.empty) \<and> (\<exists>t. range_run some_ranges new_tree = Inr t
    \<and> find_range 0x300C (setData t) = Some \<lparr>get_address = 0x3000, get_size = 32\<rparr>)"
proof -
  have c: "covers \<lparr>get_address = 0x1000, get_size = 16\<rparr> key \<longleftrightarrow> 0x1000 \<le> key \<and> key < 0x1010"
      "covers \<lparr>get_address = 0x3000, get_size = 32\<rparr> key \<longleftrightarrow> 0x3000 \<le> key \<and> key < 0x3020" for key
    by (simp_all add: covers_def range_end_def)
  have n: "key < 0x1010 \<Longrightarrow> 0x3000 \<le> key \<Longrightarrow> False" for key :: u64
    using order.strict_trans2 [of key "0x1010" "0x3000"] by simp
  have r: "ran (map_run some_ranges Map.empty) = {\<lparr>get_address = 0x1000, get_size = 16\<rparr>, \<lparr>get_address = 0x3000, get_size = 32\<rparr>}"
    unfolding some_ranges_map by (simp add: insert_commute)
  have d: "disjoint_ranges (map_run some_ranges Map.empty)"
    unfolding disjoint_ranges_def r using n by (simp add: c) blast
  obtain t where t: "range_run some_ranges new_tree = Inr t"
      "\<forall>key rg. find_range key (setData t) = Some rg \<longleftrightarrow> rg \<in> ran (map_run some_ranges Map.empty) \<and> covers rg key"
    using range_tree_refines [of some_ranges] d by blast
  have "find_range 0x300C (setData t) = Some \<lparr>get_address = 0x3000, get_size = 32\<rparr>"
    unfolding t(2) [rule_format] r c(2) by simp
  then show ?thesis using d t(1) by blast
qed

end
