(* ===== verification/Inferior_Heap.thy ===== *)
theory Inferior_Heap
  imports Prelude "HOL-Library.AList"
begin

section \<open>Dyninst's infHeap.C and addressSpace.C: memory for the instrumentation\<close>

text \<open>
  The code and the data that Dyninst adds to a program live in memory it manages itself, the inferior heap: a table of the blocks in
  use and a list of the free blocks, sorted by address.  A \<^verbatim>\<open>heapItem\<close> belongs to one of them (or to \<^verbatim>\<open>bufferPool\<close>, which has copies of
  its own), so that the items are values here and not pointers.  The \<^verbatim>\<open>int\<close> counters are kept as their 32 bits.  The comparison of
  \<^verbatim>\<open>std::sort\<close> is the address; free blocks have different addresses, so that there is only one sorted order.
\<close>

datatype heapStatus = HEAPfree | HEAPallocated

datatype inferiorHeapType = textHeap | dataHeap | uncopiedHeap | anyHeap | lowmemHeap

fun heap_bits :: "inferiorHeapType \<Rightarrow> u32" where
  "heap_bits textHeap = 0x01"
| "heap_bits dataHeap = 0x02"
| "heap_bits uncopiedHeap = 0x04"
| "heap_bits anyHeap = 0x7"
| "heap_bits lowmemHeap = 0x1000"

record heapItem =
  item_addr :: u64
  item_length :: u32
  item_type :: inferiorHeapType
  item_dynamic :: bool
  item_status :: heapStatus

record disabledItem =
  disabled_block :: heapItem
  pointsToCheck :: "u64 list list"

record inferiorHeap =
  heapActive :: "(u64 \<times> heapItem) list"
  heapFree :: "heapItem list"
  disabledList :: "disabledItem list"
  disabledListTotalMem :: u32
  totalFreeMemAvailable :: u32
  freed :: u32
  bufferPool :: "heapItem list"

definition new_heap :: inferiorHeap where
  "new_heap = \<lparr>heapActive = [], heapFree = [], disabledList = [], disabledListTotalMem = 0, totalFreeMemAvailable = 0, freed = 0,
     bufferPool = []\<rparr>"

definition copy_heap :: "inferiorHeap \<Rightarrow> inferiorHeap" where
  "copy_heap src = src\<lparr>freed := 0\<rparr>"

definition clear_heap :: "inferiorHeap \<Rightarrow> inferiorHeap" where
  "clear_heap h = new_heap"

definition item_end :: "heapItem \<Rightarrow> u64" where
  "item_end h = item_addr h + ucast (item_length h)"

definition sort_by_addr :: "heapItem list \<Rightarrow> heapItem list" where
  "sort_by_addr hs = sort_key item_addr hs"

definition initializeHeap :: "inferiorHeap \<Rightarrow> inferiorHeap" where
  "initializeHeap h = h\<lparr>heapActive := [], heapFree := [], disabledList := [], disabledListTotalMem := 0, freed := 0,
     totalFreeMemAvailable := 0\<rparr>"

subsection \<open>Compaction\<close>

text \<open>The loop over adjacent free blocks: \<open>nbuf\<close> counts the blocks that remain, an absorbed block is left with length 0.\<close>

fun compact_pass :: "heapItem list \<Rightarrow> nat \<Rightarrow> bool \<Rightarrow> fault + heapItem list \<times> nat \<times> bool" where
  "compact_pass (h1 # h2 # hs) nbuf needToCompact =
     (if item_length h1 = 0 then Inl Aborted
      else if item_end h1 > item_addr h2 then Inl Aborted
      else if item_end h1 = item_addr h2 \<and> item_type h1 = item_type h2
      then and_then (compact_pass (h2\<lparr>item_addr := item_addr h1, item_length := item_length h1 + item_length h2\<rparr> # hs) (nbuf - 1) True)
             (\<lambda>(hs', n, c). Inr (h1\<lparr>item_length := 0\<rparr> # hs', n, c))
      else and_then (compact_pass (h2 # hs) nbuf needToCompact) (\<lambda>(hs', n, c). Inr (h1 # hs', n, c)))"
| "compact_pass hs nbuf needToCompact = Inr (hs, nbuf, needToCompact)"

definition inferiorFreeCompact :: "inferiorHeap \<Rightarrow> fault + inferiorHeap" where
  "inferiorFreeCompact h =
     (let freeList = sort_by_addr (heapFree h)
      in and_then (compact_pass freeList (length freeList) False) (\<lambda>(hs, nbuf, needToCompact).
           if needToCompact
           then let cleanList = filter (\<lambda>h1. item_length h1 \<noteq> 0) hs
                in if length cleanList = nbuf then Inr (h\<lparr>heapFree := cleanList\<rparr>) else Inl Aborted
           else Inr (h\<lparr>heapFree := hs\<rparr>)))"

subsection \<open>Allocation\<close>

definition item_fits :: "u32 \<Rightarrow> inferiorHeapType \<Rightarrow> u64 \<Rightarrow> u64 \<Rightarrow> heapItem \<Rightarrow> bool" where
  "item_fits sz type lo hi h \<longleftrightarrow> item_addr h \<ge> lo \<and> item_addr h + ucast sz - 1 \<le> hi \<and> item_length h \<ge> sz
     \<and> heap_bits (item_type h) AND heap_bits type \<noteq> 0"

fun find_best :: "(heapItem \<Rightarrow> bool) \<Rightarrow> heapItem list \<Rightarrow> nat \<Rightarrow> nat option \<Rightarrow> nat option" where
  "find_best ok freeList 0 best = best"
| "find_best ok freeList (Suc n) best =
     (let i = length freeList - Suc n; h = freeList ! i
      in find_best ok freeList n
           (if ok h
            then let b = (case best of None \<Rightarrow> i | Some b \<Rightarrow> b) in Some (if item_length h < item_length (freeList ! b) then i else b)
            else best))"

definition findFreeIndex :: "u32 \<Rightarrow> inferiorHeapType \<Rightarrow> u64 \<Rightarrow> u64 \<Rightarrow> heapItem list \<Rightarrow> nat option" where
  "findFreeIndex sz type lo hi freeList = find_best (item_fits sz type lo hi) freeList (length freeList) None"

definition addHeap :: "heapItem \<Rightarrow> inferiorHeap \<Rightarrow> inferiorHeap" where
  "addHeap it h = h\<lparr>bufferPool := bufferPool h @ [it], heapFree := sort_by_addr (heapFree h @ [it\<lparr>item_status := HEAPfree\<rparr>]),
     totalFreeMemAvailable := totalFreeMemAvailable h + item_length it\<rparr>"

definition isInferiorAllocated :: "u64 \<Rightarrow> inferiorHeap \<Rightarrow> bool" where
  "isInferiorAllocated block h \<longleftrightarrow> map_of (heapActive h) block \<noteq> None"

definition take_free :: "nat \<Rightarrow> u32 \<Rightarrow> heapItem list \<Rightarrow> heapItem list" where
  "take_free i sz hs =
     (let h = hs ! i
      in if item_length h \<noteq> sz then hs[i := h\<lparr>item_addr := item_addr h + ucast sz, item_length := item_length h - sz\<rparr>]
         else butlast (hs[i := last hs]))"

definition inferiorMallocInternal :: "u32 \<Rightarrow> u64 \<Rightarrow> u64 \<Rightarrow> inferiorHeapType \<Rightarrow> inferiorHeap \<Rightarrow> fault + u64 \<times> inferiorHeap" where
  "inferiorMallocInternal sz lo hi type h =
     (case findFreeIndex sz type lo hi (heapFree h) of
        None \<Rightarrow> Inr (0, h)
      | Some i \<Rightarrow>
          let it = heapFree h ! i;
              h' = h\<lparr>heapFree := sort_by_addr (take_free i sz (heapFree h)),
                     heapActive := AList.update (item_addr it) (it\<lparr>item_length := sz, item_status := HEAPallocated\<rparr>) (heapActive h),
                     totalFreeMemAvailable := totalFreeMemAvailable h - sz\<rparr>
          in if item_addr it = 0 then Inl Aborted else Inr (item_addr it, h'))"

definition inferiorFreeInternal :: "u64 \<Rightarrow> inferiorHeap \<Rightarrow> inferiorHeap" where
  "inferiorFreeInternal block h =
     (case map_of (heapActive h) block of
        None \<Rightarrow> h
      | Some it \<Rightarrow>
          h\<lparr>heapActive := AList.delete block (heapActive h),
            heapFree := sort_by_addr (heapFree h @ [it\<lparr>item_status := HEAPfree\<rparr>]),
            totalFreeMemAvailable := totalFreeMemAvailable h + item_length it,
            freed := freed h + item_length it\<rparr>)"

definition inferiorMallocAlign :: "u32 \<Rightarrow> u32 \<Rightarrow> u32" where
  "inferiorMallocAlign width sz = (sz + (width - 1)) AND NOT (width - 1)"

subsection \<open>Changing the size of a block\<close>

text \<open>The free block that begins at an address, and what becomes of it.\<close>

fun free_at :: "u64 \<Rightarrow> heapItem list \<Rightarrow> nat option" where
  "free_at a [] = None"
| "free_at a (h # hs) = (if item_addr h = a then Some 0 else map_option Suc (free_at a hs))"

definition inferiorShrinkBlock :: "heapItem \<Rightarrow> u64 \<Rightarrow> u32 \<Rightarrow> inferiorHeap \<Rightarrow> fault + bool \<times> inferiorHeap" where
  "inferiorShrinkBlock it block newSize h =
     (let freeStart = block + ucast newSize; succAddr = item_end it; shrink = item_length it - newSize
      in if sint shrink \<le> 0 then Inl Aborted
         else let h1 = h\<lparr>heapActive := AList.update block (it\<lparr>item_length := newSize\<rparr>) (heapActive h)\<rparr>;
                  free' = (case free_at succAddr (heapFree h) of
                     Some i \<Rightarrow>
                       let succ = heapFree h ! i
                       in (heapFree h)[i := succ\<lparr>item_addr := item_addr succ - ucast shrink, item_length := item_length succ + shrink\<rparr>]
                   | None \<Rightarrow>
                       sort_by_addr (heapFree h @ [\<lparr>item_addr = freeStart, item_length = shrink, item_type = item_type it,
                         item_dynamic = item_dynamic it, item_status = HEAPfree\<rparr>]))
              in Inr (True, h1\<lparr>heapFree := free', totalFreeMemAvailable := totalFreeMemAvailable h + shrink, freed := freed h + shrink\<rparr>))"

definition inferiorExpandBlock :: "heapItem \<Rightarrow> u32 \<Rightarrow> inferiorHeap \<Rightarrow> fault + bool \<times> inferiorHeap" where
  "inferiorExpandBlock it newSize h =
     (let succAddr = item_end it; expand = newSize - item_length it
      in if sint expand \<le> 0 then Inl Aborted
         else case free_at succAddr (heapFree h) of
                None \<Rightarrow> Inr (False, h)
              | Some i \<Rightarrow>
                  let succ = heapFree h ! i
                  in if item_length succ < expand then Inr (False, h)
                     else let succ' = succ\<lparr>item_addr := succAddr + ucast expand, item_length := item_length succ - expand\<rparr>;
                              free1 = (heapFree h)[i := succ'];
                              done = (\<lambda>hs. (True, h\<lparr>heapFree := hs, totalFreeMemAvailable := totalFreeMemAvailable h - expand\<rparr>))
                          in if item_length succ' = 0
                             then let cleanList = filter (\<lambda>h1. item_length h1 \<noteq> 0) free1; n = length free1 - 1
                                  in if length cleanList < n then Inl Out_of_bounds else Inr (done (take n cleanList))
                             else Inr (done free1))"

definition inferiorReallocInternal :: "u32 \<Rightarrow> u64 \<Rightarrow> u32 \<Rightarrow> inferiorHeap \<Rightarrow> fault + bool \<times> inferiorHeap" where
  "inferiorReallocInternal width block newSize0 h =
     (let newSize = inferiorMallocAlign width newSize0
      in case map_of (heapActive h) block of
           None \<Rightarrow> Inr (False, h)
         | Some it \<Rightarrow>
             if item_length it = newSize then Inr (True, h)
             else if item_length it > newSize then inferiorShrinkBlock it block newSize h
             else inferiorExpandBlock it newSize h)"

subsection \<open>The bytes of the heap\<close>

definition item_bytes :: "heapItem \<Rightarrow> nat set" where
  "item_bytes h = {unat (item_addr h) ..< unat (item_addr h) + unat (item_length h)}"

definition free_bytes :: "heapItem list \<Rightarrow> nat set" where
  "free_bytes hs = (\<Union>h \<in> set hs. item_bytes h)"

definition item_ok :: "heapItem \<Rightarrow> bool" where
  "item_ok h \<longleftrightarrow> item_length h \<noteq> 0 \<and> item_addr h \<noteq> 0 \<and> unat (item_addr h) + unat (item_length h) < 2 ^ 64"

text \<open>Blocks that do not overlap, and the same in order.\<close>

definition apart :: "heapItem list \<Rightarrow> bool" where
  "apart hs \<longleftrightarrow> distinct hs \<and> (\<forall>a \<in> set hs. item_ok a \<and> (\<forall>b \<in> set hs. a \<noteq> b \<longrightarrow> item_bytes a \<inter> item_bytes b = {}))"

definition free_ok :: "heapItem list \<Rightarrow> bool" where
  "free_ok hs \<longleftrightarrow> (\<forall>h \<in> set hs. item_ok h)
     \<and> sorted_wrt (\<lambda>a b. unat (item_addr a) + unat (item_length a) \<le> unat (item_addr b)) hs"

lemma unat_item_end: "item_ok h \<Longrightarrow> unat (item_end h) = unat (item_addr h) + unat (item_length h)"
  unfolding item_end_def item_ok_def by (subst unat_add_u64) simp_all

lemma item_ok_length: "item_ok h \<Longrightarrow> 0 < unat (item_length h)"
  by (simp add: item_ok_def unat_gt_0)

lemma free_bytes_simps [simp]: "free_bytes [] = {}" "free_bytes (h # hs) = item_bytes h \<union> free_bytes hs"
  "free_bytes (hs @ hs') = free_bytes hs \<union> free_bytes hs'"
  by (auto simp: free_bytes_def)

lemma free_ok_Cons [simp]: "free_ok [] " "free_ok (h # hs) \<longleftrightarrow> item_ok h \<and> free_ok hs
    \<and> (\<forall>b \<in> set hs. unat (item_addr h) + unat (item_length h) \<le> unat (item_addr b))"
  by (auto simp: free_ok_def)

lemma free_ok_apart: "free_ok hs \<Longrightarrow> apart hs"
proof (induction hs)
  case (Cons h hs)
  have "item_bytes h \<inter> item_bytes b = {}" if "b \<in> set hs" for b using Cons.prems that by (fastforce simp: item_bytes_def)
  moreover have "h \<notin> set hs" using Cons.prems item_ok_length [of h] by fastforce
  ultimately show ?case using Cons by (auto simp: apart_def)
qed (simp add: apart_def)

lemma apart_sort:
  assumes "apart hs"
  shows "free_ok (sort_by_addr hs)"
proof -
  let ?s = "sort_by_addr hs"
  have set: "set ?s = set hs" and dist: "distinct ?s" using assms by (simp_all add: sort_by_addr_def apart_def)
  have "unat (item_addr (?s ! i)) + unat (item_length (?s ! i)) \<le> unat (item_addr (?s ! j))" if "i < j" "j < length ?s" for i j
  proof -
    have a: "?s ! i \<in> set hs" "?s ! j \<in> set hs" "?s ! i \<noteq> ?s ! j"
      using that set dist nth_mem [of i ?s] nth_mem [of j ?s] by (auto simp: nth_eq_iff_index_eq)
    have "item_addr (?s ! i) \<le> item_addr (?s ! j)"
      using sorted_nth_mono [OF sorted_sort_key [of item_addr hs], of i j] that by (simp add: sort_by_addr_def)
    moreover have "item_bytes (?s ! i) \<inter> item_bytes (?s ! j) = {}" "item_ok (?s ! j)" "item_ok (?s ! i)"
      using assms a by (auto simp: apart_def)
    ultimately show ?thesis using item_ok_length [of "?s ! j"] item_ok_length [of "?s ! i"]
      by (auto simp: item_bytes_def word_le_nat_alt)
  qed
  then show ?thesis using assms set by (simp add: free_ok_def apart_def sorted_wrt_iff_nth_less)
qed

lemma free_bytes_sort [simp]: "free_bytes (sort_by_addr hs) = free_bytes hs"
  by (simp add: free_bytes_def sort_by_addr_def)

lemma item_bytes_nonempty: "item_ok h \<Longrightarrow> item_bytes h \<noteq> {}"
  using item_ok_length [of h] by (simp add: item_bytes_def)

lemma free_bytes_mem: "h \<in> set hs \<Longrightarrow> item_bytes h \<subseteq> free_bytes hs"
  by (auto simp: free_bytes_def)

lemma apart_insert:
  assumes "apart hs" "item_ok h" "item_bytes h \<inter> free_bytes hs = {}"
  shows "apart (hs @ [h])"
proof -
  have "h \<notin> set hs" using assms item_bytes_nonempty free_bytes_mem by blast
  moreover have "\<forall>b \<in> set hs. item_bytes h \<inter> item_bytes b = {}" using assms(3) free_bytes_mem by blast
  ultimately show ?thesis using assms(1,2) by (auto simp: apart_def)
qed

text \<open>An item of a list replaced by one inside it, or dropped.\<close>

lemma apart_update:
  assumes "apart hs" "i < length hs" "item_ok h" "item_bytes h \<inter> (free_bytes hs - item_bytes (hs ! i)) = {}"
  shows "apart (hs[i := h])" "free_bytes (hs[i := h]) = item_bytes h \<union> (free_bytes hs - item_bytes (hs ! i))"
proof -
  have d: "distinct hs" using assms(1) by (simp add: apart_def)
  have set: "set (hs[i := h]) = insert h (set hs - {hs ! i})" using set_update_distinct [OF d assms(2)] .
  have others: "item_bytes b \<subseteq> free_bytes hs - item_bytes (hs ! i)" if "b \<in> set hs - {hs ! i}" for b
    using assms(1,2) that by (fastforce simp: apart_def free_bytes_def)
  have "h \<notin> set hs - {hs ! i}" using others [of h] assms(3,4) item_bytes_nonempty by blast
  then have "distinct (hs[i := h])" using distinct_list_update [OF d] by blast
  then show "apart (hs[i := h])"
    unfolding apart_def set using assms(1,3,4) others by (auto simp: apart_def)
  show "free_bytes (hs[i := h]) = item_bytes h \<union> (free_bytes hs - item_bytes (hs ! i))"
    using others assms(1,2) unfolding free_bytes_def set by (fastforce simp: free_bytes_def apart_def)
qed

lemma set_butlast_update:
  assumes "distinct hs" "i < length hs"
  shows "set (butlast (hs[i := last hs])) = set hs - {hs ! i}" "distinct (butlast (hs[i := last hs]))"
proof -
  obtain ys y where h: "hs = ys @ [y]" using assms(2) by (cases hs rule: rev_cases) auto
  consider "i = length ys" | "i < length ys" using assms(2) h by fastforce
  then have "set (butlast (hs[i := last hs])) = set hs - {hs ! i} \<and> distinct (butlast (hs[i := last hs]))"
  proof cases
    case 2
    then show ?thesis using assms h set_update_distinct [of ys i y]
      by (auto simp: list_update_append nth_append intro: distinct_list_update)
  qed (use assms h in auto)
  then show "set (butlast (hs[i := last hs])) = set hs - {hs ! i}" "distinct (butlast (hs[i := last hs]))" by blast+
qed

lemma apart_subset: "apart hs \<Longrightarrow> set hs' \<subseteq> set hs \<Longrightarrow> distinct hs' \<Longrightarrow> apart hs'"
  unfolding apart_def by blast

subsection \<open>The best fit\<close>

definition best_of :: "(heapItem \<Rightarrow> bool) \<Rightarrow> heapItem list \<Rightarrow> nat \<Rightarrow> nat option \<Rightarrow> bool" where
  "best_of ok hs n r \<longleftrightarrow> (case r of
      None \<Rightarrow> \<forall>i < n. \<not> ok (hs ! i)
    | Some j \<Rightarrow> j < length hs \<and> ok (hs ! j) \<and> (\<forall>i < n. ok (hs ! i) \<longrightarrow> item_length (hs ! j) \<le> item_length (hs ! i)))"

lemma find_best_spec: "n \<le> length hs \<Longrightarrow> best_of ok hs (length hs - n) best \<Longrightarrow> best_of ok hs (length hs) (find_best ok hs n best)"
proof (induction n arbitrary: best)
  case (Suc n)
  let ?i = "length hs - Suc n"
  let ?b = "case best of None \<Rightarrow> ?i | Some b \<Rightarrow> b"
  let ?best = "if ok (hs ! ?i) then Some (if item_length (hs ! ?i) < item_length (hs ! ?b) then ?i else ?b) else best"
  have n: "length hs - n = Suc ?i" "?i < length hs" using Suc.prems(1) by linarith+
  have "best_of ok hs (Suc ?i) ?best"
    using Suc.prems(2) n(2) by (cases best) (fastforce simp: best_of_def less_Suc_eq not_less split: if_splits)+
  moreover have "find_best ok hs (Suc n) best = find_best ok hs n ?best" by (simp add: Let_def)
  ultimately show ?case using Suc.IH [of ?best] Suc.prems(1) n(1) by simp
qed simp

lemma findFreeIndex_spec: "best_of (item_fits sz type lo hi) hs (length hs) (findFreeIndex sz type lo hi hs)"
  unfolding findFreeIndex_def by (rule find_best_spec) (simp_all add: best_of_def)

subsection \<open>The invariant\<close>

text \<open>\<open>G\<close> is what the users of the heap may use: for the address of each of their blocks its number of bytes.  It can be more than the
  table of active blocks says (\<^verbatim>\<open>inferiorExpandBlock\<close> does not record the new size), but it never overlaps a free block or
  another user's block.  \<open>A\<close> has all the bytes the heap ever got.\<close>

definition grant :: "u64 \<Rightarrow> nat \<Rightarrow> nat set" where
  "grant a n = {unat a ..< unat a + n}"

definition grants_ok :: "(u64 \<rightharpoonup> nat) \<Rightarrow> nat set \<Rightarrow> bool" where
  "grants_ok G A \<longleftrightarrow> (\<forall>a n. G a = Some n \<longrightarrow> a \<noteq> 0 \<and> 0 < n \<and> unat a + n < 2 ^ 64 \<and> grant a n \<subseteq> A)
     \<and> (\<forall>a b n m. G a = Some n \<and> G b = Some m \<and> a \<noteq> b \<longrightarrow> grant a n \<inter> grant b m = {})"

definition active_ok :: "(u64 \<times> heapItem) list \<Rightarrow> (u64 \<rightharpoonup> nat) \<Rightarrow> bool" where
  "active_ok act G \<longleftrightarrow> dom (map_of act) = dom G
     \<and> (\<forall>a it. map_of act a = Some it \<longrightarrow> item_addr it = a \<and> item_length it \<noteq> 0 \<and> unat (item_length it) \<le> the (G a))"

definition heap_inv :: "inferiorHeap \<Rightarrow> (u64 \<rightharpoonup> nat) \<Rightarrow> nat set \<Rightarrow> bool" where
  "heap_inv h G A \<longleftrightarrow> free_ok (heapFree h) \<and> active_ok (heapActive h) G \<and> grants_ok G A
     \<and> free_bytes (heapFree h) \<subseteq> A \<and> (\<forall>a n. G a = Some n \<longrightarrow> grant a n \<inter> free_bytes (heapFree h) = {})
     \<and> finite A \<and> card A < 2 ^ 31"

lemma grants_okD:
  assumes "grants_ok G A" "G a = Some n"
  shows "a \<noteq> 0" "0 < n" "unat a + n < 2 ^ 64" "grant a n \<subseteq> A" "G b = Some m \<Longrightarrow> a \<noteq> b \<Longrightarrow> grant a n \<inter> grant b m = {}"
  using assms unfolding grants_ok_def by blast+

lemma grants_ok_upd:
  assumes "grants_ok G A" "a \<noteq> 0" "0 < n" "unat a + n < 2 ^ 64" "grant a n \<subseteq> A"
    "\<And>b m. b \<noteq> a \<Longrightarrow> G b = Some m \<Longrightarrow> grant a n \<inter> grant b m = {}"
  shows "grants_ok (G(a \<mapsto> n)) A"
  using assms unfolding grants_ok_def by (auto split: if_splits)

lemma grants_ok_del: "grants_ok G A \<Longrightarrow> grants_ok (G(a := None)) A"
  unfolding grants_ok_def by (auto split: if_splits)

lemma interval_card: "grant a n \<subseteq> A \<Longrightarrow> finite A \<Longrightarrow> n \<le> card A"
  using card_mono [of A "grant a n"] by (simp add: grant_def)

lemma item_bytes_grant: "item_bytes it = grant (item_addr it) (unat (item_length it))"
  by (simp add: item_bytes_def grant_def)

lemma heap_invD:
  assumes "heap_inv h G A"
  shows "free_ok (heapFree h)" "active_ok (heapActive h) G" "grants_ok G A" "free_bytes (heapFree h) \<subseteq> A"
    "G a = Some n \<Longrightarrow> grant a n \<inter> free_bytes (heapFree h) = {}" "finite A" "card A < 2 ^ 31"
  using assms by (simp_all add: heap_inv_def)

lemma item_small:
  assumes "heap_inv h G A" "it \<in> set (heapFree h)"
  shows "unat (item_length it) < 2 ^ 31"
proof -
  have "grant (item_addr it) (unat (item_length it)) \<subseteq> A"
    using free_bytes_mem [OF assms(2)] heap_invD(4) [OF assms(1)] unfolding item_bytes_grant by blast
  then show ?thesis using interval_card [OF _ heap_invD(6) [OF assms(1)]] heap_invD(7) [OF assms(1)] by (meson le_less_trans)
qed

lemma active_ok_upd:
  assumes "active_ok act G" "item_addr it = a" "item_length it \<noteq> 0" "unat (item_length it) \<le> n"
  shows "active_ok (AList.update a it act) (G(a \<mapsto> n))"
  using assms unfolding active_ok_def update_conv' by (auto split: if_splits)

lemma active_ok_del: "active_ok act G \<Longrightarrow> active_ok (AList.delete a act) (G(a := None))"
  unfolding active_ok_def delete_conv' by (auto split: if_splits)

subsection \<open>Allocating and freeing\<close>

lemma take_free_spec:
  assumes hs: "apart hs" and i: "i < length hs" and sz: "sz \<noteq> 0" "sz \<le> item_length (hs ! i)"
  shows "apart (take_free i sz hs)" "free_bytes (take_free i sz hs) = free_bytes hs - grant (item_addr (hs ! i)) (unat sz)"
proof -
  let ?h = "hs ! i" and ?g = "grant (item_addr (hs ! i)) (unat sz)"
  have d: "distinct hs" and ok: "item_ok ?h" using hs i by (simp_all add: apart_def)
  have sub: "item_bytes ?h \<subseteq> free_bytes hs" using free_bytes_mem i by simp
  show "apart (take_free i sz hs)" "free_bytes (take_free i sz hs) = free_bytes hs - ?g"
  proof (atomize (full), cases "item_length ?h = sz")
    case True
    then have t: "take_free i sz hs = butlast (hs[i := last hs])" by (simp add: take_free_def Let_def)
    note b = set_butlast_update [OF d i]
    have "item_bytes b \<inter> item_bytes ?h = {}" if "b \<in> set hs - {?h}" for b using hs i that by (auto simp: apart_def)
    then have "free_bytes (take_free i sz hs) = free_bytes hs - item_bytes ?h" unfolding t free_bytes_def b(1) using i by fastforce
    moreover have "apart (take_free i sz hs)" unfolding t using b by (intro apart_subset [OF hs]) auto
    ultimately show "apart (take_free i sz hs) \<and> free_bytes (take_free i sz hs) = free_bytes hs - ?g"
      using True by (simp add: item_bytes_grant)
  next
    case False
    let ?rem = "?h\<lparr>item_addr := item_addr ?h + ucast sz, item_length := item_length ?h - sz\<rparr>"
    have lt: "unat sz < unat (item_length ?h)" using False sz(2) by (simp add: word_le_nat_alt word_unat_eq_iff le_less)
    have len: "unat (item_length ?h - sz) = unat (item_length ?h) - unat sz" using sz(2) by (simp add: unat_sub)
    have ad: "unat (item_addr ?h + ucast sz) = unat (item_addr ?h) + unat sz"
      using ok lt by (subst unat_add_u64) (simp_all add: item_ok_def)
    have "item_addr ?h + ucast sz \<noteq> 0" using ad sz(1) by (auto simp: word_unat_eq_iff)
    then have rok: "item_ok ?rem" using ok lt ad len by (simp add: item_ok_def word_unat_eq_iff)
    have rb: "item_bytes ?rem = item_bytes ?h - ?g" using lt ad len by (auto simp: item_bytes_def grant_def)
    have t: "take_free i sz hs = hs[i := ?rem]" using False by (simp add: take_free_def Let_def)
    have "?g \<subseteq> item_bytes ?h" using lt by (auto simp: item_bytes_def grant_def)
    then show "apart (take_free i sz hs) \<and> free_bytes (take_free i sz hs) = free_bytes hs - ?g"
      unfolding t using apart_update [OF hs i rok] rb sub by blast
  qed
qed

lemma inferiorMallocInternal_spec:
  assumes inv: "heap_inv h G A" and sz: "sz \<noteq> 0"
  shows "inferiorMallocInternal sz lo hi type h = Inr (0, h) \<and> (\<forall>it \<in> set (heapFree h). \<not> item_fits sz type lo hi it)
    \<or> (\<exists>a h'. inferiorMallocInternal sz lo hi type h = Inr (a, h') \<and> a \<noteq> 0 \<and> G a = None \<and> heap_inv h' (G(a \<mapsto> unat sz)) A
        \<and> grant a (unat sz) \<subseteq> free_bytes (heapFree h) \<and> free_bytes (heapFree h') = free_bytes (heapFree h) - grant a (unat sz)
        \<and> lo \<le> a \<and> a + ucast sz - 1 \<le> hi)"
proof (cases "findFreeIndex sz type lo hi (heapFree h)")
  case None
  then show ?thesis using findFreeIndex_spec [of sz type lo hi "heapFree h"]
    by (auto simp: inferiorMallocInternal_def best_of_def in_set_conv_nth)
next
  case (Some i)
  let ?it = "heapFree h ! i"
  let ?a = "item_addr ?it"
  have i: "i < length (heapFree h)" "item_fits sz type lo hi ?it"
    using findFreeIndex_spec [of sz type lo hi "heapFree h"] Some by (simp_all add: best_of_def)
  have ap: "apart (heapFree h)" using free_ok_apart heap_invD(1) [OF inv] by blast
  have len: "sz \<le> item_length ?it" "?a \<ge> lo" "?a + ucast sz - 1 \<le> hi" using i(2) by (simp_all add: item_fits_def)
  note tf = take_free_spec [OF ap i(1) sz len(1)]
  have ok: "item_ok ?it" using ap i(1) by (simp add: apart_def)
  have gb: "grant ?a (unat sz) \<subseteq> free_bytes (heapFree h)"
    using free_bytes_mem [of ?it "heapFree h"] i(1) len(1) by (force simp: item_bytes_def grant_def word_le_nat_alt)
  have pos: "0 < unat sz" using sz by (simp add: unat_gt_0)
  then have mem: "unat ?a \<in> grant ?a (unat sz)" by (simp add: grant_def)
  have new: "G ?a = None"
  proof (rule ccontr)
    assume "G ?a \<noteq> None"
    then obtain n where n: "G ?a = Some n" by blast
    then have "unat ?a \<in> grant ?a n" using grants_okD(2) [OF heap_invD(3) [OF inv] n] by (simp add: grant_def)
    then show False using heap_invD(5) [OF inv n] mem gb by blast
  qed
  define h' where "h' = h\<lparr>heapFree := sort_by_addr (take_free i sz (heapFree h)),
      heapActive := AList.update ?a (?it\<lparr>item_length := sz, item_status := HEAPallocated\<rparr>) (heapActive h),
      totalFreeMemAvailable := totalFreeMemAvailable h - sz\<rparr>"
  have "grant ?a (unat sz) \<inter> grant b m = {}" if "G b = Some m" for b m using heap_invD(5) [OF inv that] gb by blast
  then have "grants_ok (G(?a \<mapsto> unat sz)) A"
    using ok len(1) pos gb heap_invD(4) [OF inv]
    by (intro grants_ok_upd [OF heap_invD(3) [OF inv]]) (auto simp: item_ok_def word_le_nat_alt)
  moreover have "active_ok (heapActive h') (G(?a \<mapsto> unat sz))"
    using sz unfolding h'_def by (auto intro!: active_ok_upd [OF heap_invD(2) [OF inv]])
  moreover have "grant b m \<inter> free_bytes (take_free i sz (heapFree h)) = {}" if "(G(?a \<mapsto> unat sz)) b = Some m" for b m
    using that heap_invD(5) [OF inv, of b m] tf(2) by (auto split: if_splits)
  ultimately have "heap_inv h' (G(?a \<mapsto> unat sz)) A"
    using apart_sort [OF tf(1)] tf(2) heap_invD(4,6,7) [OF inv] unfolding heap_inv_def h'_def by auto
  moreover have "inferiorMallocInternal sz lo hi type h = Inr (?a, h')"
    using Some ok by (simp add: inferiorMallocInternal_def h'_def Let_def item_ok_def)
  ultimately show ?thesis using ok new gb tf(2) len(2,3) by (auto simp: h'_def item_ok_def)
qed

lemma active_item:
  assumes inv: "heap_inv h G A" and it: "map_of (heapActive h) a = Some it"
  obtains n where "G a = Some n" "item_addr it = a" "item_ok it" "unat (item_length it) \<le> n" "item_bytes it \<subseteq> grant a n"
    "item_bytes it \<inter> free_bytes (heapFree h) = {}"
proof -
  have "dom (map_of (heapActive h)) = dom G" "item_addr it = a" "item_length it \<noteq> 0" "unat (item_length it) \<le> the (G a)"
    using heap_invD(2) [OF inv] it by (simp_all add: active_ok_def)
  moreover from this it obtain n where n: "G a = Some n" by (metis domD domI)
  ultimately have i: "item_addr it = a" "item_length it \<noteq> 0" "unat (item_length it) \<le> n" by simp_all
  then have "item_ok it" using grants_okD [OF heap_invD(3) [OF inv] n] by (simp add: item_ok_def)
  moreover have "item_bytes it \<subseteq> grant a n" using i by (auto simp: item_bytes_def grant_def)
  ultimately show thesis using that [OF n i(1)] i heap_invD(5) [OF inv n] by blast
qed

lemma inferiorFreeInternal_spec:
  assumes inv: "heap_inv h G A"
  shows "heap_inv (inferiorFreeInternal block h) (G(block := None)) A"
proof (cases "map_of (heapActive h) block")
  case None
  then have "G block = None" using heap_invD(2) [OF inv] by (metis active_ok_def domIff)
  then show ?thesis using None inv by (simp add: inferiorFreeInternal_def fun_upd_idem)
next
  case (Some it)
  from active_item [OF inv Some] obtain n where n: "G block = Some n" "item_addr it = block" "item_ok it" "unat (item_length it) \<le> n"
      "item_bytes it \<subseteq> grant block n" "item_bytes it \<inter> free_bytes (heapFree h) = {}" .
  let ?it = "it\<lparr>item_status := HEAPfree\<rparr>"
  have b: "item_bytes ?it = item_bytes it" by (simp add: item_bytes_def)
  have "free_ok (sort_by_addr (heapFree h @ [?it]))"
    using n(3,6) free_ok_apart [OF heap_invD(1) [OF inv]] by (intro apart_sort apart_insert) (simp_all add: b item_ok_def)
  moreover have "grant a m \<inter> item_bytes it = {}" if "G a = Some m" "a \<noteq> block" for a m
    using grants_okD(5) [OF heap_invD(3) [OF inv] n(1) that(1)] that(2) n(5) by blast
  moreover have "item_bytes it \<subseteq> A" using n(5) grants_okD(4) [OF heap_invD(3) [OF inv] n(1)] by blast
  ultimately show ?thesis
    using Some heap_invD [OF inv] grants_ok_del active_ok_del b
    by (simp add: heap_inv_def inferiorFreeInternal_def Int_Un_distrib)
qed

subsection \<open>Compaction keeps the bytes\<close>

fun no_neighbours :: "heapItem list \<Rightarrow> bool" where
  "no_neighbours (h1 # h2 # hs) \<longleftrightarrow> \<not> (item_end h1 = item_addr h2 \<and> item_type h1 = item_type h2) \<and> no_neighbours (h2 # hs)"
| "no_neighbours _ \<longleftrightarrow> True"

abbreviation nonempty :: "heapItem list \<Rightarrow> heapItem list" where
  "nonempty hs \<equiv> filter (\<lambda>h1. item_length h1 \<noteq> 0) hs"

lemma merge_neighbours:
  assumes ok: "free_ok (h1 # h2 # hs)" and adj: "item_end h1 = item_addr h2"
    and A: "free_bytes (h1 # h2 # hs) \<subseteq> A" "finite A" "card A < 2 ^ 31"
  defines "h \<equiv> h2\<lparr>item_addr := item_addr h1, item_length := item_length h1 + item_length h2\<rparr>"
  shows "free_ok (h # hs)" "free_bytes (h # hs) = free_bytes (h1 # h2 # hs)"
proof -
  have i: "item_ok h1" "item_ok h2" using ok by simp_all
  have e: "unat (item_addr h1) + unat (item_length h1) = unat (item_addr h2)" using unat_item_end [OF i(1)] adj by simp
  have "grant (item_addr h1) (unat (item_length h1) + unat (item_length h2)) \<subseteq> item_bytes h1 \<union> item_bytes h2"
    using e by (auto simp: grant_def item_bytes_def)
  then have "unat (item_length h1) + unat (item_length h2) \<le> card A" using A(1,2) by (intro interval_card) auto
  then have len: "unat (item_length h1 + item_length h2) = unat (item_length h1) + unat (item_length h2)"
    using A(3) by (intro unat_add_lem [THEN iffD1]) simp
  have "item_length h1 + item_length h2 \<noteq> 0" using len item_ok_length [OF i(1)] by (auto simp: word_unat_eq_iff)
  then show "free_ok (h # hs)" using ok e len i by (auto simp: h_def item_ok_def)
  show "free_bytes (h # hs) = free_bytes (h1 # h2 # hs)"
    using e len by (auto simp: h_def item_bytes_def)
qed

definition compacted :: "heapItem list \<Rightarrow> nat \<Rightarrow> bool \<Rightarrow> heapItem list \<Rightarrow> nat \<Rightarrow> bool \<Rightarrow> bool" where
  "compacted hs n c hs' n' c' \<longleftrightarrow> free_ok (nonempty hs') \<and> free_bytes (nonempty hs') = free_bytes hs \<and> no_neighbours (nonempty hs')
     \<and> n' + length hs = n + length (nonempty hs') \<and> (\<not> c' \<longrightarrow> hs' = hs) \<and> (c \<longrightarrow> c')
     \<and> (hs \<noteq> [] \<longrightarrow> nonempty hs' \<noteq> [] \<and> item_addr (hd (nonempty hs')) = item_addr (hd hs)
          \<and> item_type (hd (nonempty hs')) = item_type (hd hs))"

lemma free_ok_from: "free_ok xs \<Longrightarrow> e \<le> unat (item_addr (hd xs)) \<Longrightarrow> b \<in> set xs \<Longrightarrow> e \<le> unat (item_addr b)"
  by (cases xs) force+

lemma compacted_merge:
  assumes "compacted (h # hs) (n - 1) True hs' n' c'" "free_bytes (h # hs) = free_bytes (h1 # h2 # hs)"
    "item_addr h = item_addr h1" "item_type h = item_type h1" "Suc (Suc (length hs)) \<le> n"
  shows "compacted (h1 # h2 # hs) n c (h1\<lparr>item_length := 0\<rparr> # hs') n' c'"
  using assms by (auto simp: compacted_def)

lemma compacted_keep:
  assumes c: "compacted (h2 # hs) n c hs' n' c'" and ok: "free_ok (h1 # h2 # hs)"
    and n: "\<not> (item_end h1 = item_addr h2 \<and> item_type h1 = item_type h2)"
  shows "compacted (h1 # h2 # hs) n c (h1 # hs') n' c'"
proof -
  obtain x xs where x: "nonempty hs' = x # xs" "item_addr x = item_addr h2" "item_type x = item_type h2"
    using c by (cases "nonempty hs'") (auto simp: compacted_def)
  have nz: "item_length h1 \<noteq> 0" using ok by (simp add: item_ok_def)
  have "free_ok (h1 # nonempty hs')"
    using c ok x free_ok_from [of "x # xs" "unat (item_addr h1) + unat (item_length h1)"] by (simp add: compacted_def)
  moreover have "no_neighbours (h1 # nonempty hs')" using c n x by (simp add: compacted_def)
  ultimately show ?thesis using c nz x by (auto simp: compacted_def)
qed

lemma compact_pass_spec:
  assumes "free_ok hs" "free_bytes hs \<subseteq> A" "finite A" "card A < 2 ^ 31" "length hs \<le> n"
  shows "\<exists>hs' n' c'. compact_pass hs n c = Inr (hs', n', c') \<and> compacted hs n c hs' n' c'"
  using assms
proof (induction hs n c rule: compact_pass.induct)
  case (1 h1 h2 hs n c)
  have i: "item_ok h1" "item_ok h2" using 1(3) by simp_all
  have le: "\<not> item_end h1 > item_addr h2" using 1(3) unat_item_end [OF i(1)] by (simp add: word_less_nat_alt not_less)
  have nz: "item_length h1 \<noteq> 0" using i by (simp add: item_ok_def)
  show ?case
  proof (cases "item_end h1 = item_addr h2 \<and> item_type h1 = item_type h2")
    case True
    let ?h = "h2\<lparr>item_addr := item_addr h1, item_length := item_length h1 + item_length h2\<rparr>"
    note m = merge_neighbours [OF 1(3) conjunct1 [OF True] 1(4-6)]
    have "free_bytes (?h # hs) \<subseteq> A" "length (?h # hs) \<le> n - 1" unfolding m(2) using 1(4,7) by simp_all
    then obtain hs' n' c' where r: "compact_pass (?h # hs) (n - 1) True = Inr (hs', n', c')" "compacted (?h # hs) (n - 1) True hs' n' c'"
      using 1(1) [OF nz le True m(1) _ 1(5,6)] by blast
    have "compacted (h1 # h2 # hs) n c (h1\<lparr>item_length := 0\<rparr> # hs') n' c'"
      using 1(7) True by (intro compacted_merge [OF r(2) m(2)]) simp_all
    then show ?thesis using r(1) True nz le by auto
  next
    case False
    obtain hs' n' c' where r: "compact_pass (h2 # hs) n c = Inr (hs', n', c')" "compacted (h2 # hs) n c hs' n' c'"
      using 1(2) [OF nz le False _ _ 1(5,6)] 1(3,4,7) by auto
    then show ?thesis using compacted_keep [OF r(2) 1(3) False] False nz le by auto
  qed
qed (auto simp: compacted_def item_ok_def)

lemma sort_free: "free_ok hs \<Longrightarrow> sort_by_addr hs = hs"
proof -
  assume "free_ok hs"
  then have "sorted (map item_addr hs)"
    unfolding free_ok_def sorted_map by (elim conjE sorted_wrt_mono_rel [rotated]) (auto simp: word_le_nat_alt)
  then show ?thesis by (simp add: sort_by_addr_def sorted_sort_id sort_key_id_if_sorted)
qed

lemma inferiorFreeCompact_spec:
  assumes inv: "heap_inv h G A"
  shows "\<exists>h'. inferiorFreeCompact h = Inr h' \<and> heap_inv h' G A \<and> free_bytes (heapFree h') = free_bytes (heapFree h)
    \<and> no_neighbours (heapFree h')"
proof -
  note I = heap_invD [OF inv]
  let ?f = "heapFree h"
  obtain hs' n' c' where r: "compact_pass ?f (length ?f) False = Inr (hs', n', c')" "compacted ?f (length ?f) False hs' n' c'"
    using compact_pass_spec [OF I(1,4,6,7), of "length ?f" False] by auto
  have h': "hs' = nonempty hs'" if "\<not> c'"
    using r(2) that I(1) by (auto simp: compacted_def free_ok_def item_ok_def intro!: filter_True [symmetric])
  have "inferiorFreeCompact h = Inr (h\<lparr>heapFree := nonempty hs'\<rparr>)"
    using r h' sort_free [OF I(1)] by (auto simp: inferiorFreeCompact_def Let_def compacted_def)
  moreover have "heap_inv (h\<lparr>heapFree := nonempty hs'\<rparr>) G A"
    using r(2) inv by (simp add: compacted_def heap_inv_def)
  ultimately show ?thesis using r(2) by (simp add: compacted_def)
qed

subsection \<open>Changing a block\<close>

lemma free_at_spec: "(case free_at a hs of None \<Rightarrow> \<forall>h \<in> set hs. item_addr h \<noteq> a | Some i \<Rightarrow> i < length hs \<and> item_addr (hs ! i) = a)"
  by (induction hs) (auto split: option.splits)

lemma free_ok_update:
  assumes hs: "free_ok hs" "i < length hs" and ap: "apart (hs[i := h])"
    and lo: "\<forall>j < i. item_addr (hs ! j) \<le> item_addr h" and hi: "\<forall>j. i < j \<and> j < length hs \<longrightarrow> item_addr h \<le> item_addr (hs ! j)"
  shows "free_ok (hs[i := h])"
proof -
  have s: "item_addr (hs ! j) \<le> item_addr (hs ! k)" if "j < k" "k < length hs" for j k
    using hs(1) that by (fastforce simp: free_ok_def sorted_wrt_iff_nth_less word_le_nat_alt)
  have "sorted (map item_addr (hs[i := h]))"
    unfolding sorted_iff_nth_mono_less
  proof (intro allI impI)
    fix j k
    assume jk: "j < k" "k < length (map item_addr (hs[i := h]))"
    then show "map item_addr (hs[i := h]) ! j \<le> map item_addr (hs[i := h]) ! k"
      using s [of j k] lo hi hs(2) by (cases "j = i"; cases "k = i") auto
  qed
  then have "sort_by_addr (hs[i := h]) = hs[i := h]" by (simp add: sort_by_addr_def sort_key_id_if_sorted)
  then show ?thesis using apart_sort [OF ap] by simp
qed

lemma free_ok_drop:
  assumes "free_ok hs" "i < length hs"
  shows "free_ok (take i hs @ drop (Suc i) hs)" "free_bytes (take i hs @ drop (Suc i) hs) = free_bytes hs - item_bytes (hs ! i)"
proof -
  have h: "hs = take i hs @ hs ! i # drop (Suc i) hs" using assms(2) by (rule id_take_nth_drop)
  show "free_ok (take i hs @ drop (Suc i) hs)"
    using assms(1) unfolding free_ok_def by (subst (asm) (1 2) h) (auto simp: sorted_wrt_append)
  have d: "distinct (take i hs @ hs ! i # drop (Suc i) hs)" using free_ok_apart [OF assms(1)] h by (simp add: apart_def)
  have "set (take i hs @ drop (Suc i) hs) = set hs - {hs ! i}"
    using d by (subst (3) h) auto
  moreover have "item_bytes b \<inter> item_bytes (hs ! i) = {}" if "b \<in> set hs - {hs ! i}" for b
    using free_ok_apart [OF assms(1)] assms(2) that by (auto simp: apart_def)
  ultimately show "free_bytes (take i hs @ drop (Suc i) hs) = free_bytes hs - item_bytes (hs ! i)"
    unfolding free_bytes_def using assms(2) by fastforce
qed

lemma heap_inv_resized:
  assumes inv: "heap_inv h G A" and G: "G a = Some n" and m: "0 < m" "unat a + m < 2 ^ 64" "grant a m \<subseteq> A"
    and act: "active_ok act (G(a \<mapsto> m))" and f: "free_ok f" "free_bytes f \<subseteq> A" "grant a m \<inter> free_bytes f = {}"
    and others: "\<And>b k. b \<noteq> a \<Longrightarrow> G b = Some k \<Longrightarrow> grant b k \<inter> (grant a m \<union> free_bytes f) = {}"
    and h': "heapFree h' = f" "heapActive h' = act"
  shows "heap_inv h' (G(a \<mapsto> m)) A"
proof -
  have "grants_ok (G(a \<mapsto> m)) A"
    using grants_okD(1) [OF heap_invD(3) [OF inv] G] m others
    by (intro grants_ok_upd [OF heap_invD(3) [OF inv]]) blast+
  then show ?thesis using act f others heap_invD(6,7) [OF inv] unfolding heap_inv_def h' by (auto split: if_splits) blast+
qed

lemma sint_pos: "0 < unat (w :: u32) \<Longrightarrow> unat w < 2 ^ 31 \<Longrightarrow> \<not> sint w \<le> 0"
proof -
  assume w: "0 < unat w" "unat w < 2 ^ 31"
  then have "uint w < 2 ^ 31" using of_nat_less_iff [of "unat w" "2 ^ 31", where 'a = int] by simp
  then have "signed_take_bit 31 (uint w) = uint w"
    using uint_ge_0 [of w] by (intro signed_take_bit_int_eq_self) linarith+
  then have "sint w = uint w" by (simp add: sint_uint)
  then show ?thesis using w by (simp add: unat_gt_0 uint_0_iff)
qed

lemma block_before:
  assumes "free_ok hs" "item_ok it" "item_bytes it \<inter> free_bytes hs = {}" "h \<in> set hs"
    "unat (item_addr h) + unat (item_length h) \<le> unat (item_addr it) + unat (item_length it)"
  shows "unat (item_addr h) + unat (item_length h) \<le> unat (item_addr it)"
proof (rule ccontr)
  assume n: "\<not> ?thesis"
  have "item_ok h" using assms(1,4) by (simp add: free_ok_def)
  then have "max (unat (item_addr h)) (unat (item_addr it)) \<in> item_bytes h \<inter> item_bytes it"
    using n assms(5) item_ok_length [of h] item_ok_length [OF assms(2)] by (auto simp: item_bytes_def max_def)
  then show False using assms(3) free_bytes_mem [OF assms(4)] by blast
qed

text \<open>The end of the block becomes free again: the free block behind it begins earlier, or there is a new one.\<close>

lemma shrunk_free:
  assumes hs: "free_ok hs" and it: "item_ok it" "item_bytes it \<inter> free_bytes hs = {}" and new: "new \<noteq> 0" "new < item_length it"
    and fit: "\<And>x n. grant x n \<subseteq> item_bytes it \<union> free_bytes hs \<Longrightarrow> n < 2 ^ 31"
  defines "tail \<equiv> grant (item_addr it + ucast new) (unat (item_length it - new))"
  defines "f \<equiv> (case free_at (item_end it) hs of
     Some i \<Rightarrow> hs[i := (hs ! i)\<lparr>item_addr := item_addr (hs ! i) - ucast (item_length it - new), item_length := item_length (hs ! i) + (item_length it - new)\<rparr>]
   | None \<Rightarrow> sort_by_addr (hs @ [\<lparr>item_addr = item_addr it + ucast new, item_length = item_length it - new, item_type = item_type it,
         item_dynamic = item_dynamic it, item_status = HEAPfree\<rparr>]))"
  shows "free_ok f" "free_bytes f = free_bytes hs \<union> tail"
proof -
  let ?shrink = "item_length it - new"
  have lt: "unat new < unat (item_length it)" using new(2) by (simp add: word_less_nat_alt)
  have len: "unat ?shrink = unat (item_length it) - unat new" using new(2) by (simp add: unat_sub order.strict_implies_order)
  have ad: "unat (item_addr it + ucast new) = unat (item_addr it) + unat new"
    using it(1) lt by (subst unat_add_u64) (simp_all add: item_ok_def)
  have tail: "tail = {unat (item_addr it) + unat new ..< unat (item_addr it) + unat (item_length it)}"
    using ad len lt by (simp add: tail_def grant_def)
  have sub: "tail \<subseteq> item_bytes it" unfolding tail by (auto simp: item_bytes_def)
  have e: "unat (item_end it) = unat (item_addr it) + unat (item_length it)" using unat_item_end [OF it(1)] .
  have "free_ok f \<and> free_bytes f = free_bytes hs \<union> tail"
  proof (cases "free_at (item_end it) hs")
    case None
    let ?new = "\<lparr>item_addr = item_addr it + ucast new, item_length = ?shrink, item_type = item_type it,
      item_dynamic = item_dynamic it, item_status = HEAPfree\<rparr>"
    have nb: "item_bytes ?new = tail" by (simp add: item_bytes_grant tail_def)
    have "unat (item_addr it + ucast new) \<noteq> 0" using ad new(1) by (simp add: unat_eq_0)
    then have "item_ok ?new" using it(1) ad len lt by (auto simp: item_ok_def word_unat_eq_iff)
    then show ?thesis using None nb sub it(2) free_ok_apart [OF hs] by (auto simp: f_def intro!: apart_sort apart_insert)
  next
    case (Some i)
    have i: "i < length hs" "item_addr (hs ! i) = item_end it" using free_at_spec [of hs "item_end it"] Some by simp_all
    let ?succ = "hs ! i"
    let ?s = "?succ\<lparr>item_addr := item_addr ?succ - ucast ?shrink, item_length := item_length ?succ + ?shrink\<rparr>"
    have sok: "item_ok ?succ" using hs i(1) by (simp add: free_ok_def)
    have sb: "item_bytes ?succ \<subseteq> free_bytes hs" using free_bytes_mem i(1) by simp
    have ad': "unat (item_addr ?succ - ucast ?shrink) = unat (item_addr it) + unat new"
      using i(2) e len lt by (subst unat_sub) (simp_all add: word_le_nat_alt)
    have "grant (item_addr it + ucast new) (unat ?shrink + unat (item_length ?succ)) \<subseteq> item_bytes it \<union> item_bytes ?succ"
      using ad len lt e i(2) by (auto simp: grant_def item_bytes_def)
    then have "unat ?shrink + unat (item_length ?succ) < 2 ^ 31" using fit sb by blast
    then have len': "unat (item_length ?succ + ?shrink) = unat (item_length ?succ) + unat ?shrink"
      by (intro unat_add_lem [THEN iffD1]) simp
    have b: "item_bytes ?s = item_bytes ?succ \<union> tail"
      using ad' len' len lt e i(2) unfolding tail by (auto simp: item_bytes_def)
    have "unat (item_addr ?s) \<noteq> 0" "unat (item_length ?s) \<noteq> 0" using ad' new(1) len' len lt by (simp_all add: unat_eq_0)
    moreover have "unat (item_addr ?s) + unat (item_length ?s) < 2 ^ 64" using sok ad' len' len lt e i(2) by (simp add: item_ok_def)
    ultimately have ok: "item_ok ?s" unfolding item_ok_def by (metis unat_0)
    have "item_bytes ?s \<inter> (free_bytes hs - item_bytes ?succ) = {}" using b sub it(2) by blast
    note u = apart_update [OF free_ok_apart [OF hs] i(1) ok this]
    have "item_addr (hs ! j) \<le> item_addr ?s" if "j < i" for j
    proof -
      have "unat (item_addr (hs ! j)) + unat (item_length (hs ! j)) \<le> unat (item_addr ?succ)" "hs ! j \<in> set hs"
        using hs that i(1) by (auto simp: free_ok_def sorted_wrt_iff_nth_less)
      then show ?thesis using block_before [OF hs it, of "hs ! j"] e i(2) ad' by (simp add: word_le_nat_alt)
    qed
    moreover have "item_addr ?s \<le> item_addr (hs ! j)" if "i < j" "j < length hs" for j
    proof -
      have "unat (item_addr ?succ) + unat (item_length ?succ) \<le> unat (item_addr (hs ! j))"
        using hs that by (auto simp: free_ok_def sorted_wrt_iff_nth_less)
      then show ?thesis using ad' lt e i(2) by (simp add: word_le_nat_alt)
    qed
    ultimately have "free_ok (hs[i := ?s])" using free_ok_update [OF hs i(1) u(1)] by blast
    moreover have "free_bytes (hs[i := ?s]) = free_bytes hs \<union> tail" using u(2) b sb by blast
    ultimately show ?thesis using Some by (simp add: f_def)
  qed
  then show "free_ok f" "free_bytes f = free_bytes hs \<union> tail" by blast+
qed

lemma arena_small:
  assumes "heap_inv h G A" "grant x k \<subseteq> A"
  shows "k < 2 ^ 31"
  using interval_card [OF assms(2) heap_invD(6) [OF assms(1)]] heap_invD(7) [OF assms(1)] by (rule le_less_trans)

lemma inferiorShrinkBlock_spec:
  assumes inv: "heap_inv h G A" and it: "map_of (heapActive h) block = Some it" and new: "new \<noteq> 0" "new < item_length it"
  shows "\<exists>h'. inferiorShrinkBlock it block new h = Inr (True, h') \<and> heap_inv h' (G(block \<mapsto> unat new)) A"
proof -
  from active_item [OF inv it] obtain n where n: "G block = Some n" "item_addr it = block" "item_ok it" "unat (item_length it) \<le> n"
      "item_bytes it \<subseteq> grant block n" "item_bytes it \<inter> free_bytes (heapFree h) = {}" .
  note I = heap_invD [OF inv] and g = grants_okD [OF heap_invD(3) [OF inv] n(1)]
  have lt: "unat new < unat (item_length it)" using new(2) by (simp add: word_less_nat_alt)
  have len: "unat (item_length it - new) = unat (item_length it) - unat new" using new(2) by (simp add: unat_sub order.strict_implies_order)
  have arena: "item_bytes it \<union> free_bytes (heapFree h) \<subseteq> A" using n(5) g(4) I(4) by blast
  have "unat (item_length it) < 2 ^ 31" using arena_small [OF inv, of block] arena n(2) by (simp add: item_bytes_grant)
  then have pos: "\<not> sint (item_length it - new) \<le> 0" using len lt by (intro sint_pos) simp_all
  let ?tail = "grant (item_addr it + ucast new) (unat (item_length it - new))"
  obtain f where f: "inferiorShrinkBlock it block new h = Inr (True, h\<lparr>heapActive := AList.update block (it\<lparr>item_length := new\<rparr>) (heapActive h),
        heapFree := f, totalFreeMemAvailable := totalFreeMemAvailable h + (item_length it - new), freed := freed h + (item_length it - new)\<rparr>)"
      "free_ok f" "free_bytes f = free_bytes (heapFree h) \<union> ?tail"
    using shrunk_free [OF I(1) n(3,6) new] arena_small [OF inv] arena pos n(2)
    by (fastforce simp: inferiorShrinkBlock_def Let_def cong: option.case_cong)
  have ad: "unat (item_addr it + ucast new) = unat (item_addr it) + unat new"
    using n(3) lt by (subst unat_add_u64) (simp_all add: item_ok_def)
  have t: "?tail \<subseteq> item_bytes it" "grant block (unat new) \<inter> ?tail = {}" "grant block (unat new) \<subseteq> item_bytes it"
    using ad len lt n(2) by (auto simp: grant_def item_bytes_def)
  have "heap_inv (h\<lparr>heapActive := AList.update block (it\<lparr>item_length := new\<rparr>) (heapActive h), heapFree := f,
      totalFreeMemAvailable := totalFreeMemAvailable h + (item_length it - new), freed := freed h + (item_length it - new)\<rparr>)
      (G(block \<mapsto> unat new)) A"
  proof (rule heap_inv_resized [OF inv n(1)])
    show "active_ok (AList.update block (it\<lparr>item_length := new\<rparr>) (heapActive h)) (G(block \<mapsto> unat new))"
      using new(1) n(2) by (intro active_ok_upd [OF I(2)]) simp_all
    show "grant b k \<inter> (grant block (unat new) \<union> free_bytes f) = {}" if "b \<noteq> block" "G b = Some k" for b k
      using g(5) [OF that(2)] that(1) I(5) [OF that(2)] t n(5) f(3) by blast
  qed (use f t n g(3) arena new(1) lt in \<open>auto simp: unat_gt_0\<close>)
  then show ?thesis using f(1) by blast
qed

text \<open>The free block behind gives its first bytes away, or disappears.\<close>

definition cut_front :: "nat \<Rightarrow> u32 \<Rightarrow> heapItem list \<Rightarrow> heapItem list" where
  "cut_front i k hs = (if item_length (hs ! i) = k then take i hs @ drop (Suc i) hs
     else hs[i := (hs ! i)\<lparr>item_addr := item_addr (hs ! i) + ucast k, item_length := item_length (hs ! i) - k\<rparr>])"

lemma cut_front_spec:
  assumes hs: "free_ok hs" "i < length hs" and k: "k \<noteq> 0" "k \<le> item_length (hs ! i)"
  shows "free_ok (cut_front i k hs)" "free_bytes (cut_front i k hs) = free_bytes hs - grant (item_addr (hs ! i)) (unat k)"
proof -
  let ?h = "hs ! i" and ?g = "grant (item_addr (hs ! i)) (unat k)"
  have "free_ok (cut_front i k hs) \<and> free_bytes (cut_front i k hs) = free_bytes hs - ?g"
  proof (cases "item_length ?h = k")
    case True
    then show ?thesis using free_ok_drop [OF hs] by (simp add: cut_front_def item_bytes_grant)
  next
    case False
    let ?s = "?h\<lparr>item_addr := item_addr ?h + ucast k, item_length := item_length ?h - k\<rparr>"
    have t: "take_free i k hs = hs[i := ?s]" "cut_front i k hs = hs[i := ?s]" using False by (simp_all add: take_free_def cut_front_def Let_def)
    note ap = free_ok_apart [OF hs(1)]
    have ok: "item_ok ?h" and order: "unat (item_addr (hs ! j)) + unat (item_length (hs ! j)) \<le> unat (item_addr (hs ! l))"
      if "j < l" "l < length hs" for j l using hs that by (auto simp: free_ok_def sorted_wrt_iff_nth_less)
    have kk: "unat k \<le> unat (item_length ?h)" using k(2) by (simp add: word_le_nat_alt)
    have "item_ok ?h" using ap hs(2) by (simp add: apart_def)
    then have ad: "unat (item_addr ?h + ucast k) = unat (item_addr ?h) + unat k"
      using kk by (subst unat_add_u64) (simp_all add: item_ok_def)
    have "item_addr (hs ! j) \<le> item_addr ?s" if "j < i" for j using order [OF that hs(2)] ad by (simp add: word_le_nat_alt)
    moreover have "item_addr ?s \<le> item_addr (hs ! j)" if "i < j" "j < length hs" for j
      using order [OF that] ad kk by (simp add: word_le_nat_alt)
    ultimately have "free_ok (hs[i := ?s])" using free_ok_update [OF hs] take_free_spec(1) [OF ap hs(2) k] t by metis
    then show ?thesis using take_free_spec(2) [OF ap hs(2) k] t by simp
  qed
  then show "free_ok (cut_front i k hs)" "free_bytes (cut_front i k hs) = free_bytes hs - ?g" by blast+
qed

lemma nonempty_cut:
  assumes "free_ok hs" "i < length hs" "item_length h = 0"
  shows "nonempty (hs[i := h]) = take i hs @ drop (Suc i) hs"
proof -
  have "hs[i := h] = take i hs @ h # drop (Suc i) hs" using assms(2) by (rule upd_conv_take_nth_drop)
  moreover have "\<forall>x \<in> set hs. item_length x \<noteq> 0" using assms(1) by (simp add: free_ok_def item_ok_def)
  then have "nonempty (take i hs) = take i hs" "nonempty (drop (Suc i) hs) = drop (Suc i) hs"
    by (auto intro!: filter_True dest: in_set_takeD in_set_dropD)
  ultimately show ?thesis using assms(3) by simp
qed

lemma inferiorExpandBlock_cut:
  assumes hs: "free_ok (heapFree h)" and pos: "\<not> sint (new - item_length it) \<le> 0" "new - item_length it \<noteq> 0"
  shows "inferiorExpandBlock it new h = Inr (case free_at (item_end it) (heapFree h) of
      None \<Rightarrow> (False, h)
    | Some i \<Rightarrow> if item_length (heapFree h ! i) < new - item_length it then (False, h)
        else (True, h\<lparr>heapFree := cut_front i (new - item_length it) (heapFree h),
               totalFreeMemAvailable := totalFreeMemAvailable h - (new - item_length it)\<rparr>))"
proof (cases "free_at (item_end it) (heapFree h)")
  case None
  then show ?thesis using pos by (simp add: inferiorExpandBlock_def Let_def)
next
  case (Some i)
  have i: "i < length (heapFree h)" "item_addr (heapFree h ! i) = item_end it" using free_at_spec [of "heapFree h" "item_end it"] Some by simp_all
  show ?thesis using Some pos i nonempty_cut [OF hs i(1)] by (auto simp: inferiorExpandBlock_def Let_def cut_front_def)
qed

lemma inferiorExpandBlock_spec:
  assumes inv: "heap_inv h G A" and it: "map_of (heapActive h) block = Some it" and new: "item_length it < new" "unat new < 2 ^ 31"
  shows "\<exists>b h'. inferiorExpandBlock it new h = Inr (b, h') \<and> heapActive h' = heapActive h
    \<and> (if b then heap_inv h' (G(block \<mapsto> unat new)) A else h' = h)"
proof -
  from active_item [OF inv it] obtain n where n: "G block = Some n" "item_addr it = block" "item_ok it" "unat (item_length it) \<le> n"
      "item_bytes it \<subseteq> grant block n" "item_bytes it \<inter> free_bytes (heapFree h) = {}" .
  note I = heap_invD [OF inv] and g = grants_okD [OF heap_invD(3) [OF inv] n(1)]
  let ?k = "new - item_length it"
  have lt: "unat (item_length it) < unat new" using new(1) by (simp add: word_less_nat_alt)
  have len: "unat ?k = unat new - unat (item_length it)" using new(1) by (simp add: unat_sub order.strict_implies_order)
  then have pos: "\<not> sint ?k \<le> 0" "?k \<noteq> 0" using lt new(2) sint_pos [of ?k] by auto
  note ex = inferiorExpandBlock_cut [OF I(1) pos]
  show ?thesis
  proof (cases "\<exists>i. free_at (item_end it) (heapFree h) = Some i \<and> \<not> item_length (heapFree h ! i) < ?k")
    case False
    then show ?thesis using ex by (auto split: option.splits)
  next
    case True
    then obtain i where i: "free_at (item_end it) (heapFree h) = Some i" "?k \<le> item_length (heapFree h ! i)" by (auto simp: not_less)
    have j: "i < length (heapFree h)" "item_addr (heapFree h ! i) = item_end it"
      using free_at_spec [of "heapFree h" "item_end it"] i(1) by simp_all
    note c = cut_front_spec [OF I(1) j(1) pos(2) i(2)]
    have e: "unat (item_end it) = unat block + unat (item_length it)" using unat_item_end [OF n(3)] n(2) by simp
    let ?more = "grant (item_end it) (unat ?k)"
    have more: "?more \<subseteq> item_bytes (heapFree h ! i)" using j(2) i(2) by (auto simp: grant_def item_bytes_def word_le_nat_alt)
    then have more': "?more \<subseteq> free_bytes (heapFree h)" using free_bytes_mem [OF nth_mem [OF j(1)]] by (rule order.trans)
    have gr: "grant block (unat new) = item_bytes it \<union> ?more" using e len lt n(2) by (auto simp: grant_def item_bytes_def)
    have "unat block + unat new < 2 ^ 64"
      using I(1) j e len lt i(2) by (auto simp: free_ok_def item_ok_def word_le_nat_alt dest!: bspec [OF _ nth_mem [OF j(1)]])
    then have "heap_inv (h\<lparr>heapFree := cut_front i ?k (heapFree h), totalFreeMemAvailable := totalFreeMemAvailable h - ?k\<rparr>) (G(block \<mapsto> unat new)) A"
    proof (intro heap_inv_resized [OF inv n(1)])
      show "active_ok (heapActive h) (G(block \<mapsto> unat new))"
        using I(2) lt it unfolding active_ok_def by (auto simp: dom_def split: if_splits)
      show "grant b k \<inter> (grant block (unat new) \<union> free_bytes (cut_front i ?k (heapFree h))) = {}" if "b \<noteq> block" "G b = Some k" for b k
        using g(5) [OF that(2)] that(1) I(5) [OF that(2)] more' n(5) gr unfolding c(2) by blast
    qed (use c gr more' n(5,6) g(4) I(4) j(2) lt in auto)
    then show ?thesis using ex i by (auto simp: not_less)
  qed
qed

text \<open>\<^verbatim>\<open>inferiorReallocInternal\<close> either keeps everything as it is and says so, or the block has the new size.\<close>

lemma inferiorReallocInternal_spec:
  assumes inv: "heap_inv h G A" and new: "inferiorMallocAlign width sz = new" "new \<noteq> 0" "unat new < 2 ^ 31"
  shows "\<exists>b h'. inferiorReallocInternal width block sz h = Inr (b, h')
    \<and> (if b then G block \<noteq> None \<and> heap_inv h' (G(block \<mapsto> unat new)) A else h' = h)"
proof (cases "map_of (heapActive h) block")
  case None
  then have "inferiorReallocInternal width block sz h = Inr (False, h)" by (simp add: inferiorReallocInternal_def)
  then show ?thesis by auto
next
  case (Some it)
  from active_item [OF inv Some] obtain n where n: "G block = Some n" "item_addr it = block" "item_ok it" "unat (item_length it) \<le> n"
      "item_bytes it \<subseteq> grant block n" "item_bytes it \<inter> free_bytes (heapFree h) = {}" .
  consider "item_length it = new" | "new < item_length it" | "item_length it < new" by fastforce
  then show ?thesis
  proof cases
    case 1
    have "heap_inv h (G(block \<mapsto> unat new)) A"
    proof (rule heap_inv_resized [OF inv n(1)])
      show "active_ok (heapActive h) (G(block \<mapsto> unat new))"
        using heap_invD(2) [OF inv] Some 1 unfolding active_ok_def by (auto simp: dom_def split: if_splits)
      show "grant b k \<inter> (grant block (unat new) \<union> free_bytes (heapFree h)) = {}" if "b \<noteq> block" "G b = Some k" for b k
        using grants_okD(5) [OF heap_invD(3) [OF inv] n(1) that(2)] that(1) heap_invD(5) [OF inv that(2)] n(2,5) 1
        by (auto simp: item_bytes_grant)
    qed (use 1 n new heap_invD(1,4) [OF inv] grants_okD(3,4) [OF heap_invD(3) [OF inv] n(1)] in \<open>auto simp: item_bytes_grant unat_gt_0\<close>)
    moreover have "inferiorReallocInternal width block sz h = Inr (True, h)" using 1 Some new(1) by (simp add: inferiorReallocInternal_def)
    ultimately show ?thesis using n(1) by auto
  next
    case 2
    then show ?thesis using inferiorShrinkBlock_spec [OF inv Some new(2) 2] Some new(1) n(1) by (auto simp: inferiorReallocInternal_def)
  next
    case 3
    then have "inferiorReallocInternal width block sz h = inferiorExpandBlock it new h"
      using Some new(1) by (auto simp: inferiorReallocInternal_def)
    moreover obtain b h' where "inferiorExpandBlock it new h = Inr (b, h')"
        "if b then heap_inv h' (G(block \<mapsto> unat new)) A else h' = h"
      using inferiorExpandBlock_spec [OF inv Some 3 new(3)] by blast
    ultimately show ?thesis using n(1) by (auto split: if_splits)
  qed
qed

subsection \<open>More memory\<close>

lemma grants_ok_mono: "grants_ok G A \<Longrightarrow> A \<subseteq> A' \<Longrightarrow> grants_ok G A'"
  unfolding grants_ok_def by blast

lemma addHeap_spec:
  assumes inv: "heap_inv h G A" and it: "item_ok it" "item_bytes it \<inter> A = {}" and card: "card (A \<union> item_bytes it) < 2 ^ 31"
  shows "heap_inv (addHeap it h) G (A \<union> item_bytes it)" "free_bytes (heapFree (addHeap it h)) = free_bytes (heapFree h) \<union> item_bytes it"
proof -
  note I = heap_invD [OF inv]
  let ?it = "it\<lparr>item_status := HEAPfree\<rparr>"
  have b: "item_bytes ?it = item_bytes it" by (simp add: item_bytes_def)
  have "free_ok (sort_by_addr (heapFree h @ [?it]))"
    using it I(4) free_ok_apart [OF I(1)] by (intro apart_sort apart_insert) (auto simp: b item_ok_def)
  moreover have "grant a n \<inter> item_bytes it = {}" if "G a = Some n" for a n
    using grants_okD(4) [OF I(3) that] it(2) by blast
  moreover have "finite (item_bytes it)" by (simp add: item_bytes_def)
  ultimately show "heap_inv (addHeap it h) G (A \<union> item_bytes it)"
    using I(2,4,5,6) grants_ok_mono [OF I(3)] card b by (simp add: heap_inv_def addHeap_def Int_Un_distrib le_supI1)
  show "free_bytes (heapFree (addHeap it h)) = free_bytes (heapFree h) \<union> item_bytes it" using b by (simp add: addHeap_def)
qed

lemma new_heap_inv: "heap_inv new_heap Map.empty {}"
  by (simp add: heap_inv_def new_heap_def active_ok_def grants_ok_def)

text \<open>Rounding up to the word size, 4 or 8.\<close>

lemma round_down_u32: "k < 32 \<Longrightarrow> unat ((a :: u32) AND NOT (2 ^ k - 1)) = unat a div 2 ^ k * 2 ^ k"
proof -
  assume k: "k < 32"
  have "a AND NOT (2 ^ k - 1) = push_bit k (drop_bit k a)"
    by (rule bit_word_eqI) (auto simp: bit_simps simp flip: mask_eq_exp_minus_1)
  moreover have "take_bit 32 (unat a) = unat a" using unat_u32_less [of a] by (simp add: take_bit_nat_eq_self)
  ultimately have "unat (a AND NOT (2 ^ k - 1)) = take_bit 32 (push_bit k (drop_bit k (unat a)))"
    by (simp add: unsigned_push_bit_eq unsigned_drop_bit_eq)
  moreover have "unat a div 2 ^ k * 2 ^ k < 2 ^ 32" using le_less_trans [OF div_times_less_eq_dividend] unat_u32_less [of a] by simp
  ultimately show ?thesis by (simp add: push_bit_eq_mult drop_bit_eq_div take_bit_nat_eq_self)
qed

lemma inferiorMallocAlign_ge:
  assumes k: "k < 32" and sz: "unat sz + 2 ^ k \<le> 2 ^ 32"
  shows "unat sz \<le> unat (inferiorMallocAlign (2 ^ k) sz)" "unat (inferiorMallocAlign (2 ^ k) sz) < unat sz + 2 ^ k"
    "2 ^ k dvd unat (inferiorMallocAlign (2 ^ k) sz)"
proof -
  have "(2 :: nat) ^ k < 2 ^ 32" using k by (rule power_strict_increasing) simp
  moreover have "unat (2 ^ k :: u32) = take_bit 32 (2 ^ k)"
    using unat_of_nat [of "2 ^ k", where ?'a = 32] by (simp add: take_bit_eq_mod)
  ultimately have p: "unat (2 ^ k :: u32) = 2 ^ k" using k by (simp add: take_bit_nat_eq_self)
  then have "unat (2 ^ k - 1 :: u32) = 2 ^ k - 1" by (subst unat_sub) (simp_all add: word_le_nat_alt)
  then have s: "unat (sz + (2 ^ k - 1)) = unat sz + (2 ^ k - 1)"
    using sz by (subst unat_add_lem [THEN iffD1]) simp_all
  have r: "unat (inferiorMallocAlign (2 ^ k) sz) = (unat sz + (2 ^ k - 1)) div 2 ^ k * 2 ^ k"
    unfolding inferiorMallocAlign_def round_down_u32 [OF k] s ..
  show "2 ^ k dvd unat (inferiorMallocAlign (2 ^ k) sz)" unfolding r by simp
  have "(unat sz + (2 ^ k - 1)) mod 2 ^ k < 2 ^ k" by simp
  moreover have "(unat sz + (2 ^ k - 1)) div 2 ^ k * 2 ^ k + (unat sz + (2 ^ k - 1)) mod 2 ^ k = unat sz + (2 ^ k - 1)" by (rule div_mult_mod_eq)
  moreover have "(0 :: nat) < 2 ^ k" by simp
  ultimately show "unat sz \<le> unat (inferiorMallocAlign (2 ^ k) sz)" "unat (inferiorMallocAlign (2 ^ k) sz) < unat sz + 2 ^ k"
    unfolding r by linarith+
qed

subsection \<open>Blocks of one type\<close>

text \<open>When all memory is of the type that serves every request, no operation makes memory of another type.\<close>

definition all_any :: "heapItem list \<Rightarrow> bool" where
  "all_any hs \<longleftrightarrow> (\<forall>it \<in> set hs. item_type it = anyHeap)"

definition plain_heap :: "inferiorHeap \<Rightarrow> bool" where
  "plain_heap h \<longleftrightarrow> all_any (heapFree h) \<and> all_any (map snd (heapActive h))"

lemma all_any_simps [simp]: "all_any []" "all_any (it # hs) \<longleftrightarrow> item_type it = anyHeap \<and> all_any hs"
  "all_any (hs @ hs') \<longleftrightarrow> all_any hs \<and> all_any hs'" "all_any (sort_by_addr hs) = all_any hs"
  by (auto simp: all_any_def sort_by_addr_def)

lemma all_any_subset: "all_any hs \<Longrightarrow> set hs' \<subseteq> set hs \<Longrightarrow> all_any hs'"
  by (auto simp: all_any_def)

lemma all_any_nth: "all_any hs \<Longrightarrow> i < length hs \<Longrightarrow> item_type (hs ! i) = anyHeap"
  by (simp add: all_any_def)

lemma all_any_update: "all_any hs \<Longrightarrow> item_type it = anyHeap \<Longrightarrow> all_any (hs[i := it])"
  using set_update_subset_insert [of hs i it] by (auto simp: all_any_def)

lemma all_any_active: "all_any (map snd act) \<Longrightarrow> item_type it = anyHeap \<Longrightarrow> all_any (map snd (AList.update a it act))"
  by (induction act) auto

lemma plain_new_heap: "plain_heap new_heap"
  by (simp add: plain_heap_def new_heap_def)

lemma take_free_plain:
  assumes "all_any hs" "i < length hs"
  shows "all_any (take_free i sz hs)"
proof -
  have "hs \<noteq> []" using assms(2) by auto
  then have "set (butlast (hs[i := last hs])) \<subseteq> set hs" by (auto dest!: in_set_butlastD set_update_subset_insert [THEN subsetD])
  then have "all_any (butlast (hs[i := last hs]))" by (rule all_any_subset [OF assms(1)])
  then show ?thesis using all_any_update [OF assms(1)] all_any_nth [OF assms] by (simp add: take_free_def Let_def)
qed

lemma plain_malloc:
  assumes "inferiorMallocInternal sz lo hi ty h = Inr (a, h')" "plain_heap h"
  shows "plain_heap h'"
proof (cases "findFreeIndex sz ty lo hi (heapFree h)")
  case (Some i)
  have i: "i < length (heapFree h)" using findFreeIndex_spec [of sz ty lo hi "heapFree h"] Some by (simp add: best_of_def)
  have free: "all_any (heapFree h)" "all_any (map snd (heapActive h))" using assms(2) by (simp_all add: plain_heap_def)
  show ?thesis using assms(1) Some take_free_plain [OF free(1) i] all_any_active [OF free(2)] all_any_nth [OF free(1) i]
    by (auto simp: inferiorMallocInternal_def Let_def plain_heap_def split: if_splits)
qed (use assms in \<open>simp add: inferiorMallocInternal_def\<close>)

lemma plain_active: "plain_heap h \<Longrightarrow> map_of (heapActive h) a = Some it \<Longrightarrow> item_type it = anyHeap"
  by (auto simp: plain_heap_def all_any_def dest!: map_of_SomeD)

lemma plain_free: "plain_heap h \<Longrightarrow> plain_heap (inferiorFreeInternal a h)"
proof -
  assume h: "plain_heap h"
  have "set (map snd (AList.delete a (heapActive h))) \<subseteq> set (map snd (heapActive h))" by (auto simp: AList.delete_eq)
  moreover have "all_any (map snd (heapActive h))" using h by (simp add: plain_heap_def)
  ultimately have "all_any (map snd (AList.delete a (heapActive h)))" using all_any_subset by blast
  then show ?thesis using h plain_active [OF h, of a] by (simp add: inferiorFreeInternal_def plain_heap_def split: option.split)
qed

lemma compact_pass_plain: "compact_pass hs n c = Inr (hs', n', c') \<Longrightarrow> all_any hs \<Longrightarrow> all_any hs'"
proof (induction hs n c arbitrary: hs' n' c' rule: compact_pass.induct)
  case (1 h1 h2 hs n c)
  then show ?case by (auto simp: and_then_Inr split: if_splits)
qed auto

lemma plain_compact:
  assumes "inferiorFreeCompact h = Inr h'" "plain_heap h"
  shows "plain_heap h'"
proof -
  obtain hs n c where c: "compact_pass (sort_by_addr (heapFree h)) (length (heapFree h)) False = Inr (hs, n, c)"
    using assms(1) by (auto simp: inferiorFreeCompact_def and_then_Inr sort_by_addr_def)
  have "all_any hs" using compact_pass_plain [OF c] assms(2) by (simp add: plain_heap_def)
  moreover have "heapActive h' = heapActive h" "set (heapFree h') \<subseteq> set hs"
    using assms(1) c by (auto simp: inferiorFreeCompact_def sort_by_addr_def Let_def split: if_splits)
  ultimately show ?thesis using assms(2) all_any_subset by (auto simp: plain_heap_def)
qed

lemma plain_addHeap: "plain_heap h \<Longrightarrow> item_type it = anyHeap \<Longrightarrow> plain_heap (addHeap it h)"
  by (simp add: plain_heap_def addHeap_def)

lemma plain_free_at: "plain_heap h \<Longrightarrow> free_at a (heapFree h) = Some i \<Longrightarrow> item_type (heapFree h ! i) = anyHeap"
  using free_at_spec [where a = a and hs = "heapFree h"] by (auto simp: plain_heap_def intro: all_any_nth)

lemma plain_shrink:
  assumes s: "inferiorShrinkBlock it block n h = Inr (b, h')" and h: "plain_heap h" "item_type it = anyHeap"
  shows "plain_heap h'"
proof -
  note p = h(1) [unfolded plain_heap_def, THEN conjunct1] h(1) [unfolded plain_heap_def, THEN conjunct2]
  have act: "all_any (map snd (AList.update block (it\<lparr>item_length := n\<rparr>) (heapActive h)))" using h(2) by (intro all_any_active [OF p(2)]) simp
  show ?thesis
  proof (cases "free_at (item_end it) (heapFree h)")
    case None
    then show ?thesis using s h(2) p act by (auto simp: inferiorShrinkBlock_def plain_heap_def Let_def split: if_splits)
  next
    case (Some i)
    then show ?thesis using s p(1) act plain_free_at [OF h(1) Some] all_any_update [OF p(1)]
      by (auto simp: inferiorShrinkBlock_def plain_heap_def Let_def split: if_splits)
  qed
qed

lemma plain_expand:
  assumes e: "inferiorExpandBlock it n h = Inr (b, h')" and h: "plain_heap h"
  shows "plain_heap h'"
proof (cases "free_at (item_end it) (heapFree h)")
  case (Some i)
  let ?free = "\<lambda>a l. (heapFree h)[i := (heapFree h ! i)\<lparr>item_addr := a, item_length := l\<rparr>]"
  have u: "all_any (?free a l)" for a :: u64 and l :: u32
    using h plain_free_at [OF h Some] by (intro all_any_update) (simp_all add: plain_heap_def)
  have "all_any (take m (filter P (?free a l)))" for m P a l
    by (rule all_any_subset [OF u [where a = a and l = l]]) (auto dest!: in_set_takeD)
  then show ?thesis using e h Some u by (auto simp: inferiorExpandBlock_def plain_heap_def Let_def split: if_splits)
qed (use e h in \<open>auto simp: inferiorExpandBlock_def Let_def split: if_splits\<close>)

lemma plain_realloc:
  assumes "inferiorReallocInternal width a n h = Inr (b, h')" "plain_heap h"
  shows "plain_heap h'"
proof (cases "map_of (heapActive h) a")
  case (Some it)
  then have "item_type it = anyHeap" using plain_active [OF assms(2)] by simp
  then show ?thesis using assms Some plain_shrink plain_expand
    by (auto simp: inferiorReallocInternal_def Let_def split: if_splits)
qed (use assms in \<open>simp add: inferiorReallocInternal_def\<close>)

subsection \<open>What the users of the heap rely on\<close>

text \<open>Users ask for memory, give it back and ask for another size.  \<open>grants\<close> says what they hold; \<open>budget\<close> is what may still be asked for
  before the 32-bit sizes of the implementation could overflow, and \<open>cost\<close> what a request takes from it.\<close>

datatype memory_request = Get u32 | Give u64 | Change u64 u32

datatype memory_answer = Got u64 | Given | Changed bool

text \<open>A user returns and changes only what it holds.\<close>

fun honest :: "memory_request \<Rightarrow> (u64 \<rightharpoonup> nat) \<Rightarrow> bool" where
  "honest (Get n) G \<longleftrightarrow> n \<noteq> 0"
| "honest (Give a) G \<longleftrightarrow> a \<in> dom G"
| "honest (Change a n) G \<longleftrightarrow> a \<in> dom G \<and> n \<noteq> 0"

text \<open>What a user holds after an answer; \<open>rounded\<close> is the size that a request is rounded up to.\<close>

fun held :: "(u32 \<Rightarrow> nat) \<Rightarrow> (u64 \<rightharpoonup> nat) \<Rightarrow> memory_request \<Rightarrow> memory_answer \<Rightarrow> u64 \<rightharpoonup> nat" where
  "held rounded G (Get n) (Got a) = (if a = 0 then G else G(a \<mapsto> rounded n))"
| "held rounded G (Change a n) (Changed b) = (if b then G(a \<mapsto> rounded n) else G)"
| "held rounded G (Give a) Given = G(a := None)"
| "held rounded G _ _ = G"

text \<open>The specification of an answer: a new block is outside every block that is held, and so is a block that changed its size.\<close>

inductive serves :: "(u32 \<Rightarrow> nat) \<Rightarrow> (u64 \<rightharpoonup> nat) \<Rightarrow> memory_request \<Rightarrow> memory_answer \<Rightarrow> bool" for rounded G where
  refuse: "serves rounded G (Get n) (Got 0)"
| get: "a \<noteq> 0 \<Longrightarrow> G a = None \<Longrightarrow> unat n \<le> rounded n \<Longrightarrow> (\<And>b k. G b = Some k \<Longrightarrow> grant a (rounded n) \<inter> grant b k = {})
    \<Longrightarrow> serves rounded G (Get n) (Got a)"
| give: "serves rounded G (Give a) Given"
| keep: "serves rounded G (Change a n) (Changed False)"
| change: "unat n \<le> rounded n \<Longrightarrow> (\<And>b k. b \<noteq> a \<Longrightarrow> G b = Some k \<Longrightarrow> grant a (rounded n) \<inter> grant b k = {})
    \<Longrightarrow> serves rounded G (Change a n) (Changed True)"

definition separate :: "(u64 \<rightharpoonup> nat) \<Rightarrow> bool" where
  "separate G \<longleftrightarrow> (\<forall>a b n m. G a = Some n \<and> G b = Some m \<and> a \<noteq> b \<longrightarrow> grant a n \<inter> grant b m = {})"

lemma separate_upd: "separate G \<Longrightarrow> (\<And>b k. b \<noteq> a \<Longrightarrow> G b = Some k \<Longrightarrow> grant a m \<inter> grant b k = {}) \<Longrightarrow> separate (G(a \<mapsto> m))"
  unfolding separate_def by (simp add: Int_commute)

lemma serves_separate: "serves rounded G r x \<Longrightarrow> separate G \<Longrightarrow> separate (held rounded G r x)"
proof (induction rule: serves.induct)
  case (give a)
  then show ?case by (simp add: separate_def)
qed (auto intro!: separate_upd)

text \<open>A session: requests one after the other, until one is not honest.  It ends with the state and what is held.\<close>

fun memory_session :: "(u32 \<Rightarrow> nat) \<Rightarrow> (memory_request \<Rightarrow> 's \<Rightarrow> fault + memory_answer \<times> 's) \<Rightarrow> memory_request list \<Rightarrow> 's
    \<Rightarrow> (u64 \<rightharpoonup> nat) \<Rightarrow> fault + 's \<times> (u64 \<rightharpoonup> nat)" where
  "memory_session rounded step [] s G = Inr (s, G)"
| "memory_session rounded step (r # rs) s G =
     (if honest r G then and_then (step r s) (\<lambda>(x, s'). memory_session rounded step rs s' (held rounded G r x)) else Inr (s, G))"

locale inferior_memory =
  fixes inv :: "'s \<Rightarrow> (u64 \<rightharpoonup> nat) \<Rightarrow> nat \<Rightarrow> bool"
    and rounded :: "u32 \<Rightarrow> nat"
    and cost :: "memory_request \<Rightarrow> nat"
    and step :: "memory_request \<Rightarrow> 's \<Rightarrow> fault + memory_answer \<times> 's"
  assumes served: "inv s G budget \<Longrightarrow> honest r G \<Longrightarrow> cost r \<le> budget
      \<Longrightarrow> \<exists>x s'. step r s = Inr (x, s') \<and> serves rounded G r x \<and> inv s' (held rounded G r x) (budget - cost r)"
    and separated: "inv s G budget \<Longrightarrow> separate G"
begin

lemma session_safe:
  assumes "inv s G budget" "sum_list (map cost rs) \<le> budget"
  shows "\<exists>s' G' left. memory_session rounded step rs s G = Inr (s', G') \<and> inv s' G' left \<and> separate G' \<and> budget \<le> left + sum_list (map cost rs)"
  using assms
proof (induction rs arbitrary: s G budget)
  case Nil
  then show ?case using separated by auto
next
  case (Cons r rs)
  show ?case
  proof (cases "honest r G")
    case True
    then obtain x s' where x: "step r s = Inr (x, s')" "inv s' (held rounded G r x) (budget - cost r)"
      using served [OF Cons.prems(1) True] Cons.prems(2) by auto
    then show ?thesis using Cons.IH [OF x(2)] Cons.prems(2) True by fastforce
  next
    case False
    then show ?thesis using Cons.prems(1) separated by fastforce
  qed
qed

end

subsection \<open>A block that grew is freed with its old size\<close>

text \<open>\<^verbatim>\<open>inferiorExpandBlock\<close> takes bytes from the free block behind but leaves the length of the block as it was: a block of 16 bytes that
  grew to 32 and is freed gives back 16, the other 16 belong to nobody from then on; and it cannot grow a second time.\<close>

definition one_segment :: inferiorHeap where
  "one_segment = addHeap \<lparr>item_addr = 0x1000, item_length = 64, item_type = anyHeap, item_dynamic = True, item_status = HEAPfree\<rparr> new_heap"

definition grown :: "fault + bool \<times> inferiorHeap" where
  "grown = and_then (inferiorMallocInternal 16 0 (- 1) anyHeap one_segment) (\<lambda>(a, h). inferiorReallocInternal 8 a 32 h)"

lemma grown_block_leaks:
  "case grown of
     Inl _ \<Rightarrow> False
   | Inr (done, h) \<Rightarrow> done
       \<and> map (\<lambda>it. (item_addr it, item_length it)) (heapFree (inferiorFreeInternal 0x1000 h)) = [(0x1000, 16), (0x1020, 32)]
       \<and> (case inferiorReallocInternal 8 0x1000 48 h of Inl _ \<Rightarrow> False | Inr (again, _) \<Rightarrow> \<not> again)"
  by code_simp

end
