(* ===== verification/Binary_Edit.thy ===== *)
theory Binary_Edit
  imports Code_Range Inferior_Heap
begin

section \<open>Dyninst's binaryEdit.C: the address space of a file that is rewritten\<close>

text \<open>
  A \<^verbatim>\<open>BinaryEdit\<close> stands for a program that is instrumented on disk.  Its address space does not exist: the tree of
  \<^verbatim>\<open>memoryTracker\<close>s has a buffer for every section of the file and for every block that was allocated, and reads and writes
  go to these buffers.  New memory is taken at \<^verbatim>\<open>highWaterMark_\<close>, which starts behind the last section at
  \<^verbatim>\<open>lowWaterMark_\<close>.  A byte of a buffer that nobody has written yet is \<open>None\<close>.
\<close>

record memoryTracker = codeRange +
  alloced :: bool
  dirty :: bool
  local_buf :: "u8 option list"
  deleted :: bool

definition new_tracker :: "u64 \<Rightarrow> u32 \<Rightarrow> memoryTracker" where
  "new_tracker a s = \<lparr>get_address = a, get_size = s, alloced = False, dirty = False, local_buf = replicate (unat s) None, deleted = False\<rparr>"

definition section_tracker :: "u64 \<Rightarrow> u32 \<Rightarrow> u8 list \<Rightarrow> memoryTracker" where
  "section_tracker a s b = (new_tracker a s)\<lparr>local_buf := map Some (take (unat s) b)\<rparr>"

definition tracker_realloc :: "u32 \<Rightarrow> memoryTracker \<Rightarrow> memoryTracker" where
  "tracker_realloc newsize mt = mt\<lparr>local_buf := take (unat newsize) (local_buf mt) @ replicate (unat newsize - length (local_buf mt)) None,
     get_size := newsize\<rparr>"

record binary_edit =
  be_heap :: inferiorHeap
  highWaterMark :: u64
  lowWaterMark :: u64
  isDirty :: bool
  tracker_tree :: "memoryTracker codeRangeTree option"

abbreviation (input) ADDRESS_LO :: u64 where "ADDRESS_LO \<equiv> 0"
abbreviation (input) ADDRESS_HI :: u64 where "ADDRESS_HI \<equiv> - 1"

text \<open>\<^verbatim>\<open>openFile\<close>: the first address for new memory is the next megabyte boundary behind what the symbol table says is free.\<close>

definition first_address :: "u64 \<Rightarrow> u64" where
  "first_address freeOffset = (let base = freeOffset + 0x100000 in base - (base AND (0x100000 - 1)))"

record file_region =
  mem_offset :: u64
  mem_size :: u32
  is_bss :: bool
  raw_data :: "u8 list"

fun createMemoryBackingStore :: "file_region list \<Rightarrow> binary_edit \<Rightarrow> fault + binary_edit" where
  "createMemoryBackingStore [] e = Inr e"
| "createMemoryBackingStore (r # rs) e =
     (if is_bss r \<or> mem_size r = 0 then createMemoryBackingStore rs e
      else and_then (insert_range (section_tracker (mem_offset r) (mem_size r) (raw_data r))
               (case tracker_tree e of None \<Rightarrow> new_tree | Some t \<Rightarrow> t))
             (\<lambda>t. createMemoryBackingStore rs (e\<lparr>tracker_tree := Some t\<rparr>)))"

text \<open>What the symbol table says of the file.  Without a function \<^verbatim>\<open>_init\<close> and without a section at the address of the initialisation code
  (or the termination code) \<^verbatim>\<open>makeInitAndFiniIfNeeded\<close> adds a section with an empty function, in front of the first address for new memory.\<close>

record linked_file =
  free_offset :: u64
  all_regions :: "file_region list"
  address_width :: u32
  is_static :: bool
  is_relocatable :: bool
  instrumented_before :: bool
  has_init :: bool
  has_init_region :: bool
  has_fini :: bool
  has_fini_region :: bool

definition empty_function :: "u32 \<Rightarrow> u8 list" where
  "empty_function width = (if width = 8 then [0x55, 0x48, 0x89, 0xe5, 0xc9, 0xc3] else [0x55, 0x89, 0xe5, 0xc9, 0xc3])"

definition add_empty_function :: "u32 \<Rightarrow> bool \<Rightarrow> file_region list \<times> u64 \<Rightarrow> file_region list \<times> u64" where
  "add_empty_function width needed rm =
     (if needed
      then (fst rm @ [\<lparr>mem_offset = snd rm, mem_size = of_nat (length (empty_function width)), is_bss = False, raw_data = empty_function width\<rparr>],
            snd rm + of_nat (length (empty_function width)))
      else rm)"

definition makeInitAndFiniIfNeeded :: "linked_file \<Rightarrow> file_region list \<times> u64 \<Rightarrow> file_region list \<times> u64" where
  "makeInitAndFiniIfNeeded f rm =
     (if is_static f \<or> is_relocatable f then rm
      else add_empty_function (address_width f) (\<not> has_fini f \<and> \<not> has_fini_region f)
             (add_empty_function (address_width f) (\<not> has_init f \<and> \<not> has_init_region f) rm))"

definition open_file :: "linked_file \<Rightarrow> fault + binary_edit option" where
  "open_file f =
     (if instrumented_before f then Inr None
      else let (regs, mark) = makeInitAndFiniIfNeeded f (all_regions f, first_address (free_offset f))
           in and_then (createMemoryBackingStore regs
                \<lparr>be_heap = new_heap, highWaterMark = mark, lowWaterMark = mark, isDirty = False, tracker_tree = None\<rparr>) (\<lambda>e. Inr (Some e)))"

subsection \<open>Allocation\<close>

fun free_ending :: "u64 \<Rightarrow> heapItem list \<Rightarrow> nat option" where
  "free_ending a [] = None"
| "free_ending a (h # hs) = (if item_end h = a then Some 0 else map_option Suc (free_ending a hs))"

definition inferiorMallocStatic :: "u32 \<Rightarrow> binary_edit \<Rightarrow> fault + binary_edit" where
  "inferiorMallocStatic sz e =
     (if highWaterMark e = 0 then Inl Aborted
      else let h = be_heap e;
               h' = (case free_ending (highWaterMark e) (heapFree h) of
                  Some i \<Rightarrow> h\<lparr>heapFree := (heapFree h)[i := (heapFree h ! i)\<lparr>item_length := item_length (heapFree h ! i) + sz\<rparr>]\<rparr>
                | None \<Rightarrow> addHeap \<lparr>item_addr = highWaterMark e, item_length = sz, item_type = anyHeap, item_dynamic = True, item_status = HEAPfree\<rparr> h)
           in Inr (e\<lparr>be_heap := h', highWaterMark := highWaterMark e + ucast sz\<rparr>))"

definition be_attempt :: "u32 \<Rightarrow> binary_edit \<Rightarrow> fault + u64 \<times> binary_edit" where
  "be_attempt sz e =
     and_then (inferiorMallocInternal sz ADDRESS_LO ADDRESS_HI anyHeap (be_heap e)) (\<lambda>(ret, h).
       if ret = 0 then Inr (0, e\<lparr>be_heap := h\<rparr>)
       else and_then (insert_range ((new_tracker ret sz)\<lparr>alloced := True\<rparr>) (case tracker_tree e of None \<Rightarrow> new_tree | Some t \<Rightarrow> t))
              (\<lambda>t. Inr (ret, e\<lparr>be_heap := h, tracker_tree := Some t\<rparr>)))"

definition be_compact :: "binary_edit \<Rightarrow> fault + binary_edit" where
  "be_compact e = and_then (inferiorFreeCompact (be_heap e)) (\<lambda>h. Inr (e\<lparr>be_heap := h\<rparr>))"

text \<open>\<^verbatim>\<open>inferiorMalloc\<close>: as it is, after compaction, after taking new memory.\<close>

definition be_inferiorMalloc :: "u32 \<Rightarrow> u32 \<Rightarrow> binary_edit \<Rightarrow> fault + u64 \<times> binary_edit" where
  "be_inferiorMalloc width sz0 e =
     (let sz = inferiorMallocAlign width sz0
      in and_then (be_attempt sz e) (\<lambda>(ret0, e0).
         if ret0 \<noteq> 0 then Inr (ret0, e0)
         else and_then (be_compact e0) (\<lambda>e1. and_then (be_attempt sz e1) (\<lambda>(ret1, e1').
         if ret1 \<noteq> 0 then Inr (ret1, e1')
         else and_then (inferiorMallocStatic sz e1') (be_attempt sz)))))"

text \<open>Where the code changes a tracker that the tree points to.\<close>

definition modify_tracker :: "u64 \<Rightarrow> (memoryTracker \<Rightarrow> memoryTracker) \<Rightarrow> memoryTracker codeRangeTree \<Rightarrow> memoryTracker codeRangeTree" where
  "modify_tracker key f t =
     (case descend key (setData t) [] of
        (Nil_entry, _) \<Rightarrow> t
      | (Entry l c k v r, ps) \<Rightarrow> t\<lparr>setData := plug (Entry l c k (f v) r) ps\<rparr>)"

definition be_inferiorFree :: "u64 \<Rightarrow> binary_edit \<Rightarrow> fault + binary_edit" where
  "be_inferiorFree item e =
     (let e1 = e\<lparr>be_heap := inferiorFreeInternal item (be_heap e)\<rparr>
      in case tracker_tree e of
           None \<Rightarrow> Inl Null_pointer
         | Some t \<Rightarrow>
             (case find_range item (setData t) of
                None \<Rightarrow> Inr e1
              | Some obj \<Rightarrow>
                  and_then (remove_range item (modify_tracker (get_address obj) (deleted_update (\<lambda>_. True)) t))
                    (\<lambda>t'. Inr (e1\<lparr>tracker_tree := Some t'\<rparr>))))"

definition maxAllocedAddr :: "binary_edit \<Rightarrow> fault + u64 \<times> binary_edit" where
  "maxAllocedAddr e =
     and_then (be_compact e) (\<lambda>e'.
       Inr (foldl (\<lambda>hi (_, it). if item_end it > hi then item_end it else hi) (lowWaterMark e') (heapActive (be_heap e')), e'))"

definition be_inferiorRealloc :: "u32 \<Rightarrow> u64 \<Rightarrow> u32 \<Rightarrow> binary_edit \<Rightarrow> fault + bool \<times> binary_edit" where
  "be_inferiorRealloc width item newsize e =
     and_then (inferiorReallocInternal width item newsize (be_heap e)) (\<lambda>(result, h).
       let e1 = e\<lparr>be_heap := h\<rparr>
       in if \<not> result then Inr (False, e1)
          else and_then (maxAllocedAddr e1) (\<lambda>(_, e2).
            case tracker_tree e2 of
              None \<Rightarrow> Inl Null_pointer
            | Some t \<Rightarrow>
                (case find_range item (setData t) of
                   None \<Rightarrow> Inl Aborted
                 | Some obj \<Rightarrow>
                     and_then (remove_range item t) (\<lambda>t1.
                     and_then (insert_range (tracker_realloc newsize obj) t1) (\<lambda>t2.
                       Inr (True, e2\<lparr>tracker_tree := Some t2\<rparr>))))))"

subsection \<open>Reading and writing\<close>

definition readTextSpace :: "u64 \<Rightarrow> u32 \<Rightarrow> binary_edit \<Rightarrow> fault + (u8 option list) option" where
  "readTextSpace addr sz e =
     (case tracker_tree e of
        None \<Rightarrow> Inl Null_pointer
      | Some t \<Rightarrow>
          (case find_range addr (setData t) of
             None \<Rightarrow> Inr None
           | Some rg \<Rightarrow>
               let offset = addr - get_address rg
               in if addr < get_address rg \<or> \<not> offset < ucast (get_size rg) then Inl Aborted
                  else if deleted rg \<or> unat offset + unat sz > length (local_buf rg) then Inl Out_of_bounds
                  else Inr (Some (take (unat sz) (drop (unat offset) (local_buf rg))))))"

text \<open>The loop of \<^verbatim>\<open>writeTextSpace\<close>: the part of the data that lies in one buffer, then the rest.  The data are the bytes still to be
  written, so \<^verbatim>\<open>to_do\<close> is their number.\<close>

partial_function (option) write_loop :: "u64 \<Rightarrow> u8 list \<Rightarrow> memoryTracker codeRangeTree \<Rightarrow> (fault + bool \<times> memoryTracker codeRangeTree) option" where
  "write_loop addr bytes t =
     (if bytes = [] then Some (Inr (True, t))
      else case find_range addr (setData t) of
        None \<Rightarrow> Some (Inr (False, t))
      | Some rg \<Rightarrow>
          let chunk_end = range_end rg;
              to_do = of_nat (length bytes) :: u32;
              chunk_size = (if addr + ucast to_do \<le> chunk_end then to_do else ucast (chunk_end - addr));
              offset = addr - get_address rg;
              n = unat chunk_size
          in if addr < get_address rg \<or> \<not> offset < ucast (get_size rg) then Some (Inl Aborted)
             else if deleted rg \<or> unat offset + n > length (local_buf rg) \<or> n > length bytes then Some (Inl Out_of_bounds)
             else write_loop (addr + ucast chunk_size) (drop n bytes)
                    (modify_tracker (get_address rg) (\<lambda>mt. mt\<lparr>dirty := True,
                       local_buf := take (unat offset) (local_buf mt) @ map Some (take n bytes) @ drop (unat offset + n) (local_buf mt)\<rparr>) t))"

definition writeTextSpace :: "u64 \<Rightarrow> u8 list \<Rightarrow> binary_edit \<Rightarrow> fault + bool \<times> binary_edit" where
  "writeTextSpace addr bytes e =
     (let e1 = e\<lparr>isDirty := True\<rparr>
      in if bytes = [] then Inr (True, e1)
         else case tracker_tree e of
           None \<Rightarrow> Inl Null_pointer
         | Some t \<Rightarrow>
             (case write_loop addr bytes t of
                None \<Rightarrow> Inl Endless_loop
              | Some r \<Rightarrow> and_then r (\<lambda>(ok, t'). Inr (ok, e1\<lparr>tracker_tree := Some t'\<rparr>))))"

subsection \<open>The new section of the file\<close>

text \<open>\<^verbatim>\<open>writeFile\<close> copies every allocated block into one buffer, the section \<^verbatim>\<open>.dyninstInst\<close> of the new file.\<close>

fun copy_blocks :: "u64 \<Rightarrow> u64 \<Rightarrow> memoryTracker list \<Rightarrow> u8 option list \<Rightarrow> fault + u8 option list" where
  "copy_blocks low high [] sec = Inr sec"
| "copy_blocks low high (tracker # ts) sec =
     (if \<not> alloced tracker then copy_blocks low high ts sec
      else if \<not> get_address tracker \<ge> low then Inl Aborted
      else let offset = get_address tracker - low; n = unat (get_size tracker)
           in if \<not> offset + ucast (get_size tracker) < high then Inl Aborted
              else if deleted tracker \<or> unat offset + n > length sec then Inl Out_of_bounds
              else copy_blocks low high ts (take (unat offset) sec @ take n (local_buf tracker) @ drop (unat offset + n) sec))"

definition new_section :: "binary_edit \<Rightarrow> fault + u8 option list" where
  "new_section e =
     (case tracker_tree e of
        None \<Rightarrow> Inl Null_pointer
      | Some t \<Rightarrow> copy_blocks (lowWaterMark e) (highWaterMark e) (snd (elements_of t))
          (replicate (unat (highWaterMark e - lowWaterMark e)) None))"

subsection \<open>The invariant\<close>

text \<open>The tree has a tracker for every block that is held, with a buffer of the size that was asked for, and otherwise trackers of
  sections below \<^verbatim>\<open>lowWaterMark_\<close>.\<close>

definition tracker_ok :: "memoryTracker \<Rightarrow> bool" where
  "tracker_ok mt \<longleftrightarrow> get_size mt \<noteq> 0 \<and> \<not> deleted mt \<and> length (local_buf mt) = unat (get_size mt)
     \<and> unat (get_address mt) + unat (get_size mt) < 2 ^ 64"

definition trackers_ok :: "u64 \<Rightarrow> (u64 \<rightharpoonup> nat) \<Rightarrow> (u64 \<rightharpoonup> memoryTracker) \<Rightarrow> bool" where
  "trackers_ok low G m \<longleftrightarrow>
     (\<forall>a mt. m a = Some mt \<longrightarrow> get_address mt = a \<and> tracker_ok mt
        \<and> (if alloced mt then \<exists>n. G a = Some n \<and> unat (get_size mt) \<le> n else unat a + unat (get_size mt) \<le> unat low))
     \<and> (\<forall>a \<in> dom G. \<exists>mt. m a = Some mt \<and> alloced mt)
     \<and> (\<forall>a b x y. m a = Some x \<and> m b = Some y \<and> \<not> alloced x \<and> \<not> alloced y \<and> a \<noteq> b
          \<longrightarrow> grant a (unat (get_size x)) \<inter> grant b (unat (get_size y)) = {})"

definition trackers :: "binary_edit \<Rightarrow> memoryTracker codeRangeTree" where
  "trackers e = (case tracker_tree e of None \<Rightarrow> new_tree | Some t \<Rightarrow> t)"

definition be_inv :: "binary_edit \<Rightarrow> (u64 \<rightharpoonup> nat) \<Rightarrow> nat \<Rightarrow> bool" where
  "be_inv e G budget \<longleftrightarrow> heap_inv (be_heap e) G {unat (lowWaterMark e) ..< unat (highWaterMark e)}
     \<and> lowWaterMark e \<noteq> 0 \<and> lowWaterMark e \<le> highWaterMark e \<and> unat (highWaterMark e) + budget < 2 ^ 64
     \<and> unat (highWaterMark e) - unat (lowWaterMark e) + budget < 2 ^ 31
     \<and> tree_ok (trackers e) \<and> trackers_ok (lowWaterMark e) G (range_map (trackers e)) \<and> plain_heap (be_heap e)"

lemma be_invD:
  assumes "be_inv e G budget"
  shows "heap_inv (be_heap e) G {unat (lowWaterMark e) ..< unat (highWaterMark e)}" "lowWaterMark e \<noteq> 0" "lowWaterMark e \<le> highWaterMark e"
    "unat (highWaterMark e) + budget < 2 ^ 64" "unat (highWaterMark e) - unat (lowWaterMark e) + budget < 2 ^ 31"
    "tree_ok (trackers e)" "trackers_ok (lowWaterMark e) G (range_map (trackers e))" "plain_heap (be_heap e)"
  using assms by (simp_all add: be_inv_def)

lemma covers_grant: "tracker_ok mt \<Longrightarrow> covers mt key \<longleftrightarrow> unat key \<in> grant (get_address mt) (unat (get_size mt))"
proof -
  assume ok: "tracker_ok mt"
  then have "unat (range_end mt) = unat (get_address mt) + unat (get_size mt)"
    unfolding range_end_def tracker_ok_def by (subst unat_add_u64) simp_all
  then show ?thesis using ok by (auto simp: covers_def grant_def tracker_ok_def word_le_nat_alt word_less_nat_alt)
qed

lemma trackers_okD:
  assumes "trackers_ok low G m"
  shows "m a = Some mt \<Longrightarrow> get_address mt = a" "m a = Some mt \<Longrightarrow> tracker_ok mt"
    "m a = Some mt \<Longrightarrow> alloced mt \<Longrightarrow> \<exists>n. G a = Some n \<and> unat (get_size mt) \<le> n"
    "m a = Some mt \<Longrightarrow> \<not> alloced mt \<Longrightarrow> unat a + unat (get_size mt) \<le> unat low"
    "a \<in> dom G \<Longrightarrow> \<exists>mt. m a = Some mt \<and> alloced mt"
    "m a = Some x \<Longrightarrow> m b = Some y \<Longrightarrow> a \<noteq> b \<Longrightarrow> \<not> alloced x \<Longrightarrow> \<not> alloced y
      \<Longrightarrow> grant a (unat (get_size x)) \<inter> grant b (unat (get_size y)) = {}"
  using assms unfolding trackers_ok_def by (metis, metis, metis, metis, blast, blast)

lemma trackers_disjoint:
  assumes ok: "trackers_ok low G m" and G: "grants_ok G {unat low ..< hi}"
  shows "disjoint_ranges m"
proof -
  note t = trackers_okD(1,2) [OF ok]
  have apart: "grant a (unat (get_size x)) \<inter> grant b (unat (get_size y)) = {}" if m: "m a = Some x" "m b = Some y" "a \<noteq> b" for a b x y
  proof (cases "alloced x \<or> alloced y")
    case False
    then show ?thesis using trackers_okD(6) [OF ok m] by blast
  next
    case True
    have al: "\<exists>n. G c = Some n \<and> grant c (unat (get_size z)) \<subseteq> grant c n \<and> grant c n \<subseteq> {unat low ..< hi}" if "m c = Some z" "alloced z" for c z
    proof -
      obtain n where "G c = Some n" "unat (get_size z) \<le> n" using trackers_okD(3) [OF ok \<open>m c = Some z\<close> \<open>alloced z\<close>] by blast
      then show ?thesis using grants_okD(4) [OF G] by (auto simp: grant_def)
    qed
    have sec: "grant c (unat (get_size z)) \<subseteq> {..< unat low}" if "m c = Some z" "\<not> alloced z" for c z
      using trackers_okD(4) [OF ok that] by (auto simp: grant_def)
    have low: "{unat low ..< hi} \<inter> {..< unat low} = {}" by auto
    consider "alloced x" "alloced y" | "alloced x" "\<not> alloced y" | "\<not> alloced x" "alloced y" using True by blast
    then show ?thesis
    proof cases
      case 1
      then show ?thesis using al [OF m(1)] al [OF m(2)] grants_okD(5) [OF G _ _ m(3)] by blast
    next
      case 2
      then show ?thesis using al [OF m(1)] sec [OF m(2)] low by blast
    next
      case 3
      then show ?thesis using al [OF m(2)] sec [OF m(1)] low by blast
    qed
  qed
  have "covers x (get_address x)" if "m a = Some x" for a x
    using t(2) [OF that] covers_grant by (auto simp: grant_def tracker_ok_def unat_gt_0)
  moreover have "x = y" if m: "m a = Some x" "m b = Some y" and c: "covers x key" "covers y key" for a b x y key
    using apart [OF m] c covers_grant [OF t(2) [OF m(1)]] covers_grant [OF t(2) [OF m(2)]] t(1) [OF m(1)] t(1) [OF m(2)] m by fastforce
  ultimately show ?thesis by (auto simp: disjoint_ranges_def ran_def)
qed

lemma find_tracker:
  assumes inv: "be_inv e G budget" and mt: "range_map (trackers e) a = Some mt" and key: "unat key \<in> grant a (unat (get_size mt))"
  shows "find_range key (setData (trackers e)) = Some mt"
proof -
  note I = be_invD [OF inv]
  note t = trackers_okD(1,2) [OF I(7) mt]
  then show ?thesis
    using tracker.lookup_covering [OF I(6) trackers_disjoint [OF I(7) heap_invD(3) [OF I(1)]]] mt key covers_grant [OF t(2)] by simp
qed

lemma trackers_ok_upd:
  assumes ok: "trackers_ok low G m" and mt: "alloced mt" "get_address mt = a" "tracker_ok mt" "unat (get_size mt) \<le> n" and a: "unat low \<le> unat a"
  shows "trackers_ok low (G(a \<mapsto> n)) (m(a \<mapsto> mt))"
  unfolding trackers_ok_def
proof (intro conjI allI impI ballI)
  fix b x
  assume x: "(m(a \<mapsto> mt)) b = Some x"
  show "get_address x = b" "tracker_ok x" using x mt trackers_okD(1,2) [OF ok] by (auto split: if_splits)
  show "if alloced x then \<exists>k. (G(a \<mapsto> n)) b = Some k \<and> unat (get_size x) \<le> k else unat b + unat (get_size x) \<le> unat low"
    using x mt trackers_okD(3,4) [OF ok] by (auto split: if_splits)
next
  fix b
  assume "b \<in> dom (G(a \<mapsto> n))"
  then show "\<exists>x. (m(a \<mapsto> mt)) b = Some x \<and> alloced x" using mt(1) trackers_okD(5) [OF ok, of b] by auto
next
  fix b c x y
  assume "(m(a \<mapsto> mt)) b = Some x \<and> (m(a \<mapsto> mt)) c = Some y \<and> \<not> alloced x \<and> \<not> alloced y \<and> b \<noteq> c"
  then show "grant b (unat (get_size x)) \<inter> grant c (unat (get_size y)) = {}"
    using mt(1) trackers_okD(6) [OF ok, of b x c y] by (auto split: if_splits)
qed

lemma trackers_ok_del:
  assumes ok: "trackers_ok low G m"
  shows "trackers_ok low (G(a := None)) (m(a := None))"
  unfolding trackers_ok_def
proof (intro conjI allI impI ballI)
  fix b x
  assume x: "(m(a := None)) b = Some x"
  then have b: "m b = Some x" "b \<noteq> a" by (auto split: if_splits)
  show "get_address x = b" "tracker_ok x" using trackers_okD(1,2) [OF ok b(1)] .
  show "if alloced x then \<exists>k. (G(a := None)) b = Some k \<and> unat (get_size x) \<le> k else unat b + unat (get_size x) \<le> unat low"
    using b trackers_okD(3,4) [OF ok b(1)] by auto
next
  fix b
  assume "b \<in> dom (G(a := None))"
  then show "\<exists>x. (m(a := None)) b = Some x \<and> alloced x" using trackers_okD(5) [OF ok, of b] by (auto split: if_splits)
next
  fix b c x y
  assume "(m(a := None)) b = Some x \<and> (m(a := None)) c = Some y \<and> \<not> alloced x \<and> \<not> alloced y \<and> b \<noteq> c"
  then show "grant b (unat (get_size x)) \<inter> grant c (unat (get_size y)) = {}"
    using trackers_okD(6) [OF ok, of b x c y] by (auto split: if_splits)
qed

lemma be_inv_budget: "be_inv e G budget \<Longrightarrow> budget' \<le> budget \<Longrightarrow> be_inv e G budget'"
  by (simp add: be_inv_def)

lemma be_inv_heap: "be_inv e G budget \<Longrightarrow> heap_inv h G {unat (lowWaterMark e) ..< unat (highWaterMark e)} \<Longrightarrow> plain_heap h
    \<Longrightarrow> be_inv (e\<lparr>be_heap := h\<rparr>) G budget"
  by (simp add: be_inv_def trackers_def)

subsection \<open>Allocation keeps it\<close>

lemma be_compact_spec: "be_inv e G budget \<Longrightarrow> \<exists>e'. be_compact e = Inr e' \<and> be_inv e' G budget
    \<and> tracker_tree e' = tracker_tree e \<and> lowWaterMark e' = lowWaterMark e"
  using inferiorFreeCompact_spec [OF be_invD(1)] be_inv_heap plain_compact be_invD(8) by (fastforce simp: be_compact_def)

lemma be_attempt_spec:
  assumes inv: "be_inv e G budget" and sz: "sz \<noteq> 0"
  shows "\<exists>a e'. be_attempt sz e = Inr (a, e') \<and> (if a = 0 then be_inv e' G budget
    else G a = None \<and> be_inv e' (G(a \<mapsto> unat sz)) budget \<and> (\<forall>b k. G b = Some k \<longrightarrow> grant a (unat sz) \<inter> grant b k = {}))"
proof -
  note I = be_invD [OF inv]
  let ?A = "{unat (lowWaterMark e) ..< unat (highWaterMark e)}"
  consider "inferiorMallocInternal sz 0 (- 1) anyHeap (be_heap e) = Inr (0, be_heap e)"
    | a h where "inferiorMallocInternal sz 0 (- 1) anyHeap (be_heap e) = Inr (a, h)" "a \<noteq> 0" "G a = None" "heap_inv h (G(a \<mapsto> unat sz)) ?A"
        "grant a (unat sz) \<subseteq> free_bytes (heapFree (be_heap e))"
    using inferiorMallocInternal_spec [OF I(1) sz, of 0 "- 1" anyHeap] by blast
  then show ?thesis
  proof cases
    case 1
    then show ?thesis using be_inv_heap [OF inv I(1,8)] by (auto simp: be_attempt_def)
  next
    case (2 a h)
    let ?mt = "(new_tracker a sz)\<lparr>alloced := True\<rparr>"
    have g: "unat a + unat sz < 2 ^ 64" "grant a (unat sz) \<subseteq> ?A" using grants_okD(3,4) [OF heap_invD(3) [OF 2(4)], of a "unat sz"] by simp_all
    have "unat a \<in> grant a (unat sz)" using sz by (simp add: grant_def unat_gt_0)
    then have low: "unat (lowWaterMark e) \<le> unat a" using g(2) by auto
    have mt: "tracker_ok ?mt" using sz g(1) by (simp add: tracker_ok_def new_tracker_def)
    obtain t where t: "insert_range ?mt (trackers e) = Inr t" "tree_ok t" "range_map t = (range_map (trackers e))(a \<mapsto> ?mt)"
      using tracker.ins [OF I(6), of ?mt] by (auto simp: new_tracker_def)
    have "trackers_ok (lowWaterMark e) (G(a \<mapsto> unat sz)) (range_map t)"
      unfolding t(3) using mt low by (intro trackers_ok_upd [OF I(7)]) (simp_all add: new_tracker_def)
    then have "be_inv (e\<lparr>be_heap := h, tracker_tree := Some t\<rparr>) (G(a \<mapsto> unat sz)) budget"
      using I 2(4) t(2) plain_malloc [OF 2(1)] by (simp add: be_inv_def trackers_def)
    moreover have "be_attempt sz e = Inr (a, e\<lparr>be_heap := h, tracker_tree := Some t\<rparr>)"
      using 2(1,2) t(1) by (simp add: be_attempt_def trackers_def)
    moreover have "grant a (unat sz) \<inter> grant b k = {}" if "G b = Some k" for b k
      using heap_invD(5) [OF I(1) that] 2(5) by blast
    ultimately show ?thesis using 2(2,3) by auto
  qed
qed

lemma free_ending_spec: "free_ending a hs = Some i \<Longrightarrow> i < length hs \<and> item_end (hs ! i) = a"
  by (induction hs arbitrary: i) (auto split: if_splits)

text \<open>A free block that ends where the heap ends becomes longer.\<close>

lemma extend_last_block:
  assumes inv: "heap_inv h G {lo ..< hi}" and i: "i < length (heapFree h)" "unat (item_end (heapFree h ! i)) = hi"
    and sz: "sz \<noteq> 0" "hi + unat sz < 2 ^ 64" "hi - lo + unat sz < 2 ^ 31"
  shows "heap_inv (h\<lparr>heapFree := (heapFree h)[i := (heapFree h ! i)\<lparr>item_length := item_length (heapFree h ! i) + sz\<rparr>]\<rparr>) G {lo ..< hi + unat sz}"
    "sz \<le> item_length (heapFree h ! i) + sz"
proof -
  note I = heap_invD [OF inv]
  let ?it = "heapFree h ! i"
  let ?new = "?it\<lparr>item_length := item_length ?it + sz\<rparr>"
  have ok: "item_ok ?it" using I(1) i(1) by (simp add: free_ok_def)
  have e: "unat (item_addr ?it) + unat (item_length ?it) = hi" using unat_item_end [OF ok] i(2) by simp
  have sub: "item_bytes ?it \<subseteq> free_bytes (heapFree h)" using free_bytes_mem [OF nth_mem [OF i(1)]] .
  have "unat (item_addr ?it) \<in> item_bytes ?it" using item_ok_length [OF ok] by (simp add: item_bytes_def)
  then have lo: "lo \<le> unat (item_addr ?it)" using sub I(4) by auto
  have len: "unat (item_length ?it + sz) = unat (item_length ?it) + unat sz"
    using e lo sz(3) by (intro unat_add_lem [THEN iffD1]) simp
  then show "sz \<le> item_length ?it + sz" by (simp add: word_le_nat_alt)
  have nb: "item_bytes ?new = item_bytes ?it \<union> {hi ..< hi + unat sz}" using e len by (auto simp: item_bytes_def)
  have nok: "item_ok ?new" using ok e len sz(2) by (auto simp: item_ok_def word_unat_eq_iff)
  have "item_bytes ?new \<inter> (free_bytes (heapFree h) - item_bytes ?it) = {}" using nb I(4) by auto
  note u = apart_update [OF free_ok_apart [OF I(1)] i(1) nok this]
  have s: "item_addr (heapFree h ! j) \<le> item_addr (heapFree h ! k)" if "j < k" "k < length (heapFree h)" for j k
    using I(1) that by (fastforce simp: free_ok_def sorted_wrt_iff_nth_less word_le_nat_alt)
  have "free_ok ((heapFree h)[i := ?new])" using free_ok_update [OF I(1) i(1) u(1)] s i(1) by simp
  moreover have fb: "free_bytes ((heapFree h)[i := ?new]) = free_bytes (heapFree h) \<union> {hi ..< hi + unat sz}" using u(2) nb sub by blast
  moreover have "grant a n \<inter> {hi ..< hi + unat sz} = {}" if "G a = Some n" for a n using grants_okD(4) [OF I(3) that] by fastforce
  moreover have "grants_ok G {lo ..< hi + unat sz}" using grants_ok_mono [OF I(3)] by (simp add: ivl_subset)
  moreover have "free_bytes (heapFree h) \<subseteq> {lo ..< hi + unat sz}" using I(4) by fastforce
  moreover have "{hi ..< hi + unat sz} \<subseteq> {lo ..< hi + unat sz}" using e lo by auto
  moreover have "card {lo ..< hi + unat sz} < 2 ^ 31" using sz(3) e lo by simp
  ultimately show "heap_inv (h\<lparr>heapFree := (heapFree h)[i := ?new]\<rparr>) G {lo ..< hi + unat sz}"
    using I(2,5) by (simp add: heap_inv_def Int_Un_distrib)
qed

lemma inferiorMallocStatic_spec:
  assumes inv: "be_inv e G budget" and sz: "sz \<noteq> 0" "unat sz \<le> budget"
  shows "\<exists>e'. inferiorMallocStatic sz e = Inr e' \<and> be_inv e' G (budget - unat sz) \<and> (\<exists>it \<in> set (heapFree (be_heap e')). sz \<le> item_length it)"
proof -
  note I = be_invD [OF inv]
  let ?lo = "unat (lowWaterMark e)" and ?hi = "unat (highWaterMark e)"
  have lo: "?lo \<le> ?hi" "0 < ?lo" using I(2,3) by (simp_all add: word_le_nat_alt unat_gt_0)
  have nz: "highWaterMark e \<noteq> 0" using lo by (auto simp: word_unat_eq_iff)
  have hi: "unat (highWaterMark e + ucast sz) = ?hi + unat sz" using I(4) sz(2) by (subst unat_add_u64) simp_all
  obtain h where h: "inferiorMallocStatic sz e = Inr (e\<lparr>be_heap := h, highWaterMark := highWaterMark e + ucast sz\<rparr>)"
      "heap_inv h G {?lo ..< ?hi + unat sz}" "plain_heap h" "\<exists>it \<in> set (heapFree h). sz \<le> item_length it"
  proof (cases "free_ending (highWaterMark e) (heapFree (be_heap e))")
    case None
    let ?it = "\<lparr>item_addr = highWaterMark e, item_length = sz, item_type = anyHeap, item_dynamic = True, item_status = HEAPfree\<rparr>"
    have b: "item_bytes ?it = {?hi ..< ?hi + unat sz}" by (simp add: item_bytes_def)
    have u: "{?lo ..< ?hi} \<union> item_bytes ?it = {?lo ..< ?hi + unat sz}" unfolding b using lo by (simp add: ivl_disj_un)
    have ok: "item_ok ?it" using sz nz I(4) by (simp add: item_ok_def)
    have "heap_inv (addHeap ?it (be_heap e)) G {?lo ..< ?hi + unat sz}"
      using addHeap_spec(1) [OF I(1) ok] b u lo I(5) sz(2) by simp
    moreover have "\<exists>it \<in> set (heapFree (addHeap ?it (be_heap e))). sz \<le> item_length it" by (simp add: addHeap_def sort_by_addr_def)
    ultimately show ?thesis using that None nz plain_addHeap [OF I(8), of ?it] by (simp add: inferiorMallocStatic_def Let_def)
  next
    case (Some i)
    let ?it = "heapFree (be_heap e) ! i"
    let ?free = "(heapFree (be_heap e))[i := ?it\<lparr>item_length := item_length ?it + sz\<rparr>]"
    have i: "i < length (heapFree (be_heap e))" "item_end ?it = highWaterMark e" using free_ending_spec [OF Some] by auto
    note x = extend_last_block [OF I(1) i(1) _ sz(1)]
    have "plain_heap (be_heap e\<lparr>heapFree := ?free\<rparr>)"
      using I(8) i(1) all_any_nth [of "heapFree (be_heap e)"] all_any_update [of "heapFree (be_heap e)"] by (simp add: plain_heap_def)
    moreover have "?it\<lparr>item_length := item_length ?it + sz\<rparr> \<in> set ?free" using i(1) by (rule set_update_memI)
    ultimately show ?thesis using that Some nz x i(2) sz(2) I(4,5) by (force simp: inferiorMallocStatic_def Let_def)
  qed
  have "be_inv (e\<lparr>be_heap := h, highWaterMark := highWaterMark e + ucast sz\<rparr>) G (budget - unat sz)"
    using I h(2,3) hi sz(2) lo by (simp add: be_inv_def trackers_def word_le_nat_alt)
  then show ?thesis using h(1,4) by (intro exI conjI) (assumption | simp)+
qed

lemma be_attempt_found:
  assumes inv: "be_inv e G budget" and it: "it \<in> set (heapFree (be_heap e))" "sz \<le> item_length it" and r: "be_attempt sz e = Inr (a, e')"
  shows "a \<noteq> 0"
proof -
  have fits: "item_fits sz anyHeap 0 (- 1) it" using it be_invD(8) [OF inv] by (simp add: item_fits_def plain_heap_def all_any_def)
  obtain i where "findFreeIndex sz anyHeap 0 (- 1) (heapFree (be_heap e)) = Some i"
    using findFreeIndex_spec [of sz anyHeap 0 "- 1" "heapFree (be_heap e)"] fits it(1)
    by (auto simp: best_of_def in_set_conv_nth split: option.splits)
  then show ?thesis using r by (auto simp: be_attempt_def inferiorMallocInternal_def Let_def and_then_Inr split: if_splits)
qed

text \<open>Memory is never refused: the last attempt finds the block that was just made long enough.\<close>

lemma be_inferiorMalloc_spec:
  assumes inv: "be_inv e G budget" and n: "n \<noteq> 0" "unat n + 8 \<le> budget"
  shows "\<exists>a e'. be_inferiorMalloc 8 n e = Inr (a, e') \<and> a \<noteq> 0 \<and> G a = None
    \<and> be_inv e' (G(a \<mapsto> unat (inferiorMallocAlign 8 n))) (budget - (unat n + 8))
    \<and> (\<forall>b k. G b = Some k \<longrightarrow> grant a (unat (inferiorMallocAlign 8 n)) \<inter> grant b k = {})"
proof -
  let ?sz = "inferiorMallocAlign 8 n"
  have "unat n + 2 ^ 3 \<le> 2 ^ 32" using n(2) be_invD(5) [OF inv] by simp
  then have sz: "unat n \<le> unat ?sz" "unat ?sz < unat n + 8" using inferiorMallocAlign_ge [of 3 n] by simp_all
  then have nz: "?sz \<noteq> 0" using n(1) by (auto simp: word_unat_eq_iff)
  let ?done = "\<lambda>a e' b. if a = 0 then be_inv e' G b else G a = None \<and> be_inv e' (G(a \<mapsto> unat ?sz)) b
      \<and> (\<forall>b k. G b = Some k \<longrightarrow> grant a (unat ?sz) \<inter> grant b k = {})"
  have weaken: "?done a e' (budget - (unat n + 8))" if "?done a e' b" "budget - (unat n + 8) \<le> b" for a e' b
    using that be_inv_budget by (auto split: if_splits)
  obtain a0 e0 where 0: "be_attempt ?sz e = Inr (a0, e0)" "?done a0 e0 budget" using be_attempt_spec [OF inv nz] by blast
  show ?thesis
  proof (cases "a0 = 0")
    case False
    then show ?thesis using 0 weaken [OF 0(2)] by (simp add: be_inferiorMalloc_def)
  next
    case True
    then obtain e1 where 1: "be_compact e0 = Inr e1" "be_inv e1 G budget" using 0(2) be_compact_spec by fastforce
    obtain a2 e2 where 2: "be_attempt ?sz e1 = Inr (a2, e2)" "?done a2 e2 budget" using be_attempt_spec [OF 1(2) nz] by blast
    show ?thesis
    proof (cases "a2 = 0")
      case False
      then show ?thesis using 0 1 2 True weaken [OF 2(2)] by (simp add: be_inferiorMalloc_def)
    next
      case zero: True
      then obtain e3 it where 3: "inferiorMallocStatic ?sz e2 = Inr e3" "be_inv e3 G (budget - unat ?sz)"
          "it \<in> set (heapFree (be_heap e3))" "?sz \<le> item_length it"
        using 2(2) inferiorMallocStatic_spec [OF _ nz, of e2 G budget] sz n(2) by fastforce
      obtain a4 e4 where 4: "be_attempt ?sz e3 = Inr (a4, e4)" "?done a4 e4 (budget - unat ?sz)" using be_attempt_spec [OF 3(2) nz] by blast
      have "a4 \<noteq> 0" using be_attempt_found [OF 3(2-4) 4(1)] .
      then show ?thesis using 0 1 2 3 4(1) True zero weaken [OF 4(2)] sz by (simp add: be_inferiorMalloc_def)
    qed
  qed
qed

lemma modify_tracker_spec:
  assumes t: "tree_ok t" and v: "range_map t key = Some v" and f: "get_address (f v) = key"
  shows "tree_ok (modify_tracker key f t)" "range_map (modify_tracker key f t) = (range_map t)(key \<mapsto> f v)"
proof -
  have s: "keys_sorted (inorder (setData t))" "red_black (setData t)" using t by (simp_all add: tree_ok_def)
  obtain x ps where d: "descend key (setData t) [] = (x, ps)" by fastforce
  have "x \<noteq> Nil_entry"
    using v d find_internal_map [OF s, of key] by (auto simp: range_map_def find_internal_def)
  then obtain l c k w r where x: "x = Entry l c k w r" by (cases x) auto
  note p = descend_present [OF s d [unfolded x]]
  have w: "w = v" using v map_of_between(1) [OF p(4,5), of w] unfolding range_map_def p(3) by simp
  let ?r = "plug (Entry l c k (f v) r) ps"
  have m: "modify_tracker key f t = t\<lparr>setData := ?r, setSize := setSize t\<rparr>" using d x w by (simp add: modify_tracker_def)
  have r: "red_black ?r" using p(2) by (intro red_black_plug) (auto simp: fits_def)
  have i: "inorder ?r = (before ps @ inorder l) @ (get_address (f v), f v) # (inorder r @ behind ps)" using p(1) f by simp
  show "tree_ok (modify_tracker key f t)"
    unfolding m using t p f by (intro tree_okI [OF r i]) (auto simp: tree_ok_def sorted_wrt_append)
  show "range_map (modify_tracker key f t) = (range_map t)(key \<mapsto> f v)"
    unfolding m range_map_def using i p(3) map_of_between(1) [OF p(4,5)] f by (simp del: inorder_plug)
qed

lemma held_tracker:
  assumes inv: "be_inv e G budget" and a: "a \<in> dom G"
  obtains t mt where "tracker_tree e = Some t" "trackers e = t" "range_map t a = Some mt" "alloced mt" "get_address mt = a" "tracker_ok mt"
    "find_range a (setData t) = Some mt"
proof -
  note I = be_invD [OF inv]
  obtain mt where mt: "range_map (trackers e) a = Some mt" "alloced mt" using trackers_okD(5) [OF I(7) a] by blast
  then obtain t where t: "tracker_tree e = Some t" by (cases "tracker_tree e") (auto simp: trackers_def range_map_def new_tree_def)
  note ok = trackers_okD(1,2) [OF I(7) mt(1)]
  then have "unat a \<in> grant a (unat (get_size mt))" by (simp add: grant_def tracker_ok_def unat_gt_0)
  from find_tracker [OF inv mt(1) this] show thesis using that [of t mt] t mt ok by (simp add: trackers_def)
qed

lemma be_inferiorFree_spec:
  assumes inv: "be_inv e G budget" and a: "a \<in> dom G"
  shows "\<exists>e'. be_inferiorFree a e = Inr e' \<and> be_inv e' (G(a := None)) budget"
proof -
  note I = be_invD [OF inv]
  from held_tracker [OF inv a] obtain t mt where t: "tracker_tree e = Some t" "trackers e = t" "range_map t a = Some mt" "alloced mt"
      "get_address mt = a" "tracker_ok mt" "find_range a (setData t) = Some mt" .
  let ?t = "modify_tracker a (deleted_update (\<lambda>_. True)) t"
  have "tree_ok t" using I(6) t(2) by simp
  then have m: "tree_ok ?t" "range_map ?t = (range_map t)(a \<mapsto> mt\<lparr>deleted := True\<rparr>)" using modify_tracker_spec [of t a mt] t(3,5) by simp_all
  obtain t' where t': "remove_range a ?t = Inr t'" "tree_ok t'" "range_map t' = (range_map t)(a := None)"
    using tracker.rem [OF m(1), of a] m(2) by auto
  have "be_inv (e\<lparr>be_heap := inferiorFreeInternal a (be_heap e), tracker_tree := Some t'\<rparr>) (G(a := None)) budget"
    using I inferiorFreeInternal_spec [OF I(1)] t'(2,3) t(2) trackers_ok_del [OF I(7), of a] plain_free [OF I(8)] by (simp add: be_inv_def trackers_def)
  then show ?thesis using t t'(1) by (simp add: be_inferiorFree_def)
qed

lemma be_inferiorRealloc_spec:
  assumes inv: "be_inv e G budget" and a: "a \<in> dom G" and n: "n \<noteq> 0" "unat n + 8 \<le> budget"
  shows "\<exists>b e'. be_inferiorRealloc 8 a n e = Inr (b, e') \<and> be_inv e' (if b then G(a \<mapsto> unat (inferiorMallocAlign 8 n)) else G) budget"
proof -
  note I = be_invD [OF inv]
  let ?sz = "inferiorMallocAlign 8 n"
  have "unat n + 2 ^ 3 \<le> 2 ^ 32" using n(2) I(5) by simp
  then have sz: "unat n \<le> unat ?sz" "unat ?sz < unat n + 8" using inferiorMallocAlign_ge [of 3 n] by simp_all
  then have nz: "?sz \<noteq> 0" "unat ?sz < 2 ^ 31" using n I(5) by (auto simp: word_unat_eq_iff)
  from held_tracker [OF inv a] obtain t mt where t: "tracker_tree e = Some t" "trackers e = t" "range_map t a = Some mt" "alloced mt"
      "get_address mt = a" "tracker_ok mt" "find_range a (setData t) = Some mt" .
  let ?A = "{unat (lowWaterMark e) ..< unat (highWaterMark e)}"
  obtain b h where h: "inferiorReallocInternal 8 a n (be_heap e) = Inr (b, h)"
      "if b then G a \<noteq> None \<and> heap_inv h (G(a \<mapsto> unat ?sz)) ?A else h = be_heap e"
    using inferiorReallocInternal_spec [OF I(1) refl nz] by blast
  show ?thesis
  proof (cases b)
    case False
    then show ?thesis using h inv by (auto simp: be_inferiorRealloc_def)
  next
    case True
    then have hi: "heap_inv h (G(a \<mapsto> unat ?sz)) ?A" using h(2) by simp
    obtain h' where h': "inferiorFreeCompact h = Inr h'" "heap_inv h' (G(a \<mapsto> unat ?sz)) ?A"
      using inferiorFreeCompact_spec [OF hi] by blast
    have g: "unat a + unat ?sz < 2 ^ 64" "grant a (unat ?sz) \<subseteq> ?A" using grants_okD(3,4) [OF heap_invD(3) [OF hi], of a "unat ?sz"] by simp_all
    have "unat a \<in> grant a (unat ?sz)" using nz(1) by (simp add: grant_def unat_gt_0)
    then have low: "unat (lowWaterMark e) \<le> unat a" using g(2) by auto
    let ?mt = "tracker_realloc n mt"
    have mt: "tracker_ok ?mt" "alloced ?mt" "get_address ?mt = a" "get_size ?mt = n"
      using t(4-6) n(1) g(1) sz(1) by (auto simp: tracker_ok_def tracker_realloc_def)
    obtain t1 where t1: "remove_range a t = Inr t1" "tree_ok t1" "range_map t1 = (range_map t)(a := None)"
      using tracker.rem I(6) t(2) by metis
    obtain t2 where t2: "insert_range ?mt t1 = Inr t2" "tree_ok t2" "range_map t2 = (range_map t)(a \<mapsto> ?mt)"
      using tracker.ins [OF t1(2), of ?mt] t1(3) mt(3) by auto
    have "trackers_ok (lowWaterMark e) (G(a \<mapsto> unat ?sz)) (range_map t2)"
      unfolding t2(3) using mt sz(1) low I(7) t(2) by (intro trackers_ok_upd) simp_all
    then have "be_inv (e\<lparr>be_heap := h', tracker_tree := Some t2\<rparr>) (G(a \<mapsto> unat ?sz)) budget"
      using I h'(2) t2(2) plain_compact [OF h'(1) plain_realloc [OF h(1)]] by (simp add: be_inv_def trackers_def)
    moreover have "be_inferiorRealloc 8 a n e = Inr (True, e\<lparr>be_heap := h', tracker_tree := Some t2\<rparr>)"
      using h(1) True h'(1) t(1,7) t1(1) t2(1) by (simp add: be_inferiorRealloc_def maxAllocedAddr_def be_compact_def Let_def)
    ultimately show ?thesis using True by auto
  qed
qed

text \<open>A \<^verbatim>\<open>BinaryEdit\<close> as a memory that users share.\<close>

fun be_step :: "memory_request \<Rightarrow> binary_edit \<Rightarrow> fault + memory_answer \<times> binary_edit" where
  "be_step (Get n) e = and_then (be_inferiorMalloc 8 n e) (\<lambda>(a, e'). Inr (Got a, e'))"
| "be_step (Give a) e = and_then (be_inferiorFree a e) (\<lambda>e'. Inr (Given, e'))"
| "be_step (Change a n) e = and_then (be_inferiorRealloc 8 a n e) (\<lambda>(b, e'). Inr (Changed b, e'))"

definition words_of :: "u32 \<Rightarrow> nat" where
  "words_of n = unat (inferiorMallocAlign 8 n)"

fun be_cost :: "memory_request \<Rightarrow> nat" where
  "be_cost (Get n) = unat n + 8"
| "be_cost (Give a) = 0"
| "be_cost (Change a n) = unat n + 8"

lemma be_attempt_low: "be_attempt sz e = Inr (a, e') \<Longrightarrow> lowWaterMark e' = lowWaterMark e"
  by (auto simp: be_attempt_def and_then_Inr split: if_splits)

lemma be_compact_low: "be_compact e = Inr e' \<Longrightarrow> lowWaterMark e' = lowWaterMark e"
  by (auto simp: be_compact_def and_then_Inr)

lemma inferiorMallocStatic_low: "inferiorMallocStatic sz e = Inr e' \<Longrightarrow> lowWaterMark e' = lowWaterMark e"
  by (auto simp: inferiorMallocStatic_def Let_def split: if_splits)

text \<open>A successful allocation ends with an attempt; what the steps before it keep holds when it is made.\<close>

lemma be_inferiorMalloc_attempt:
  assumes r: "be_inferiorMalloc width n e = Inr (a, e')" and sz: "sz = inferiorMallocAlign width n" and P: "P e"
    and failed: "\<And>e e'. P e \<Longrightarrow> be_attempt sz e = Inr (0, e') \<Longrightarrow> P e'" and compacted: "\<And>e e'. P e \<Longrightarrow> be_compact e = Inr e' \<Longrightarrow> P e'"
    and more: "\<And>e e'. P e \<Longrightarrow> inferiorMallocStatic sz e = Inr e' \<Longrightarrow> Q e'" and weak: "\<And>e. P e \<Longrightarrow> Q e"
  shows "\<exists>e''. Q e'' \<and> be_attempt sz e'' = Inr (a, e')"
proof -
  obtain a0 e0 where 0: "be_attempt sz e = Inr (a0, e0)" using r sz by (auto simp: be_inferiorMalloc_def Let_def and_then_Inr)
  show ?thesis
  proof (cases "a0 = 0")
    case False
    then show ?thesis using r sz 0 weak [OF P] by (auto simp: be_inferiorMalloc_def)
  next
    case True
    then obtain e1 a1 e2 where 1: "be_compact e0 = Inr e1" "be_attempt sz e1 = Inr (a1, e2)"
      using r sz 0 by (auto simp: be_inferiorMalloc_def Let_def and_then_Inr)
    have P1: "P e1" using compacted [OF failed [OF P] 1(1)] 0 True by simp
    show ?thesis
    proof (cases "a1 = 0")
      case False
      then show ?thesis using r sz 0 1 True weak [OF P1] by (auto simp: be_inferiorMalloc_def)
    next
      case zero: True
      then obtain e3 where "inferiorMallocStatic sz e2 = Inr e3" "be_attempt sz e3 = Inr (a, e')"
        using r sz 0 1 True by (auto simp: be_inferiorMalloc_def and_then_Inr Let_def)
      then show ?thesis using more [OF failed [OF P1]] 1(2) zero by blast
    qed
  qed
qed

lemma be_inferiorMalloc_low:
  assumes "be_inferiorMalloc width n e = Inr (a, e')"
  shows "lowWaterMark e' = lowWaterMark e"
  using be_inferiorMalloc_attempt [OF assms refl, of "\<lambda>x. lowWaterMark x = lowWaterMark e" "\<lambda>x. lowWaterMark x = lowWaterMark e"]
    be_attempt_low be_compact_low inferiorMallocStatic_low by metis

lemma be_inferiorRealloc_low:
  assumes "be_inferiorRealloc width a n e = Inr (b, e')"
  shows "lowWaterMark e' = lowWaterMark e"
proof -
  obtain result h where h: "inferiorReallocInternal width a n (be_heap e) = Inr (result, h)"
    using assms by (auto simp: be_inferiorRealloc_def and_then_Inr)
  show ?thesis
  proof (cases result)
    case False
    then show ?thesis using assms h by (auto simp: be_inferiorRealloc_def)
  next
    case True
    then obtain m e2 where m: "maxAllocedAddr (e\<lparr>be_heap := h\<rparr>) = Inr (m, e2)"
      using assms h by (auto simp: be_inferiorRealloc_def and_then_Inr)
    then have "lowWaterMark e2 = lowWaterMark e" by (auto simp: maxAllocedAddr_def and_then_Inr dest!: be_compact_low)
    then show ?thesis using assms h True m
      by (cases "tracker_tree e2"; cases "find_range a (setData (the (tracker_tree e2)))") (auto simp: be_inferiorRealloc_def and_then_Inr)
  qed
qed

lemma be_step_low: "be_step r e = Inr (x, e') \<Longrightarrow> lowWaterMark e' = lowWaterMark e"
proof (cases r)
  case (Get n)
  moreover assume "be_step r e = Inr (x, e')"
  ultimately show ?thesis using be_inferiorMalloc_low by (auto simp: and_then_Inr)
next
  case (Give a)
  moreover assume "be_step r e = Inr (x, e')"
  ultimately show ?thesis by (auto simp: be_inferiorFree_def and_then_Inr Let_def split: option.splits)
next
  case (Change a n)
  moreover assume "be_step r e = Inr (x, e')"
  ultimately show ?thesis using be_inferiorRealloc_low by (auto simp: and_then_Inr)
qed

lemma be_step_served:
  assumes inv: "be_inv e G budget" and h: "honest r G" "be_cost r \<le> budget"
  shows "\<exists>x e'. be_step r e = Inr (x, e') \<and> serves words_of G r x \<and> be_inv e' (held words_of G r x) (budget - be_cost r)"
proof (cases r)
  case (Get n)
  then have n: "n \<noteq> 0" "unat n + 8 \<le> budget" using h by simp_all
  have "unat n + 2 ^ 3 \<le> 2 ^ 32" using n(2) be_invD(5) [OF inv] by simp
  then have "unat n \<le> words_of n" using inferiorMallocAlign_ge(1) [of 3 n] by (simp add: words_of_def)
  then show ?thesis using be_inferiorMalloc_spec [OF inv n] Get
    by (fastforce simp: words_of_def intro: serves.intros split: if_splits)
next
  case (Give a)
  then show ?thesis using be_inferiorFree_spec [OF inv, of a] h(1) by (auto intro: serves.give)
next
  case (Change a n)
  then have n: "a \<in> dom G" "n \<noteq> 0" "unat n + 8 \<le> budget" using h by simp_all
  have "unat n + 2 ^ 3 \<le> 2 ^ 32" using n(3) be_invD(5) [OF inv] by simp
  then have sz: "unat n \<le> words_of n" using inferiorMallocAlign_ge(1) [of 3 n] by (simp add: words_of_def)
  obtain b e' where b: "be_inferiorRealloc 8 a n e = Inr (b, e')" "be_inv e' (if b then G(a \<mapsto> words_of n) else G) budget"
    using be_inferiorRealloc_spec [OF inv n] unfolding words_of_def by blast
  have "serves words_of G r (Changed b)"
  proof (cases b)
    case True
    have "grant a (words_of n) \<inter> grant c k = {}" if "c \<noteq> a" "G c = Some k" for c k
      using grants_okD(5) [OF heap_invD(3) [OF be_invD(1) [OF b(2)]], of a "words_of n" c k] True that by simp
    then show ?thesis using True Change sz by (auto intro: serves.change)
  qed (use Change in \<open>auto intro: serves.keep\<close>)
  then show ?thesis using b Change be_inv_budget [OF b(2), of "budget - be_cost r"] by auto
qed

interpretation file_memory: inferior_memory "\<lambda>e G budget. be_inv e G budget \<and> lowWaterMark e = low" words_of be_cost be_step
proof
  fix e G budget r
  assume inv: "be_inv e G budget \<and> lowWaterMark e = low"
  then have "grants_ok G {unat (lowWaterMark e) ..< unat (highWaterMark e)}" using heap_invD(3) [OF be_invD(1)] by blast
  then show "separate G" using grants_okD(5) unfolding separate_def by blast
  assume "honest r G" "be_cost r \<le> budget"
  then show "\<exists>x e'. be_step r e = Inr (x, e') \<and> serves words_of G r x
      \<and> be_inv e' (held words_of G r x) (budget - be_cost r) \<and> lowWaterMark e' = low"
    using be_step_served [of e G budget r] be_step_low [of r e] inv by blast
qed

subsection \<open>A file that is opened\<close>

lemma minus_and_eq: "(a :: u64) - (a AND b) = a AND NOT b"
proof -
  have "(a AND NOT b) + (a AND b) = (a AND NOT b) OR (a AND b)" by (rule disjunctive_add) (simp add: bit_simps)
  also have "\<dots> = a" by (rule bit_word_eqI) (auto simp: bit_simps)
  finally show ?thesis by (metis add_diff_cancel_right')
qed

lemma first_address_above:
  assumes "unat off + 2 ^ 20 < 2 ^ 64"
  shows "unat off < unat (first_address off)" "unat (first_address off) \<le> unat off + 2 ^ 20"
proof -
  have s: "unat (off + 0x100000) = unat off + 2 ^ 20" using assms by (subst unat_add_u64) simp_all
  have "(off + 0x100000) - ((off + 0x100000) AND (0x100000 - 1)) = (off + 0x100000) AND NOT (0x100000 - 1)"
    by (rule minus_and_eq)
  then have "unat (first_address off) = (unat off + 2 ^ 20) div 2 ^ 20 * 2 ^ 20"
    using page_down [of 20 "off + 0x100000"] s by (simp add: first_address_def Let_def)
  moreover have "(unat off + 2 ^ 20) div 2 ^ 20 * 2 ^ 20 + (unat off + 2 ^ 20) mod 2 ^ 20 = unat off + 2 ^ 20" by (rule div_mult_mod_eq)
  moreover have "(unat off + 2 ^ 20) mod 2 ^ 20 < 2 ^ 20" by simp
  ultimately show "unat off < unat (first_address off)" "unat (first_address off) \<le> unat off + 2 ^ 20" by linarith+
qed

text \<open>The sections a file is opened with: those that are loaded do not overlap, end below the address that the symbol table calls free, and have
  as many bytes as they say.\<close>

definition loaded :: "file_region \<Rightarrow> bool" where
  "loaded r \<longleftrightarrow> \<not> is_bss r \<and> mem_size r \<noteq> 0"

definition region_bytes :: "file_region \<Rightarrow> nat set" where
  "region_bytes r = grant (mem_offset r) (unat (mem_size r))"

definition regions_ok :: "nat \<Rightarrow> file_region list \<Rightarrow> bool" where
  "regions_ok free regs \<longleftrightarrow> (\<forall>r \<in> set regs. loaded r \<longrightarrow> unat (mem_offset r) + unat (mem_size r) \<le> free \<and> length (raw_data r) = unat (mem_size r))
     \<and> sorted_wrt (\<lambda>r s. loaded r \<and> loaded s \<longrightarrow> region_bytes r \<inter> region_bytes s = {}) regs"

lemma trackers_ok_section:
  assumes ok: "trackers_ok low Map.empty m" and mt: "\<not> alloced mt" "get_address mt = a" "tracker_ok mt" "unat a + unat (get_size mt) \<le> unat low"
    and apart: "\<And>b x. m b = Some x \<Longrightarrow> grant a (unat (get_size mt)) \<inter> grant b (unat (get_size x)) = {}"
  shows "trackers_ok low Map.empty (m(a \<mapsto> mt))"
  unfolding trackers_ok_def
proof (intro conjI allI impI ballI)
  fix b x
  assume x: "(m(a \<mapsto> mt)) b = Some x"
  show "get_address x = b" "tracker_ok x" using x mt trackers_okD(1,2) [OF ok] by (auto split: if_splits)
  show "if alloced x then \<exists>k. Map.empty b = Some k \<and> unat (get_size x) \<le> k else unat b + unat (get_size x) \<le> unat low"
    using x mt trackers_okD(3,4) [OF ok] by (auto split: if_splits)
next
  fix b c x y
  assume "(m(a \<mapsto> mt)) b = Some x \<and> (m(a \<mapsto> mt)) c = Some y \<and> \<not> alloced x \<and> \<not> alloced y \<and> b \<noteq> c"
  then show "grant b (unat (get_size x)) \<inter> grant c (unat (get_size y)) = {}"
    using trackers_okD(6) [OF ok, of b x c y] apart by (auto split: if_splits)
qed simp

lemma createMemoryBackingStore_spec:
  assumes "be_inv e Map.empty budget" "regions_ok free regs" "free \<le> unat (lowWaterMark e)"
    "\<And>r b x. r \<in> set regs \<Longrightarrow> loaded r \<Longrightarrow> range_map (trackers e) b = Some x \<Longrightarrow> region_bytes r \<inter> grant b (unat (get_size x)) = {}"
  shows "\<exists>e'. createMemoryBackingStore regs e = Inr e' \<and> be_inv e' Map.empty budget \<and> lowWaterMark e' = lowWaterMark e"
  using assms
proof (induction regs e rule: createMemoryBackingStore.induct)
  case (2 r rs e)
  have rs: "regions_ok free rs" using 2(4) by (simp add: regions_ok_def)
  show ?case
  proof (cases "loaded r")
    case False
    then show ?thesis using 2(1) [OF _ 2(3) rs 2(5)] 2(6) by (auto simp: loaded_def)
  next
    case True
    note I = be_invD [OF 2(3)]
    let ?mt = "section_tracker (mem_offset r) (mem_size r) (raw_data r)"
    have r: "unat (mem_offset r) + unat (mem_size r) \<le> unat (lowWaterMark e)" "length (raw_data r) = unat (mem_size r)"
      using 2(4,5) True by (auto simp: regions_ok_def)
    have mt: "\<not> alloced ?mt" "get_address ?mt = mem_offset r" "get_size ?mt = mem_size r" "tracker_ok ?mt"
      using True r unat_u64_less [of "lowWaterMark e"] by (auto simp: section_tracker_def new_tracker_def tracker_ok_def loaded_def)
    obtain t where t: "insert_range ?mt (trackers e) = Inr t" "tree_ok t" "range_map t = (range_map (trackers e))(mem_offset r \<mapsto> ?mt)"
      using tracker.ins [OF I(6), of ?mt] mt(2) by auto
    let ?e = "e\<lparr>tracker_tree := Some t\<rparr>"
    have "trackers_ok (lowWaterMark e) Map.empty (range_map t)"
      unfolding t(3) using mt r 2(6) [of r] True by (intro trackers_ok_section [OF I(7)]) (simp_all add: region_bytes_def)
    then have inv: "be_inv ?e Map.empty budget" using I t(2) by (simp add: be_inv_def trackers_def)
    have apart: "region_bytes s \<inter> grant b (unat (get_size x)) = {}" if "s \<in> set rs" "loaded s" "range_map (trackers ?e) b = Some x" for s b x
      using that 2(4) 2(6) [of s b x] True mt(3) t(3)
      by (auto simp: trackers_def regions_ok_def region_bytes_def Int_commute split: if_splits)
    have "createMemoryBackingStore (r # rs) e = createMemoryBackingStore rs ?e"
      using True t(1) by (simp add: loaded_def trackers_def)
    then show ?thesis using 2(2) [OF _ inv rs] apart 2(5) True by (auto simp: loaded_def)
  qed
qed auto

lemma regions_ok_mono: "regions_ok n regs \<Longrightarrow> n \<le> m \<Longrightarrow> regions_ok m regs"
  unfolding regions_ok_def by (auto dest: order_trans)

lemma empty_function_length: "length (empty_function width) \<le> 6" "length (empty_function width) \<noteq> 0"
  by (simp_all add: empty_function_def)

lemma add_empty_function_ok:
  assumes "regions_ok (unat mark) regs" "unat mark + 6 < 2 ^ 64" "add_empty_function width needed (regs, mark) = (regs', mark')"
  shows "regions_ok (unat mark') regs'" "unat mark \<le> unat mark'" "unat mark' \<le> unat mark + 6"
proof -
  let ?n = "length (empty_function width)"
  have n: "unat (of_nat ?n :: u64) = ?n" "unat (of_nat ?n :: u32) = ?n" "?n \<le> 6"
    using empty_function_length [of width] by (simp_all add: unat_of_nat)
  have m: "unat mark' = unat mark + (if needed then ?n else 0)"
    using assms(2,3) n by (auto simp: add_empty_function_def unat_add_u64)
  then show "unat mark \<le> unat mark'" "unat mark' \<le> unat mark + 6" using n by simp_all
  have old: "regions_ok (unat mark') regs" using regions_ok_mono [OF assms(1)] m by simp
  have below: "region_bytes r \<inter> grant mark k = {}" if "r \<in> set regs" "loaded r" for r k
    using assms(1) that by (auto simp: regions_ok_def region_bytes_def grant_def)
  show "regions_ok (unat mark') regs'"
    using assms(3) old below m n by (auto simp: add_empty_function_def regions_ok_def sorted_wrt_append region_bytes_def split: if_splits)
qed

lemma makeInitAndFiniIfNeeded_ok:
  assumes "regions_ok (unat mark) regs" "unat mark + 12 < 2 ^ 64" "makeInitAndFiniIfNeeded f (regs, mark) = (regs', mark')"
  shows "regions_ok (unat mark') regs'" "unat mark \<le> unat mark'" "unat mark' \<le> unat mark + 12"
proof -
  obtain regs1 mark1 where 1: "add_empty_function (address_width f) (\<not> has_init f \<and> \<not> has_init_region f) (regs, mark) = (regs1, mark1)" by fastforce
  note ok1 = add_empty_function_ok [OF assms(1) _ 1]
  have "regions_ok (unat mark') regs' \<and> unat mark \<le> unat mark' \<and> unat mark' \<le> unat mark + 12"
  proof (cases "is_static f \<or> is_relocatable f")
    case False
    then have 2: "add_empty_function (address_width f) (\<not> has_fini f \<and> \<not> has_fini_region f) (regs1, mark1) = (regs', mark')"
      using assms(3) 1 by (simp add: makeInitAndFiniIfNeeded_def)
    show ?thesis using ok1 add_empty_function_ok [OF ok1(1) _ 2] assms(2) by simp
  qed (use assms in \<open>auto simp: makeInitAndFiniIfNeeded_def\<close>)
  then show "regions_ok (unat mark') regs'" "unat mark \<le> unat mark'" "unat mark' \<le> unat mark + 12" by simp_all
qed

text \<open>A file that can be edited: what the symbol table must promise.\<close>

definition editable :: "linked_file \<Rightarrow> bool" where
  "editable f \<longleftrightarrow> \<not> instrumented_before f \<and> address_width f = 8 \<and> regions_ok (unat (free_offset f)) (all_regions f)
     \<and> unat (free_offset f) + 2 ^ 21 + 2 ^ 31 \<le> 2 ^ 64"

lemma open_file_inv:
  assumes f: "editable f"
  shows "\<exists>e. open_file f = Inr (Some e) \<and> be_inv e Map.empty (2 ^ 31 - 1) \<and> unat (free_offset f) < unat (lowWaterMark e)"
proof -
  note a = first_address_above [of "free_offset f"]
  obtain regs mark where m: "makeInitAndFiniIfNeeded f (all_regions f, first_address (free_offset f)) = (regs, mark)" by fastforce
  have "regions_ok (unat (first_address (free_offset f))) (all_regions f)"
    using f a by (auto simp: editable_def intro: regions_ok_mono)
  from makeInitAndFiniIfNeeded_ok [OF this _ m]
  have ok: "regions_ok (unat mark) regs" "unat (free_offset f) < unat mark" "unat mark + 2 ^ 31 < 2 ^ 64"
    using f a by (auto simp: editable_def)
  let ?e = "\<lparr>be_heap = new_heap, highWaterMark = mark, lowWaterMark = mark, isDirty = False, tracker_tree = None\<rparr>"
  have "tree_ok (new_tree :: memoryTracker codeRangeTree)" "range_map (new_tree :: memoryTracker codeRangeTree) = Map.empty"
    by (simp_all add: tree_ok_def new_tree_def red_black_def range_map_def)
  then have inv: "be_inv ?e Map.empty (2 ^ 31 - 1)" and none: "range_map (trackers ?e) = Map.empty"
    using ok new_heap_inv plain_new_heap by (auto simp: be_inv_def trackers_def trackers_ok_def word_unat_eq_iff)
  have "instrumented_before f = False" using f by (simp add: editable_def)
  then show ?thesis using createMemoryBackingStore_spec [OF inv ok(1)] ok(2) none m by (auto simp: open_file_def)
qed


definition small_file :: linked_file where
  "small_file = \<lparr>free_offset = 0x500000, all_regions = [\<lparr>mem_offset = 0x400000, mem_size = 2, is_bss = False, raw_data = [0x90, 0xC3]\<rparr>],
     address_width = 8, is_static = False, is_relocatable = False, instrumented_before = False,
     has_init = True, has_init_region = True, has_fini = False, has_fini_region = False\<rparr>"

lemma small_file_editable: "editable small_file"
  by (simp add: editable_def small_file_def regions_ok_def)

definition some_requests :: "memory_request list" where
  "some_requests = [Get 100, Get 20, Change 0x600006 200, Give 0x600006, Get 8]"


end
