(* ===== verification/File_Image.thy ===== *)
theory File_Image
  imports Binary_Edit
begin

section \<open>What the rewritten file holds\<close>

text \<open>
  The bytes of the address space of a file that is rewritten (\<open>Binary_Edit\<close>): \<open>memory_of\<close> reads the buffers of the trackers as one memory.
  \<^verbatim>\<open>writeTextSpace\<close> overwrites its range, also across several buffers, \<^verbatim>\<open>readTextSpace\<close> reads inside one buffer, and the section that
  \<^verbatim>\<open>writeFile\<close> adds to the file is this memory from \<^verbatim>\<open>lowWaterMark_\<close> on.
\<close>

definition memory_of :: "binary_edit \<Rightarrow> nat \<Rightarrow> u8 option option" where
  "memory_of e i =
     (if i < 2 ^ 64
      then case find_range (of_nat i) (setData (trackers e)) of
             None \<Rightarrow> None
           | Some mt \<Rightarrow> Some (local_buf mt ! (i - unat (get_address mt)))
      else None)"

lemma unat_of_nat_u64: "i < 2 ^ 64 \<Longrightarrow> unat (of_nat i :: u64) = i"
  by (simp add: unat_of_nat)

lemma find_tracker_iff:
  assumes inv: "be_inv e G budget"
  shows "find_range key (setData (trackers e)) = Some mt
    \<longleftrightarrow> range_map (trackers e) (get_address mt) = Some mt \<and> unat key \<in> grant (get_address mt) (unat (get_size mt))"
proof -
  note I = be_invD [OF inv]
  show ?thesis
    using tracker.lookup_covering [OF I(6) trackers_disjoint [OF I(7) heap_invD(3) [OF I(1)]], of key mt]
      covers_grant trackers_okD(2) [OF I(7)] by metis
qed

lemma memory_of_tracker:
  assumes inv: "be_inv e G budget" and mt: "range_map (trackers e) a = Some mt" and i: "i \<in> grant a (unat (get_size mt))"
  shows "memory_of e i = Some (local_buf mt ! (i - unat a))"
proof -
  note t = trackers_okD(1,2) [OF be_invD(7) [OF inv] mt]
  have "i < 2 ^ 64" using i t by (simp add: grant_def tracker_ok_def)
  moreover from this have "unat (of_nat i :: u64) = i" by (rule unat_of_nat_u64)
  ultimately show ?thesis using find_tracker [OF inv mt, of "of_nat i"] i t(1) by (simp add: memory_of_def)
qed

lemma memory_of_Some:
  assumes inv: "be_inv e G budget" and b: "memory_of e i = Some b"
  obtains a mt where "range_map (trackers e) a = Some mt" "i \<in> grant a (unat (get_size mt))"
proof -
  have i: "i < 2 ^ 64" using b by (simp add: memory_of_def split: if_splits)
  then obtain mt where "find_range (of_nat i) (setData (trackers e)) = Some mt" using b by (auto simp: memory_of_def split: option.splits)
  moreover have "unat (of_nat i :: u64) = i" using i by (rule unat_of_nat_u64)
  ultimately show thesis using that find_tracker_iff [OF inv] by metis
qed

text \<open>A tracker is replaced by one with the same place: the memory changes inside it only.\<close>

lemma memory_of_replace:
  assumes inv: "be_inv e G budget" and inv': "be_inv e' G' budget'" and mt: "range_map (trackers e) a = Some mt"
    and m: "range_map (trackers e') = (range_map (trackers e))(a \<mapsto> mt')" and s: "get_size mt' = get_size mt"
  shows "memory_of e' i = (if i \<in> grant a (unat (get_size mt)) then Some (local_buf mt' ! (i - unat a)) else memory_of e i)"
proof (cases "i \<in> grant a (unat (get_size mt))")
  case True
  then show ?thesis using memory_of_tracker [OF inv', of a mt' i] m s by simp
next
  case False
  have "memory_of e' i = memory_of e i" if "range_map (trackers e) b = Some x" "i \<in> grant b (unat (get_size x))" for b x
  proof -
    have "b \<noteq> a" using that mt False by auto
    then show ?thesis using memory_of_tracker [OF inv that] memory_of_tracker [OF inv', of b x i] that m by simp
  qed
  moreover have "\<exists>b x. range_map (trackers e) b = Some x \<and> i \<in> grant b (unat (get_size x))" if some: "memory_of e' i = Some v" for v
  proof -
    obtain b x where "range_map (trackers e') b = Some x" "i \<in> grant b (unat (get_size x))" by (rule memory_of_Some [OF inv' some])
    then show ?thesis using m s False by (auto split: if_splits)
  qed
  moreover have "\<exists>b x. range_map (trackers e) b = Some x \<and> i \<in> grant b (unat (get_size x))" if some: "memory_of e i = Some v" for v
    using memory_of_Some [OF inv some] by metis
  ultimately show ?thesis using False by (metis not_Some_eq)
qed

subsection \<open>Writing\<close>

lemma trackers_ok_same:
  assumes ok: "trackers_ok low G m" and x: "m a = Some x" "get_address y = get_address x" "get_size y = get_size x" "alloced y = alloced x" "tracker_ok y"
  shows "trackers_ok low G (m(a \<mapsto> y))"
  unfolding trackers_ok_def
proof (intro conjI allI impI ballI)
  fix b z
  assume z: "(m(a \<mapsto> y)) b = Some z"
  show "get_address z = b" "tracker_ok z" using z x trackers_okD(1,2) [OF ok] by (auto split: if_splits)
  show "if alloced z then \<exists>k. G b = Some k \<and> unat (get_size z) \<le> k else unat b + unat (get_size z) \<le> unat low"
    using z x trackers_okD(3,4) [OF ok] by (auto split: if_splits)
next
  fix b
  assume "b \<in> dom G"
  then show "\<exists>z. (m(a \<mapsto> y)) b = Some z \<and> alloced z" using x(1,4) trackers_okD(5) [OF ok, of b] by auto
next
  fix b c u v
  assume "(m(a \<mapsto> y)) b = Some u \<and> (m(a \<mapsto> y)) c = Some v \<and> \<not> alloced u \<and> \<not> alloced v \<and> b \<noteq> c"
  then show "grant b (unat (get_size u)) \<inter> grant c (unat (get_size v)) = {}"
    using x(1,3,4) trackers_okD(6) [OF ok, of b _ c _] by (auto split: if_splits)
qed

lemma be_inv_buffer:
  assumes inv: "be_inv e G budget" and t: "tracker_tree e = Some t" and mt: "range_map t a = Some mt"
    and buf: "length (f (local_buf mt)) = length (local_buf mt)"
  defines "t' \<equiv> modify_tracker a (\<lambda>mt. mt\<lparr>dirty := True, local_buf := f (local_buf mt)\<rparr>) t"
  shows "be_inv (e\<lparr>tracker_tree := Some t'\<rparr>) G budget"
    "range_map t' = (range_map t)(a \<mapsto> mt\<lparr>dirty := True, local_buf := f (local_buf mt)\<rparr>)"
proof -
  note I = be_invD [OF inv]
  have tr: "trackers e = t" using t by (simp add: trackers_def)
  have ok: "tree_ok t" "get_address mt = a" using I(6,7) tr mt trackers_okD(1) by auto
  note m = modify_tracker_spec [OF ok(1) mt, of "\<lambda>mt. mt\<lparr>dirty := True, local_buf := f (local_buf mt)\<rparr>"]
  show r: "range_map t' = (range_map t)(a \<mapsto> mt\<lparr>dirty := True, local_buf := f (local_buf mt)\<rparr>)"
    unfolding t'_def using m(2) ok(2) by simp
  have "trackers_ok (lowWaterMark e) G (range_map t')"
    unfolding r using I(7) tr mt buf trackers_okD(2) [OF I(7), of a mt] by (intro trackers_ok_same) (auto simp: tracker_ok_def)
  then show "be_inv (e\<lparr>tracker_tree := Some t'\<rparr>) G budget"
    using I m(1) ok(2) unfolding t'_def by (simp add: be_inv_def trackers_def)
qed

definition overlay :: "(nat \<Rightarrow> u8 option option) \<Rightarrow> nat \<Rightarrow> u8 list \<Rightarrow> nat \<Rightarrow> u8 option option" where
  "overlay M a bs i = (if a \<le> i \<and> i < a + length bs then Some (Some (bs ! (i - a))) else M i)"

lemma overlay_Nil [simp]: "overlay M a [] = M"
  by (auto simp: overlay_def fun_eq_iff)

lemma overlay_append: "overlay (overlay M a bs) (a + length bs) cs = overlay M a (bs @ cs)"
  by (auto simp: overlay_def fun_eq_iff nth_append)

lemma overlay_None: "overlay M a bs i = None \<longleftrightarrow> \<not> (a \<le> i \<and> i < a + length bs) \<and> M i = None"
  by (auto simp: overlay_def)

lemma nth_overwrite:
  assumes "off + length bs \<le> length buf" "j < length buf"
  shows "(take off buf @ bs @ drop (off + length bs) buf) ! j = (if off \<le> j \<and> j < off + length bs then bs ! (j - off) else buf ! j)"
  using assms by (auto simp: nth_append min_def)

text \<open>Where the trackers are and how long.\<close>

definition layout :: "memoryTracker codeRangeTree \<Rightarrow> u64 \<rightharpoonup> u32" where
  "layout t = (\<lambda>a. map_option get_size (range_map t a))"

text \<open>The number of bytes that an iteration writes.\<close>

lemma chunk_size:
  assumes ok: "tracker_ok rg" and addr: "unat addr \<in> grant (get_address rg) (unat (get_size rg))"
    and room: "unat addr + length bytes < 2 ^ 64" "length bytes < 2 ^ 32"
  shows "unat (if addr + ucast (of_nat (length bytes) :: u32) \<le> range_end rg then of_nat (length bytes) else ucast (range_end rg - addr) :: u32)
    = min (length bytes) (unat (get_address rg) + unat (get_size rg) - unat addr)"
proof -
  have re: "unat (range_end rg) = unat (get_address rg) + unat (get_size rg)"
    using ok unfolding range_end_def tracker_ok_def by (subst unat_add_u64) simp_all
  have len: "unat (of_nat (length bytes) :: u32) = length bytes" using room(2) by (simp add: unat_of_nat)
  have to_do: "unat (addr + ucast (of_nat (length bytes) :: u32)) = unat addr + length bytes"
    using room len by (subst unat_add_u64) simp_all
  show ?thesis
  proof (cases "unat addr + length bytes \<le> unat (range_end rg)")
    case True
    then show ?thesis using to_do len re by (simp add: word_le_nat_alt)
  next
    case False
    have "unat (range_end rg - addr) = unat (get_address rg) + unat (get_size rg) - unat addr"
      using re addr by (simp add: unat_sub_if' grant_def)
    moreover from this have "unat (range_end rg - addr) < 2 ^ 32" using unat_u32_less [of "get_size rg"] addr by (auto simp: grant_def)
    ultimately show ?thesis using False re to_do addr by (simp add: word_le_nat_alt unsigned_ucast_eq take_bit_nat_eq_self grant_def)
  qed
qed

text \<open>One iteration: the bytes that lie in the buffer at the address.\<close>

lemma write_chunk:
  assumes inv: "be_inv e G budget" and t: "tracker_tree e = Some t" and room: "unat addr + length bytes < 2 ^ 64" "length bytes < 2 ^ 32"
    and bytes: "bytes \<noteq> []" and rg: "find_range addr (setData t) = Some rg"
  obtains k t' where "0 < k" "k \<le> length bytes" "write_loop addr bytes t = write_loop (addr + of_nat k) (drop k bytes) t'"
    "be_inv (e\<lparr>tracker_tree := Some t'\<rparr>) G budget" "memory_of (e\<lparr>tracker_tree := Some t'\<rparr>) = overlay (memory_of e) (unat addr) (take k bytes)"
    "\<And>i. i < k \<Longrightarrow> memory_of e (unat addr + i) \<noteq> None" "layout t' = layout t"
proof -
  note I = be_invD [OF inv]
  have tr: "trackers e = t" using t by (simp add: trackers_def)
  let ?a = "get_address rg" and ?s = "unat (get_size rg)"
  have mt: "range_map t ?a = Some rg" "unat addr \<in> grant ?a ?s" using find_tracker_iff [OF inv] rg tr by simp_all
  have ok: "tracker_ok rg" using trackers_okD(2) [OF I(7)] mt(1) tr by simp
  define off where "off = unat addr - unat ?a"
  have off: "unat addr = unat ?a + off" "off < ?s" "unat (addr - ?a) = off"
    using mt(2) unfolding off_def by (auto simp: grant_def unat_sub_if')
  define k where "k = min (length bytes) (?s - off)"
  define size where "size = (if addr + ucast (of_nat (length bytes) :: u32) \<le> range_end rg then of_nat (length bytes) else ucast (range_end rg - addr) :: u32)"
  have size: "unat size = k" using chunk_size [OF ok mt(2) room] off(1) unfolding size_def k_def by simp
  have k: "0 < k" "k \<le> length bytes" "off + k \<le> ?s" using bytes off(2) unfolding k_def by (auto simp: min_def)
  let ?f = "\<lambda>buf. take off buf @ map Some (take k bytes) @ drop (off + k) buf"
  have buf: "length (local_buf rg) = ?s" using ok by (simp add: tracker_ok_def)
  have lf: "length (?f (local_buf rg)) = length (local_buf rg)" using k buf by simp
  note m = be_inv_buffer [where f = ?f, OF inv t mt(1) lf]
  let ?t = "modify_tracker ?a (\<lambda>mt. mt\<lparr>dirty := True, local_buf := ?f (local_buf mt)\<rparr>) t"
  have sz: "ucast size = (of_nat k :: u64)" by (simp flip: size)
  have small: "addr - ?a < ucast (get_size rg)" using off(2,3) by (simp add: word_less_nat_alt)
  have "write_loop addr bytes t = write_loop (addr + of_nat k) (drop k bytes) ?t"
    using bytes rg mt(2) small off(3) size sz k buf ok
    by (subst write_loop.simps) (simp add: Let_def size_def [symmetric] tracker_ok_def grant_def word_less_nat_alt not_less)
  moreover have "memory_of (e\<lparr>tracker_tree := Some ?t\<rparr>) = overlay (memory_of e) (unat addr) (take k bytes)"
  proof
    fix i
    let ?rg = "rg\<lparr>dirty := True, local_buf := ?f (local_buf rg)\<rparr>"
    have r: "memory_of (e\<lparr>tracker_tree := Some ?t\<rparr>) i = (if i \<in> grant ?a ?s then Some (?f (local_buf rg) ! (i - unat ?a)) else memory_of e i)"
      using memory_of_replace [OF inv m(1), of ?a rg ?rg i] m(2) mt(1) tr by (simp add: trackers_def)
    have old: "memory_of e i = Some (local_buf rg ! (i - unat ?a))" if "i \<in> grant ?a ?s" using memory_of_tracker [OF inv _ that] mt(1) tr by simp
    show "memory_of (e\<lparr>tracker_tree := Some ?t\<rparr>) i = overlay (memory_of e) (unat addr) (take k bytes) i"
      unfolding r using old nth_overwrite [of off "map Some (take k bytes)" "local_buf rg" "i - unat ?a"] k buf off
      by (auto simp: overlay_def grant_def)
  qed
  moreover have "memory_of e (unat addr + i) \<noteq> None" if "i < k" for i
    using memory_of_tracker [OF inv, of ?a rg "unat addr + i"] mt(1) tr that k off by (simp add: grant_def)
  moreover have "layout ?t = layout t" using m(2) mt(1) by (simp add: layout_def fun_eq_iff)
  ultimately show thesis using that k m(1) by blast
qed

lemma write_loop_spec:
  assumes "be_inv e G budget" "tracker_tree e = Some t" "unat addr + length bytes < 2 ^ 64" "length bytes < 2 ^ 32"
  shows "\<exists>n t'. n \<le> length bytes \<and> write_loop addr bytes t = Some (Inr (n = length bytes, t')) \<and> be_inv (e\<lparr>tracker_tree := Some t'\<rparr>) G budget
    \<and> memory_of (e\<lparr>tracker_tree := Some t'\<rparr>) = overlay (memory_of e) (unat addr) (take n bytes)
    \<and> (\<forall>i < n. memory_of e (unat addr + i) \<noteq> None) \<and> (n < length bytes \<longrightarrow> memory_of e (unat addr + n) = None) \<and> layout t' = layout t"
  using assms
proof (induction "length bytes" arbitrary: bytes addr e t rule: less_induct)
  case less
  have id: "e\<lparr>tracker_tree := Some t\<rparr> = e" using less.prems(2) by simp
  consider "bytes = []" | "bytes \<noteq> []" "find_range addr (setData t) = None" | rg where "bytes \<noteq> []" "find_range addr (setData t) = Some rg" by fastforce
  then show ?case
  proof cases
    case 1
    then have "write_loop addr bytes t = Some (Inr (0 = length bytes, t))" by (subst write_loop.simps) simp
    then show ?thesis using less.prems(1) id 1 by (intro exI [of _ 0] exI [of _ t]) simp
  next
    case 2
    then have "write_loop addr bytes t = Some (Inr (0 = length bytes, t))" by (subst write_loop.simps) simp
    moreover have "memory_of e (unat addr) = None"
      using 2(2) less.prems(2,3) by (simp add: memory_of_def trackers_def)
    ultimately show ?thesis using less.prems(1) id by (intro exI [of _ 0] exI [of _ t]) simp
  next
    case (3 rg)
    from write_chunk [OF less.prems 3] obtain k t1 where k: "0 < k" "k \<le> length bytes"
      "write_loop addr bytes t = write_loop (addr + of_nat k) (drop k bytes) t1" "be_inv (e\<lparr>tracker_tree := Some t1\<rparr>) G budget"
      "memory_of (e\<lparr>tracker_tree := Some t1\<rparr>) = overlay (memory_of e) (unat addr) (take k bytes)"
      "\<And>i. i < k \<Longrightarrow> memory_of e (unat addr + i) \<noteq> None" "layout t1 = layout t" by metis
    have ad: "unat (addr + of_nat k) = unat addr + k" using k(2) less.prems(3) by (subst unat_add_u64) (simp_all add: unat_of_nat)
    have room: "unat (addr + of_nat k) + length (drop k bytes) < 2 ^ 64" "length (drop k bytes) < 2 ^ 32" "length (drop k bytes) < length bytes"
      using ad k(1,2) less.prems(3,4) by simp_all
    obtain n t' where n: "n \<le> length bytes - k" "write_loop (addr + of_nat k) (drop k bytes) t1 = Some (Inr (n = length bytes - k, t'))"
      "be_inv (e\<lparr>tracker_tree := Some t'\<rparr>) G budget"
      "memory_of (e\<lparr>tracker_tree := Some t'\<rparr>) = overlay (memory_of (e\<lparr>tracker_tree := Some t1\<rparr>)) (unat addr + k) (take n (drop k bytes))"
      "\<forall>i < n. memory_of (e\<lparr>tracker_tree := Some t1\<rparr>) (unat addr + k + i) \<noteq> None"
      "n < length bytes - k \<longrightarrow> memory_of (e\<lparr>tracker_tree := Some t1\<rparr>) (unat addr + k + n) = None" "layout t' = layout t1"
      using less.hyps [OF room(3) k(4) _ room(1,2)] ad by auto
    have "memory_of (e\<lparr>tracker_tree := Some t'\<rparr>) = overlay (memory_of e) (unat addr) (take (k + n) bytes)"
      using n(4) k(2,5) overlay_append [of "memory_of e" "unat addr" "take k bytes"] by (simp add: take_add min_absorb2)
    moreover have "memory_of e (unat addr + i) \<noteq> None" if "i < k + n" for i
    proof (cases "i < k")
      case False
      then show ?thesis using n(5) [rule_format, of "i - k"] that k(5) by (simp add: overlay_None)
    qed (use k(6) in simp)
    moreover have "memory_of e (unat addr + (k + n)) = None" if "k + n < length bytes" using n(6) that k(2,5) by (simp add: overlay_None add.assoc)
    moreover have "(n = length bytes - k) = (k + n = length bytes)" using n(1) k(2) by auto
    ultimately show ?thesis using n(1-3,7) k(2,3,7) by (intro exI [of _ "k + n"] exI [of _ t']) auto
  qed
qed

lemma writeTextSpace_spec:
  assumes inv: "be_inv e G budget" and t: "tracker_tree e \<noteq> None" and room: "unat addr + length bytes < 2 ^ 64" "length bytes < 2 ^ 32"
  shows "\<exists>n e'. n \<le> length bytes \<and> writeTextSpace addr bytes e = Inr (n = length bytes, e') \<and> be_inv e' G budget
    \<and> memory_of e' = overlay (memory_of e) (unat addr) (take n bytes)
    \<and> (\<forall>i < n. memory_of e (unat addr + i) \<noteq> None) \<and> (n < length bytes \<longrightarrow> memory_of e (unat addr + n) = None)
    \<and> lowWaterMark e' = lowWaterMark e \<and> highWaterMark e' = highWaterMark e \<and> tracker_tree e' \<noteq> None \<and> isDirty e'
    \<and> layout (trackers e') = layout (trackers e)"
proof -
  have dirty: "be_inv (x\<lparr>isDirty := True\<rparr>) G budget = be_inv x G budget" "memory_of (x\<lparr>isDirty := True\<rparr>) = memory_of x" for x
    by (simp_all add: be_inv_def trackers_def memory_of_def fun_eq_iff)
  show ?thesis
  proof (cases "bytes = []")
    case True
    then show ?thesis using inv t by (intro exI [of _ 0] exI [of _ "e\<lparr>isDirty := True\<rparr>"]) (simp add: writeTextSpace_def dirty, simp add: trackers_def)
  next
    case False
    from t obtain t where t: "tracker_tree e = Some t" by auto
    obtain n t' where n: "n \<le> length bytes" "write_loop addr bytes t = Some (Inr (n = length bytes, t'))" "be_inv (e\<lparr>tracker_tree := Some t'\<rparr>) G budget"
      "memory_of (e\<lparr>tracker_tree := Some t'\<rparr>) = overlay (memory_of e) (unat addr) (take n bytes)"
      "\<forall>i < n. memory_of e (unat addr + i) \<noteq> None" "n < length bytes \<longrightarrow> memory_of e (unat addr + n) = None" "layout t' = layout t"
      using write_loop_spec [OF inv t room] by blast
    have swap: "e\<lparr>isDirty := True, tracker_tree := Some t'\<rparr> = e\<lparr>tracker_tree := Some t', isDirty := True\<rparr>" by simp
    have "writeTextSpace addr bytes e = Inr (n = length bytes, e\<lparr>tracker_tree := Some t', isDirty := True\<rparr>)"
      using False t n(2) by (simp add: writeTextSpace_def Let_def)
    then show ?thesis using n t unfolding swap
      by (intro exI [of _ n] exI [of _ "e\<lparr>tracker_tree := Some t', isDirty := True\<rparr>"]) (simp add: dirty, simp add: trackers_def)
  qed
qed

subsection \<open>Reading\<close>

lemma readTextSpace_spec:
  assumes inv: "be_inv e G budget" and mt: "range_map (trackers e) a = Some mt"
    and addr: "unat a \<le> unat addr" "unat addr + unat sz \<le> unat a + unat (get_size mt)" "sz \<noteq> 0"
  shows "\<exists>bs. readTextSpace addr sz e = Inr (Some bs) \<and> length bs = unat sz \<and> (\<forall>i < unat sz. memory_of e (unat addr + i) = Some (bs ! i))"
proof -
  obtain t where t: "tracker_tree e = Some t" using mt by (cases "tracker_tree e") (auto simp: trackers_def range_map_def new_tree_def)
  then have tr: "trackers e = t" by (simp add: trackers_def)
  note ok = trackers_okD(1,2) [OF be_invD(7) [OF inv] mt]
  have sz: "0 < unat sz" using addr(3) by (simp add: unat_gt_0)
  have f: "find_range addr (setData t) = Some mt" using find_tracker [OF inv mt, of addr] addr sz tr by (simp add: grant_def)
  have off: "unat (addr - a) = unat addr - unat a" using addr(1) by (simp add: unat_sub_if')
  let ?bs = "take (unat sz) (drop (unat addr - unat a) (local_buf mt))"
  have "addr - a < ucast (get_size mt)" "\<not> addr < a" using off addr sz by (simp_all add: word_less_nat_alt)
  then have "readTextSpace addr sz e = Inr (Some ?bs)" using t f off ok addr sz by (simp add: readTextSpace_def tracker_ok_def)
  moreover have "memory_of e (unat addr + i) = Some (?bs ! i)" if "i < unat sz" for i
    using memory_of_tracker [OF inv mt, of "unat addr + i"] that addr ok(2) by (simp add: grant_def tracker_ok_def)
  moreover have "length ?bs = unat sz" using ok(2) addr by (simp add: tracker_ok_def)
  ultimately show ?thesis by blast
qed

subsection \<open>The section\<close>

lemma copy_blocks_spec:
  assumes "\<forall>mt \<in> set ts. alloced mt \<longrightarrow> tracker_ok mt \<and> unat low \<le> unat (get_address mt)
      \<and> unat (get_address mt) + unat (get_size mt) \<le> unat low + length sec"
    and "0 < unat low" "unat low + length sec = unat high"
    and "sorted_wrt (\<lambda>x y. grant (get_address x) (unat (get_size x)) \<inter> grant (get_address y) (unat (get_size y)) = {}) ts"
  shows "\<exists>sec'. copy_blocks low high ts sec = Inr sec' \<and> length sec' = length sec
    \<and> (\<forall>mt \<in> set ts. alloced mt \<longrightarrow> (\<forall>i < unat (get_size mt). sec' ! (unat (get_address mt) - unat low + i) = local_buf mt ! i))
    \<and> (\<forall>i < length sec. (\<forall>mt \<in> set ts. alloced mt \<longrightarrow> unat low + i \<notin> grant (get_address mt) (unat (get_size mt))) \<longrightarrow> sec' ! i = sec ! i)"
  using assms
proof (induction low high ts sec rule: copy_blocks.induct)
  case (2 low high mt ts sec)
  show ?case
  proof (cases "alloced mt")
    case False
    then show ?thesis using 2(1) [OF False] 2(3-6) by auto
  next
    case True
    let ?a = "get_address mt" and ?n = "unat (get_size mt)"
    define off where "off = unat ?a - unat low"
    have ok: "tracker_ok mt" "unat low \<le> unat ?a" "unat ?a + ?n \<le> unat low + length sec" using 2(3) True by auto
    have o: "unat (?a - low) = off" "off + ?n \<le> length sec" using ok by (simp_all add: off_def unat_sub_if')
    have "unat (?a - low + ucast (get_size mt)) = off + ?n"
      using o ok unat_u64_less [of high] 2(5) by (subst unat_add_u64) simp_all
    then have hi: "?a - low + ucast (get_size mt) < high" using o 2(4,5) by (simp add: word_less_nat_alt)
    have lo: "low \<le> ?a" using ok(2) by (simp add: word_le_nat_alt)
    let ?sec = "take off sec @ take ?n (local_buf mt) @ drop (off + ?n) sec"
    have buf: "length (local_buf mt) = ?n" "\<not> deleted mt" using ok(1) by (simp_all add: tracker_ok_def)
    have len: "length ?sec = length sec" using o buf by simp
    have nth: "?sec ! j = (if off \<le> j \<and> j < off + ?n then local_buf mt ! (j - off) else sec ! j)" if "j < length sec" for j
      using o buf that by (auto simp: nth_append min_def)
    have step: "copy_blocks low high (mt # ts) sec = copy_blocks low high ts ?sec" using True lo hi o buf by simp
    obtain sec' where r: "copy_blocks low high ts ?sec = Inr sec'" "length sec' = length ?sec"
      "\<forall>x \<in> set ts. alloced x \<longrightarrow> (\<forall>i < unat (get_size x). sec' ! (unat (get_address x) - unat low + i) = local_buf x ! i)"
      "\<forall>i < length ?sec. (\<forall>x \<in> set ts. alloced x \<longrightarrow> unat low + i \<notin> grant (get_address x) (unat (get_size x))) \<longrightarrow> sec' ! i = ?sec ! i"
      using 2(2) [of "?a - low" ?n] True lo hi o buf 2(3-6) len by auto
    have mine: "sec' ! (off + i) = local_buf mt ! i" if i: "i < ?n" for i
    proof -
      have "unat low + (off + i) \<in> grant ?a ?n" using i ok(2) by (simp add: off_def grant_def)
      then have "\<forall>x \<in> set ts. alloced x \<longrightarrow> unat low + (off + i) \<notin> grant (get_address x) (unat (get_size x))" using 2(6) by fastforce
      then show ?thesis using r(4) nth [of "off + i"] i o len by simp
    qed
    moreover have "sec' ! i = sec ! i" if "i < length sec" "\<forall>x \<in> set (mt # ts). alloced x \<longrightarrow> unat low + i \<notin> grant (get_address x) (unat (get_size x))" for i
      using r(4) nth [of i] that len True ok(2) by (auto simp: off_def grant_def)
    ultimately show ?thesis using step r(1-3) len by (intro exI [of _ sec']) (auto simp: off_def)
  qed
qed simp

lemma elements_ranges:
  assumes "tree_ok t"
  shows "set (snd (elements_of t)) = ran (range_map t)" "distinct (map get_address (snd (elements_of t)))"
proof -
  have e: "snd (elements_of t) = map snd (inorder (setData t))"
    by (cases "setData t") (simp_all add: elements_of_def tree_empty_def traverse_inorder)
  have k: "sorted_wrt (<) (map fst (inorder (setData t)))" "\<forall>x \<in> set (inorder (setData t)). get_address (snd x) = fst x"
    using assms by (auto simp: tree_ok_def)
  then have d: "distinct (map fst (inorder (setData t)))" by (simp add: strict_sorted_iff)
  show "set (snd (elements_of t)) = ran (range_map t)" unfolding e range_map_def by (simp add: ran_distinct [OF d])
  have a: "map get_address (map snd (inorder (setData t))) = map fst (inorder (setData t))" using k(2) by simp
  show "distinct (map get_address (snd (elements_of t)))" unfolding e a by (rule d)
qed

lemma disjoint_trackers:
  assumes inv: "be_inv e G budget" and x: "range_map (trackers e) a = Some x" "range_map (trackers e) b = Some y" "a \<noteq> b"
  shows "grant a (unat (get_size x)) \<inter> grant b (unat (get_size y)) = {}"
proof -
  have "x = y" if i: "i \<in> grant a (unat (get_size x))" "i \<in> grant b (unat (get_size y))" for i
  proof -
    note ok = trackers_okD(2) [OF be_invD(7) [OF inv] x(1)] trackers_okD(1) [OF be_invD(7) [OF inv] x(1)]
    have "i < 2 ^ 64" using i(1) ok by (simp add: grant_def tracker_ok_def)
    then have "unat (of_nat i :: u64) = i" by (rule unat_of_nat_u64)
    then show ?thesis using find_tracker [OF inv x(1), of "of_nat i"] find_tracker [OF inv x(2), of "of_nat i"] i by simp
  qed
  moreover have "x \<noteq> y" using x trackers_okD(1) [OF be_invD(7) [OF inv]] by metis
  ultimately show ?thesis by blast
qed

lemma alloced_tracker_place:
  assumes inv: "be_inv e G budget" and mt: "range_map (trackers e) a = Some mt" "alloced mt"
  shows "unat (lowWaterMark e) \<le> unat a" "unat a + unat (get_size mt) \<le> unat (highWaterMark e)"
proof -
  obtain n where n: "G a = Some n" "unat (get_size mt) \<le> n" using trackers_okD(3) [OF be_invD(7) [OF inv] mt] by blast
  note g = grants_okD(2,4) [OF heap_invD(3) [OF be_invD(1) [OF inv]] n(1)]
  then show "unat (lowWaterMark e) \<le> unat a" "unat a + unat (get_size mt) \<le> unat (highWaterMark e)"
    using n(2) by (simp_all add: grant_def ivl_subset)
qed

lemma memory_of_new:
  assumes inv: "be_inv e G budget" and none: "\<And>a mt. range_map (trackers e) a = Some mt \<Longrightarrow> alloced mt \<Longrightarrow> i \<notin> grant a (unat (get_size mt))"
    and i: "unat (lowWaterMark e) \<le> i"
  shows "memory_of e i = None"
proof (rule ccontr)
  assume "memory_of e i \<noteq> None"
  then obtain b where "memory_of e i = Some b" by blast
  from memory_of_Some [OF inv this] obtain a mt where mt: "range_map (trackers e) a = Some mt" "i \<in> grant a (unat (get_size mt))" .
  then show False using none [OF mt(1)] trackers_okD(4) [OF be_invD(7) [OF inv] mt(1)] i by (auto simp: grant_def)
qed

lemma new_section_spec:
  assumes inv: "be_inv e G budget" and t: "tracker_tree e \<noteq> None"
  shows "\<exists>sec. new_section e = Inr sec \<and> unat (lowWaterMark e) + length sec = unat (highWaterMark e)
    \<and> (\<forall>i < length sec. sec ! i = (case memory_of e (unat (lowWaterMark e) + i) of Some b \<Rightarrow> b | None \<Rightarrow> None))"
proof -
  note I = be_invD [OF inv]
  from t obtain t where t: "tracker_tree e = Some t" "trackers e = t" by (auto simp: trackers_def)
  let ?low = "unat (lowWaterMark e)"
  let ?sec = "replicate (unat (highWaterMark e - lowWaterMark e)) None :: u8 option list"
  have len: "?low + length ?sec = unat (highWaterMark e)" using I(3) by (simp add: unat_sub_if' word_le_nat_alt)
  note el = elements_ranges [OF I(6) [unfolded t(2)]]
  have mem: "range_map t (get_address mt) = Some mt" if "mt \<in> set (snd (elements_of t))" for mt
    using that el(1) trackers_okD(1) [OF I(7)] t(2) by (auto simp: ran_def)
  have blocks: "tracker_ok mt \<and> ?low \<le> unat (get_address mt) \<and> unat (get_address mt) + unat (get_size mt) \<le> ?low + length ?sec"
    if "mt \<in> set (snd (elements_of t))" "alloced mt" for mt
    using alloced_tracker_place [OF inv _ that(2)] trackers_okD(2) [OF I(7)] mem [OF that(1)] t(2) len by metis
  have "sorted_wrt (\<lambda>x y. grant (get_address x) (unat (get_size x)) \<inter> grant (get_address y) (unat (get_size y)) = {}) (snd (elements_of t))"
    using el(2) mem disjoint_trackers [OF inv] t(2) by (fastforce simp: sorted_wrt_iff_nth_less distinct_conv_nth)
  moreover have "0 < ?low" using I(2) by (simp add: unat_gt_0)
  ultimately obtain sec where s: "copy_blocks (lowWaterMark e) (highWaterMark e) (snd (elements_of t)) ?sec = Inr sec" "length sec = length ?sec"
    "\<forall>mt \<in> set (snd (elements_of t)). alloced mt \<longrightarrow> (\<forall>i < unat (get_size mt). sec ! (unat (get_address mt) - ?low + i) = local_buf mt ! i)"
    "\<forall>i < length ?sec. (\<forall>mt \<in> set (snd (elements_of t)). alloced mt \<longrightarrow> ?low + i \<notin> grant (get_address mt) (unat (get_size mt))) \<longrightarrow> sec ! i = ?sec ! i"
    using copy_blocks_spec [of "snd (elements_of t)" "lowWaterMark e" ?sec "highWaterMark e"] blocks len by blast
  have "sec ! i = (case memory_of e (?low + i) of Some b \<Rightarrow> b | None \<Rightarrow> None)" if i: "i < length sec" for i
  proof (cases "\<exists>mt \<in> set (snd (elements_of t)). alloced mt \<and> ?low + i \<in> grant (get_address mt) (unat (get_size mt))")
    case True
    then obtain mt where mt: "mt \<in> set (snd (elements_of t))" "alloced mt" "?low + i \<in> grant (get_address mt) (unat (get_size mt))" by blast
    have "memory_of e (?low + i) = Some (local_buf mt ! (?low + i - unat (get_address mt)))"
      using memory_of_tracker [OF inv _ mt(3)] mem [OF mt(1)] t(2) by simp
    moreover have "sec ! (unat (get_address mt) - ?low + (?low + i - unat (get_address mt))) = local_buf mt ! (?low + i - unat (get_address mt))"
      using mt(3) by (intro s(3) [rule_format, OF mt(1,2)]) (auto simp: grant_def)
    moreover have "unat (get_address mt) - ?low + (?low + i - unat (get_address mt)) = i" using mt(3) blocks [OF mt(1,2)] by (simp add: grant_def)
    ultimately show ?thesis by simp
  next
    case False
    then have "sec ! i = None" using s(2,4) i by simp
    moreover have "memory_of e (?low + i) = None"
    proof (rule memory_of_new [OF inv])
      fix a mt
      assume mt: "range_map (trackers e) a = Some mt" "alloced mt"
      then have "mt \<in> set (snd (elements_of t))" "get_address mt = a" using el(1) trackers_okD(1) [OF I(7)] t(2) by (auto simp: ran_def)
      then show "?low + i \<notin> grant a (unat (get_size mt))" using False mt by blast
    qed simp
    ultimately show ?thesis by simp
  qed
  moreover have "new_section e = Inr sec" using s(1) t(1) by (simp add: new_section_def)
  ultimately show ?thesis using s(2) len by auto
qed

subsection \<open>Blocks\<close>

text \<open>Writing inside one buffer, and reading it back.\<close>

lemma write_inside:
  assumes inv: "be_inv e G budget" and mt: "range_map (trackers e) a = Some mt"
    and inside: "unat a \<le> unat addr" "unat addr + length bytes \<le> unat a + unat (get_size mt)"
  obtains e' where "writeTextSpace addr bytes e = Inr (True, e')" "be_inv e' G budget" "memory_of e' = overlay (memory_of e) (unat addr) bytes"
    "lowWaterMark e' = lowWaterMark e" "highWaterMark e' = highWaterMark e" "tracker_tree e' \<noteq> None" "isDirty e'"
    "layout (trackers e') = layout (trackers e)"
proof -
  have t: "tracker_tree e \<noteq> None" using mt by (cases "tracker_tree e") (auto simp: trackers_def range_map_def new_tree_def)
  note ok = trackers_okD(1,2) [OF be_invD(7) [OF inv] mt]
  have room: "unat addr + length bytes < 2 ^ 64" "length bytes < 2 ^ 32"
    using inside ok unat_u32_less [of "get_size mt"] by (auto simp: tracker_ok_def)
  have tracked: "memory_of e (unat addr + i) \<noteq> None" if "i < length bytes" for i
    using memory_of_tracker [OF inv mt, of "unat addr + i"] inside that by (simp add: grant_def)
  obtain n e' where n: "n \<le> length bytes" "n < length bytes \<longrightarrow> memory_of e (unat addr + n) = None" "writeTextSpace addr bytes e = Inr (n = length bytes, e')"
      "be_inv e' G budget" "memory_of e' = overlay (memory_of e) (unat addr) (take n bytes)" "lowWaterMark e' = lowWaterMark e"
      "highWaterMark e' = highWaterMark e" "tracker_tree e' \<noteq> None" "isDirty e'" "layout (trackers e') = layout (trackers e)"
    using writeTextSpace_spec [OF inv t room] by blast
  then have "n = length bytes" using tracked by (meson le_neq_implies_less)
  then show thesis using that n by simp
qed

text \<open>Where new blocks are.\<close>

lemma be_attempt_layout:
  assumes inv: "be_inv e G budget" and r: "be_attempt sz e = Inr (a, e')"
  shows "layout (trackers e') = (if a = 0 then layout (trackers e) else (layout (trackers e))(a \<mapsto> sz))"
proof (cases "a = 0")
  case True
  then show ?thesis using r by (auto simp: be_attempt_def and_then_Inr trackers_def split: if_splits)
next
  case False
  let ?mt = "(new_tracker a sz)\<lparr>alloced := True\<rparr>"
  have mt: "get_address ?mt = a" "get_size ?mt = sz" by (simp_all add: new_tracker_def)
  have "insert_range ?mt (trackers e) = Inr (trackers e')"
    using r False by (auto simp: be_attempt_def and_then_Inr trackers_def split: if_splits)
  then have "range_map (trackers e') = (range_map (trackers e))(a \<mapsto> ?mt)"
    using tracker.ins [OF be_invD(6) [OF inv], of ?mt] mt(1) by auto
  then show ?thesis using False mt(2) by (simp add: layout_def fun_eq_iff)
qed

lemma be_inferiorMalloc_layout:
  assumes inv: "be_inv e G budget" and n: "n \<noteq> 0" "unat n + 8 \<le> budget" and r: "be_inferiorMalloc 8 n e = Inr (a, e')"
  shows "layout (trackers e') = (layout (trackers e))(a \<mapsto> inferiorMallocAlign 8 n)"
proof -
  let ?sz = "inferiorMallocAlign 8 n"
  have "unat n + 2 ^ 3 \<le> 2 ^ 32" using n(2) be_invD(5) [OF inv] by simp
  then have sz: "unat n \<le> unat ?sz" "unat ?sz < unat n + 8" using inferiorMallocAlign_ge [of 3 n] by simp_all
  then have nz: "?sz \<noteq> 0" using n(1) by (auto simp: word_unat_eq_iff)
  have a: "a \<noteq> 0" using be_inferiorMalloc_spec [OF inv n] r by auto
  let ?P = "\<lambda>b x. be_inv x G b \<and> layout (trackers x) = layout (trackers e)"
  have failed: "?P budget x'" if "?P budget x" "be_attempt ?sz x = Inr (0, x')" for x x'
    using that be_attempt_spec [OF _ nz, of x G budget] be_attempt_layout [of x G budget ?sz 0 x'] by auto
  have compacted: "?P budget x'" if "?P budget x" "be_compact x = Inr x'" for x x'
    using that be_compact_spec [of x G budget] by (auto simp: trackers_def)
  have more: "\<exists>b. ?P b x'" if "?P budget x" "inferiorMallocStatic ?sz x = Inr x'" for x x'
  proof -
    have "trackers x' = trackers x" using that(2) by (auto simp: inferiorMallocStatic_def trackers_def Let_def split: if_splits)
    then show ?thesis using that inferiorMallocStatic_spec [OF _ nz, of x G budget] sz n(2) by fastforce
  qed
  have "\<exists>x. (\<exists>b. ?P b x) \<and> be_attempt ?sz x = Inr (a, e')"
    using be_inferiorMalloc_attempt [OF r refl, of "?P budget" "\<lambda>x. \<exists>b. ?P b x"] failed compacted more inv by blast
  then show ?thesis using be_attempt_layout a by fastforce
qed

lemma read_inside:
  assumes inv: "be_inv e G budget" and a: "layout (trackers e) a = Some s"
    and inside: "unat a \<le> unat addr" "unat addr + length bytes \<le> unat a + unat s" "bytes \<noteq> []"
    and mem: "\<And>i. i < length bytes \<Longrightarrow> memory_of e (unat addr + i) = Some (Some (bytes ! i))"
  shows "readTextSpace addr (of_nat (length bytes)) e = Inr (Some (map Some bytes))"
proof -
  obtain mt where mt: "range_map (trackers e) a = Some mt" "get_size mt = s" using a by (auto simp: layout_def)
  have n: "unat (of_nat (length bytes) :: u32) = length bytes"
    using inside unat_u32_less [of s] by (simp add: unat_of_nat)
  then have "(of_nat (length bytes) :: u32) \<noteq> 0" using inside(3) by (auto simp: word_unat_eq_iff)
  then obtain bs where "readTextSpace addr (of_nat (length bytes)) e = Inr (Some bs)" "length bs = length bytes"
      "\<forall>i < length bytes. memory_of e (unat addr + i) = Some (bs ! i)"
    using readTextSpace_spec [OF inv mt(1) inside(1), of "of_nat (length bytes)"] mt(2) inside(2) n by auto
  moreover from this have "bs = map Some bytes" using mem by (intro nth_equalityI) auto
  ultimately show ?thesis by simp
qed

lemma section_part:
  assumes inv: "be_inv e G budget" and t: "tracker_tree e \<noteq> None"
    and inside: "unat (lowWaterMark e) \<le> a" "a + length bytes \<le> unat (highWaterMark e)"
    and mem: "\<And>i. i < length bytes \<Longrightarrow> memory_of e (a + i) = Some (Some (bytes ! i))"
  shows "\<exists>sec. new_section e = Inr sec \<and> unat (lowWaterMark e) + length sec = unat (highWaterMark e)
    \<and> take (length bytes) (drop (a - unat (lowWaterMark e)) sec) = map Some bytes"
proof -
  obtain sec where sec: "new_section e = Inr sec" "unat (lowWaterMark e) + length sec = unat (highWaterMark e)"
      "\<forall>i < length sec. sec ! i = (case memory_of e (unat (lowWaterMark e) + i) of Some b \<Rightarrow> b | None \<Rightarrow> None)"
    using new_section_spec [OF inv t] by blast
  have "take (length bytes) (drop (a - unat (lowWaterMark e)) sec) = map Some bytes"
    using inside sec mem by (intro nth_equalityI) auto
  then show ?thesis using sec by blast
qed

text \<open>C19: What is written is in the file.  Into a block that is held after any session of requests, bytes are written: the write succeeds, reading
  them back gives them, no other byte of the address space changes, and the section that is added to the file has them at the
  distance of their address from the start of the section.\<close>

theorem written_bytes_reach_the_file:
  assumes f: "editable f" and asked: "sum_list (map be_cost rs) < 2 ^ 31"
    and run: "open_file f = Inr (Some e0)" "memory_session words_of be_step rs e0 Map.empty = Inr (e, G)"
    and block: "a \<in> dom G" "find_range a (setData (trackers e)) = Some mt"
    and inside: "unat a \<le> unat addr" "unat addr + length bytes \<le> unat a + unat (get_size mt)" "bytes \<noteq> []"
  shows "\<exists>e' sec. writeTextSpace addr bytes e = Inr (True, e') \<and> isDirty e'
    \<and> readTextSpace addr (of_nat (length bytes)) e' = Inr (Some (map Some bytes))
    \<and> (\<forall>i. i < unat addr \<or> unat addr + length bytes \<le> i \<longrightarrow> memory_of e' i = memory_of e i)
    \<and> new_section e' = Inr sec \<and> unat (lowWaterMark e) + length sec = unat (highWaterMark e)
    \<and> take (length bytes) (drop (unat addr - unat (lowWaterMark e)) sec) = map Some bytes"
proof -
  have "be_inv e0 Map.empty (2 ^ 31 - 1)" using open_file_inv [OF f] run(1) by auto
  then obtain budget where inv: "be_inv e G budget"
    using file_memory.session_safe [of e0 Map.empty "2 ^ 31 - 1" "lowWaterMark e0" rs] asked run(2) by auto
  from held_tracker [OF inv block(1)] obtain t mt' where "trackers e = t" "range_map t a = Some mt'" "alloced mt'" "find_range a (setData t) = Some mt'" .
  then have mt: "range_map (trackers e) a = Some mt" "alloced mt" using block(2) by auto
  obtain e' where w: "writeTextSpace addr bytes e = Inr (True, e')" "be_inv e' G budget" "memory_of e' = overlay (memory_of e) (unat addr) bytes"
      "lowWaterMark e' = lowWaterMark e" "highWaterMark e' = highWaterMark e" "tracker_tree e' \<noteq> None" "isDirty e'"
      "layout (trackers e') = layout (trackers e)" by (rule write_inside [OF inv mt(1) inside(1,2)])
  have mem: "memory_of e' (unat addr + i) = Some (Some (bytes ! i))" if "i < length bytes" for i using that w(3) by (simp add: overlay_def)
  have "layout (trackers e') a = Some (get_size mt)" using w(8) mt(1) by (simp add: layout_def)
  from read_inside [OF w(2) this inside mem]
  have "readTextSpace addr (of_nat (length bytes)) e' = Inr (Some (map Some bytes))" .
  moreover obtain sec where "new_section e' = Inr sec" "unat (lowWaterMark e) + length sec = unat (highWaterMark e)"
      "take (length bytes) (drop (unat addr - unat (lowWaterMark e)) sec) = map Some bytes"
    using section_part [OF w(2,6) _ _ mem] w(4,5) inside alloced_tracker_place [OF inv mt] by auto
  ultimately show ?thesis using w by (intro exI [of _ e'] exI [of _ sec]) (auto simp: overlay_def)
qed

theorem written_bytes_reach_the_file_witness:
  "\<exists>e0 e G a mt e' sec. editable small_file \<and> open_file small_file = Inr (Some e0) \<and> memory_session words_of be_step [Get 16] e0 Map.empty = Inr (e, G)
    \<and> a \<in> dom G \<and> find_range a (setData (trackers e)) = Some mt \<and> get_size mt \<noteq> 0
    \<and> writeTextSpace a [0xC3] e = Inr (True, e') \<and> new_section e' = Inr sec \<and> Some 0xC3 \<in> set sec"
proof -
  obtain e0 where e0: "open_file small_file = Inr (Some e0)" "be_inv e0 Map.empty (2 ^ 31 - 1)"
    using open_file_inv [OF small_file_editable] by blast
  obtain a e where a: "be_inferiorMalloc 8 16 e0 = Inr (a, e)" "a \<noteq> 0" "be_inv e (Map.empty(a \<mapsto> unat (inferiorMallocAlign 8 16))) (2 ^ 31 - 1 - (unat (16 :: u32) + 8))"
    using be_inferiorMalloc_spec [OF e0(2), of 16] by auto
  define G where "G = Map.empty(a \<mapsto> words_of 16)"
  have run: "memory_session words_of be_step [Get 16] e0 Map.empty = Inr (e, G)" using a(1,2) by (simp add: G_def)
  have in_G: "a \<in> dom G" by (simp add: G_def)
  from held_tracker [OF a(3), of a] obtain mt where mt: "find_range a (setData (trackers e)) = Some mt" "tracker_ok mt" by auto
  then have nz: "get_size mt \<noteq> 0" by (simp add: tracker_ok_def)
  then have one: "1 \<le> unat (get_size mt)" by (simp add: Suc_leI unat_gt_0)
  obtain e' sec where w: "writeTextSpace a [0xC3] e = Inr (True, e')" "new_section e' = Inr sec"
      "take 1 (drop (unat a - unat (lowWaterMark e)) sec) = [Some 0xC3]"
    using written_bytes_reach_the_file [OF small_file_editable _ e0(1) run in_G mt(1), of a "[0xC3]"] one by auto
  from w(3) have "Some 0xC3 \<in> set sec" by (metis in_set_dropD in_set_takeD list.set_intros(1))
  then show ?thesis using small_file_editable e0(1) run in_G mt(1) nz w(1,2) by blast
qed

end
