(* ===== verification/RT_Lock.thy ===== *)
theory RT_Lock
  imports Prelude
begin

section \<open>dyninstAPI_RT: the lock of the run-time library\<close>

text \<open>
  The instrumentation library loads a run-time library of its own into the target; the code it
  inserts there calls it.  Its lock (\<^verbatim>\<open>tc_lock_t\<close>) is a word that is exchanged atomically and the id of the
  holder.  The holder is what makes a second call by the same thread return \<^verbatim>\<open>DYNINST_DEAD_LOCK\<close>
  instead of spinning.  The operations come first as functions of the lock (nobody else runs), then
  as the sequence of their memory accesses, which the threads of the target interleave.
\<close>

type_synonym dyntid = u64

abbreviation (input) DYNINST_INITIAL_LOCK_PID :: dyntid where "DYNINST_INITIAL_LOCK_PID \<equiv> - 129"
abbreviation (input) DYNINST_DEAD_LOCK :: int where "DYNINST_DEAD_LOCK \<equiv> - 2"

record tc_lock =
  mutex :: u32
  holder :: dyntid

definition DECLARE_TC_LOCK :: tc_lock where
  "DECLARE_TC_LOCK = \<lparr>mutex = 0, holder = - 1\<rparr>"

definition DECLARE_DYNINST_LOCK :: tc_lock where
  "DECLARE_DYNINST_LOCK = \<lparr>mutex = 0, holder = DYNINST_INITIAL_LOCK_PID\<rparr>"

definition tc_lock_init :: "tc_lock \<Rightarrow> tc_lock" where
  "tc_lock_init t = t\<lparr>mutex := 0, holder := DYNINST_INITIAL_LOCK_PID\<rparr>"

text \<open>The exchange instruction: the word becomes 1, and the call succeeds when it was 0.\<close>

definition atomic_set :: "u32 \<Rightarrow> bool \<times> u32" where
  "atomic_set v = (v = 0, 1)"

text \<open>The loop of \<^verbatim>\<open>tc_lock_lock\<close> spins as long as the exchange fails; with nobody to release the lock
  it never ends.\<close>

partial_function (option) spin :: "u32 \<Rightarrow> u32 option" where
  "spin v = (let (ok, v') = atomic_set v in if ok then Some v' else spin v')"

definition tc_lock_lock :: "dyntid \<Rightarrow> tc_lock \<Rightarrow> fault + int \<times> tc_lock" where
  "tc_lock_lock me tc =
     (if me = holder tc then Inr (DYNINST_DEAD_LOCK, tc)
      else and_then (or_endless (spin (mutex tc))) (\<lambda>v. Inr (0, tc\<lparr>mutex := v, holder := me\<rparr>)))"

text \<open>The two writes of \<^verbatim>\<open>tc_lock_unlock\<close>, in order.\<close>

definition unlock_writes :: "(tc_lock \<Rightarrow> tc_lock) list" where
  "unlock_writes = [\<lambda>t. t\<lparr>holder := DYNINST_INITIAL_LOCK_PID\<rparr>, \<lambda>t. t\<lparr>mutex := 0\<rparr>]"

definition tc_lock_unlock :: "tc_lock \<Rightarrow> tc_lock" where
  "tc_lock_unlock t = fold (\<lambda>f. f) unlock_writes t"

definition tc_lock_destroy :: "tc_lock \<Rightarrow> tc_lock" where
  "tc_lock_destroy t = t\<lparr>holder := DYNINST_INITIAL_LOCK_PID, mutex := 0\<rparr>"

definition dyninst_init_lock :: "tc_lock \<Rightarrow> tc_lock" where
  "dyninst_init_lock l = l\<lparr>holder := DYNINST_INITIAL_LOCK_PID, mutex := 0\<rparr>"

definition dyninst_free_lock :: "tc_lock \<Rightarrow> tc_lock" where
  "dyninst_free_lock l = l"

definition dyninst_lock :: "dyntid \<Rightarrow> tc_lock \<Rightarrow> fault + int \<times> tc_lock" where
  "dyninst_lock me l = tc_lock_lock me l"

definition dyninst_unlock :: "tc_lock \<Rightarrow> tc_lock" where
  "dyninst_unlock l = tc_lock_unlock l"

subsection \<open>One thread\<close>

lemma spin_free [simp]: "spin 0 = Some 1"
  by (subst spin.simps) (simp add: atomic_set_def)

lemma tc_lock_unlock_simps [simp]: "mutex (tc_lock_unlock t) = 0" "holder (tc_lock_unlock t) = DYNINST_INITIAL_LOCK_PID"
  by (simp_all add: tc_lock_unlock_def unlock_writes_def)

definition lock_free :: "tc_lock \<Rightarrow> bool" where
  "lock_free l \<longleftrightarrow> mutex l = 0 \<and> holder l \<in> {- 1, DYNINST_INITIAL_LOCK_PID}"

definition thread_id :: "dyntid \<Rightarrow> bool" where
  "thread_id t \<longleftrightarrow> t \<notin> {- 1, DYNINST_INITIAL_LOCK_PID}"

lemma lock_free_unlock [simp]: "lock_free (tc_lock_unlock t)"
  by (simp add: lock_free_def)

lemma lock_free_init [simp]: "lock_free (tc_lock_init t)" "lock_free DECLARE_TC_LOCK" "lock_free DECLARE_DYNINST_LOCK"
  by (simp_all add: lock_free_def tc_lock_init_def DECLARE_TC_LOCK_def DECLARE_DYNINST_LOCK_def)

lemma tc_lock_lock_free:
  "lock_free l \<Longrightarrow> thread_id me \<Longrightarrow> tc_lock_lock me l = Inr (0, l\<lparr>mutex := 1, holder := me\<rparr>)"
  by (auto simp: lock_free_def thread_id_def tc_lock_lock_def)

lemma tc_lock_lock_again: "holder l = me \<Longrightarrow> tc_lock_lock me l = Inr (DYNINST_DEAD_LOCK, l)"
  by (simp add: tc_lock_lock_def)

text \<open>The shape of the functions that the lock protects: they return \<open>dead\<close> when the caller already holds
  the lock, and release it on the way out otherwise.\<close>

definition with_lock ::
  "('s \<Rightarrow> tc_lock) \<Rightarrow> ((tc_lock \<Rightarrow> tc_lock) \<Rightarrow> 's \<Rightarrow> 's) \<Rightarrow> dyntid \<Rightarrow> 'a \<Rightarrow> ('s \<Rightarrow> fault + 'a \<times> 's) \<Rightarrow> 's \<Rightarrow> fault + 'a \<times> 's" where
  "with_lock get upd me dead body s =
     and_then (tc_lock_lock me (get s)) (\<lambda>(result, l).
       if result = DYNINST_DEAD_LOCK then Inr (dead, s)
       else and_then (body (upd (\<lambda>_. l) s)) (\<lambda>(r, s'). Inr (r, upd tc_lock_unlock s')))"

lemma with_lock_free:
  "lock_free (get s) \<Longrightarrow> thread_id me \<Longrightarrow> with_lock get upd me dead body s
    = and_then (body (upd (\<lambda>_. (get s)\<lparr>mutex := 1, holder := me\<rparr>) s)) (\<lambda>(r, s'). Inr (r, upd tc_lock_unlock s'))"
  by (simp add: with_lock_def tc_lock_lock_free)

lemma with_lock_again: "holder (get s) = me \<Longrightarrow> with_lock get upd me dead body s = Inr (dead, s)"
  by (simp add: with_lock_def tc_lock_lock_again)

subsection \<open>Threads that compete\<close>

text \<open>Where a thread is: outside, spinning, between the successful exchange and the write of its id,
  inside, or with \<open>k\<close> writes of the release done.  The initial test of the holder, every exchange and
  every write is one step.  A thread inside may call \<^verbatim>\<open>tc_lock_lock\<close> again; the result of such a call is the
  last component.\<close>

datatype lpc = Outside | Spinning | Exchanged | Inside | Releasing nat

type_synonym lstate = "tc_lock \<times> (dyntid \<Rightarrow> lpc)"

inductive lock_step :: "dyntid set \<Rightarrow> lstate \<Rightarrow> (dyntid \<times> int) option \<Rightarrow> lstate \<Rightarrow> bool" for T where
  test_passed: "t \<in> T \<Longrightarrow> pc t \<in> {Outside, Inside} \<Longrightarrow> holder l \<noteq> t \<Longrightarrow> lock_step T (l, pc) None (l, pc(t := Spinning))"
| test_failed: "t \<in> T \<Longrightarrow> pc t \<in> {Outside, Inside} \<Longrightarrow> holder l = t
     \<Longrightarrow> lock_step T (l, pc) (Some (t, DYNINST_DEAD_LOCK)) (l, pc)"
| exchange: "t \<in> T \<Longrightarrow> pc t = Spinning \<Longrightarrow> atomic_set (mutex l) = (ok, v)
     \<Longrightarrow> lock_step T (l, pc) None (l\<lparr>mutex := v\<rparr>, pc(t := if ok then Exchanged else Spinning))"
| take: "t \<in> T \<Longrightarrow> pc t = Exchanged \<Longrightarrow> lock_step T (l, pc) (Some (t, 0)) (l\<lparr>holder := t\<rparr>, pc(t := Inside))"
| release: "t \<in> T \<Longrightarrow> pc t = (if k = 0 then Inside else Releasing k) \<Longrightarrow> k < length unlock_writes
     \<Longrightarrow> lock_step T (l, pc) None ((unlock_writes ! k) l,
            pc(t := if Suc k = length unlock_writes then Outside else Releasing (Suc k)))"

inductive lock_run :: "dyntid set \<Rightarrow> lstate \<Rightarrow> lstate \<Rightarrow> bool" for T where
  start: "lock_run T s s"
| step: "lock_run T s s' \<Longrightarrow> lock_step T s' r s'' \<Longrightarrow> lock_run T s s''"

text \<open>Who is between the exchange and the end of the release.\<close>

definition owns :: "lpc \<Rightarrow> bool" where
  "owns p \<longleftrightarrow> p \<noteq> Outside \<and> p \<noteq> Spinning"

definition lock_inv :: "dyntid set \<Rightarrow> lstate \<Rightarrow> bool" where
  "lock_inv T s = (case s of (l, pc) \<Rightarrow>
     (\<forall>t. t \<notin> T \<longrightarrow> pc t = Outside)
     \<and> (\<forall>t u. owns (pc t) \<and> owns (pc u) \<longrightarrow> t = u)
     \<and> (mutex l = 0 \<longleftrightarrow> (\<forall>t. \<not> owns (pc t)))
     \<and> (\<forall>t. t \<in> T \<longrightarrow> (holder l = t \<longleftrightarrow> pc t = Inside))
     \<and> (\<forall>t k. pc t = Releasing k \<longrightarrow> k = 1))"

lemma lock_inv_start: "lock_free l \<Longrightarrow> \<forall>t \<in> T. thread_id t \<Longrightarrow> lock_inv T (l, \<lambda>_. Outside)"
  by (auto simp: lock_inv_def lock_free_def thread_id_def owns_def)

lemma unlock_writes_cases:
  assumes "k < length unlock_writes"
  obtains "k = 0" "(unlock_writes ! k) l = l\<lparr>holder := DYNINST_INITIAL_LOCK_PID\<rparr>"
        "(if Suc k = length unlock_writes then Outside else Releasing (Suc k)) = Releasing 1"
    | "k = 1" "(unlock_writes ! k) l = l\<lparr>mutex := 0\<rparr>"
        "(if Suc k = length unlock_writes then Outside else Releasing (Suc k)) = Outside"
  using assms that by (cases k) (auto simp: unlock_writes_def)

lemma owner_locks: "lock_inv T (l, pc) \<Longrightarrow> owns (pc t) \<Longrightarrow> mutex l \<noteq> 0"
  unfolding lock_inv_def prod.case by blast

lemma lock_inv_step:
  assumes "lock_step T s r s'" "lock_inv T s" "\<forall>t \<in> T. thread_id t"
  shows "lock_inv T s'"
  using assms(1,2)
proof (cases rule: lock_step.cases)
  case (test_passed t pc l)
  then have "pc t = Outside" using assms(2) by (auto simp: lock_inv_def)
  then show ?thesis using assms(2) test_passed by (auto simp: lock_inv_def owns_def)
next
  case (exchange t pc l ok v)
  then show ?thesis using assms(2) by (auto simp: lock_inv_def owns_def atomic_set_def)
next
  case (take t pc l)
  then have own: "owns (pc t)" by (simp add: owns_def)
  then have "pc u \<noteq> Inside \<and> \<not> owns (pc u)" if "u \<noteq> t" for u using assms(2) take that by (auto simp: lock_inv_def owns_def)
  moreover have "mutex l \<noteq> 0" using owner_locks [of T l pc t] assms(2) own take(1) by simp
  ultimately show ?thesis using assms(2) take own by (auto simp: lock_inv_def owns_def)
next
  case (release t pc k l)
  then have own: "owns (pc t)" by (simp add: owns_def split: if_splits)
  then have oth: "pc u \<noteq> Inside \<and> \<not> owns (pc u)" if "u \<noteq> t" for u
    using assms(2) release that by (auto simp: lock_inv_def owns_def)
  from release(6) show ?thesis
  proof (cases rule: unlock_writes_cases [of k l])
    case 1
    then have "s' = (l\<lparr>holder := DYNINST_INITIAL_LOCK_PID\<rparr>, pc(t := Releasing 1))" using release(3) unfolding 1(2,3) by simp
    moreover have "mutex l \<noteq> 0" using owner_locks [of T l pc t] assms(2) own release(1) by simp
    ultimately show ?thesis using assms(2,3) release(1,4) own oth by (auto simp: lock_inv_def owns_def thread_id_def)
  next
    case 2
    then have "pc t = Releasing 1" using release by simp
    moreover have "s' = (l\<lparr>mutex := 0\<rparr>, pc(t := Outside))" using release(3) unfolding 2(2,3) .
    moreover have "u \<noteq> t \<Longrightarrow> pc u = Outside \<or> pc u = Spinning" for u using oth by (auto simp: owns_def)
    moreover have "\<forall>u. u \<notin> T \<longrightarrow> pc u = Outside" "\<forall>u. u \<in> T \<longrightarrow> (holder l = u \<longleftrightarrow> pc u = Inside)"
      using assms(2) unfolding release(1) lock_inv_def prod.case by blast+
    ultimately show ?thesis by (fastforce simp: lock_inv_def owns_def)
  qed
qed simp

lemma lock_inv_run: "lock_run T s s' \<Longrightarrow> lock_inv T s \<Longrightarrow> \<forall>t \<in> T. thread_id t \<Longrightarrow> lock_inv T s'"
  by (induction rule: lock_run.induct) (auto intro: lock_inv_step)

inductive_cases lock_step_dead: "lock_step T (l, pc) (Some (t, DYNINST_DEAD_LOCK)) s'"

text \<open>C15: the lock excludes, and its test for a dead lock is exact.  In every interleaving of threads that take and release
  a lock that was free, at most one thread is between its exchange and the end of its release, and a call returns
  \<^verbatim>\<open>DYNINST_DEAD_LOCK\<close> just when the calling thread is inside.\<close>

theorem tc_lock_excludes:
  assumes "lock_run T (l\<^sub>0, \<lambda>_. Outside) (l, pc)" "lock_free l\<^sub>0" "\<forall>t \<in> T. thread_id t"
  shows "(\<forall>t u. owns (pc t) \<and> owns (pc u) \<longrightarrow> t = u)
    \<and> (\<forall>t \<in> T. (\<exists>s'. lock_step T (l, pc) (Some (t, DYNINST_DEAD_LOCK)) s') \<longleftrightarrow> pc t = Inside)"
proof -
  have inv: "lock_inv T (l, pc)" using lock_inv_run [OF assms(1)] lock_inv_start assms(2,3) by blast
  then have "(\<exists>s'. lock_step T (l, pc) (Some (t, DYNINST_DEAD_LOCK)) s') \<longleftrightarrow> pc t = Inside" if "t \<in> T" for t
    using that lock_step.test_failed [of t T pc l] by (auto simp: lock_inv_def elim: lock_step_dead)
  then show ?thesis using inv by (simp add: lock_inv_def)
qed

theorem tc_lock_excludes_witness:
  "\<exists>l pc. lock_run {7, 8} (DECLARE_TC_LOCK, \<lambda>_. Outside) (l, pc) \<and> pc 7 = Inside
     \<and> \<not> owns (pc 8) \<and> (\<exists>s'. lock_step {7, 8} (l, pc) (Some (7, DYNINST_DEAD_LOCK)) s')"
proof -
  let ?T = "{7, 8} :: dyntid set" and ?l = "DECLARE_TC_LOCK\<lparr>mutex := 1\<rparr>" and ?p = "\<lambda>_ :: dyntid. Outside"
  have T: "\<forall>t \<in> ?T. thread_id t" by (simp add: thread_id_def)
  have "lock_step ?T (DECLARE_TC_LOCK, ?p) None (DECLARE_TC_LOCK, ?p(7 := Spinning))"
    by (intro lock_step.test_passed) (simp_all add: DECLARE_TC_LOCK_def)
  moreover have "lock_step ?T (DECLARE_TC_LOCK, ?p(7 := Spinning)) None (?l, ?p(7 := Exchanged))"
    using lock_step.exchange [of 7 ?T "?p(7 := Spinning)" DECLARE_TC_LOCK True 1]
    by (simp add: DECLARE_TC_LOCK_def atomic_set_def)
  moreover have "lock_step ?T (?l, ?p(7 := Exchanged)) (Some (7, 0)) (?l\<lparr>holder := 7\<rparr>, ?p(7 := Inside))"
    using lock_step.take [of 7 ?T "?p(7 := Exchanged)" ?l] by simp
  ultimately have run: "lock_run ?T (DECLARE_TC_LOCK, ?p) (?l\<lparr>holder := 7\<rparr>, ?p(7 := Inside))"
    by (blast intro: lock_run.intros)
  then show ?thesis
    using tc_lock_excludes [OF run lock_free_init(2) T]
    by (intro exI [of _ "?l\<lparr>holder := 7\<rparr>"] exI [of _ "?p(7 := Inside)"]) (auto simp: owns_def)
qed

end
