(* ===== verification/RT_Trap.thy ===== *)
theory RT_Trap
  imports RT_Lock
begin

section \<open>dyninstAPI_RT/RTcommon.c: where a trap leads\<close>

text \<open>
  Where the instrumentation does not fit a jump into the code it writes a trap instruction; the table of trap mappings
  says where control goes from there.  \<^verbatim>\<open>dyninstTrapTranslate\<close> searches the table, by bisection when it is
  marked as sorted, and starts over when the version number changed under its feet.  A \<open>trap_view\<close> is
  what one round of its loop reads from memory.
\<close>

type_synonym trap_mapping = "u64 \<times> u64"

record trap_view =
  tv_version :: u64
  tv_sorted :: u64
  tv_used :: u64
  tv_table :: "trap_mapping list"
  tv_version_after :: u64

subsection \<open>The search\<close>

partial_function (option) trap_bisect :: "trap_mapping list \<Rightarrow> u64 \<Rightarrow> u32 \<Rightarrow> u32 \<Rightarrow> u32 \<Rightarrow> (fault + u64) option" where
  "trap_bisect tab source lo hi prev =
     (let mid = (lo + hi) div 2
      in if mid = prev then Some (Inr 0)
         else if length tab \<le> unat mid then Some (Inl Out_of_bounds)
         else if fst (tab ! unat mid) < source then trap_bisect tab source mid hi mid
         else if source < fst (tab ! unat mid) then trap_bisect tab source lo mid mid
         else Some (Inr (snd (tab ! unat mid))))"

text \<open>The loop over an unsorted table; its counter has 32 bits, the number of entries 64.\<close>

partial_function (option) trap_scan :: "trap_mapping list \<Rightarrow> u64 \<Rightarrow> u64 \<Rightarrow> u32 \<Rightarrow> (fault + u64) option" where
  "trap_scan tab used source i =
     (if ucast i < used
      then if length tab \<le> unat i then Some (Inl Out_of_bounds)
           else if fst (tab ! unat i) = source then Some (Inr (snd (tab ! unat i)))
           else trap_scan tab used source (i + 1)
      else Some (Inr 0))"

definition trap_round :: "trap_view \<Rightarrow> u64 \<Rightarrow> (fault + u64) option" where
  "trap_round v source =
     (if tv_sorted v \<noteq> 0 then trap_bisect (tv_table v) source 0 (ucast (tv_used v)) (ucast (tv_used v) + 1)
      else trap_scan (tv_table v) (tv_used v) source 0)"

text \<open>The outer loop; the local copy of the version has 32 bits.\<close>

partial_function (option) trap_rounds :: "(nat \<Rightarrow> trap_view) \<Rightarrow> u64 \<Rightarrow> nat \<Rightarrow> (fault + u64) option" where
  "trap_rounds look source n =
     (case trap_round (look n) source of
        None \<Rightarrow> None
      | Some (Inl f) \<Rightarrow> Some (Inl f)
      | Some (Inr target) \<Rightarrow>
          let local_version = ucast (tv_version (look n)) :: u32
          in if ucast local_version \<noteq> tv_version_after (look n) then trap_rounds look source (Suc n) else Some (Inr target))"

definition dyninstTrapTranslate :: "u64 \<Rightarrow> (nat \<Rightarrow> trap_view) \<Rightarrow> fault + u64" where
  "dyninstTrapTranslate source look =
     (case trap_rounds look source 0 of None \<Rightarrow> Inl Endless_loop | Some r \<Rightarrow> r)"

subsection \<open>The bisection finds what a linear search finds\<close>

definition target_in :: "trap_mapping list \<Rightarrow> u64 \<Rightarrow> u64" where
  "target_in tab source = (case map_of tab source of Some t \<Rightarrow> t | None \<Rightarrow> 0)"

lemma target_in_nth:
  assumes "distinct (map fst tab)" "i < length tab" "fst (tab ! i) = source"
  shows "target_in tab source = snd (tab ! i)"
proof -
  have "tab ! i = (source, snd (tab ! i))" using assms(3) by (simp add: prod_eq_iff)
  then have "(source, snd (tab ! i)) \<in> set tab" using assms(2) nth_mem by metis
  then show ?thesis using assms(1) by (simp add: target_in_def)
qed

lemma target_in_absent: "(\<And>i. i < length tab \<Longrightarrow> fst (tab ! i) \<noteq> source) \<Longrightarrow> target_in tab source = 0"
proof -
  assume a: "\<And>i. i < length tab \<Longrightarrow> fst (tab ! i) \<noteq> source"
  then have "source \<notin> fst ` set tab" by (fastforce simp: in_set_conv_nth)
  then show ?thesis by (simp add: target_in_def map_of_eq_None_iff [THEN iffD2])
qed

lemma unat_mid: "unat (lo :: u32) + unat hi < 2 ^ 32 \<Longrightarrow> unat ((lo + hi) div 2) = (unat lo + unat hi) div 2"
  using unat_add_lem [of lo hi] by (simp add: unat_div_distrib)

text \<open>What holds whenever the loop is entered: everything before \<open>lo\<close> is below the address, everything from \<open>hi\<close> on above, and
  the slot inspected last is the bound that moved.\<close>

definition bisect_inv :: "trap_mapping list \<Rightarrow> u64 \<Rightarrow> u32 \<Rightarrow> u32 \<Rightarrow> u32 \<Rightarrow> bool" where
  "bisect_inv tab source lo hi prev \<longleftrightarrow> unat lo \<le> unat hi \<and> unat hi \<le> length tab
     \<and> (\<forall>i < unat lo. fst (tab ! i) < source) \<and> (\<forall>i. unat hi \<le> i \<and> i < length tab \<longrightarrow> source < fst (tab ! i))
     \<and> (prev = hi \<or> prev = lo \<and> lo < hi \<and> fst (tab ! unat lo) < source \<or> length tab < unat prev \<and> lo < hi)"

lemma bisect_done:
  assumes "bisect_inv tab source lo hi ((lo + hi) div 2)" "unat ((lo + hi) div 2) = (unat lo + unat hi) div 2" "i < length tab"
  shows "fst (tab ! i) \<noteq> source"
proof -
  have "unat hi \<le> unat lo \<or> unat hi = Suc (unat lo) \<and> fst (tab ! unat lo) < source"
    using assms by (auto simp: bisect_inv_def word_unat_eq_iff word_less_nat_alt)
  then have "i < unat lo \<or> i = unat lo \<and> fst (tab ! unat lo) < source \<or> unat hi \<le> i" by linarith
  then show ?thesis using assms by (auto simp: bisect_inv_def)
qed

lemma bisect_step:
  assumes inv: "bisect_inv tab source lo hi prev" and mid: "(lo + hi) div 2 = mid" "mid \<noteq> prev" "unat mid = (unat lo + unat hi) div 2"
    and sorted: "sorted_wrt (<) (map fst tab)"
  shows "unat mid < length tab" "unat lo \<le> unat mid" "unat mid < unat hi"
    "fst (tab ! unat mid) < source \<Longrightarrow> bisect_inv tab source mid hi mid"
    "source < fst (tab ! unat mid) \<Longrightarrow> bisect_inv tab source lo mid mid"
proof -
  have mono: "i < j \<Longrightarrow> j < length tab \<Longrightarrow> fst (tab ! i) < fst (tab ! j)" for i j
    using sorted sorted_wrt_nth_less [of "(<)" "map fst tab" i j] by simp
  have "unat lo < unat hi"
    using inv mid by (auto simp: bisect_inv_def word_unat_eq_iff word_less_nat_alt le_less)
  then show lt: "unat lo \<le> unat mid" "unat mid < unat hi" using mid(3) by linarith+
  then show len: "unat mid < length tab" using inv by (simp add: bisect_inv_def)
  show "bisect_inv tab source mid hi mid" if "fst (tab ! unat mid) < source"
  proof -
    have "fst (tab ! i) < source" if "i < unat mid" for i
      using mono [OF that len] \<open>fst (tab ! unat mid) < source\<close> by (rule less_trans)
    then show ?thesis using inv that lt by (auto simp: bisect_inv_def word_less_nat_alt)
  qed
  show "bisect_inv tab source lo mid mid" if "source < fst (tab ! unat mid)"
  proof -
    have "source < fst (tab ! i)" if "unat mid \<le> i" "i < length tab" for i
      using mono [of "unat mid" i] that \<open>source < fst (tab ! unat mid)\<close> by (cases "i = unat mid") auto
    then show ?thesis using inv lt len by (auto simp: bisect_inv_def)
  qed
qed

lemma trap_bisect_target:
  assumes "sorted_wrt (<) (map fst tab)" "length tab < 2 ^ 31" "bisect_inv tab source lo hi prev"
  shows "trap_bisect tab source lo hi prev = Some (Inr (target_in tab source))"
  using assms(3)
proof (induction "2 * (unat hi - unat lo) + (if (lo + hi) div 2 = prev then 0 else 1)" arbitrary: lo hi prev rule: less_induct)
  case less
  define mid where "mid = (lo + hi) div 2"
  have m: "unat mid = (unat lo + unat hi) div 2"
    using less.prems assms(2) unfolding mid_def by (intro unat_mid) (auto simp: bisect_inv_def)
  have dist: "distinct (map fst tab)" using assms(1) by (simp add: strict_sorted_iff)
  show ?case
  proof (cases "mid = prev")
    case True
    then have "i < length tab \<Longrightarrow> fst (tab ! i) \<noteq> source" for i
      using bisect_done [of tab source lo hi i] less.prems m by (simp add: mid_def)
    then show ?thesis using True by (subst trap_bisect.simps) (simp add: mid_def target_in_absent)
  next
    case False
    note s = bisect_step [OF less.prems mid_def [symmetric] False m assms(1)]
    have again: "(mid + hi) div 2 = mid" if "mid = lo"
      using that m s(3) unat_mid [of mid hi] less.prems assms(2) by (simp add: word_unat_eq_iff bisect_inv_def)
    have IH1: "trap_bisect tab source mid hi mid = Some (Inr (target_in tab source))" if "fst (tab ! unat mid) < source"
    proof (rule less.hyps [OF _ s(4) [OF that]])
      show "2 * (unat hi - unat mid) + (if (mid + hi) div 2 = mid then 0 else 1)
          < 2 * (unat hi - unat lo) + (if (lo + hi) div 2 = prev then 0 else 1)"
        using False again s(2,3) by (cases "mid = lo") (auto simp: mid_def word_unat_eq_iff)
    qed
    have IH2: "trap_bisect tab source lo mid mid = Some (Inr (target_in tab source))" if "source < fst (tab ! unat mid)"
    proof (rule less.hyps [OF _ s(5) [OF that]])
      show "2 * (unat mid - unat lo) + (if (lo + mid) div 2 = mid then 0 else 1)
          < 2 * (unat hi - unat lo) + (if (lo + hi) div 2 = prev then 0 else 1)"
        using False s(2,3) by (auto simp: mid_def)
    qed
    have "target_in tab source = snd (tab ! unat mid)" if "fst (tab ! unat mid) = source"
      using target_in_nth [OF dist s(1) that] .
    then show ?thesis using False s(1) IH1 IH2
      by (subst trap_bisect.simps) (auto simp: mid_def Let_def not_less order_antisym)
  qed
qed

lemma ucast_less_u64: "unat used = n \<Longrightarrow> ucast (i :: u32) < (used :: u64) \<longleftrightarrow> unat i < n"
  by (simp add: word_less_nat_alt)

lemma trap_scan_target:
  assumes "unat used = length tab" "length tab < 2 ^ 31" "unat i \<le> length tab"
  shows "trap_scan tab used source i = Some (Inr (target_in (drop (unat i) tab) source))"
  using assms(3)
proof (induction "length tab - unat i" arbitrary: i rule: less_induct)
  case less
  show ?case
  proof (cases "unat i < length tab")
    case True
    have s: "unat (i + 1) = Suc (unat i)" using True assms(2) by (intro unat_succ_u32) simp
    have "drop (unat i) tab = tab ! unat i # drop (Suc (unat i)) tab" using True by (simp add: Cons_nth_drop_Suc)
    then have "target_in (drop (unat i) tab) source
        = (if fst (tab ! unat i) = source then snd (tab ! unat i) else target_in (drop (unat (i + 1)) tab) source)"
      by (cases "tab ! unat i") (simp add: target_in_def s)
    moreover have "trap_scan tab used source (i + 1) = Some (Inr (target_in (drop (unat (i + 1)) tab) source))"
      using less.hyps [of "i + 1"] True s by simp
    ultimately show ?thesis using True ucast_less_u64 [OF assms(1), of i] by (subst trap_scan.simps) simp
  next
    case False
    then show ?thesis using less.prems ucast_less_u64 [OF assms(1), of i]
      by (subst trap_scan.simps) (simp add: target_in_def)
  qed
qed

text \<open>A table the library may search: the marked number of entries, in strict order and not empty when it is marked as sorted.\<close>

definition trap_ok :: "trap_view \<Rightarrow> bool" where
  "trap_ok v \<longleftrightarrow> length (tv_table v) < 2 ^ 31
     \<and> (if tv_sorted v \<noteq> 0
        then unat (ucast (tv_used v) :: u32) = length (tv_table v) \<and> tv_table v \<noteq> [] \<and> sorted_wrt (<) (map fst (tv_table v))
        else unat (tv_used v) = length (tv_table v))"

lemma trap_round_target:
  assumes "trap_ok v"
  shows "trap_round v source = Some (Inr (target_in (tv_table v) source))"
proof (cases "tv_sorted v = 0")
  case True
  then show ?thesis using assms trap_scan_target [of "tv_used v" "tv_table v" 0 source] by (simp add: trap_ok_def trap_round_def)
next
  case False
  let ?n = "ucast (tv_used v) :: u32"
  have n: "unat ?n = length (tv_table v)" using assms False by (simp add: trap_ok_def)
  have "unat (?n + 1) = Suc (unat ?n)" using n assms by (intro unat_succ_u32) (simp add: trap_ok_def)
  then have "bisect_inv (tv_table v) source 0 ?n (?n + 1)"
    using n False assms by (simp add: bisect_inv_def trap_ok_def word_less_nat_alt)
  then show ?thesis using False assms by (simp add: trap_round_def trap_ok_def trap_bisect_target)
qed

text \<open>A trap is translated to the target the table has for it (or to 0 if it has none), whether by bisection or by linear search, in the first
  round in which the version number did not change.\<close>

lemma trap_translate_table:
  assumes ok: "\<forall>k \<le> n. trap_ok (look k)"
    and changed: "\<forall>k < n. ucast (ucast (tv_version (look k)) :: u32) \<noteq> tv_version_after (look k)"
    and same: "ucast (ucast (tv_version (look n)) :: u32) = tv_version_after (look n)"
  shows "dyninstTrapTranslate source look
    = Inr (case map_of (tv_table (look n)) source of Some target \<Rightarrow> target | None \<Rightarrow> 0)"
proof -
  have "trap_rounds look source k = Some (Inr (target_in (tv_table (look n)) source))" if "k \<le> n" for k
    using that
  proof (induction rule: inc_induct)
    case base
    then show ?case using trap_round_target [of "look n"] ok same by (subst trap_rounds.simps) simp
  next
    case (step k)
    then show ?case using trap_round_target [of "look k"] ok changed by (subst trap_rounds.simps) simp
  qed
  then show ?thesis by (simp add: dyninstTrapTranslate_def target_in_def)
qed

lemma trap_translate_table_example:
  "dyninstTrapTranslate 20 (\<lambda>k. \<lparr>tv_version = 3, tv_sorted = 1, tv_used = 3, tv_table = [(10, 100), (20, 200), (30, 300)],
     tv_version_after = if k = 0 then 4 else 3\<rparr>) = Inr 200"
  using trap_translate_table [of 1 "\<lambda>k. \<lparr>tv_version = 3, tv_sorted = 1, tv_used = 3, tv_table = [(10, 100), (20, 200), (30, 300)],
     tv_version_after = if k = 0 then 4 else 3\<rparr>" 20] by (simp add: trap_ok_def)

text \<open>The local copy of the version is cut to 32 bits: once the version number needs more, no round is ever accepted.\<close>

lemma trap_rounds_wide_version:
  assumes "\<forall>k. 2 ^ 32 \<le> unat (tv_version_after (look k))"
  shows "trap_rounds look source n \<noteq> Some (Inr target)"
proof
  let ?wide = "\<lambda>look. \<forall>k. ucast (ucast (tv_version (look k)) :: u32) \<noteq> tv_version_after (look k)"
  assume r: "trap_rounds look source n = Some (Inr target)"
  have "?wide look"
  proof (intro allI notI)
    fix k
    assume "ucast (ucast (tv_version (look k)) :: u32) = tv_version_after (look k)"
    then have "unat (tv_version_after (look k)) = unat (ucast (ucast (tv_version (look k)) :: u32) :: u64)" by simp
    also have "\<dots> < 2 ^ 32" using unat_u32_less unfolding unat_ucast_u32 by simp
    finally show False using assms by (meson not_le)
  qed
  moreover have "?wide look \<longrightarrow> (Inr target :: fault + u64) \<noteq> Inr target"
    by (rule trap_rounds.raw_induct [of "\<lambda>look source n y. ?wide look \<longrightarrow> y \<noteq> Inr target", OF _ r])
      (force split: option.splits sum.splits simp: Let_def)
  ultimately show False by blast
qed

end
