(* ===== verification/RT_Trap_Map.thy ===== *)
theory RT_Trap_Map
  imports RT_Trap
begin

section \<open>dyninstAPI_RT/RTlinux.c: the trap tables of rewritten files\<close>

text \<open>
  A rewritten executable or library carries its own trap table, found through an entry of its dynamic section.
  When a trap is hit the handler goes through the loaded files, enters the tables that are new into an array
  (relocating their entries once) and looks for the table whose range contains the address.  Two bit masks say which
  places of the array were in use at the last and at the current pass.  \<open>headers\<close> is the memory that
  holds the tables; the list of \<open>link_map\<close>s is that of the dynamic linker, in order.
\<close>

abbreviation (input) NUM_LIBRARIES :: nat where "NUM_LIBRARIES \<equiv> 512"
abbreviation (input) NUM_LIBRARIES_BITMASK_SIZE :: nat where "NUM_LIBRARIES_BITMASK_SIZE \<equiv> 17"
abbreviation (input) TRAP_HEADER_SIG :: u32 where "TRAP_HEADER_SIG \<equiv> 0x759191D6"
abbreviation (input) DT_DYNINST :: u64 where "DT_DYNINST \<equiv> 0x6D191957"
abbreviation (input) DT_NULL :: u64 where "DT_NULL \<equiv> 0"

subsection \<open>Bit masks\<close>

text \<open>A negative bit number becomes a huge one when it is divided by the unsigned word size.\<close>

definition set_bit_rt :: "u32 list \<Rightarrow> int \<Rightarrow> bool \<Rightarrow> fault + u32 list" where
  "set_bit_rt bm n value =
     (if \<not> n < int NUM_LIBRARIES then Inl Aborted
      else if n < 0 then Inl Out_of_bounds
      else let w = nat n div 32; shift = nat n mod 32
           in Inr (bm[w := if value then bm ! w OR push_bit shift 1 else bm ! w AND NOT (push_bit shift 1)]))"

definition clear_bitmask :: "u32 list \<Rightarrow> u32 list" where
  "clear_bitmask bm = map (\<lambda>_. 0) bm"

text \<open>The inner loop of the searches: the next bit of the word that is hit, or the first position behind the word.\<close>

function scan_word :: "(u32 \<Rightarrow> nat \<Rightarrow> bool) \<Rightarrow> u32 \<Rightarrow> nat \<Rightarrow> nat + nat" where
  "scan_word hit w j =
     (if hit w (j mod 32) then Inl j
      else if (j + 1) mod 32 = 0 then Inr (j + 1) else scan_word hit w (j + 1))"
  by auto
termination
  by (relation "measure (\<lambda>(_, _, j). 32 - j mod 32)") (auto simp: mod_Suc)

declare scan_word.simps [simp del]

lemma scan_word_behind: "scan_word hit w j = Inr j' \<Longrightarrow> j < j'"
proof (induction hit w j rule: scan_word.induct)
  case (1 hit w j)
  from 1(2) have "(if hit w (j mod 32) then Inl j else if (j + 1) mod 32 = 0 then Inr (j + 1) else scan_word hit w (j + 1)) = Inr j'"
    by (subst (asm) scan_word.simps)
  then show ?case using 1(1) by (auto split: if_splits)
qed

lemma scan_word_ge: "scan_word hit w j = Inl k \<Longrightarrow> j \<le> k"
proof (induction hit w j rule: scan_word.induct)
  case (1 hit w j)
  from 1(2) have "(if hit w (j mod 32) then Inl j else if (j + 1) mod 32 = 0 then Inr (j + 1) else scan_word hit w (j + 1)) = Inl k"
    by (subst (asm) scan_word.simps)
  then show ?case using 1(1) by (auto split: if_splits)
qed

text \<open>The outer loop; a word that cannot be hit is skipped by adding the word size to the position.\<close>

function next_bitmask :: "(u32 \<Rightarrow> bool) \<Rightarrow> (u32 \<Rightarrow> nat \<Rightarrow> bool) \<Rightarrow> u32 list \<Rightarrow> nat \<Rightarrow> nat \<Rightarrow> nat" where
  "next_bitmask skip hit bm i j =
     (if NUM_LIBRARIES \<le> j then NUM_LIBRARIES
      else if skip (bm ! i) then next_bitmask skip hit bm (i + 1) (j + 32)
      else case scan_word hit (bm ! i) j of Inl k \<Rightarrow> k | Inr k \<Rightarrow> next_bitmask skip hit bm (i + 1) k)"
  by auto
termination
  by (relation "measure (\<lambda>(_, _, _, _, j). NUM_LIBRARIES - j)") (auto dest: scan_word_behind)

declare next_bitmask.simps [simp del]

lemma next_bitmask_ge: "next_bitmask skip hit bm i j < NUM_LIBRARIES \<Longrightarrow> j \<le> next_bitmask skip hit bm i j"
proof (induction skip hit bm i j rule: next_bitmask.induct)
  case (1 skip hit bm i j)
  consider "NUM_LIBRARIES \<le> j" | "j < NUM_LIBRARIES" "skip (bm ! i)"
    | k where "j < NUM_LIBRARIES" "\<not> skip (bm ! i)" "scan_word hit (bm ! i) j = Inl k"
    | k where "j < NUM_LIBRARIES" "\<not> skip (bm ! i)" "scan_word hit (bm ! i) j = Inr k"
    by (meson not_le sum.exhaust)
  then show ?case
    using 1 scan_word_ge scan_word_behind
    by cases (simp_all add: next_bitmask.simps [of skip hit bm i j], fastforce+)
qed

definition get_next_free_bitmask :: "u32 list \<Rightarrow> int \<Rightarrow> nat" where
  "get_next_free_bitmask bm last_pos =
     (let j = nat (last_pos + 1) in next_bitmask (\<lambda>w. w = - 1) (\<lambda>w b. \<not> bit w b) bm (j div 32) j)"

definition get_next_set_bitmask :: "u32 list \<Rightarrow> int \<Rightarrow> nat" where
  "get_next_set_bitmask bm last_pos =
     (let j = nat (last_pos + 1) in next_bitmask (\<lambda>w. w = 0) (\<lambda>w b. bit w b) bm (j div 32) j)"

subsection \<open>Tables of the loaded files\<close>

record trap_mapping_header =
  signature :: u32
  num_entries :: u32
  header_pos :: int
  low_entry :: u64
  high_entry :: u64
  traps :: "trap_mapping list"

record link_map =
  l_addr :: u64
  l_ld :: "(u64 \<times> u64) list option"

record trap_maps =
  headers :: "u64 \<rightharpoonup> trap_mapping_header"
  all_headers :: "u64 list"
  all_headers_current :: "u32 list"
  all_headers_last :: "u32 list"
  trap_mapping_lock :: tc_lock

abbreviation (input) PARSED :: int where "PARSED \<equiv> 0"
abbreviation (input) NOT_REWRITTEN :: int where "NOT_REWRITTEN \<equiv> 1"
abbreviation (input) ALREADY_PARSED :: int where "ALREADY_PARSED \<equiv> 2"
abbreviation (input) ERROR_INTERNAL :: int where "ERROR_INTERNAL \<equiv> - 1"

text \<open>The loop over the dynamic section stops at its end or at the entry of the instrumentation.\<close>

fun dyninst_entry :: "(u64 \<times> u64) list \<Rightarrow> fault + u64 option" where
  "dyninst_entry [] = Inl Out_of_bounds"
| "dyninst_entry ((tag, val) # ds) =
     (if tag = DT_NULL then Inr None else if tag = DT_DYNINST then Inr (Some val) else dyninst_entry ds)"

text \<open>The loop that relocates the entries and widens the range of the table.\<close>

definition relocate :: "u64 \<Rightarrow> trap_mapping \<Rightarrow> trap_mapping" where
  "relocate base = (\<lambda>(s, t). (s + base, t + base))"

definition relocate_entry :: "u64 \<Rightarrow> nat \<Rightarrow> trap_mapping_header \<Rightarrow> trap_mapping_header" where
  "relocate_entry base i h =
     (let e = relocate base (traps h ! i);
          h1 = h\<lparr>traps := (traps h)[i := e]\<rparr>;
          h2 = (if low_entry h1 = 0 \<or> low_entry h1 > fst e then h1\<lparr>low_entry := fst e\<rparr> else h1)
      in if high_entry h2 = 0 \<or> high_entry h2 < fst e then h2\<lparr>high_entry := fst e\<rparr> else h2)"

fun relocate_entries :: "u64 \<Rightarrow> nat list \<Rightarrow> trap_mapping_header \<Rightarrow> fault + trap_mapping_header" where
  "relocate_entries base [] h = Inr h"
| "relocate_entries base (i # is) h =
     (if length (traps h) \<le> i then Inl Out_of_bounds else relocate_entries base is (relocate_entry base i h))"

text \<open>A table that was entered before is only marked; the assertion on the free place leaves nothing for the test of a
  full array behind it.\<close>

definition enter_header :: "u64 \<Rightarrow> trap_mapping_header \<Rightarrow> trap_maps \<Rightarrow> fault + int \<times> trap_maps" where
  "enter_header a h st =
     (let new_pos = get_next_free_bitmask (all_headers_last st) (- 1)
      in if \<not> new_pos < NUM_LIBRARIES then Inl Aborted
         else let st1 = st\<lparr>headers := (headers st)(a \<mapsto> h\<lparr>header_pos := int new_pos\<rparr>),
                           all_headers := (all_headers st)[new_pos := a]\<rparr>
              in and_then (set_bit_rt (all_headers_current st1) (int new_pos) True) (\<lambda>cur.
                 and_then (set_bit_rt (all_headers_last st1) (int new_pos) True) (\<lambda>lst.
                   Inr (PARSED, st1\<lparr>all_headers_current := cur, all_headers_last := lst\<rparr>))))"

definition parse_header :: "u64 \<Rightarrow> u64 \<Rightarrow> trap_maps \<Rightarrow> fault + int \<times> trap_maps" where
  "parse_header base a st =
     (case headers st a of
        None \<Rightarrow> Inl Out_of_bounds
      | Some h \<Rightarrow>
          if signature h \<noteq> TRAP_HEADER_SIG then Inr (ERROR_INTERNAL, st)
          else if header_pos h \<noteq> - 1
          then and_then (set_bit_rt (all_headers_current st) (header_pos h) True) (\<lambda>cur.
                 if all_headers st ! nat (header_pos h) \<noteq> a then Inl Aborted
                 else Inr (ALREADY_PARSED, st\<lparr>all_headers_current := cur\<rparr>))
          else and_then (relocate_entries base [0..<unat (num_entries h)] h) (\<lambda>h'. enter_header a h' st))"

definition parse_link_map :: "link_map \<Rightarrow> trap_maps \<Rightarrow> fault + int \<times> trap_maps" where
  "parse_link_map l st =
     (case l_ld l of
        None \<Rightarrow> Inr (- 1, st)
      | Some ds \<Rightarrow>
          and_then (dyninst_entry ds) (\<lambda>entry. case entry of
            None \<Rightarrow> Inr (NOT_REWRITTEN, st)
          | Some val \<Rightarrow> parse_header (l_addr l) (val + l_addr l) st))"

definition clear_unloaded_libs :: "trap_maps \<Rightarrow> trap_maps" where
  "clear_unloaded_libs st = st\<lparr>all_headers_last := all_headers_current st\<rparr>"

fun parse_all :: "link_map list \<Rightarrow> trap_maps \<Rightarrow> fault + trap_maps" where
  "parse_all [] st = Inr st"
| "parse_all (l # ls) st = and_then (parse_link_map l st) (\<lambda>(_, st'). parse_all ls st')"

definition parse_libs :: "link_map list \<Rightarrow> trap_maps \<Rightarrow> fault + int \<times> trap_maps" where
  "parse_libs r_map st =
     (if r_map = [] then Inr (- 1, st)
      else and_then (parse_all r_map (st\<lparr>all_headers_current := clear_bitmask (all_headers_current st)\<rparr>))
             (\<lambda>st'. Inr (0, clear_unloaded_libs st')))"

text \<open>The loop of \<^verbatim>\<open>getStaticTrapMap\<close> over the marked places behind \<open>i\<close>.\<close>

function find_header :: "trap_maps \<Rightarrow> u64 \<Rightarrow> int \<Rightarrow> fault + u64 option" where
  "find_header st pc i =
     (let k = get_next_set_bitmask (all_headers_current st) i
      in if \<not> k \<le> NUM_LIBRARIES then Inl Aborted
         else if k = NUM_LIBRARIES then Inr None
         else case headers st (all_headers st ! k) of
                None \<Rightarrow> Inl Null_pointer
              | Some h \<Rightarrow>
                  if low_entry h \<le> pc \<and> pc \<le> high_entry h then Inr (Some (all_headers st ! k))
                  else find_header st pc (int k))"
  by auto
termination
proof (relation "measure (\<lambda>(_, _, i). nat (int NUM_LIBRARIES - i))", goal_cases)
  case (2 st pc i k h)
  then have "k < NUM_LIBRARIES" by simp
  then have "nat (i + 1) \<le> k"
    using 2(1) next_bitmask_ge [of _ _ "all_headers_current st" "nat (i + 1) div 32" "nat (i + 1)"]
    by (auto simp: get_next_set_bitmask_def Let_def)
  then show ?case using \<open>k < NUM_LIBRARIES\<close> by (simp add: nat_le_iff)
qed simp

declare find_header.simps [simp del]

text \<open>The result of \<^verbatim>\<open>tc_lock_lock\<close> is not looked at.\<close>

definition getStaticTrapMap :: "dyntid \<Rightarrow> link_map list \<Rightarrow> u64 \<Rightarrow> trap_maps \<Rightarrow> fault + u64 option \<times> trap_maps" where
  "getStaticTrapMap me r_map pc st =
     and_then (tc_lock_lock me (trap_mapping_lock st)) (\<lambda>(_, l).
     and_then (parse_libs r_map (st\<lparr>trap_mapping_lock := l\<rparr>)) (\<lambda>(_, st1).
     and_then (find_header st1 pc (- 1)) (\<lambda>header.
       Inr (header, st1\<lparr>trap_mapping_lock := tc_lock_unlock (trap_mapping_lock st1)\<rparr>))))"

text \<open>The handler passes the address of the 32-bit number of entries as that of a 64-bit number: what is read
  has the place of the table in its upper half.\<close>

definition static_view :: "trap_mapping_header \<Rightarrow> trap_view" where
  "static_view h =
     \<lparr>tv_version = 0, tv_sorted = 1, tv_used = push_bit 32 (ucast (word_of_int (header_pos h) :: u32)) OR ucast (num_entries h),
      tv_table = traps h, tv_version_after = 0\<rparr>"

definition dyninstTrapHandler ::
  "bool \<Rightarrow> (nat \<Rightarrow> trap_view) \<Rightarrow> dyntid \<Rightarrow> link_map list \<Rightarrow> u64 \<Rightarrow> trap_maps \<Rightarrow> fault + u64 \<times> trap_maps" where
  "dyninstTrapHandler staticMode look me r_map pc st =
     (if pc = 0 then Inl Aborted
      else if staticMode
      then and_then (getStaticTrapMap me r_map pc st) (\<lambda>(hdr, st1).
             case hdr of
               None \<Rightarrow> Inl Aborted
             | Some a \<Rightarrow>
                 (case headers st1 a of
                    None \<Rightarrow> Inl Null_pointer
                  | Some h \<Rightarrow> and_then (dyninstTrapTranslate pc (\<lambda>_. static_view h)) (\<lambda>trap_to. Inr (trap_to, st1))))
      else and_then (dyninstTrapTranslate pc look) (\<lambda>trap_to. Inr (trap_to, st)))"

subsection \<open>Searching the masks\<close>

text \<open>The word of a position ends at the next multiple of 32.\<close>

lemma word_end:
  fixes j :: nat
  shows "j < 32 * (j div 32 + 1)" "(j + 1) mod 32 = 0 \<Longrightarrow> 32 * (j div 32 + 1) = j + 1"
    "(j + 1) mod 32 \<noteq> 0 \<Longrightarrow> (j + 1) div 32 = j div 32" "j mod 32 = 0 \<Longrightarrow> 32 * (j div 32 + 1) = j + 32"
    "j < 512 \<Longrightarrow> 32 * (j div 32 + 1) \<le> 512" "j \<le> k \<Longrightarrow> k < 32 * (j div 32 + 1) \<Longrightarrow> k div 32 = j div 32"
proof -
  have j: "j = 32 * (j div 32) + j mod 32" "j mod 32 < 32" by simp_all
  show "j < 32 * (j div 32 + 1)" using dividend_less_times_div [of 32 j] by simp
  show "32 * (j div 32 + 1) = j + 1" if "(j + 1) mod 32 = 0"
  proof -
    have "j mod 32 = 31" using that by (simp add: mod_Suc split: if_splits)
    then show ?thesis using j(1) by arith
  qed
  show "(j + 1) mod 32 \<noteq> 0 \<Longrightarrow> (j + 1) div 32 = j div 32" by (simp add: div_Suc)
  show "j mod 32 = 0 \<Longrightarrow> 32 * (j div 32 + 1) = j + 32" using j by auto
  show "32 * (j div 32 + 1) \<le> 512" if "j < 512"
  proof -
    have "j div 32 < 16" using that by (simp add: less_mult_imp_div_less)
    then show ?thesis by simp
  qed
  show "k div 32 = j div 32" if "j \<le> k" "k < 32 * (j div 32 + 1)"
  proof -
    have "k div 32 < j div 32 + 1" using that(2) by (simp add: less_mult_imp_div_less)
    then show ?thesis using div_le_mono [OF that(1), of 32] by simp
  qed
qed

lemma find_append: "find P (xs @ ys) = (case find P xs of None \<Rightarrow> find P ys | Some x \<Rightarrow> Some x)"
  by (induction xs) auto

lemma scan_word_find:
  "scan_word hit w j = (case find (\<lambda>k. hit w (k mod 32)) [j..<32 * (j div 32 + 1)] of
     Some k \<Rightarrow> Inl k | None \<Rightarrow> Inr (32 * (j div 32 + 1)))"
proof (induction hit w j rule: scan_word.induct)
  case (1 hit w j)
  have "j < 32 * (j div 32 + 1)" by (rule word_end)
  then have u: "[j..<32 * (j div 32 + 1)] = j # [j + 1..<32 * (j div 32 + 1)]" by (simp add: upt_conv_Cons)
  show ?case
  proof (cases "(j + 1) mod 32 = 0")
    case True
    then have "32 * (j div 32 + 1) = j + 1" by (rule word_end)
    then show ?thesis using True unfolding u by (subst scan_word.simps) simp
  next
    case False
    then have d: "(j + 1) div 32 = j div 32" by (rule word_end)
    show ?thesis
    proof (cases "hit w (j mod 32)")
      case h: False
      show ?thesis using h False 1 [OF h False] unfolding u d by (subst scan_word.simps) simp
    next
      case True
      then show ?thesis unfolding u by (subst scan_word.simps) simp
    qed
  qed
qed

definition hits :: "(u32 \<Rightarrow> nat \<Rightarrow> bool) \<Rightarrow> u32 list \<Rightarrow> nat \<Rightarrow> bool" where
  "hits hit bm k = hit (bm ! (k div 32)) (k mod 32)"

lemma next_bitmask_find:
  assumes "\<And>w b. skip w \<Longrightarrow> b < 32 \<Longrightarrow> \<not> hit w b" "j mod 32 = 0 \<or> \<not> skip (bm ! (j div 32))"
  shows "next_bitmask skip hit bm (j div 32) j = (case find (hits hit bm) [j..<NUM_LIBRARIES] of Some k \<Rightarrow> k | None \<Rightarrow> NUM_LIBRARIES)"
  using assms(2)
proof (induction "NUM_LIBRARIES - j" arbitrary: j rule: less_induct)
  case less
  let ?e = "32 * (j div 32 + 1)"
  show ?case
  proof (cases "j < NUM_LIBRARIES")
    case True
    have e: "j < ?e" "?e \<le> NUM_LIBRARIES" "?e div 32 = j div 32 + 1" "?e mod 32 = 0"
      using True word_end(1,5) [of j] by simp_all
    have split: "[j..<NUM_LIBRARIES] = [j..<?e] @ [?e..<NUM_LIBRARIES]" using e by (metis less_imp_le upt_add_eq_append le_add_diff_inverse)
    have IH: "next_bitmask skip hit bm (j div 32 + 1) ?e
        = (case find (hits hit bm) [?e..<NUM_LIBRARIES] of Some k \<Rightarrow> k | None \<Rightarrow> NUM_LIBRARIES)"
      using less.hyps [of ?e] True e by simp
    have here: "find (hits hit bm) [j..<?e] = find (\<lambda>k. hit (bm ! (j div 32)) (k mod 32)) [j..<?e]"
    proof (rule find_cong [OF refl])
      fix k assume "k \<in> set [j..<?e]"
      then have "k div 32 = j div 32" using word_end(6) [of j k] by simp
      then show "hits hit bm k = hit (bm ! (j div 32)) (k mod 32)" by (simp add: hits_def)
    qed
    show ?thesis
    proof (cases "skip (bm ! (j div 32))")
      case sk: True
      then have "j mod 32 = 0" using less.prems by blast
      then have "?e = j + 32" by (rule word_end(4))
      moreover have "find (hits hit bm) [j..<?e] = None"
        unfolding here using assms(1) [OF sk] by (simp add: find_None_iff)
      ultimately show ?thesis using True sk IH unfolding split find_append by (subst next_bitmask.simps) (simp add: add.commute)
    next
      case False
      then show ?thesis using True IH scan_word_find [of hit "bm ! (j div 32)" j] here unfolding split find_append
        by (subst next_bitmask.simps) (simp split: option.split)
    qed
  qed (subst next_bitmask.simps, simp)
qed

definition marked :: "u32 list \<Rightarrow> nat \<Rightarrow> bool" where
  "marked bm k \<longleftrightarrow> k < NUM_LIBRARIES \<and> bit (bm ! (k div 32)) (k mod 32)"

lemma find_marked: "j \<le> NUM_LIBRARIES \<Longrightarrow> find (hits bit bm) [j..<NUM_LIBRARIES] = find (marked bm) [j..<NUM_LIBRARIES]"
  by (rule find_cong) (auto simp: hits_def marked_def)

text \<open>A free place is found unless all are taken.\<close>

lemma get_next_free_least:
  "get_next_free_bitmask bm (- 1) = (case find (\<lambda>k. \<not> marked bm k) [0..<NUM_LIBRARIES] of Some k \<Rightarrow> k | None \<Rightarrow> NUM_LIBRARIES)"
proof -
  have "find (hits (\<lambda>w b. \<not> bit w b) bm) [0..<NUM_LIBRARIES] = find (\<lambda>k. \<not> marked bm k) [0..<NUM_LIBRARIES]"
    by (rule find_cong) (auto simp: hits_def marked_def)
  then show ?thesis
    using next_bitmask_find [of "\<lambda>w. w = - 1" "\<lambda>w b. \<not> bit w b" 0 bm] by (simp add: get_next_free_bitmask_def)
qed

text \<open>From a marked position (or from the start) the search for the next marked one misses none; from elsewhere it may, because
  skipping a word of zeros keeps the offset inside the word.\<close>

lemma get_next_set_next:
  assumes "pos = - 1 \<or> 0 \<le> pos \<and> marked bm (nat pos)"
  shows "get_next_set_bitmask bm pos
    = (case find (marked bm) [nat (pos + 1)..<NUM_LIBRARIES] of Some k \<Rightarrow> k | None \<Rightarrow> NUM_LIBRARIES)"
proof -
  let ?j = "nat (pos + 1)"
  have j: "?j \<le> NUM_LIBRARIES" using assms by (auto simp: marked_def)
  have "?j mod 32 = 0 \<or> bm ! (?j div 32) \<noteq> 0"
  proof (cases "pos = - 1")
    case False
    then have p: "0 \<le> pos" "marked bm (nat pos)" "?j = nat pos + 1" using assms by auto
    then have "bm ! (nat pos div 32) \<noteq> 0" by (auto simp: marked_def)
    then show ?thesis using word_end(3) [of "nat pos"] p(3) by metis
  qed simp
  then show ?thesis
    using next_bitmask_find [of "\<lambda>w. w = 0" bit ?j bm] find_marked [OF j] by (simp add: get_next_set_bitmask_def Let_def)
qed

lemma next_set_skips: "get_next_set_bitmask ([1, 0, 1] @ replicate 14 0) 32 = 512"
  by (simp add: get_next_set_bitmask_def Let_def next_bitmask.simps scan_word.simps)

lemma set_bit_marks:
  assumes "length bm = NUM_LIBRARIES_BITMASK_SIZE" "n < NUM_LIBRARIES"
  shows "\<exists>bm'. set_bit_rt bm (int n) True = Inr bm' \<and> length bm' = NUM_LIBRARIES_BITMASK_SIZE
    \<and> (\<forall>k. marked bm' k \<longleftrightarrow> k = n \<or> marked bm k)"
proof -
  have w: "n div 32 < length bm" using assms less_mult_imp_div_less [of n 17 32] by simp
  have "bit (bm[n div 32 := bm ! (n div 32) OR push_bit (n mod 32) 1] ! (k div 32)) (k mod 32)
      \<longleftrightarrow> k = n \<or> bit (bm ! (k div 32)) (k mod 32)" for k
  proof (cases "k div 32 = n div 32")
    case True
    then have "k = n \<longleftrightarrow> k mod 32 = n mod 32" by (metis div_mult_mod_eq)
    then show ?thesis using True w by (auto simp: bit_simps)
  qed auto
  then show ?thesis using assms by (auto simp: set_bit_rt_def Let_def marked_def)
qed

lemma clear_bitmask_marks: "length bm = NUM_LIBRARIES_BITMASK_SIZE \<Longrightarrow> \<not> marked (clear_bitmask bm) k"
  using less_mult_imp_div_less [of k 17 32] by (auto simp: marked_def clear_bitmask_def)

subsection \<open>Entering a table\<close>

lemma relocate_entries_from:
  assumes es: "es = map (relocate base) ts" "sorted_wrt (<) (map fst es)" "0 \<notin> fst ` set es"
    and k: "k \<le> length ts" "traps h = take k es @ drop k ts"
      "k = 0 \<Longrightarrow> low_entry h = 0 \<and> high_entry h = 0" "0 < k \<Longrightarrow> low_entry h = fst (es ! 0) \<and> high_entry h = fst (es ! (k - 1))"
  shows "relocate_entries base [k..<length ts] h
    = Inr (if ts = [] then h else h\<lparr>traps := es, low_entry := fst (es ! 0), high_entry := fst (es ! (length es - 1))\<rparr>)"
  using k
proof (induction "length ts - k" arbitrary: k h)
  case 0
  then have "k = length ts" by simp
  then show ?case using 0 es(1) by (cases "ts = []") auto
next
  case (Suc n)
  then have k: "k < length ts" by linarith
  have len: "length es = length ts" using es(1) by simp
  have e: "relocate base (traps h ! k) = es ! k" using Suc.prems(2) k es(1) len by (simp add: nth_append)
  have nz: "fst (es ! i) \<noteq> 0" if "i < length es" for i using es(3) that by force
  have mono: "fst (es ! i) < fst (es ! k)" if "i < k" for i
    using es(2) sorted_wrt_nth_less [of "(<)" "map fst es" i k] that k len by simp
  have upd: "(take k es @ drop k ts)[k := es ! k] = take (Suc k) es @ drop (Suc k) ts"
    using k len by (simp add: take_Suc_conv_app_nth list_update_append flip: Cons_nth_drop_Suc)
  let ?h = "relocate_entry base k h"
  have h: "?h = h\<lparr>traps := take (Suc k) es @ drop (Suc k) ts, low_entry := fst (es ! 0), high_entry := fst (es ! k)\<rparr>"
  proof (cases "k = 0")
    case True
    then show ?thesis using Suc.prems(2,3) e upd by (simp add: relocate_entry_def Let_def)
  next
    case False
    then have "0 < k" "0 < length es" using k len by linarith+
    then have "fst (es ! 0) \<noteq> 0" "fst (es ! 0) < fst (es ! k)" "fst (es ! (k - 1)) < fst (es ! k)"
      using nz [of 0] mono [of 0] mono [of "k - 1"] by simp_all
    then show ?thesis using Suc.prems(2,4) False e upd by (simp add: relocate_entry_def Let_def)
  qed
  have "relocate_entries base [Suc k..<length ts] ?h
      = Inr (if ts = [] then ?h else ?h\<lparr>traps := es, low_entry := fst (es ! 0), high_entry := fst (es ! (length es - 1))\<rparr>)"
    using Suc k by (intro Suc.hyps) (auto simp: h)
  moreover have "length (traps h) = length ts" using Suc.prems(1,2) len by simp
  moreover have "ts \<noteq> []" using k by auto
  ultimately show ?case using k by (simp add: upt_conv_Cons h)
qed

lemma relocate_entries_all:
  assumes "sorted_wrt (<) (map fst (map (relocate base) (traps h)))" "0 \<notin> fst ` set (map (relocate base) (traps h))"
    "low_entry h = 0" "high_entry h = 0" "traps h \<noteq> []"
  shows "relocate_entries base [0..<length (traps h)] h
    = Inr (h\<lparr>traps := map (relocate base) (traps h), low_entry := fst (hd (map (relocate base) (traps h))),
             high_entry := fst (last (map (relocate base) (traps h)))\<rparr>)"
  using relocate_entries_from [OF refl assms(1,2), of 0 h] assms(3-5) by (simp add: hd_conv_nth last_conv_nth)

text \<open>The table of a file, relocated; where it is; and what the library relies on for it: the entries in strict order, none at 0, and the
  range of the table up to date once it is entered.\<close>

definition trap_table :: "link_map \<Rightarrow> trap_mapping_header \<Rightarrow> trap_mapping list" where
  "trap_table l h = (if header_pos h = - 1 then map (\<lambda>(s, t). (s + l_addr l, t + l_addr l)) (traps h) else traps h)"

lemma trap_table_relocate: "trap_table l h = (if header_pos h = - 1 then map (relocate (l_addr l)) (traps h) else traps h)"
  by (simp add: trap_table_def relocate_def)

definition header_addr :: "link_map \<Rightarrow> u64 option" where
  "header_addr l = (case l_ld l of
     None \<Rightarrow> None
   | Some ds \<Rightarrow> (case dyninst_entry ds of Inr (Some val) \<Rightarrow> Some (val + l_addr l) | _ \<Rightarrow> None))"

definition good_header :: "link_map \<Rightarrow> trap_mapping_header \<Rightarrow> bool" where
  "good_header l h \<longleftrightarrow> signature h = TRAP_HEADER_SIG \<and> length (traps h) = unat (num_entries h) \<and> length (traps h) < 2 ^ 31
     \<and> traps h \<noteq> [] \<and> sorted_wrt (<) (map fst (trap_table l h)) \<and> 0 \<notin> fst ` set (trap_table l h)
     \<and> (if header_pos h = - 1 then low_entry h = 0 \<and> high_entry h = 0
        else low_entry h = fst (hd (traps h)) \<and> high_entry h = fst (last (traps h)))"

definition lib_ok :: "trap_maps \<Rightarrow> link_map \<Rightarrow> bool" where
  "lib_ok st l \<longleftrightarrow> (\<forall>ds. l_ld l = Some ds \<longrightarrow> dyninst_entry ds \<noteq> Inl Out_of_bounds)
     \<and> (\<forall>a. header_addr l = Some a \<longrightarrow> (\<exists>h. headers st a = Some h \<and> good_header l h))"

text \<open>The invariant of the array and the masks: a table that is entered is where it says, at a place marked as taken.\<close>

definition maps_ok :: "trap_maps \<Rightarrow> bool" where
  "maps_ok st \<longleftrightarrow> length (all_headers st) = NUM_LIBRARIES \<and> length (all_headers_current st) = NUM_LIBRARIES_BITMASK_SIZE
     \<and> length (all_headers_last st) = NUM_LIBRARIES_BITMASK_SIZE
     \<and> (\<forall>a h. headers st a = Some h \<and> header_pos h \<noteq> - 1 \<longrightarrow>
          (\<exists>p < NUM_LIBRARIES. header_pos h = int p \<and> all_headers st ! p = a \<and> marked (all_headers_last st) p))"

definition taken :: "trap_maps \<Rightarrow> nat set" where
  "taken st = {p. marked (all_headers_last st) p}"

lemma taken_bounded: "taken st \<subseteq> {..<NUM_LIBRARIES}" "finite (taken st)"
  by (auto simp: taken_def marked_def intro: finite_subset [of _ "{..<NUM_LIBRARIES}"])

lemma free_place:
  assumes "card (taken st) < NUM_LIBRARIES"
  shows "get_next_free_bitmask (all_headers_last st) (- 1) < NUM_LIBRARIES"
    "\<not> marked (all_headers_last st) (get_next_free_bitmask (all_headers_last st) (- 1))"
proof -
  have "\<exists>k < NUM_LIBRARIES. \<not> marked (all_headers_last st) k"
  proof (rule ccontr)
    assume "\<not> ?thesis"
    then have "taken st = {..<NUM_LIBRARIES}" by (auto simp: taken_def marked_def)
    then show False using assms by simp
  qed
  then obtain k where "find (\<lambda>k. \<not> marked (all_headers_last st) k) [0..<NUM_LIBRARIES] = Some k"
    by (cases "find (\<lambda>k. \<not> marked (all_headers_last st) k) [0..<NUM_LIBRARIES]") (auto simp: find_None_iff)
  moreover from this have "get_next_free_bitmask (all_headers_last st) (- 1) = k" by (simp add: get_next_free_least)
  ultimately show "get_next_free_bitmask (all_headers_last st) (- 1) < NUM_LIBRARIES"
    "\<not> marked (all_headers_last st) (get_next_free_bitmask (all_headers_last st) (- 1))"
    by (auto simp: find_Some_iff)
qed

text \<open>What entering (or finding again) the table at \<open>a\<close> does.\<close>

definition entered :: "link_map \<Rightarrow> u64 \<Rightarrow> trap_mapping_header \<Rightarrow> trap_maps \<Rightarrow> trap_maps \<Rightarrow> bool" where
  "entered l a h st st' \<longleftrightarrow> (\<exists>h' p. headers st' = (headers st)(a \<mapsto> h') \<and> header_pos h' = int p \<and> p < NUM_LIBRARIES
     \<and> good_header l h' \<and> traps h' = trap_table l h
     \<and> (\<forall>k. marked (all_headers_current st') k \<longleftrightarrow> k = p \<or> marked (all_headers_current st) k)
     \<and> card (taken st') \<le> Suc (card (taken st)) \<and> trap_mapping_lock st' = trap_mapping_lock st)"

lemma enter_header_effect:
  assumes ok: "maps_ok st" and new: "headers st a = Some h" "header_pos h = - 1" "good_header l h" and room: "card (taken st) < NUM_LIBRARIES"
    and h': "h' = h\<lparr>traps := trap_table l h, low_entry := fst (hd (trap_table l h)), high_entry := fst (last (trap_table l h))\<rparr>"
  shows "\<exists>st'. enter_header a h' st = Inr (PARSED, st') \<and> maps_ok st' \<and> entered l a h st st'"
proof -
  let ?p = "get_next_free_bitmask (all_headers_last st) (- 1)"
  note p = free_place [OF room]
  have len: "length (all_headers_current st) = NUM_LIBRARIES_BITMASK_SIZE" "length (all_headers_last st) = NUM_LIBRARIES_BITMASK_SIZE"
    using ok by (simp_all add: maps_ok_def)
  obtain cur lst where cur: "set_bit_rt (all_headers_current st) (int ?p) True = Inr cur" "length cur = NUM_LIBRARIES_BITMASK_SIZE"
      "\<forall>k. marked cur k \<longleftrightarrow> k = ?p \<or> marked (all_headers_current st) k"
    and lst: "set_bit_rt (all_headers_last st) (int ?p) True = Inr lst" "length lst = NUM_LIBRARIES_BITMASK_SIZE"
      "\<forall>k. marked lst k \<longleftrightarrow> k = ?p \<or> marked (all_headers_last st) k"
    using set_bit_marks [OF len(1) p(1)] set_bit_marks [OF len(2) p(1)] by blast
  let ?st = "st\<lparr>headers := (headers st)(a \<mapsto> h'\<lparr>header_pos := int ?p\<rparr>), all_headers := (all_headers st)[?p := a],
      all_headers_current := cur, all_headers_last := lst\<rparr>"
  have "enter_header a h' st = Inr (PARSED, ?st)" using p(1) cur(1) lst(1) by (simp add: enter_header_def Let_def)
  moreover have "maps_ok ?st"
  proof -
    have "\<exists>q < NUM_LIBRARIES. header_pos g = int q \<and> (all_headers st)[?p := a] ! q = b \<and> marked lst q"
      if g: "((headers st)(a \<mapsto> h'\<lparr>header_pos := int ?p\<rparr>)) b = Some g" "header_pos g \<noteq> - 1" for b g
    proof (cases "b = a")
      case True
      then show ?thesis using g p(1) lst(3) ok by (auto simp: maps_ok_def)
    next
      case False
      then have "headers st b = Some g" using g(1) by simp
      then obtain q where "q < NUM_LIBRARIES" "header_pos g = int q" "all_headers st ! q = b" "marked (all_headers_last st) q"
        using g(2) ok unfolding maps_ok_def by blast
      moreover from this have "q \<noteq> ?p" using p(2) by auto
      ultimately show ?thesis using lst(3) by auto
    qed
    then show ?thesis using ok cur(2) lst(2) by (auto simp: maps_ok_def)
  qed
  moreover have "card (taken ?st) \<le> Suc (card (taken st))"
  proof -
    have "taken ?st = insert ?p (taken st)" using lst(3) by (auto simp: taken_def)
    then show ?thesis using taken_bounded(2) [of st] by (simp add: card_insert_if)
  qed
  moreover have "good_header l (h'\<lparr>header_pos := int ?p\<rparr>)"
    using new(2,3) by (simp add: h' good_header_def trap_table_relocate)
  ultimately show ?thesis using p(1) cur(3) unfolding entered_def h' by auto
qed

lemma dyninst_entry_fault: "dyninst_entry ds = Inl f \<Longrightarrow> f = Out_of_bounds"
  by (induction ds rule: dyninst_entry.induct) (auto split: if_splits)

lemma parse_link_map_plain:
  assumes "lib_ok st l" "header_addr l = None"
  shows "\<exists>r. parse_link_map l st = Inr (r, st)"
proof (cases "l_ld l")
  case (Some ds)
  then have "dyninst_entry ds = Inr None"
    using assms dyninst_entry_fault [of ds] by (cases "dyninst_entry ds") (auto simp: header_addr_def lib_ok_def split: option.splits)
  then show ?thesis using Some by (simp add: parse_link_map_def)
qed (simp add: parse_link_map_def)

lemma parse_link_map_header:
  "header_addr l = Some a \<Longrightarrow> parse_link_map l st = parse_header (l_addr l) a st"
  by (auto simp: parse_link_map_def header_addr_def split: option.splits sum.splits)

lemma parse_link_map_effect:
  assumes ok: "maps_ok st" "lib_ok st l" and room: "card (taken st) < NUM_LIBRARIES" and a: "header_addr l = Some a" "headers st a = Some h"
  shows "\<exists>r st'. parse_link_map l st = Inr (r, st') \<and> maps_ok st' \<and> entered l a h st st'"
proof (cases "header_pos h = - 1")
  case True
  have good: "good_header l h" using ok(2) a by (auto simp: lib_ok_def)
  then have rel: "relocate_entries (l_addr l) [0..<unat (num_entries h)] h
      = Inr (h\<lparr>traps := trap_table l h, low_entry := fst (hd (trap_table l h)), high_entry := fst (last (trap_table l h))\<rparr>)"
    using relocate_entries_all [of "l_addr l" h] True by (simp add: good_header_def trap_table_relocate)
  from enter_header_effect [OF ok(1) a(2) True good room refl] obtain st' where
      "enter_header a (h\<lparr>traps := trap_table l h, low_entry := fst (hd (trap_table l h)), high_entry := fst (last (trap_table l h))\<rparr>) st
        = Inr (PARSED, st')" "maps_ok st'" "entered l a h st st'" by blast
  then show ?thesis
    using True good a rel by (simp add: parse_link_map_header parse_header_def good_header_def)
next
  case False
  have good: "good_header l h" using ok(2) a by (auto simp: lib_ok_def)
  obtain p where p: "p < NUM_LIBRARIES" "header_pos h = int p" "all_headers st ! p = a" "marked (all_headers_last st) p"
    using ok(1) a(2) False unfolding maps_ok_def by blast
  obtain cur where cur: "set_bit_rt (all_headers_current st) (int p) True = Inr cur" "length cur = NUM_LIBRARIES_BITMASK_SIZE"
      "\<forall>k. marked cur k \<longleftrightarrow> k = p \<or> marked (all_headers_current st) k"
    using set_bit_marks [OF _ p(1), of "all_headers_current st"] ok(1) by (auto simp: maps_ok_def)
  let ?st = "st\<lparr>all_headers_current := cur\<rparr>"
  have "parse_link_map l st = Inr (ALREADY_PARSED, ?st)"
    using False good a p cur(1) by (simp add: parse_link_map_header parse_header_def good_header_def)
  moreover have "maps_ok ?st" using ok(1) cur(2) by (simp add: maps_ok_def)
  moreover have "entered l a h st ?st"
    unfolding entered_def using False good a(2) p cur(3)
    by (intro exI [of _ h] exI [of _ p]) (auto simp: trap_table_relocate taken_def)
  ultimately show ?thesis by blast
qed

subsection \<open>All loaded files\<close>

definition addrs :: "link_map list \<Rightarrow> u64 list" where
  "addrs ls = List.map_filter header_addr ls"

lemma addrs_simps [simp]:
  "addrs [] = []" "addrs (l # ls) = (case header_addr l of None \<Rightarrow> addrs ls | Some a \<Rightarrow> a # addrs ls)"
  by (simp_all add: addrs_def map_filter_simps split: option.split)

lemma in_addrs: "l \<in> set ls \<Longrightarrow> header_addr l = Some a \<Longrightarrow> a \<in> set (addrs ls)"
  by (induction ls) (auto split: option.split)

text \<open>After the pass the table of every file is entered, and exactly their places are marked as current.\<close>

definition all_entered :: "link_map list \<Rightarrow> trap_maps \<Rightarrow> trap_maps \<Rightarrow> bool" where
  "all_entered ls st st' \<longleftrightarrow>
     (\<forall>l \<in> set ls. \<forall>a. header_addr l = Some a \<longrightarrow> (\<exists>h h' p. headers st a = Some h \<and> headers st' a = Some h'
        \<and> header_pos h' = int p \<and> p < NUM_LIBRARIES \<and> good_header l h' \<and> traps h' = trap_table l h
        \<and> marked (all_headers_current st') p))
     \<and> (\<forall>k. marked (all_headers_current st') k \<longrightarrow> marked (all_headers_current st) k
        \<or> (\<exists>l \<in> set ls. \<exists>a h'. header_addr l = Some a \<and> headers st' a = Some h' \<and> header_pos h' = int k))
     \<and> (\<forall>k. marked (all_headers_current st) k \<longrightarrow> marked (all_headers_current st') k)
     \<and> (\<forall>b. b \<notin> set (addrs ls) \<longrightarrow> headers st' b = headers st b)
     \<and> trap_mapping_lock st' = trap_mapping_lock st"

lemma all_entered_Cons:
  assumes l: "header_addr l = Some a" "headers st a = Some h"
    and e: "headers st1 = (headers st)(a \<mapsto> h1)" "header_pos h1 = int p" "p < NUM_LIBRARIES" "good_header l h1"
      "traps h1 = trap_table l h" "\<forall>k. marked (all_headers_current st1) k \<longleftrightarrow> k = p \<or> marked (all_headers_current st) k"
      "trap_mapping_lock st1 = trap_mapping_lock st"
    and fresh: "a \<notin> set (addrs ls)" and rest: "all_entered ls st1 st'"
  shows "all_entered (l # ls) st st'"
proof -
  have here: "headers st' a = Some h1" "marked (all_headers_current st') p" using rest fresh e(1,6) by (simp_all add: all_entered_def)
  have old: "headers st b = headers st1 b" if "b \<noteq> a" for b using that e(1) by simp
  have other: "a' \<noteq> a" if "l' \<in> set ls" "header_addr l' = Some a'" for l' a' using in_addrs [OF that] fresh by auto
  show ?thesis
    unfolding all_entered_def
  proof (intro conjI ballI allI impI)
    fix l' a'
    assume "l' \<in> set (l # ls)" "header_addr l' = Some a'"
    then consider "l' = l" "a' = a" | "l' \<in> set ls" "a' \<noteq> a" using l other by auto
    then show "\<exists>h h' p. headers st a' = Some h \<and> headers st' a' = Some h' \<and> header_pos h' = int p \<and> p < NUM_LIBRARIES
        \<and> good_header l' h' \<and> traps h' = trap_table l' h \<and> marked (all_headers_current st') p"
    proof cases
      case 1
      then show ?thesis using l here e by blast
    next
      case 2
      then show ?thesis using rest \<open>header_addr l' = Some a'\<close> old unfolding all_entered_def by metis
    qed
  next
    fix k
    assume "marked (all_headers_current st') k"
    then show "marked (all_headers_current st) k
        \<or> (\<exists>l \<in> set (l # ls). \<exists>a h'. header_addr l = Some a \<and> headers st' a = Some h' \<and> header_pos h' = int k)"
      using rest e(2,6) l(1) here(1) unfolding all_entered_def by fastforce
  qed (use rest e(1,6,7) l(1) in \<open>auto simp: all_entered_def\<close>)
qed

lemma parse_all_effect:
  assumes "maps_ok st" "\<forall>l \<in> set ls. lib_ok st l" "distinct (addrs ls)" "card (taken st) + length ls \<le> NUM_LIBRARIES"
  shows "\<exists>st'. parse_all ls st = Inr st' \<and> maps_ok st' \<and> all_entered ls st st'"
  using assms
proof (induction ls arbitrary: st)
  case Nil
  then show ?case by (simp add: all_entered_def)
next
  case (Cons l ls)
  show ?case
  proof (cases "header_addr l")
    case None
    then obtain r where "parse_link_map l st = Inr (r, st)" using parse_link_map_plain [of st l] Cons.prems(2) by auto
    moreover obtain st' where "parse_all ls st = Inr st'" "maps_ok st'" "all_entered ls st st'"
      using Cons.IH [of st] Cons.prems None by auto
    ultimately show ?thesis using None by (auto simp: all_entered_def)
  next
    case (Some a)
    then obtain h where h: "headers st a = Some h" using Cons.prems(2) by (auto simp: lib_ok_def)
    then obtain r st1 where st1: "parse_link_map l st = Inr (r, st1)" "maps_ok st1" "entered l a h st st1"
      using parse_link_map_effect [of st l a h] Cons.prems Some by auto
    then obtain h1 p where e: "headers st1 = (headers st)(a \<mapsto> h1)" "header_pos h1 = int p" "p < NUM_LIBRARIES" "good_header l h1"
        "traps h1 = trap_table l h" "\<forall>k. marked (all_headers_current st1) k \<longleftrightarrow> k = p \<or> marked (all_headers_current st) k"
        "card (taken st1) \<le> Suc (card (taken st))" "trap_mapping_lock st1 = trap_mapping_lock st"
      unfolding entered_def by blast
    have fresh: "a \<notin> set (addrs ls)" using Cons.prems(3) Some by simp
    have "lib_ok st1 l'" if "l' \<in> set ls" for l'
      using Cons.prems(2) that in_addrs [OF that] fresh e(1) by (auto simp: lib_ok_def)
    then obtain st' where st': "parse_all ls st1 = Inr st'" "maps_ok st'" "all_entered ls st1 st'"
      using Cons.IH [of st1] Cons.prems(3,4) st1(2) e(7) Some by auto
    then show ?thesis using st1(1) all_entered_Cons [OF Some h e(1-6,8) fresh] by auto
  qed
qed

subsection \<open>From the trap to its target\<close>

lemma find_header_unique:
  assumes places: "\<And>k. marked (all_headers_current st) k \<Longrightarrow>
      \<exists>h. headers st (all_headers st ! k) = Some h \<and> (low_entry h \<le> pc \<and> pc \<le> high_entry h \<longleftrightarrow> k = k0)"
    and k0: "marked (all_headers_current st) k0"
    and i: "i = - 1 \<or> 0 \<le> i \<and> marked (all_headers_current st) (nat i)" "i < int k0"
  shows "find_header st pc i = Inr (Some (all_headers st ! k0))"
  using i
proof (induction "nat (int k0 - i)" arbitrary: i rule: less_induct)
  case less
  let ?m = "marked (all_headers_current st)"
  have k0': "k0 \<in> set [nat (i + 1)..<NUM_LIBRARIES]" using k0 less.prems by (auto simp: marked_def)
  then obtain k where k: "find ?m [nat (i + 1)..<NUM_LIBRARIES] = Some k"
    using k0 by (cases "find ?m [nat (i + 1)..<NUM_LIBRARIES]") (auto simp: find_None_iff)
  have "?m k" "k < NUM_LIBRARIES" "nat (i + 1) \<le> k" "k \<le> k0"
    using k k0 k0' by (auto simp: find_Some_iff set_conv_nth not_le [symmetric])
  moreover have g: "get_next_set_bitmask (all_headers_current st) i = k" using get_next_set_next [OF less.prems(1)] k by simp
  moreover obtain h where "headers st (all_headers st ! k) = Some h" "low_entry h \<le> pc \<and> pc \<le> high_entry h \<longleftrightarrow> k = k0"
    using places [of k] \<open>?m k\<close> by blast
  moreover have "k \<noteq> k0 \<Longrightarrow> find_header st pc (int k) = Inr (Some (all_headers st ! k0))"
    using less.hyps [of "int k"] less.prems calculation(1,3,4) by simp
  ultimately show ?case by (subst find_header.simps) (auto simp: Let_def)
qed

lemma sorted_bounds:
  fixes es :: "trap_mapping list"
  assumes "sorted_wrt (<) (map fst es)" "(pc, target) \<in> set es"
  shows "fst (hd es) \<le> pc" "pc \<le> fst (last es)" "map_of es pc = Some target"
proof -
  obtain i where i: "i < length es" "es ! i = (pc, target)" using assms(2) by (auto simp: in_set_conv_nth)
  then have "es \<noteq> []" by auto
  moreover have "fst (es ! j) \<le> fst (es ! k)" if "j \<le> k" "k < length es" for j k
    using assms(1) sorted_wrt_nth_less [of "(<)" "map fst es" j k] that by (cases "j = k") auto
  ultimately show "fst (hd es) \<le> pc" "pc \<le> fst (last es)"
    using i by (metis fst_conv hd_conv_nth zero_le, metis One_nat_def Suc_pred fst_conv last_conv_nth length_greater_0_conv less_Suc_eq_le diff_less zero_less_one)
  show "map_of es pc = Some target" using assms by (simp add: strict_sorted_iff)
qed

lemma static_view_ok:
  assumes "good_header l h" "header_pos h \<noteq> - 1"
  shows "trap_ok (static_view h)"
proof -
  have "(ucast (push_bit 32 (ucast (word_of_int (header_pos h) :: u32)) OR ucast (num_entries h) :: u64) :: u32) = num_entries h"
    by (rule bit_word_eqI) (simp add: bit_simps)
  then show ?thesis using assms by (simp add: trap_ok_def static_view_def good_header_def trap_table_relocate)
qed

text \<open>The pass over the loaded files and the search in it, when the address is in the table at \<open>a\<close> only.\<close>

definition only_table :: "link_map list \<Rightarrow> u64 \<Rightarrow> u64 \<Rightarrow> trap_maps \<Rightarrow> bool" where
  "only_table libs a pc st \<longleftrightarrow> (\<forall>l \<in> set libs. \<forall>b h. header_addr l = Some b \<and> headers st b = Some h \<and> b \<noteq> a \<longrightarrow>
     pc < fst (hd (trap_table l h)) \<or> fst (last (trap_table l h)) < pc)"

lemma find_header_table:
  assumes ok: "maps_ok st" "all_entered libs st0 st" and cur: "\<And>k. \<not> marked (all_headers_current st0) k"
    and here: "l \<in> set libs" "header_addr l = Some a" "headers st0 a = Some h" "(pc, target) \<in> set (trap_table l h)"
    and only: "only_table libs a pc st0"
  shows "\<exists>h'. find_header st pc (- 1) = Inr (Some a) \<and> headers st a = Some h' \<and> good_header l h' \<and> header_pos h' \<noteq> - 1
    \<and> traps h' = trap_table l h"
proof -
  obtain h' p where h': "headers st a = Some h'" "header_pos h' = int p" "good_header l h'" "traps h' = trap_table l h"
      "marked (all_headers_current st) p"
    using ok(2) here unfolding all_entered_def by (metis option.inject)
  have at_pos: "all_headers st ! q = b" if "headers st b = Some g" "header_pos g = int q" for b g q
    using ok(1) that unfolding maps_ok_def by fastforce
  have "\<exists>g. headers st (all_headers st ! k) = Some g \<and> (low_entry g \<le> pc \<and> pc \<le> high_entry g \<longleftrightarrow> k = p)"
    if mk: "marked (all_headers_current st) k" for k
  proof -
    obtain l' b g where g: "l' \<in> set libs" "header_addr l' = Some b" "headers st b = Some g" "header_pos g = int k"
      using ok(2) cur [of k] mk unfolding all_entered_def by blast
    then obtain g0 where g0: "headers st0 b = Some g0" "good_header l' g" "traps g = trap_table l' g0"
      using ok(2) unfolding all_entered_def by (metis option.inject)
    have range: "low_entry g = fst (hd (traps g))" "high_entry g = fst (last (traps g))"
      using g0(2) g(4) by (auto simp: good_header_def)
    show ?thesis
    proof (cases "b = a")
      case True
      then have "g = h'" "k = p" using g h' by auto
      moreover have "sorted_wrt (<) (map fst (traps h'))" using h'(2,3) by (simp add: good_header_def trap_table_relocate)
      ultimately show ?thesis using g at_pos range sorted_bounds [of "traps h'" pc target] here(4) h'(4) by auto
    next
      case False
      then have "k \<noteq> p" using at_pos [OF g(3,4)] at_pos [OF h'(1,2)] by auto
      then show ?thesis using g g0 False at_pos range only unfolding only_table_def by fastforce
    qed
  qed
  then have "find_header st pc (- 1) = Inr (Some (all_headers st ! p))"
    using h'(5) by (intro find_header_unique) auto
  then show ?thesis using h' at_pos [OF h'(1,2)] by auto
qed

lemma translate_static:
  assumes "good_header l h" "header_pos h \<noteq> - 1" "(pc, target) \<in> set (traps h)"
  shows "dyninstTrapTranslate pc (\<lambda>_. static_view h) = Inr target"
proof -
  have "map_of (traps h) pc = Some target"
    using sorted_bounds(3) [of "traps h" pc target] assms by (simp add: good_header_def trap_table_relocate)
  then show ?thesis
    using static_view_ok [OF assms(1,2)] trap_round_target [of "static_view h" pc]
    by (simp add: dyninstTrapTranslate_def target_in_def trap_rounds.simps [of _ _ 0]) (simp add: static_view_def)
qed

lemma trap_handler_leads:
  assumes st: "maps_ok st" "mutex (trap_mapping_lock st) = 0" "card (taken st) + length libs \<le> NUM_LIBRARIES"
    and libs: "\<forall>l \<in> set libs. lib_ok st l" "distinct (addrs libs)"
    and here: "l \<in> set libs" "header_addr l = Some a" "headers st a = Some h" "(pc, target) \<in> set (trap_table l h)"
    and only: "only_table libs a pc st"
  shows "\<exists>st'. dyninstTrapHandler True look me libs pc st = Inr (target, st')"
proof -
  obtain r lk where lk: "tc_lock_lock me (trap_mapping_lock st) = Inr (r, lk)"
    using st(2) by (cases "me = holder (trap_mapping_lock st)") (simp_all add: tc_lock_lock_def)
  let ?st0 = "st\<lparr>trap_mapping_lock := lk, all_headers_current := clear_bitmask (all_headers_current st)\<rparr>"
  have m: "maps_ok ?st0" using st(1) by (simp add: maps_ok_def clear_bitmask_def)
  have lo: "\<forall>l \<in> set libs. lib_ok ?st0 l" using libs(1) by (simp add: lib_ok_def)
  have "card (taken ?st0) + length libs \<le> NUM_LIBRARIES" using st(3) by (simp add: taken_def)
  from parse_all_effect [OF m lo libs(2) this] obtain st1 where
    st1: "parse_all libs ?st0 = Inr st1" "maps_ok st1" "all_entered libs ?st0 st1" by blast
  have "\<not> marked (all_headers_current ?st0) k" for k using st(1) by (simp add: maps_ok_def clear_bitmask_marks)
  moreover have "headers ?st0 a = Some h" "only_table libs a pc ?st0" using here(3) only by (simp_all add: only_table_def)
  ultimately obtain h' where
    h': "find_header st1 pc (- 1) = Inr (Some a)" "headers st1 a = Some h'" "good_header l h'" "header_pos h' \<noteq> - 1"
      "traps h' = trap_table l h"
    using find_header_table [OF st1(2,3) _ here(1,2) _ here(4)] by blast
  have "parse_libs libs (st\<lparr>trap_mapping_lock := lk\<rparr>) = Inr (0, clear_unloaded_libs st1)"
    using here(1) st1(1) by (auto simp: parse_libs_def)
  moreover have "find_header (clear_unloaded_libs st1) pc i = find_header st1 pc i" for i
    by (induction "st1" pc i rule: find_header.induct) (subst (1 2) find_header.simps, simp add: clear_unloaded_libs_def Let_def split: option.split)
  moreover have "pc \<noteq> 0"
    using here libs(1) by (force simp: lib_ok_def good_header_def)
  moreover have "dyninstTrapTranslate pc (\<lambda>_. static_view h') = Inr target"
    using translate_static [OF h'(3,4)] here(4) h'(5) by simp
  ultimately show ?thesis using lk h'(1,2)
    by (simp add: dyninstTrapHandler_def getStaticTrapMap_def clear_unloaded_libs_def)
qed

text \<open>C13: a trap in a rewritten program leads to its instrumentation.  The trap tables of the loaded files are in order and do not overlap
  (at least not at the address of the trap), and there are places for all of them; whichever of them were entered
  before, the handler sets the program counter from the address of a trap to the relocated target its file has for it, and it never
  aborts.\<close>

theorem trap_handler_redirects:
  assumes st: "maps_ok st" "mutex (trap_mapping_lock st) = 0" "card (taken st) + length libs \<le> NUM_LIBRARIES"
    and libs: "\<forall>l \<in> set libs. lib_ok st l" "distinct (addrs libs)"
    and here: "l \<in> set libs" "header_addr l = Some a" "headers st a = Some h" "(pc, target) \<in> set (trap_table l h)"
    and only: "only_table libs a pc st"
  shows "\<exists>st'. dyninstTrapHandler True look me libs pc st = Inr (target, st')"
  using assms by (rule trap_handler_leads)

definition fresh_maps :: "(u64 \<rightharpoonup> trap_mapping_header) \<Rightarrow> trap_maps" where
  "fresh_maps mem = \<lparr>headers = mem, all_headers = replicate 512 0, all_headers_current = replicate 17 0, all_headers_last = replicate 17 0,
     trap_mapping_lock = \<lparr>mutex = 0, holder = 0\<rparr>\<rparr>"

lemma fresh_maps_ok:
  assumes "\<And>a h. mem a = Some h \<Longrightarrow> header_pos h = - 1"
  shows "maps_ok (fresh_maps mem)" "taken (fresh_maps mem) = {}"
proof -
  have "\<not> marked (replicate 17 0) k" for k using clear_bitmask_marks [of "replicate 17 0" k] by (simp add: clear_bitmask_def map_replicate_const)
  then show "taken (fresh_maps mem) = {}" by (simp add: taken_def fresh_maps_def)
  show "maps_ok (fresh_maps mem)" using assms by (auto simp: maps_ok_def fresh_maps_def)
qed

definition small_header :: trap_mapping_header where
  "small_header = \<lparr>signature = TRAP_HEADER_SIG, num_entries = 2, header_pos = - 1, low_entry = 0, high_entry = 0, traps = [(16, 256), (32, 512)]\<rparr>"

definition small_libs :: "link_map list" where
  "small_libs = [\<lparr>l_addr = 0, l_ld = Some [(DT_NULL, 0)]\<rparr>, \<lparr>l_addr = 4096, l_ld = Some [(DT_DYNINST, 64), (DT_NULL, 0)]\<rparr>]"

theorem trap_handler_redirects_witness:
  "\<exists>st'. dyninstTrapHandler True (\<lambda>_. static_view small_header) 7 small_libs 4128 (fresh_maps [4160 \<mapsto> small_header]) = Inr (4608, st')"
proof -
  let ?st = "fresh_maps [4160 \<mapsto> small_header]" and ?l = "\<lparr>l_addr = 4096, l_ld = Some [(DT_DYNINST, 64), (DT_NULL, 0)]\<rparr>"
  have h: "headers ?st 4160 = Some small_header" by (simp add: fresh_maps_def)
  have a: "header_addr ?l = Some 4160" "header_addr \<lparr>l_addr = 0, l_ld = Some [(DT_NULL, 0)]\<rparr> = None" by (simp_all add: header_addr_def)
  have "header_pos h = - 1" if "[4160 \<mapsto> small_header] a = Some h" for a h using that by (auto simp: small_header_def split: if_splits)
  then have f: "maps_ok ?st" "taken ?st = {}" using fresh_maps_ok [of "[4160 \<mapsto> small_header]"] by blast+
  have t: "trap_table ?l small_header = [(4112, 4352), (4128, 4608)]"
    by (simp add: trap_table_relocate small_header_def relocate_def)
  have g: "good_header ?l small_header" unfolding good_header_def t by (simp add: small_header_def)
  show ?thesis
  proof (rule trap_handler_redirects [where l = ?l and a = 4160 and h = small_header])
    show "\<forall>l \<in> set small_libs. lib_ok ?st l" using a g h by (simp add: small_libs_def lib_ok_def)
    show "only_table small_libs 4160 4128 ?st" using a by (simp add: only_table_def small_libs_def)
    show "distinct (addrs small_libs)" using a by (simp add: small_libs_def)
    show "card (taken ?st) + length small_libs \<le> NUM_LIBRARIES" using f(2) by (simp add: small_libs_def)
    show "mutex (trap_mapping_lock ?st) = 0" by (simp add: fresh_maps_def)
  qed (use f a h t in \<open>simp_all add: small_libs_def\<close>)
qed

end
