(* ===== verification/Trap_Writer.thy ===== *)
theory Trap_Writer
  imports File_Image RT_Trap_Map "HOL-Library.AList"
begin

section \<open>Dyninst's trampTrapMappings: the trap table in the target\<close>

text \<open>
  Where no jump fits, the instrumentation library writes a trap instruction and remembers where control goes from there.  \<^verbatim>\<open>flush\<close> writes
  these mappings to the target as the table that the run-time library searches (\<open>RT_Trap\<close>, \<open>RT_Trap_Map\<close>): into a new file once, sorted, behind a header;
  into a running process again and again, at the end of the table while there is room.  The target is an \<^verbatim>\<open>AddressSpace\<close>: its virtual
  functions that \<^verbatim>\<open>flush\<close> calls are the fields of a record.
\<close>

subsection \<open>Words as bytes\<close>

fun word_bytes :: "nat \<Rightarrow> nat \<Rightarrow> u8 list" where
  "word_bytes 0 v = []"
| "word_bytes (Suc n) v = of_nat (v mod 256) # word_bytes n (v div 256)"

fun bytes_val :: "u8 list \<Rightarrow> nat" where
  "bytes_val [] = 0"
| "bytes_val (b # bs) = unat b + 256 * bytes_val bs"

lemma length_word_bytes [simp]: "length (word_bytes n v) = n"
  by (induction n arbitrary: v) auto

lemma bytes_val_word_bytes: "v < 256 ^ n \<Longrightarrow> bytes_val (word_bytes n v) = v"
proof (induction n arbitrary: v)
  case (Suc n)
  then have "v div 256 < 256 ^ n" by (simp add: less_mult_imp_div_less mult.commute)
  then show ?case using Suc.IH by (simp add: unat_of_nat)
qed simp

subsection \<open>The target and the mappings\<close>

record 's address_space =
  is_process :: bool
  is_static_binary :: bool
  getAddressWidth :: u32
  inferiorMalloc :: "u32 \<Rightarrow> 's \<Rightarrow> fault + u64 \<times> 's"
  inferiorFree :: "u64 \<Rightarrow> 's \<Rightarrow> fault + 's"
  writeDataSpace :: "u64 \<Rightarrow> u8 list \<Rightarrow> 's \<Rightarrow> fault + bool \<times> 's"
  rt_variable :: "string \<Rightarrow> u64 option"

abbreviation (input) INDEX_INVALID :: u32 where "INDEX_INVALID \<equiv> UINT_MAX"
abbreviation (input) MIN_TRAP_TABLE_SIZE :: u64 where "MIN_TRAP_TABLE_SIZE \<equiv> 256"

record tramp_mapping_t =
  from_addr :: u64
  to_addr :: u64
  written :: bool
  mutatee_side :: bool
  cur_index :: u32

text \<open>The hash table \<^verbatim>\<open>mapping\<close> owns its nodes; \<^verbatim>\<open>updated_mappings\<close> points to them.  A node is known by its key and by how often the table
  had been cleared when it was made.  \<open>sysv_dynamic\<close> are the entries added to the dynamic section of the file.\<close>

record trampTrapMappings =
  mapping :: "(u64 \<times> tramp_mapping_t) list"
  cleared :: nat
  updated_mappings :: "(nat \<times> u64) list"
  needs_updating :: bool
  trapTableUsed :: "u64 option"
  trapTableVersion :: "u64 option"
  trapTable :: "u64 option"
  trapTableSorted :: "u64 option"
  table_version :: u64
  table_used :: u64
  table_allocated :: u64
  table_mutatee_size :: u64
  current_table :: u64
  table_header :: u64
  blockFlushes :: bool
  sysv_dynamic :: "(u64 \<times> u64) list"

definition new_mappings :: trampTrapMappings where
  "new_mappings = \<lparr>mapping = [], cleared = 0, updated_mappings = [], needs_updating = False, trapTableUsed = None, trapTableVersion = None,
     trapTable = None, trapTableSorted = None, table_version = 0, table_used = 0, table_allocated = 0, table_mutatee_size = 0, current_table = 0,
     table_header = 0, blockFlushes = False, sysv_dynamic = []\<rparr>"

definition copyTrapMappings :: "trampTrapMappings \<Rightarrow> trampTrapMappings \<Rightarrow> trampTrapMappings" where
  "copyTrapMappings parent m = m\<lparr>needs_updating := needs_updating parent, trapTableUsed := None, trapTableVersion := None, trapTable := None,
     trapTableSorted := None, table_version := table_version parent, table_used := table_used parent, table_allocated := table_allocated parent,
     table_mutatee_size := table_mutatee_size parent, current_table := current_table parent, mapping := mapping parent,
     cleared := cleared m + 1\<rparr>"

definition clearTrapMappings :: "trampTrapMappings \<Rightarrow> trampTrapMappings" where
  "clearTrapMappings m = m\<lparr>needs_updating := False, trapTableUsed := None, trapTableVersion := None, trapTable := None, trapTableSorted := None,
     table_version := 0, table_used := 0, table_allocated := 0, table_mutatee_size := 0, current_table := 0, mapping := [], cleared := cleared m + 1\<rparr>"

text \<open>The processor reports a trap behind the trap instruction, which has one byte.\<close>

definition addTrapMapping :: "u64 \<Rightarrow> u64 \<Rightarrow> bool \<Rightarrow> trampTrapMappings \<Rightarrow> trampTrapMappings" where
  "addTrapMapping from0 to write_to_mutatee m =
     (let from = from0 + 1;
          existing_trap = map_of (mapping m) from \<noteq> None;
          new = \<lparr>from_addr = from, to_addr = to, written = False, mutatee_side = write_to_mutatee,
                 cur_index = (case map_of (mapping m) from of Some old \<Rightarrow> cur_index old | None \<Rightarrow> INDEX_INVALID)\<rparr>
      in m\<lparr>mapping := AList.update from new (mapping m), updated_mappings := List.insert (cleared m, from) (updated_mappings m),
           table_mutatee_size := table_mutatee_size m + (if write_to_mutatee \<and> \<not> existing_trap then 1 else 0), needs_updating := True\<rparr>)"

definition definesTrapMapping :: "u64 \<Rightarrow> trampTrapMappings \<Rightarrow> bool" where
  "definesTrapMapping from m \<longleftrightarrow> map_of (mapping m) from \<noteq> None"

definition getTrapMapping :: "u64 \<Rightarrow> trampTrapMappings \<Rightarrow> u64" where
  "getTrapMapping from m = (case map_of (mapping m) from of None \<Rightarrow> 0 | Some t \<Rightarrow> to_addr t)"

definition mappings_empty :: "trampTrapMappings \<Rightarrow> bool" where
  "mappings_empty m \<longleftrightarrow> mapping m = []"

subsection \<open>Writing the table\<close>

definition writeToBuffer :: "u64 \<Rightarrow> u32 \<Rightarrow> fault + u8 list" where
  "writeToBuffer val addr_width =
     (if addr_width \<noteq> 8 then if addr_width \<noteq> 4 then Inl Aborted else Inr (word_bytes 4 (unat val)) else Inr (word_bytes 8 (unat val)))"

text \<open>\<^verbatim>\<open>writeDataSpace\<close> takes the number of bytes as an \<^verbatim>\<open>unsigned\<close>; its result is asserted everywhere.\<close>

definition write_or_abort :: "'s address_space \<Rightarrow> u64 \<Rightarrow> u8 list \<Rightarrow> 's \<Rightarrow> fault + 's" where
  "write_or_abort A addr bytes s =
     and_then (writeDataSpace A addr (take (unat (of_nat (length bytes) :: u32)) bytes) s) (\<lambda>(result, s'). if result then Inr s' else Inl Aborted)"

definition writeTrampVariable :: "'s address_space \<Rightarrow> u64 \<Rightarrow> u64 \<Rightarrow> 's \<Rightarrow> fault + 's" where
  "writeTrampVariable A var val s = and_then (writeToBuffer val (getAddressWidth A)) (\<lambda>buffer. write_or_abort A var buffer s)"

definition arrange_mapping :: "bool \<Rightarrow> u64 \<Rightarrow> (u64 \<times> tramp_mapping_t) list \<times> u64 list \<times> u64 list \<Rightarrow> (u64 \<times> tramp_mapping_t) list \<times> u64 list \<times> u64 list" where
  "arrange_mapping should_sort key = (\<lambda>(mp, mappings_to_add, mappings_to_update).
     case map_of mp key of
       None \<Rightarrow> (mp, mappings_to_add, mappings_to_update)
     | Some m \<Rightarrow>
         if \<not> mutatee_side m \<or> written m \<and> \<not> should_sort then (mp, mappings_to_add, mappings_to_update)
         else let mp' = AList.update key (m\<lparr>written := True\<rparr>) mp
              in if should_sort \<or> cur_index m = INDEX_INVALID then (mp', mappings_to_add @ [key], mappings_to_update)
                 else (mp', mappings_to_add, mappings_to_update @ [key]))"

text \<open>The two loops that call it: over the whole table, or over the nodes in \<^verbatim>\<open>updated_mappings\<close>, in the order of their addresses (\<open>node\<close>).  A node
  that was freed by \<^verbatim>\<open>clearTrapMappings\<close> is read all the same.\<close>

definition arrange_all :: "(nat \<times> u64 \<Rightarrow> u64) \<Rightarrow> bool \<Rightarrow> trampTrapMappings \<Rightarrow> fault + (u64 \<times> tramp_mapping_t) list \<times> u64 list \<times> u64 list" where
  "arrange_all node should_sort m =
     (if should_sort then Inr (fold (arrange_mapping True) (map fst (mapping m)) (mapping m, [], []))
      else if \<exists>p \<in> set (updated_mappings m). fst p \<noteq> cleared m then Inl Out_of_bounds
      else Inr (fold (arrange_mapping False) (map snd (sort_key node (updated_mappings m))) (mapping m, [], [])))"

definition the_mapping :: "(u64 \<times> tramp_mapping_t) list \<Rightarrow> u64 \<Rightarrow> tramp_mapping_t" where
  "the_mapping mp key = the (map_of mp key)"

fun assign_indices :: "u64 \<Rightarrow> u64 list \<Rightarrow> (u64 \<times> tramp_mapping_t) list \<Rightarrow> (u64 \<times> tramp_mapping_t) list" where
  "assign_indices i [] mp = mp"
| "assign_indices i (k # ks) mp = assign_indices (i + 1) ks (AList.update k ((the_mapping mp k)\<lparr>cur_index := ucast i\<rparr>) mp)"

fun entry_bytes :: "u32 \<Rightarrow> tramp_mapping_t list \<Rightarrow> fault + u8 list" where
  "entry_bytes width [] = Inr []"
| "entry_bytes width (t # ts) =
     and_then (writeToBuffer (from_addr t) width) (\<lambda>a. and_then (writeToBuffer (to_addr t) width) (\<lambda>b.
       and_then (entry_bytes width ts) (\<lambda>bs. Inr (a @ b @ bs))))"

text \<open>The image of \<^verbatim>\<open>trap_mapping_header\<close>; nothing is stored in its padding.\<close>

definition header_bytes :: "u8 list \<Rightarrow> u64 \<Rightarrow> u8 list" where
  "header_bytes pad n = word_bytes 4 (unat TRAP_HEADER_SIG) @ word_bytes 4 (unat n) @ word_bytes 4 (unat (- 1 :: u32)) @ pad
     @ word_bytes 8 0 @ word_bytes 8 0"

abbreviation (input) HEADER_SIZE :: u64 where "HEADER_SIZE \<equiv> 32"

definition allocateTable :: "u8 list \<Rightarrow> 's address_space \<Rightarrow> trampTrapMappings \<Rightarrow> 's \<Rightarrow> fault + trampTrapMappings \<times> 's" where
  "allocateTable pad A m s =
     (let entry_size = getAddressWidth A * 2
      in if is_process A
         then if table_mutatee_size m > table_allocated m
              then and_then (if current_table m \<noteq> 0 then inferiorFree A (current_table m) s else Inr s) (\<lambda>s1.
                   let n = table_mutatee_size m * 3 div 2;
                       allocated = (if n < MIN_TRAP_TABLE_SIZE then MIN_TRAP_TABLE_SIZE else n)
                   in and_then (inferiorMalloc A (ucast (allocated * ucast entry_size)) s1) (\<lambda>(a, s2).
                      if a = 0 then Inl Aborted else Inr (m\<lparr>table_allocated := allocated, current_table := a\<rparr>, s2)))
              else Inr (m, s)
         else if current_table m \<noteq> 0 then Inl Aborted
         else and_then (inferiorMalloc A (ucast (table_mutatee_size m * ucast entry_size + HEADER_SIZE)) s) (\<lambda>(a, s1).
              and_then (write_or_abort A a (header_bytes pad (table_mutatee_size m)) s1) (\<lambda>s2.
                Inr (m\<lparr>table_allocated := table_mutatee_size m, table_header := a, current_table := a + HEADER_SIZE,
                       sysv_dynamic := sysv_dynamic m @ (if is_static_binary A then [] else [(DT_DYNINST, a), (DT_DYNINST, a)])\<rparr>, s2))))"

fun update_entries :: "'s address_space \<Rightarrow> u64 \<Rightarrow> tramp_mapping_t list \<Rightarrow> 's \<Rightarrow> fault + 's" where
  "update_entries A table [] s = Inr s"
| "update_entries A table (tm # tms) s =
     (let aw = getAddressWidth A
      in and_then (writeToBuffer (to_addr tm) aw) (\<lambda>buffer.
         and_then (write_or_abort A (table + ucast (cur_index tm * (aw * 2)) + ucast aw) buffer s) (update_entries A table tms)))"

definition or_lookup :: "'s address_space \<Rightarrow> string \<Rightarrow> u64 option \<Rightarrow> u64 option" where
  "or_lookup A name v = (case v of Some a \<Rightarrow> Some a | None \<Rightarrow> rt_variable A name)"

definition find_variables :: "'s address_space \<Rightarrow> trampTrapMappings \<Rightarrow> trampTrapMappings" where
  "find_variables A m =
     (if trapTable m = None
      then m\<lparr>trapTableUsed := or_lookup A ''dyninstTrapTableUsed'' (trapTableUsed m),
             trapTableVersion := or_lookup A ''dyninstTrapTableVersion'' (trapTableVersion m),
             trapTable := or_lookup A ''dyninstTrapTable'' (trapTable m),
             trapTableSorted := or_lookup A ''dyninstTrapTableIsSorted'' (trapTableSorted m)\<rparr>
      else m)"

definition write_variables :: "'s address_space \<Rightarrow> bool \<Rightarrow> trampTrapMappings \<Rightarrow> 's \<Rightarrow> fault + trampTrapMappings \<times> 's" where
  "write_variables A should_sort m0 s =
     (let m = find_variables A m0
      in case (trapTableUsed m, trapTableVersion m, trapTable m, trapTableSorted m) of
           (Some used, Some version, Some table, Some is_sorted) \<Rightarrow>
             and_then (writeTrampVariable A used (table_used m) s) (\<lambda>s1.
             and_then (writeTrampVariable A version (table_version m + 1) s1) (\<lambda>s2.
             and_then (writeTrampVariable A table (current_table m) s2) (\<lambda>s3.
             and_then (writeTrampVariable A is_sorted (if should_sort then 1 else 0) s3) (\<lambda>s4.
               Inr (m\<lparr>table_version := table_version m + 1\<rparr>, s4)))))
         | _ \<Rightarrow> Inl Aborted)"

definition flush :: "(nat \<times> u64 \<Rightarrow> u64) \<Rightarrow> u8 list \<Rightarrow> 's address_space \<Rightarrow> trampTrapMappings \<Rightarrow> 's \<Rightarrow> fault + trampTrapMappings \<times> 's" where
  "flush node pad A m s =
     (if \<not> needs_updating m \<or> blockFlushes m then Inr (m, s)
      else let should_sort = (\<not> is_process A \<or> table_mutatee_size m > table_allocated m);
               m0 = (if should_sort then m\<lparr>table_used := 0\<rparr> else m)
      in and_then (arrange_all node should_sort m0) (\<lambda>(mp, add0, upd).
         if of_nat (length add0) + table_used m0 \<noteq> table_mutatee_size m0 then Inl Aborted
         else let add = (if should_sort then sort_key (\<lambda>k. from_addr (the_mapping mp k)) add0 else add0);
                  mp' = assign_indices (table_used m0) add mp;
                  width = getAddressWidth A
         in and_then (allocateTable pad A (m0\<lparr>mapping := mp', updated_mappings := []\<rparr>) s) (\<lambda>(m1, s1).
            and_then (entry_bytes width (map (the_mapping mp') add)) (\<lambda>bytes.
            and_then (if add \<noteq> [] then write_or_abort A (current_table m1 + table_used m1 * (ucast width * 2)) bytes s1 else Inr s1) (\<lambda>s2.
            let m2 = m1\<lparr>table_used := table_used m1 + of_nat (length add)\<rparr>
            in if upd \<noteq> [] \<and> should_sort then Inl Aborted
               else and_then (update_entries A (current_table m2) (map (the_mapping mp') upd) s2) (\<lambda>s3.
                    and_then (if is_process A then write_variables A should_sort m2 s3 else Inr (m2, s3)) (\<lambda>(m3, s4).
                      Inr (m3\<lparr>needs_updating := False\<rparr>, s4))))))))"

subsection \<open>Mappings that only the mutatee sees\<close>

text \<open>What \<^verbatim>\<open>BinaryEdit::addTrap\<close> does to the mappings, for a sequence of traps.\<close>

definition add_traps :: "(u64 \<times> u64) list \<Rightarrow> trampTrapMappings \<Rightarrow> trampTrapMappings" where
  "add_traps ts m = fold (\<lambda>(from, to). addTrapMapping from to True) ts m"

text \<open>Where a mapping leads.\<close>

definition route :: "(u64 \<times> tramp_mapping_t) list \<Rightarrow> u64 \<rightharpoonup> u64" where
  "route mp k = map_option to_addr (map_of mp k)"

definition all_mutatee :: "(u64 \<times> tramp_mapping_t) list \<Rightarrow> bool" where
  "all_mutatee mp \<longleftrightarrow> distinct (map fst mp) \<and> (\<forall>k t. map_of mp k = Some t \<longrightarrow> from_addr t = k \<and> mutatee_side t)"

lemma all_mutatee_update:
  assumes "all_mutatee mp" "from_addr t = k" "mutatee_side t"
  shows "all_mutatee (AList.update k t mp)"
  using assms AList.distinct_update [of mp k t] by (auto simp: all_mutatee_def AList.update_conv' split: if_splits)

lemma same_keys:
  assumes "map_of mp k = Some t"
  shows "map fst (AList.update k t' mp) = map fst mp"
proof -
  have "k \<in> set (map fst mp)" using assms by (force dest: map_of_SomeD)
  then show ?thesis by (simp add: AList.update_keys)
qed

definition unflushed :: "trampTrapMappings \<Rightarrow> bool" where
  "unflushed m \<longleftrightarrow> all_mutatee (mapping m) \<and> table_mutatee_size m = of_nat (length (mapping m)) \<and> current_table m = 0 \<and> sysv_dynamic m = []
     \<and> (mapping m \<noteq> [] \<longrightarrow> needs_updating m)"

lemma unflushed_new: "unflushed new_mappings"
  by (simp add: unflushed_def new_mappings_def all_mutatee_def)

lemma addTrapMapping_unflushed:
  assumes m: "unflushed m"
  shows "unflushed (addTrapMapping from to True m)" "route (mapping (addTrapMapping from to True m)) = (route (mapping m))(from + 1 \<mapsto> to)"
    "blockFlushes (addTrapMapping from to True m) = blockFlushes m" "length (mapping (addTrapMapping from to True m)) \<le> length (mapping m) + 1"
proof -
  let ?m = "addTrapMapping from to True m"
  obtain t where t: "mapping ?m = AList.update (from + 1) t (mapping m)" "from_addr t = from + 1" "mutatee_side t" "to_addr t = to"
    by (simp add: addTrapMapping_def Let_def)
  show "route (mapping ?m) = (route (mapping m))(from + 1 \<mapsto> to)" using t by (simp add: route_def fun_eq_iff AList.update_conv')
  have n: "length (mapping ?m) = length (mapping m) + (if map_of (mapping m) (from + 1) = None then 1 else 0)"
    unfolding t(1) using AList.update_keys [of "from + 1" t "mapping m"]
    by (auto simp: map_of_eq_None_iff dest!: arg_cong [where f = length] split: if_splits)
  then show "length (mapping ?m) \<le> length (mapping m) + 1" by simp
  have "table_mutatee_size ?m = of_nat (length (mapping ?m))" using m n by (simp add: unflushed_def addTrapMapping_def Let_def)
  then show "unflushed ?m" using m all_mutatee_update [of "mapping m", OF _ t(2,3)] t(1)
    by (simp add: unflushed_def addTrapMapping_def Let_def)
  show "blockFlushes ?m = blockFlushes m" by (simp add: addTrapMapping_def Let_def)
qed

lemma add_traps_unflushed:
  assumes "unflushed m"
  shows "unflushed (add_traps ts m) \<and> route (mapping (add_traps ts m)) = (\<lambda>k. case map_of (rev (map (\<lambda>(f, t). (f + 1, t)) ts)) k of Some t \<Rightarrow> Some t | None \<Rightarrow> route (mapping m) k)
    \<and> blockFlushes (add_traps ts m) = blockFlushes m \<and> length (mapping (add_traps ts m)) \<le> length (mapping m) + length ts"
  using assms
proof (induction ts arbitrary: m)
  case (Cons x ts)
  obtain f g where x: "x = (f, g)" by fastforce
  note s = addTrapMapping_unflushed [OF Cons.prems, of f g]
  have "add_traps (x # ts) m = add_traps ts (addTrapMapping f g True m)" by (simp add: add_traps_def x)
  then show ?case using Cons.IH [OF s(1)] s(2-4) x by (auto simp: fun_eq_iff map_add_Some_iff split: option.split)
qed (simp add: add_traps_def)

subsection \<open>The sorted table\<close>

lemma arrange_fold:
  assumes "all_mutatee mp" "distinct ks" "set ks \<subseteq> fst ` set mp"
  shows "\<exists>mp'. fold (arrange_mapping True) ks (mp, add, upd) = (mp', add @ ks, upd) \<and> map fst mp' = map fst mp \<and> all_mutatee mp' \<and> route mp' = route mp"
  using assms
proof (induction ks arbitrary: mp add)
  case (Cons k ks)
  then obtain t where t: "map_of mp k = Some t" by (metis domD dom_map_of_conv_image_fst list.set_intros(1) subsetD)
  then have f: "from_addr t = k" "mutatee_side t" using Cons.prems(1) by (simp_all add: all_mutatee_def)
  let ?mp = "AList.update k (t\<lparr>written := True\<rparr>) mp"
  have a: "arrange_mapping True k (mp, add, upd) = (?mp, add @ [k], upd)" using t f(2) by (simp add: arrange_mapping_def)
  have "all_mutatee ?mp" using f by (intro all_mutatee_update [OF Cons.prems(1)]) simp_all
  moreover have k: "map fst ?mp = map fst mp" using same_keys [OF t] .
  moreover have "set ks \<subseteq> fst ` set ?mp" using Cons.prems(3) k by (metis list.set_map set_subset_Cons subset_trans)
  moreover have "route ?mp = route mp" using t by (simp add: route_def fun_eq_iff AList.update_conv')
  ultimately show ?case using Cons.IH [of ?mp "add @ [k]"] Cons.prems(2) a by auto
qed simp

lemma assign_indices_keeps:
  assumes "all_mutatee mp" "set ks \<subseteq> fst ` set mp"
  shows "map fst (assign_indices i ks mp) = map fst mp \<and> all_mutatee (assign_indices i ks mp) \<and> route (assign_indices i ks mp) = route mp"
  using assms
proof (induction i ks mp rule: assign_indices.induct)
  case (2 i k ks mp)
  then obtain t where t: "map_of mp k = Some t" by (metis domD dom_map_of_conv_image_fst list.set_intros(1) subsetD)
  then have f: "from_addr t = k" "mutatee_side t" using 2(2) by (simp_all add: all_mutatee_def)
  let ?mp = "AList.update k (t\<lparr>cur_index := ucast i\<rparr>) mp"
  have "all_mutatee ?mp" using f by (intro all_mutatee_update [OF 2(2)]) simp_all
  moreover have k: "map fst ?mp = map fst mp" using same_keys [OF t] .
  moreover have "set ks \<subseteq> fst ` set ?mp" using 2(3) k by (metis list.set_map set_subset_Cons subset_trans)
  moreover have "route ?mp = route mp" using t by (simp add: route_def fun_eq_iff AList.update_conv')
  ultimately show ?case using 2(1) t by (simp add: the_mapping_def)
qed simp

definition table_bytes :: "trap_mapping list \<Rightarrow> u8 list" where
  "table_bytes tab = concat (map (\<lambda>(s, t). word_bytes 8 (unat s) @ word_bytes 8 (unat t)) tab)"

lemma length_table_bytes [simp]: "length (table_bytes tab) = 16 * length tab"
  by (induction tab) (auto simp: table_bytes_def)

lemma entry_bytes_8: "entry_bytes 8 ts = Inr (table_bytes (map (\<lambda>t. (from_addr t, to_addr t)) ts))"
  by (induction ts) (simp_all add: table_bytes_def writeToBuffer_def)

text \<open>The table for the mappings, in the order of the addresses.\<close>

definition sorted_table :: "(u64 \<times> tramp_mapping_t) list \<Rightarrow> trap_mapping list" where
  "sorted_table mp = map (\<lambda>k. (k, the (route mp k))) (sort (map fst mp))"

lemma sorted_table_props:
  assumes "all_mutatee mp"
  shows "sorted_wrt (<) (map fst (sorted_table mp))" "(k, t) \<in> set (sorted_table mp) \<longleftrightarrow> route mp k = Some t" "length (sorted_table mp) = length mp"
proof -
  have "distinct (map fst mp)" using assms by (simp add: all_mutatee_def)
  then show "sorted_wrt (<) (map fst (sorted_table mp))" by (simp add: sorted_table_def strict_sorted_iff comp_def)
  show "length (sorted_table mp) = length mp" by (simp add: sorted_table_def)
  have "k \<in> fst ` set mp \<longleftrightarrow> route mp k \<noteq> None" by (simp add: route_def map_of_eq_None_iff)
  then show "(k, t) \<in> set (sorted_table mp) \<longleftrightarrow> route mp k = Some t" by (auto simp: sorted_table_def)
qed

lemma table_of_mappings:
  assumes "all_mutatee mp" "set ks \<subseteq> fst ` set mp"
  shows "map (\<lambda>t. (from_addr t, to_addr t)) (map (the_mapping mp) ks) = map (\<lambda>k. (k, the (route mp k))) ks"
proof -
  have "from_addr (the_mapping mp k) = k \<and> to_addr (the_mapping mp k) = the (route mp k)" if "k \<in> set ks" for k
  proof -
    have "map_of mp k \<noteq> None" using assms(2) that by (auto simp: map_of_eq_None_iff)
    then obtain t where "map_of mp k = Some t" by blast
    then show ?thesis using assms(1) by (simp add: the_mapping_def route_def all_mutatee_def)
  qed
  then show ?thesis by simp
qed

lemma length_header_bytes: "length pad = 4 \<Longrightarrow> length (header_bytes pad n) = 32"
  by (simp add: header_bytes_def)

text \<open>What \<^verbatim>\<open>flush\<close> makes of mappings that were never written: all of them, sorted.\<close>

lemma arrange_unflushed:
  assumes m: "unflushed m"
  obtains mp where "arrange_all node True m = Inr (mp, map fst (mapping m), [])" "map fst mp = map fst (mapping m)" "all_mutatee mp" "route mp = route (mapping m)"
  using arrange_fold [of "mapping m" "map fst (mapping m)" "[]" "[]"] m that by (auto simp: arrange_all_def unflushed_def all_mutatee_def)

lemma sort_by_from:
  assumes mp: "all_mutatee mp"
  shows "sort_key (\<lambda>k. from_addr (the_mapping mp k)) (map fst mp) = sort (map fst mp)"
proof -
  let ?f = "\<lambda>k. from_addr (the_mapping mp k)" and ?ys = "sort_key (\<lambda>k. from_addr (the_mapping mp k)) (map fst mp)"
  have "?f k = k" if "k \<in> set (map fst mp)" for k
  proof -
    have "map_of mp k \<noteq> None" using that by (simp add: map_of_eq_None_iff)
    then show ?thesis using mp by (auto simp: the_mapping_def all_mutatee_def)
  qed
  then have "map ?f ?ys = ?ys" by (intro map_idI) simp
  then have "sorted ?ys" using sorted_sort_key [of ?f "map fst mp"] by simp
  moreover have "distinct (map fst mp)" using mp by (simp add: all_mutatee_def)
  ultimately show ?thesis by (intro sorted_distinct_set_unique) simp_all
qed

subsection \<open>Into a file\<close>

definition file_space :: "bool \<Rightarrow> binary_edit address_space" where
  "file_space static = \<lparr>is_process = False, is_static_binary = static, getAddressWidth = 8, inferiorMalloc = be_inferiorMalloc 8,
     inferiorFree = be_inferiorFree, writeDataSpace = writeTextSpace, rt_variable = (\<lambda>_. None)\<rparr>"

lemma file_space_simps [simp]:
  "is_process (file_space static) = False" "is_static_binary (file_space static) = static" "getAddressWidth (file_space static) = 8"
  "inferiorMalloc (file_space static) = be_inferiorMalloc 8" "writeDataSpace (file_space static) = writeTextSpace"
  by (simp_all add: file_space_def)

text \<open>Writing inside a block, and what of the address space it keeps.\<close>

lemma write_or_abort_file:
  assumes inv: "be_inv e G budget" and l: "layout (trackers e) a = Some sz"
    and inside: "unat a \<le> unat addr" "unat addr + length bytes \<le> unat a + unat sz"
  obtains e' where "write_or_abort (file_space static) addr bytes e = Inr e'" "be_inv e' G budget"
    "memory_of e' = overlay (memory_of e) (unat addr) bytes" "lowWaterMark e' = lowWaterMark e" "highWaterMark e' = highWaterMark e"
    "tracker_tree e' \<noteq> None" "layout (trackers e') = layout (trackers e)"
proof -
  obtain mt where mt: "range_map (trackers e) a = Some mt" "get_size mt = sz" using l by (auto simp: layout_def)
  have "length bytes < 2 ^ 32" using inside unat_u32_less [of sz] by simp
  then have "take (unat (of_nat (length bytes) :: u32)) bytes = bytes" by (simp add: unat_of_nat)
  moreover obtain e' where "writeTextSpace addr bytes e = Inr (True, e')" "be_inv e' G budget" "memory_of e' = overlay (memory_of e) (unat addr) bytes"
      "lowWaterMark e' = lowWaterMark e" "highWaterMark e' = highWaterMark e" "tracker_tree e' \<noteq> None"
      "layout (trackers e') = layout (trackers e)"
    using inside mt(2) by (auto intro: write_inside [OF inv mt(1), of addr bytes])
  ultimately show thesis using that by (simp add: write_or_abort_def)
qed

lemma allocateTable_file:
  assumes m: "table_mutatee_size m = of_nat n" "current_table m = 0" "sysv_dynamic m = []" and pad: "length pad = 4"
    and inv: "be_inv e G budget" and room: "16 * n + 40 \<le> budget"
  obtains a e' G' budget' sz where
    "allocateTable pad (file_space static) m e = Inr (m\<lparr>table_allocated := of_nat n, table_header := a, current_table := a + 32,
       sysv_dynamic := (if static then [] else [(DT_DYNINST, a), (DT_DYNINST, a)])\<rparr>, e')"
    "be_inv e' G' budget'" "layout (trackers e') a = Some sz" "32 + 16 * n \<le> unat sz" "unat (a + 32) = unat a + 32"
    "lowWaterMark e' = lowWaterMark e" "\<And>i. i < 32 \<Longrightarrow> memory_of e' (unat a + i) = Some (Some (header_bytes pad (of_nat n) ! i))"
    "a \<in> dom G'"
proof -
  note hdr = length_header_bytes [OF pad, of "of_nat n"]
  have small: "16 * n + 40 < 2 ^ 31" using room be_invD(5) [OF inv] by simp
  let ?k = "of_nat (16 * n + 32) :: u32"
  have "(of_nat n * 16 + 32 :: u64) = of_nat (16 * n + 32)" by (simp add: mult.commute)
  then have "ucast (of_nat n * 16 + 32 :: u64) = ?k" using small by (simp only: unsigned_of_nat) (simp add: take_bit_nat_eq_self)
  moreover have "unat ?k = 16 * n + 32" using small by (simp only: unat_of_nat) simp
  ultimately have k: "ucast (of_nat n * 16 + 32 :: u64) = ?k" "unat ?k = 16 * n + 32" by blast+
  have nz: "?k \<noteq> 0" using k(2) by (auto simp: word_unat_eq_iff)
  have kb: "unat ?k + 8 \<le> budget" using k(2) room by simp
  obtain a e1 G1 b1 where a: "be_inferiorMalloc 8 ?k e = Inr (a, e1)" "be_inv e1 G1 b1" "a \<in> dom G1"
    using be_inferiorMalloc_spec [OF inv nz kb] by fastforce
  let ?sz = "inferiorMallocAlign 8 ?k"
  have l: "layout (trackers e1) a = Some ?sz" using be_inferiorMalloc_layout [OF inv nz kb a(1)] by simp
  have sz: "16 * n + 32 \<le> unat ?sz" using inferiorMallocAlign_ge(1) [of 3 ?k] k(2) small by simp
  obtain e2 where w: "write_or_abort (file_space static) a (header_bytes pad (of_nat n)) e1 = Inr e2" "be_inv e2 G1 b1"
      "memory_of e2 = overlay (memory_of e1) (unat a) (header_bytes pad (of_nat n))" "lowWaterMark e2 = lowWaterMark e1"
      "layout (trackers e2) = layout (trackers e1)"
    using write_or_abort_file [OF a(2) l, of a "header_bytes pad (of_nat n)" static] hdr sz by auto
  have "tracker_ok mt \<and> get_address mt = a" if "range_map (trackers e1) a = Some mt" for mt using trackers_okD(1,2) [OF be_invD(7) [OF a(2)] that] by simp
  then have "unat a + unat ?sz < 2 ^ 64" using l by (auto simp: layout_def tracker_ok_def)
  then have "unat (a + 32) = unat a + 32" using sz by (subst unat_add_u64) simp_all
  moreover have "memory_of e2 (unat a + i) = Some (Some (header_bytes pad (of_nat n) ! i))" if "i < 32" for i
    using that w(3) hdr by (simp add: overlay_def)
  moreover have "allocateTable pad (file_space static) m e = Inr (m\<lparr>table_allocated := of_nat n, table_header := a, current_table := a + 32,
       sysv_dynamic := (if static then [] else [(DT_DYNINST, a), (DT_DYNINST, a)])\<rparr>, e2)"
    using m k(1) a(1) w(1) by (simp add: allocateTable_def Let_def)
  ultimately show thesis using that [of a e2 G1 b1 ?sz] w(2,4,5) l sz a(3) be_inferiorMalloc_low [OF a(1)] by simp
qed

lemma flush_arranged:
  assumes m: "unflushed m" "mapping m \<noteq> []" "\<not> blockFlushes m"
  obtains mp where "flush node pad (file_space static) m e =
    and_then (allocateTable pad (file_space static) (m\<lparr>table_used := 0, mapping := mp, updated_mappings := []\<rparr>) e) (\<lambda>(m1, e1).
      and_then (write_or_abort (file_space static) (current_table m1 + table_used m1 * 16) (table_bytes (sorted_table (mapping m))) e1) (\<lambda>e2.
        Inr (m1\<lparr>table_used := table_used m1 + of_nat (length (mapping m)), needs_updating := False\<rparr>, e2)))"
proof -
  let ?m0 = "m\<lparr>table_used := 0\<rparr>"
  have "unflushed ?m0" using m(1) by (simp add: unflushed_def)
  then obtain mp where mp: "arrange_all node True ?m0 = Inr (mp, map fst (mapping m), [])" "map fst mp = map fst (mapping m)" "all_mutatee mp"
    "route mp = route (mapping m)" by (rule arrange_unflushed) simp
  let ?add = "sort (map fst mp)"
  let ?mp = "assign_indices 0 ?add mp"
  have keep: "map fst ?mp = map fst mp" "all_mutatee ?mp" "route ?mp = route mp" using assign_indices_keeps [OF mp(3), of ?add 0] by simp_all
  have "set ?add \<subseteq> fst ` set ?mp" using keep(1) by (metis list.set_map set_sort subset_refl)
  from table_of_mappings [OF keep(2) this]
  have tab: "table_bytes (map (\<lambda>t. (from_addr t, to_addr t)) (map (the_mapping ?mp) ?add)) = table_bytes (sorted_table (mapping m))"
    by (simp only: sorted_table_def keep(3) mp(4) mp(2) [symmetric])
  have some: "?add \<noteq> []" "length ?add = length (mapping m)" using m(2) mp(2) by (metis length_0_conv length_map length_sort)+
  have n: "needs_updating m" "table_mutatee_size m = of_nat (length (mapping m))" using m by (simp_all add: unflushed_def)
  show thesis
  proof (rule that [of ?mp])
    show "flush node pad (file_space static) m e =
      and_then (allocateTable pad (file_space static) (m\<lparr>table_used := 0, mapping := ?mp, updated_mappings := []\<rparr>) e) (\<lambda>(m1, e1).
        and_then (write_or_abort (file_space static) (current_table m1 + table_used m1 * 16) (table_bytes (sorted_table (mapping m))) e1) (\<lambda>e2.
          Inr (m1\<lparr>table_used := table_used m1 + of_nat (length (mapping m)), needs_updating := False\<rparr>, e2)))"
      using m(3) n mp(1,2) sort_by_from [OF mp(3)] some tab
      by (simp add: flush_def entry_bytes_8 Let_def case_prod_unfold)
  qed
qed

lemma flush_file:
  assumes m: "unflushed m" "mapping m \<noteq> []" "\<not> blockFlushes m" and pad: "length pad = 4"
    and inv: "be_inv e G budget" and room: "16 * length (mapping m) + 40 \<le> budget"
  defines "img \<equiv> header_bytes pad (of_nat (length (mapping m))) @ table_bytes (sorted_table (mapping m))"
  obtains m' e' a G' budget' sz where "flush node pad (file_space static) m e = Inr (m', e')" "table_header m' = a" "be_inv e' G' budget'"
    "\<And>i. i < length img \<Longrightarrow> memory_of e' (unat a + i) = Some (Some (img ! i))"
    "sysv_dynamic m' = (if static then [] else [(DT_DYNINST, a), (DT_DYNINST, a)])" "lowWaterMark e' = lowWaterMark e" "tracker_tree e' \<noteq> None"
    "a \<in> dom G'" "layout (trackers e') a = Some sz" "length img \<le> unat sz"
proof -
  let ?n = "length (mapping m)"
  obtain mp where f: "flush node pad (file_space static) m e =
    and_then (allocateTable pad (file_space static) (m\<lparr>table_used := 0, mapping := mp, updated_mappings := []\<rparr>) e) (\<lambda>(m1, e1).
      and_then (write_or_abort (file_space static) (current_table m1 + table_used m1 * 16) (table_bytes (sorted_table (mapping m))) e1) (\<lambda>e2.
        Inr (m1\<lparr>table_used := table_used m1 + of_nat ?n, needs_updating := False\<rparr>, e2)))"
    by (rule flush_arranged [OF m])
  let ?m = "m\<lparr>table_used := 0, mapping := mp, updated_mappings := []\<rparr>"
  have u: "table_mutatee_size ?m = of_nat ?n" "current_table ?m = 0" "sysv_dynamic ?m = []" using m(1) by (simp_all add: unflushed_def)
  obtain a e1 G1 b1 sz where a: "allocateTable pad (file_space static) ?m e = Inr (?m\<lparr>table_allocated := of_nat ?n, table_header := a, current_table := a + 32,
       sysv_dynamic := (if static then [] else [(DT_DYNINST, a), (DT_DYNINST, a)])\<rparr>, e1)"
    "be_inv e1 G1 b1" "layout (trackers e1) a = Some sz" "32 + 16 * ?n \<le> unat sz" "unat (a + 32) = unat a + 32"
    "lowWaterMark e1 = lowWaterMark e" "\<And>i. i < 32 \<Longrightarrow> memory_of e1 (unat a + i) = Some (Some (header_bytes pad (of_nat ?n) ! i))"
      "a \<in> dom G1"
    by (rule allocateTable_file [where static = static, OF u pad inv room]) (rule that)
  have len: "length (sorted_table (mapping m)) = ?n" using m(1) sorted_table_props(3) by (simp add: unflushed_def)
  obtain e2 where w: "write_or_abort (file_space static) (a + 32) (table_bytes (sorted_table (mapping m))) e1 = Inr e2" "be_inv e2 G1 b1"
      "memory_of e2 = overlay (memory_of e1) (unat a + 32) (table_bytes (sorted_table (mapping m)))" "lowWaterMark e2 = lowWaterMark e1"
      "tracker_tree e2 \<noteq> None" "layout (trackers e2) = layout (trackers e1)"
  proof (rule write_or_abort_file [OF a(2,3), of "a + 32" "table_bytes (sorted_table (mapping m))" static])
    show "unat a \<le> unat (a + 32)" "unat (a + 32) + length (table_bytes (sorted_table (mapping m))) \<le> unat a + unat sz" using a(4,5) len by simp_all
  qed (use that a(5) in simp)
  have "memory_of e2 (unat a + i) = Some (Some (img ! i))" if "i < length img" for i
    using that w(3) a(7) [of i] length_header_bytes [OF pad, of "of_nat ?n"] by (auto simp: img_def overlay_def nth_append)
  moreover have "length img \<le> unat sz" using a(4) len length_header_bytes [OF pad] by (simp add: img_def)
  ultimately show thesis using that [of _ e2 a G1 b1 sz] f a(1,3,6,8) w by simp
qed

subsection \<open>What the run-time library reads\<close>

text \<open>A \<^verbatim>\<open>trap_mapping_header\<close> and the entries behind it, from the bytes at its address.\<close>

definition read_header :: "u8 list \<Rightarrow> trap_mapping_header" where
  "read_header bs =
     (let field = (\<lambda>off n. bytes_val (take n (drop off bs)))
      in \<lparr>signature = of_nat (field 0 4), num_entries = of_nat (field 4 4), header_pos = sint (of_nat (field 8 4) :: u32),
          low_entry = of_nat (field 16 8), high_entry = of_nat (field 24 8),
          traps = map (\<lambda>i. (of_nat (field (32 + 16 * i) 8), of_nat (field (40 + 16 * i) 8))) [0..<field 4 4]\<rparr>)"

lemma bytes_val_u64: "bytes_val (word_bytes 8 (unat (x :: u64))) = unat x"
  by (rule bytes_val_word_bytes) (use unat_u64_less [of x] in simp)

lemma table_bytes_nth:
  assumes "i < length tab"
  shows "take 8 (drop (16 * i) (table_bytes tab)) = word_bytes 8 (unat (fst (tab ! i)))"
    "take 8 (drop (8 + 16 * i) (table_bytes tab)) = word_bytes 8 (unat (snd (tab ! i)))"
  using assms
proof (induction tab arbitrary: i)
  case (Cons x tab)
  have c: "table_bytes (x # tab) = word_bytes 8 (unat (fst x)) @ word_bytes 8 (unat (snd x)) @ table_bytes tab"
    by (simp add: table_bytes_def case_prod_unfold)
  case 1
  then show ?case using Cons.IH(1) by (cases i) (simp_all add: c)
  case 2
  then show ?case using Cons.IH(2) by (cases i) (simp_all add: c)
qed simp_all

lemma read_header_image:
  assumes pad: "length pad = 4" and n: "length tab < 2 ^ 31" and bs: "bs = header_bytes pad (of_nat (length tab)) @ table_bytes tab @ rest"
  shows "read_header bs = \<lparr>signature = TRAP_HEADER_SIG, num_entries = of_nat (length tab), header_pos = - 1, low_entry = 0, high_entry = 0, traps = tab\<rparr>"
proof -
  let ?f = "\<lambda>off n. bytes_val (take n (drop off bs))"
  have u: "unat (of_nat (length tab) :: u64) = length tab" using n by (simp add: unat_of_nat)
  have h: "take 4 (drop 0 bs) = word_bytes 4 (unat TRAP_HEADER_SIG)" "take 4 (drop 4 bs) = word_bytes 4 (length tab)"
    "take 4 (drop 8 bs) = word_bytes 4 (unat (- 1 :: u32))" "take 8 (drop 16 bs) = word_bytes 8 0" "take 8 (drop 24 bs) = word_bytes 8 0"
    using pad u unfolding bs header_bytes_def by (simp_all del: word_bytes.simps)
  have num: "?f 4 4 = length tab" unfolding h(2) using n by (intro bytes_val_word_bytes) simp
  have d: "drop (32 + k) bs = drop k (table_bytes tab @ rest)" for k
    unfolding bs using length_header_bytes [OF pad, of "of_nat (length tab)"] by simp
  have "(of_nat (?f (32 + 16 * i) 8), of_nat (?f (40 + 16 * i) 8)) = tab ! i" if i: "i < length tab" for i
  proof -
    have "40 + 16 * i = 32 + (8 + 16 * i)" by simp
    then have "take 8 (drop (32 + 16 * i) bs) = take 8 (drop (16 * i) (table_bytes tab))"
        "take 8 (drop (40 + 16 * i) bs) = take 8 (drop (8 + 16 * i) (table_bytes tab))"
      using i unfolding d by (simp_all only: d) (simp_all)
    then show ?thesis using table_bytes_nth [OF i] bytes_val_u64 by (simp add: prod_eq_iff)
  qed
  then have "map (\<lambda>i. (of_nat (?f (32 + 16 * i) 8), of_nat (?f (40 + 16 * i) 8))) [0..<?f 4 4] = tab"
    unfolding num by (intro nth_equalityI) simp_all
  moreover have "bytes_val (word_bytes 4 (unat (- 1 :: u32))) = unat (- 1 :: u32)" by (rule bytes_val_word_bytes) (use unat_u32_less [of "- 1"] in simp)
  ultimately show ?thesis using num h by (simp add: read_header_def Let_def bytes_val_word_bytes)
qed

subsection \<open>From the mapping to the handler\<close>

text \<open>The file as the loader maps it: the new section, with any bytes where nothing was written, at the load address of the file.\<close>

definition mapped_section :: "u8 option list \<Rightarrow> u8 list \<Rightarrow> bool" where
  "mapped_section sec img \<longleftrightarrow> length img = length sec \<and> (\<forall>i < length sec. \<forall>b. sec ! i = Some b \<longrightarrow> img ! i = b)"

lemma mapped_part:
  assumes "mapped_section sec img" "take (length bytes) (drop k sec) = map Some bytes"
  shows "\<exists>rest. drop k img = bytes @ rest"
proof -
  have len: "length bytes \<le> length sec - k" using arg_cong [OF assms(2), of length] by simp
  have "take (length bytes) (drop k img) = bytes"
  proof (rule nth_equalityI)
    show "length (take (length bytes) (drop k img)) = length bytes" using len assms(1) by (simp add: mapped_section_def)
    fix i
    assume "i < length (take (length bytes) (drop k img))"
    then have i: "i < length bytes" "k + i < length sec" using len assms(1) by (auto simp: mapped_section_def)
    then have "sec ! (k + i) = Some (bytes ! i)" using arg_cong [OF assms(2), of "\<lambda>xs. xs ! i"] by simp
    then show "take (length bytes) (drop k img) ! i = bytes ! i" using assms(1) i by (simp add: mapped_section_def)
  qed
  then show ?thesis by (metis append_take_drop_id)
qed

text \<open>The dynamic section of the new file: what it had, then what \<^verbatim>\<open>flush\<close> added.\<close>

lemma dyninst_entry_found: "\<forall>d \<in> set pre. fst d \<noteq> DT_NULL \<and> fst d \<noteq> DT_DYNINST \<Longrightarrow> dyninst_entry (pre @ (DT_DYNINST, a) # ds) = Inr (Some a)"
  by (induction pre) auto

definition rewritten_map :: "u64 \<Rightarrow> (u64 \<times> u64) list \<Rightarrow> trampTrapMappings \<Rightarrow> link_map" where
  "rewritten_map base pre m = \<lparr>l_addr = base, l_ld = Some (pre @ sysv_dynamic m @ [(DT_NULL, 0)])\<rparr>"

lemma good_header_table:
  assumes tab: "sorted_wrt (<) (map fst tab)" "tab \<noteq> []" "length tab < 2 ^ 31" "\<forall>(k, t) \<in> set tab. k \<noteq> 0 \<and> unat k + unat base < 2 ^ 64"
    and h: "h = \<lparr>signature = TRAP_HEADER_SIG, num_entries = of_nat (length tab), header_pos = - 1, low_entry = 0, high_entry = 0, traps = tab\<rparr>" "l_addr l = base"
  shows "good_header l h" "trap_table l h = map (relocate base) tab"
proof -
  show t: "trap_table l h = map (relocate base) tab" unfolding trap_table_relocate h by simp
  have up: "unat (fst x + base) = unat (fst x) + unat base" "fst x + base \<noteq> 0" if "x \<in> set tab" for x
  proof -
    show u: "unat (fst x + base) = unat (fst x) + unat base" using tab(4) that by (subst unat_add_u64) auto
    have "0 < unat (fst x)" using tab(4) that by (auto simp: unat_gt_0)
    then show "fst x + base \<noteq> 0" using u by (auto simp: word_unat_eq_iff)
  qed
  have "sorted_wrt (<) (map fst (map (relocate base) tab))"
    using tab(1) up(1) unfolding sorted_wrt_map relocate_def
    by (elim sorted_wrt_mono_rel [rotated]) (auto simp: case_prod_unfold word_less_nat_alt)
  moreover have "0 \<notin> fst ` set (map (relocate base) tab)" using up(2) by (force simp: relocate_def case_prod_unfold)
  moreover have "unat (of_nat (length tab) :: u32) = length tab" using tab(3) by (simp add: unat_of_nat)
  ultimately show "good_header l h" unfolding good_header_def t using tab(2,3) by (simp add: h)
qed

text \<open>The new file is loaded, beside other files whose tables are in order.\<close>

definition file_loaded :: "trampTrapMappings \<Rightarrow> u64 \<Rightarrow> u8 option list \<Rightarrow> u64 \<Rightarrow> (u64 \<times> u64) list \<Rightarrow> link_map list \<Rightarrow> trap_maps \<Rightarrow> bool" where
  "file_loaded m low sec base pre libs st \<longleftrightarrow>
     (\<exists>img. mapped_section sec img \<and> headers st (table_header m + base) = Some (read_header (drop (unat (table_header m) - unat low) img)))
     \<and> (\<forall>d \<in> set pre. fst d \<noteq> DT_NULL \<and> fst d \<noteq> DT_DYNINST) \<and> rewritten_map base pre m \<in> set libs
     \<and> (\<forall>l \<in> set libs. l = rewritten_map base pre m \<or> lib_ok st l) \<and> distinct (addrs libs)
     \<and> maps_ok st \<and> mutex (trap_mapping_lock st) = 0 \<and> card (taken st) + length libs \<le> NUM_LIBRARIES"

lemma map_of_shift: "map_of (map (\<lambda>(f, t). (f + 1, t)) ts) (k + 1 :: u64) = map_of ts k"
  by (induction ts) auto

definition fresh_header :: "trap_mapping list \<Rightarrow> trap_mapping_header" where
  "fresh_header tab = \<lparr>signature = TRAP_HEADER_SIG, num_entries = of_nat (length tab), header_pos = - 1, low_entry = 0, high_entry = 0, traps = tab\<rparr>"

lemma loaded_traps_redirect:
  assumes tab: "sorted_wrt (<) (map fst tab)" "tab \<noteq> []" "length tab < 2 ^ 31" "\<forall>(k, t) \<in> set tab. k \<noteq> 0 \<and> unat k + unat base < 2 ^ 64"
    and dyn: "sysv_dynamic m = [(DT_DYNINST, table_header m), (DT_DYNINST, table_header m)]"
    and sec: "\<And>img. mapped_section sec img \<Longrightarrow> read_header (drop (unat (table_header m) - unat low) img) = fresh_header tab"
    and loaded: "file_loaded m low sec base pre libs st" and here: "(k, t) \<in> set tab" "only_table libs (table_header m + base) (k + base) st"
  shows "\<exists>st'. dyninstTrapHandler True look me libs (k + base) st = Inr (t + base, st')"
proof -
  let ?l = "rewritten_map base pre m" and ?a = "table_header m + base" and ?h = "fresh_header tab"
  have h: "headers st ?a = Some ?h" using loaded sec by (auto simp: file_loaded_def)
  note g = good_header_table [OF tab fresh_header_def, of ?l]
  have "dyninst_entry (pre @ sysv_dynamic m @ [(DT_NULL, 0)]) = Inr (Some (table_header m))"
    using loaded dyninst_entry_found dyn by (simp add: file_loaded_def)
  then have a: "header_addr ?l = Some ?a" "\<forall>ds. l_ld ?l = Some ds \<longrightarrow> dyninst_entry ds \<noteq> Inl Out_of_bounds"
    by (simp_all add: header_addr_def rewritten_map_def)
  have gl: "good_header ?l ?h" "trap_table ?l ?h = map (relocate base) tab" using g by (simp_all add: rewritten_map_def)
  then have "lib_ok st ?l" using a h by (simp add: lib_ok_def)
  then have libs: "\<forall>l \<in> set libs. lib_ok st l" using loaded by (auto simp: file_loaded_def)
  have "(k + base, t + base) \<in> set (trap_table ?l ?h)" unfolding gl(2) using here(1) by (force simp: relocate_def)
  then show ?thesis
    using trap_handler_leads [OF _ _ _ libs _ _ a(1) h] loaded here(2) by (simp add: file_loaded_def)
qed

text \<open>The table for a sequence of traps, as it is in the section of the file.\<close>

lemma flush_section:
  assumes inv: "be_inv e G left" and room: "16 * length ts + 40 \<le> left" and ts: "ts \<noteq> []" and pad: "length pad = 4"
  obtains m' e' sec tab where "flush node pad (file_space False) (add_traps ts new_mappings) e = Inr (m', e')" "new_section e' = Inr sec"
    "sysv_dynamic m' = [(DT_DYNINST, table_header m'), (DT_DYNINST, table_header m')]"
    "sorted_wrt (<) (map fst tab)" "tab \<noteq> []" "length tab < 2 ^ 31" "\<And>k t. (k + 1, t) \<in> set tab \<longleftrightarrow> map_of (rev ts) k = Some t"
    "\<And>img. mapped_section sec img \<Longrightarrow> read_header (drop (unat (table_header m') - unat (lowWaterMark e')) img) = fresh_header tab"
proof -
  let ?m = "add_traps ts new_mappings"
  have m: "unflushed ?m" "route (mapping ?m) = map_of (rev (map (\<lambda>(f, t). (f + 1, t)) ts))" "\<not> blockFlushes ?m" "length (mapping ?m) \<le> length ts"
    using add_traps_unflushed [OF unflushed_new, of ts] by (auto simp: new_mappings_def route_def fun_eq_iff split: option.splits)
  let ?tab = "sorted_table (mapping ?m)"
  have "all_mutatee (mapping ?m)" using m(1) by (simp add: unflushed_def)
  note tab = sorted_table_props [OF this]
  have traps: "(k + 1, t) \<in> set ?tab \<longleftrightarrow> map_of (rev ts) k = Some t" for k t
    unfolding tab(2) m(2) using map_of_shift [of "rev ts" k] by (simp add: rev_map)
  have "map_of (rev ts) (fst (hd ts)) \<noteq> None" using ts by (simp add: map_of_eq_None_iff)
  then have some: "?tab \<noteq> []" using traps by fastforce
  then have ne: "mapping ?m \<noteq> []" by (auto simp: sorted_table_def)
  let ?img = "header_bytes pad (of_nat (length (mapping ?m))) @ table_bytes ?tab"
  obtain m' e' a G' b' sz where f: "flush node pad (file_space False) ?m e = Inr (m', e')" "table_header m' = a" "be_inv e' G' b'"
    "\<And>i. i < length ?img \<Longrightarrow> memory_of e' (unat a + i) = Some (Some (?img ! i))"
    "sysv_dynamic m' = [(DT_DYNINST, a), (DT_DYNINST, a)]" "tracker_tree e' \<noteq> None" "a \<in> dom G'" "layout (trackers e') a = Some sz"
    "length ?img \<le> unat sz"
  proof (rule flush_file [OF m(1) ne m(3) pad inv, of node False])
    show "16 * length (mapping ?m) + 40 \<le> left" using m(4) room by simp
  qed (rule that, simp_all)
  from held_tracker [OF f(3,7)] obtain mt where mt: "range_map (trackers e') a = Some mt" "alloced mt" by blast
  have "unat (lowWaterMark e') \<le> unat a" "unat a + length ?img \<le> unat (highWaterMark e')"
    using alloced_tracker_place [OF f(3) mt] mt(1) f(8,9) by (simp_all add: layout_def)
  from section_part [OF f(3,6) this f(4)] obtain sec where
    sec: "new_section e' = Inr sec" "take (length ?img) (drop (unat a - unat (lowWaterMark e')) sec) = map Some ?img" by blast
  have len: "length ?tab < 2 ^ 31" using tab(3) m(4) room be_invD(5) [OF inv] by simp
  have "read_header (drop (unat (table_header m') - unat (lowWaterMark e')) img) = fresh_header ?tab" if "mapped_section sec img" for img
    using mapped_part [OF that sec(2)] read_header_image [OF pad len refl] f(2) tab(3) by (auto simp: fresh_header_def)
  then show thesis using that [of m' e' sec ?tab] f(1,2,5) sec(1) tab(1) some len traps by simp
qed

text \<open>C17: Traps of a rewritten file.  After any session of requests for memory, traps are added and the table is written to the file: no assertion
  fails, and the section of the file has a header that the run-time library has not seen before, with the traps sorted by address.  When the file
  is loaded, at whatever address and beside other files, the handler of the run-time library leads each trap to the
  target that was given for it last, moved by the load address.\<close>

theorem rewritten_traps_redirect:
  assumes opened: "editable f" "open_file f = Inr (Some e0)" "memory_session words_of be_step rs e0 Map.empty = Inr (e, G)"
    and room: "sum_list (map be_cost rs) + 16 * length ts + 40 < 2 ^ 31" and ts: "ts \<noteq> []" and pad: "length pad = 4"
  shows "\<exists>m e' sec tab. flush node pad (file_space False) (add_traps ts new_mappings) e = Inr (m, e') \<and> new_section e' = Inr sec
    \<and> sysv_dynamic m = [(DT_DYNINST, table_header m), (DT_DYNINST, table_header m)]
    \<and> sorted_wrt (<) (map fst tab)
    \<and> (\<forall>img. mapped_section sec img \<longrightarrow> read_header (drop (unat (table_header m) - unat (lowWaterMark e')) img) = fresh_header tab)
    \<and> (\<forall>base pre libs st from to look me.
         file_loaded m (lowWaterMark e') sec base pre libs st \<and> map_of (rev ts) from = Some to
         \<and> (\<forall>(k, t) \<in> set ts. unat k + 1 + unat base < 2 ^ 64) \<and> only_table libs (table_header m + base) (from + 1 + base) st
         \<longrightarrow> (\<exists>st'. dyninstTrapHandler True look me libs (from + 1 + base) st = Inr (to + base, st')))"
proof -
  have "be_inv e0 Map.empty (2 ^ 31 - 1)" using open_file_inv [OF opened(1)] opened(2) by auto
  then obtain left where inv: "be_inv e G left" "2 ^ 31 - 1 \<le> left + sum_list (map be_cost rs)"
    using file_memory.session_safe [of e0 Map.empty "2 ^ 31 - 1" "lowWaterMark e0" rs] room opened(3) by auto
  then have "16 * length ts + 40 \<le> left" using room by simp
  then obtain m e' sec tab where f: "flush node pad (file_space False) (add_traps ts new_mappings) e = Inr (m, e')" "new_section e' = Inr sec"
    "sysv_dynamic m = [(DT_DYNINST, table_header m), (DT_DYNINST, table_header m)]"
    "sorted_wrt (<) (map fst tab)" "tab \<noteq> []" "length tab < 2 ^ 31" "\<And>k t. (k + 1, t) \<in> set tab \<longleftrightarrow> map_of (rev ts) k = Some t"
    "\<And>img. mapped_section sec img \<Longrightarrow> read_header (drop (unat (table_header m) - unat (lowWaterMark e')) img) = fresh_header tab"
    using flush_section [OF inv(1) _ ts pad, of node] by metis
  have keys: "j \<noteq> 0 \<and> unat j + unat base < 2 ^ 64" if "(j, u) \<in> set tab" "\<forall>(k, t) \<in> set ts. unat k + 1 + unat base < 2 ^ 64" for j u base
  proof -
    have "map_of (rev ts) (j - 1) = Some u" using f(7) [of "j - 1" u] that(1) by simp
    then have "unat (j - 1) + 1 + unat base < 2 ^ 64" using that(2) by (auto dest!: map_of_SomeD)
    moreover from this have "unat j = unat (j - 1) + 1" using unat_add_u64 [of "j - 1" 1] by simp
    ultimately show ?thesis by (auto simp: word_unat_eq_iff)
  qed
  have "\<exists>st'. dyninstTrapHandler True look me libs (k + 1 + base) st = Inr (t + base, st')"
    if "file_loaded m (lowWaterMark e') sec base pre libs st \<and> map_of (rev ts) k = Some t
      \<and> (\<forall>(k, t) \<in> set ts. unat k + 1 + unat base < 2 ^ 64) \<and> only_table libs (table_header m + base) (k + 1 + base) st" for base pre libs st k t look me
    using loaded_traps_redirect [OF f(4,5,6) _ f(3,8)] keys f(7) that by fastforce
  then show ?thesis using f(1,2,3,4,8) by blast
qed

theorem rewritten_traps_redirect_witness:
  "\<exists>e0 m e' sec tab st'. editable small_file \<and> open_file small_file = Inr (Some e0)
    \<and> flush (\<lambda>_. 0) [0, 0, 0, 0] (file_space False) (add_traps [(0x400000, 0x600100)] new_mappings) e0 = Inr (m, e') \<and> new_section e' = Inr sec
    \<and> file_loaded m (lowWaterMark e') sec 0 [] [rewritten_map 0 [] m] (fresh_maps [table_header m \<mapsto> fresh_header tab])
    \<and> dyninstTrapHandler True (\<lambda>_. static_view (fresh_header tab)) 7 [rewritten_map 0 [] m] 0x400001 (fresh_maps [table_header m \<mapsto> fresh_header tab]) = Inr (0x600100, st')"
proof -
  obtain e0 where e0: "open_file small_file = Inr (Some e0)" using open_file_inv [OF small_file_editable] by blast
  have run: "memory_session words_of be_step [] e0 Map.empty = Inr (e0, Map.empty)" by simp
  have small: "sum_list (map be_cost []) + 16 * length [(0x400000 :: u64, 0x600100 :: u64)] + 40 < 2 ^ 31" by simp
  obtain m e' sec tab where f: "flush (\<lambda>_. 0) [0, 0, 0, 0] (file_space False) (add_traps [(0x400000, 0x600100)] new_mappings) e0 = Inr (m, e')"
    "new_section e' = Inr sec" "sysv_dynamic m = [(DT_DYNINST, table_header m), (DT_DYNINST, table_header m)]"
    "\<forall>img. mapped_section sec img \<longrightarrow> read_header (drop (unat (table_header m) - unat (lowWaterMark e')) img) = fresh_header tab"
    "\<And>libs st look me. file_loaded m (lowWaterMark e') sec 0 [] libs st \<Longrightarrow> only_table libs (table_header m) 0x400001 st
       \<Longrightarrow> \<exists>st'. dyninstTrapHandler True look me libs 0x400001 st = Inr (0x600100, st')"
    using rewritten_traps_redirect [OF small_file_editable e0 run small, of "[0, 0, 0, 0]" "\<lambda>_. 0"] by fastforce
  let ?l = "rewritten_map 0 [] m" and ?st = "fresh_maps [table_header m \<mapsto> fresh_header tab]"
  let ?img = "map (\<lambda>b. case b of Some x \<Rightarrow> x | None \<Rightarrow> 0) sec"
  have l: "header_addr ?l = Some (table_header m)" using f(3) by (simp add: header_addr_def rewritten_map_def)
  have "mapped_section sec ?img" by (simp add: mapped_section_def)
  moreover have "header_pos h = - 1" if "[table_header m \<mapsto> fresh_header tab] a = Some h" for a h
    using that by (auto simp: fresh_header_def split: if_splits)
  then have "maps_ok ?st" "taken ?st = {}" using fresh_maps_ok by blast+
  moreover have "headers ?st (table_header m) = Some (fresh_header tab)" "mutex (trap_mapping_lock ?st) = 0" by (simp_all add: fresh_maps_def)
  ultimately have loaded: "file_loaded m (lowWaterMark e') sec 0 [] [?l] ?st" using f(4) l by (auto simp: file_loaded_def)
  have "only_table [?l] (table_header m) 0x400001 ?st" using l by (simp add: only_table_def)
  then show ?thesis using f(1,2) f(5) [OF loaded] loaded e0 small_file_editable by blast
qed

subsection \<open>Where the table goes wrong\<close>

text \<open>The number of entries is counted when an address is first mapped for the mutatee.  An address that was mapped for the mutator
  first is missing in it, and \<^verbatim>\<open>flush\<close> aborts.\<close>

lemma remapped_trap_aborts:
  "flush node pad (file_space static) (addTrapMapping 16 32 True (addTrapMapping 16 32 False new_mappings)) e = Inl Aborted"
  by (simp add: flush_def addTrapMapping_def new_mappings_def arrange_all_def arrange_mapping_def Let_def)

text \<open>A forked process gets the mappings of its parent but not the list of those that still have to be written.\<close>

lemma copied_mappings_abort:
  assumes "is_process A" "needs_updating m" "\<not> blockFlushes child" "table_mutatee_size m \<le> table_allocated m" "updated_mappings child = []"
    "table_used m \<noteq> table_mutatee_size m"
  shows "flush node pad A (copyTrapMappings m child) s = Inl Aborted"
  using assms by (simp add: flush_def copyTrapMappings_def arrange_all_def Let_def not_less [symmetric])

text \<open>Clearing the mappings frees their nodes but keeps the pointers to them.\<close>

lemma cleared_mappings_dangle:
  assumes "is_process A" "updated_mappings m \<noteq> []" "\<forall>p \<in> set (updated_mappings m). fst p \<le> cleared m" "\<not> blockFlushes m"
  shows "flush node pad A (addTrapMapping from to False (clearTrapMappings m)) s = Inl Out_of_bounds"
proof -
  obtain p where p: "p \<in> set (updated_mappings m)" "fst p \<noteq> Suc (cleared m)" using assms(2,3) by (metis Suc_n_not_le_n last_in_set)
  then have "\<exists>p \<in> set (List.insert (Suc (cleared m), from + 1) (updated_mappings m)). fst p \<noteq> Suc (cleared m)" by auto
  then show ?thesis using assms by (simp add: flush_def addTrapMapping_def clearTrapMappings_def arrange_all_def Let_def)
qed

text \<open>The table of a file is written once: a trap that is added later makes the next \<^verbatim>\<open>flush\<close> abort.\<close>

lemma second_flush_aborts:
  assumes "current_table m \<noteq> 0" "\<not> blockFlushes m"
  shows "flush node pad (file_space static) (addTrapMapping from to True m) e = Inl Aborted"
  using assms by (auto simp: flush_def allocateTable_def arrange_all_def addTrapMapping_def Let_def split: prod.split)

end
