(* ===== verification/RT_Thread.thy ===== *)
theory RT_Thread
  imports RT_Lock
begin

section \<open>dyninstAPI_RT/RTthread.c: from thread ids to indices\<close>

text \<open>
  The inserted code keeps data per thread, in arrays; \<^verbatim>\<open>DYNINSTthreadIndex\<close> translates the id of the calling
  thread into its index there.  The translation is a hash table in two parallel arrays of \<open>hash_size\<close>
  elements: an empty slot has the index \<open>IDX_NONE\<close>, whatever its thread id.  \<open>me\<close> is what
  \<^verbatim>\<open>dyn_pthread_self\<close> returns, and \<open>malloc\<close> gives the block of that many words, with what happens to
  be in it, or nothing.
\<close>

abbreviation (input) MAX_THREADS :: u32 where "MAX_THREADS \<equiv> 32"
abbreviation (input) THREADS_HASH_SIZE :: u32 where "THREADS_HASH_SIZE \<equiv> 40"
abbreviation (input) IDX_NONE :: u64 where "IDX_NONE \<equiv> - 1"
abbreviation (input) DYNINST_NOT_IN_HASHTABLE :: u32 where "DYNINST_NOT_IN_HASHTABLE \<equiv> - 1"
abbreviation (input) DYNINST_SINGLETHREADED :: dyntid where "DYNINST_SINGLETHREADED \<equiv> - 128"

record rt_threads =
  max_num_threads :: u32
  hash_tids :: "dyntid list"
  hash_indices :: "u64 list"
  hash_size :: u32
  index_lock :: tc_lock
  num_free :: u32
  init_index_done :: bool

definition rt_threads_start :: "u32 \<Rightarrow> rt_threads" where
  "rt_threads_start n = \<lparr>max_num_threads = n, hash_tids = [], hash_indices = [], hash_size = 0,
     index_lock = DECLARE_TC_LOCK, num_free = 0, init_index_done = False\<rparr>"

definition DYNINSTthreadCount :: "rt_threads \<Rightarrow> u32" where
  "DYNINSTthreadCount t = max_num_threads t - num_free t"

text \<open>\<^verbatim>\<open>(int)(n * 1.25)\<close>: exact in double precision; the conversion has no value beyond the range of \<^verbatim>\<open>int\<close>.\<close>

definition hash_size_for :: "u32 \<Rightarrow> fault + u32" where
  "hash_size_for n = (let s = unat n * 5 div 4 in if s < 2 ^ 31 then Inr (of_nat s) else Inl Indeterminate_value)"

definition hash_arrays :: "(nat \<Rightarrow> u64 list option) \<Rightarrow> (nat \<Rightarrow> u64 list option) \<Rightarrow> rt_threads \<Rightarrow> fault + rt_threads" where
  "hash_arrays malloc_indices malloc_tids t =
     (if max_num_threads t = MAX_THREADS
      then Inr (t\<lparr>hash_size := THREADS_HASH_SIZE, hash_indices := replicate 40 0, hash_tids := replicate 40 0\<rparr>)
      else and_then (hash_size_for (max_num_threads t)) (\<lambda>s.
        case (malloc_indices (unat s), malloc_tids (unat s)) of
          (Some is, Some ts) \<Rightarrow> Inr (t\<lparr>hash_size := s, hash_indices := is, hash_tids := ts\<rparr>)
        | _ \<Rightarrow> Inl Aborted))"

definition DYNINST_initialize_index_list ::
  "(nat \<Rightarrow> u64 list option) \<Rightarrow> (nat \<Rightarrow> u64 list option) \<Rightarrow> rt_threads \<Rightarrow> fault + rt_threads" where
  "DYNINST_initialize_index_list malloc_indices malloc_tids t =
     (if init_index_done t then Inr t
      else let t1 = t\<lparr>init_index_done := True\<rparr>;
               t2 = (if max_num_threads t1 = 0 then t1\<lparr>max_num_threads := MAX_THREADS\<rparr> else t1)
           in and_then (hash_arrays malloc_indices malloc_tids t2) (\<lambda>t3.
                Inr (t3\<lparr>hash_indices := map (\<lambda>_. IDX_NONE) (hash_indices t3), num_free := max_num_threads t3\<rparr>)))"

text \<open>The probing loop: from slot \<open>orig\<close> round the table until a slot satisfies the condition or the
  start is reached again.\<close>

partial_function (option) hash_probe :: "(u32 \<Rightarrow> bool) \<Rightarrow> u32 \<Rightarrow> u32 \<Rightarrow> u32 \<Rightarrow> u32 option option" where
  "hash_probe hit n orig hash_id =
     (if hit hash_id then Some (Some hash_id)
      else let next = (if hash_id + 1 = n then 0 else hash_id + 1)
           in if orig = next then Some None else hash_probe hit n orig next)"

abbreviation (input) with_index_lock where "with_index_lock \<equiv> with_lock index_lock index_lock_update"

text \<open>The condition of the lookup reads the index as an \<^verbatim>\<open>int\<close>.\<close>

definition DYNINSTthreadIndexSLOW :: "dyntid \<Rightarrow> dyntid \<Rightarrow> rt_threads \<Rightarrow> fault + u32 \<times> rt_threads" where
  "DYNINSTthreadIndexSLOW me tid =
     (\<lambda>t. with_index_lock me (max_num_threads t) (\<lambda>t.
        if hash_size t = 0 then Inr (max_num_threads t, t)
        else let orig = ucast (tid mod ucast (hash_size t));
                 hit = (\<lambda>h. (ucast (hash_indices t ! unat h) :: u32) \<noteq> - 1 \<and> hash_tids t ! unat h = tid)
             in and_then (or_endless (hash_probe hit (hash_size t) orig orig)) (\<lambda>found.
                  Inr (case found of Some h \<Rightarrow> ucast (hash_indices t ! unat h) | None \<Rightarrow> DYNINST_NOT_IN_HASHTABLE, t))) t)"

definition store_thread :: "u32 \<Rightarrow> dyntid \<Rightarrow> u32 \<Rightarrow> rt_threads \<Rightarrow> rt_threads" where
  "store_thread h tid index t =
     t\<lparr>hash_indices := (hash_indices t)[unat h := ucast index], hash_tids := (hash_tids t)[unat h := tid],
       num_free := num_free t - 1\<rparr>"

definition DYNINSTregisterThread :: "dyntid \<Rightarrow> dyntid \<Rightarrow> u32 \<Rightarrow> rt_threads \<Rightarrow> fault + u64 \<times> rt_threads" where
  "DYNINSTregisterThread me tid index t =
     (if me = 0 then Inl Aborted
      else with_index_lock me 0 (\<lambda>t.
        if hash_size t = 0 then Inl Division_by_zero
        else let orig = ucast (me mod ucast (hash_size t));
                 free = (\<lambda>h. hash_indices t ! unat h = IDX_NONE)
             in and_then (or_endless (hash_probe free (hash_size t) orig orig)) (\<lambda>found.
                  Inr (case found of Some h \<Rightarrow> (me, store_thread h tid index t) | None \<Rightarrow> (0, t)))) t)"

text \<open>The id is cut to 32 bits before it is hashed, and the loop does not ask whether a slot is empty.\<close>

definition DYNINSTunregisterThread :: "dyntid \<Rightarrow> dyntid \<Rightarrow> rt_threads \<Rightarrow> fault + int \<times> rt_threads" where
  "DYNINSTunregisterThread me tid =
     with_index_lock me 0 (\<lambda>t.
        if hash_size t = 0 then Inl Division_by_zero
        else let orig = (ucast tid :: u32) mod hash_size t;
                 hit = (\<lambda>h. hash_tids t ! unat h = tid)
             in and_then (or_endless (hash_probe hit (hash_size t) orig orig)) (\<lambda>found.
                  Inr (case found of
                         Some h \<Rightarrow> (1, t\<lparr>hash_indices := (hash_indices t)[unat h := IDX_NONE], num_free := num_free t + 1\<rparr>)
                       | None \<Rightarrow> (0, t))))"

definition DYNINSTthreadIndex :: "bool \<Rightarrow> dyntid \<Rightarrow> rt_threads \<Rightarrow> fault + u32 \<times> rt_threads" where
  "DYNINSTthreadIndex hasInitialized me t =
     (if \<not> hasInitialized then Inr (0, t)
      else if me = DYNINST_SINGLETHREADED then Inr (0, t)
      else and_then (DYNINSTthreadIndexSLOW me me t) (\<lambda>(i, t').
             Inr (if i = DYNINST_NOT_IN_HASHTABLE then max_num_threads t' else i, t')))"

definition dyninst_threadIndex :: "bool \<Rightarrow> dyntid \<Rightarrow> rt_threads \<Rightarrow> fault + u32 \<times> rt_threads" where
  "dyninst_threadIndex hasInitialized me t = DYNINSTthreadIndex hasInitialized me t"

subsection \<open>The probing loop\<close>

text \<open>The slots still to be visited, in order.\<close>

definition slots_left :: "nat \<Rightarrow> nat \<Rightarrow> nat \<Rightarrow> nat list" where
  "slots_left n orig h = (if orig \<le> h then [h..<n] @ [0..<orig] else [h..<orig])"

lemma set_slots_left: "orig < n \<Longrightarrow> set (slots_left n orig orig) = {..<n}"
  by (auto simp: slots_left_def)

lemma slots_left_step:
  assumes "h < n" "orig < n"
  shows "slots_left n orig h = h # (let next = (if Suc h = n then 0 else Suc h) in if orig = next then [] else slots_left n orig next)"
  using assms by (auto simp: slots_left_def upt_conv_Cons Let_def)

lemma hash_probe_find:
  assumes "unat orig < unat n" "unat h < unat n"
  shows "hash_probe hit n orig h = Some (map_option of_nat (find (\<lambda>i. hit (of_nat i)) (slots_left (unat n) (unat orig) (unat h))))"
  using assms
proof (induction "length (slots_left (unat n) (unat orig) (unat h))" arbitrary: h rule: less_induct)
  case less
  let ?next = "if h + 1 = n then 0 else h + 1"
  have S: "unat (h + 1) = Suc (unat h)" using unat_Suc_u32 less.prems(2) .
  then have nx: "unat ?next = (if Suc (unat h) = unat n then 0 else Suc (unat h))" by (auto simp: word_unat_eq_iff)
  then have lt: "unat ?next < unat n" using less.prems S by (auto split: if_splits)
  have L: "slots_left (unat n) (unat orig) (unat h)
      = unat h # (if orig = ?next then [] else slots_left (unat n) (unat orig) (unat ?next))"
    using slots_left_step [of "unat h" "unat n" "unat orig"] less.prems nx by (auto simp: Let_def word_unat_eq_iff)
  show ?case
  proof (cases "hit h \<or> orig = ?next")
    case True
    then show ?thesis unfolding L by (subst hash_probe.simps) (auto simp: Let_def)
  next
    case False
    then have "hash_probe hit n orig ?next
        = Some (map_option of_nat (find (\<lambda>i. hit (of_nat i)) (slots_left (unat n) (unat orig) (unat ?next))))"
      using less.hyps [of ?next] less.prems lt L by simp
    then show ?thesis using False unfolding L by (subst hash_probe.simps) (simp add: Let_def)
  qed
qed

text \<open>From the first slot on: a slot with the property if there is one, and nothing otherwise.\<close>

lemma hash_probe_cases:
  assumes "unat orig < unat n"
  obtains h where "hash_probe hit n orig orig = Some (Some h)" "unat h < unat n" "hit h"
  | "hash_probe hit n orig orig = Some None" "\<forall>h. unat h < unat n \<longrightarrow> \<not> hit h"
proof (cases "find (\<lambda>i. hit (of_nat i)) (slots_left (unat n) (unat orig) (unat orig))")
  case None
  have "\<not> hit h" if "unat h < unat n" for h
    using None that set_slots_left [OF assms] by (auto simp: find_None_iff)
  then show ?thesis using that(2) None hash_probe_find [OF assms assms, of hit] by simp
next
  case (Some i)
  then have "hit (of_nat i)" "i < unat n"
    using set_slots_left [OF assms] by (auto simp: find_Some_iff dest!: nth_mem)
  moreover have "unat (of_nat i :: u32) = i" using unat_of_nat_u32 \<open>i < unat n\<close> .
  ultimately show ?thesis using that(1) [of "of_nat i"] Some hash_probe_find [OF assms assms, of hit] by simp
qed

subsection \<open>The table as a map\<close>

definition slot_live :: "rt_threads \<Rightarrow> nat \<Rightarrow> bool" where
  "slot_live t h \<longleftrightarrow> (ucast (hash_indices t ! h) :: u32) \<noteq> - 1"

definition index_map :: "rt_threads \<Rightarrow> dyntid \<rightharpoonup> u32" where
  "index_map t tid = map_option (\<lambda>h. ucast (hash_indices t ! h))
     (find (\<lambda>h. slot_live t h \<and> hash_tids t ! h = tid) [0..<unat (hash_size t)])"

definition registered :: "rt_threads \<Rightarrow> nat" where
  "registered t = length (filter (\<lambda>i. (ucast i :: u32) \<noteq> - 1) (hash_indices t))"

definition table_ok :: "rt_threads \<Rightarrow> bool" where
  "table_ok t \<longleftrightarrow> lock_free (index_lock t) \<and> hash_size t \<noteq> 0
     \<and> length (hash_indices t) = unat (hash_size t) \<and> length (hash_tids t) = unat (hash_size t)
     \<and> (\<forall>i \<in> set (hash_indices t). i = IDX_NONE \<or> (\<exists>k :: u32. k \<noteq> - 1 \<and> i = ucast k))
     \<and> (\<forall>h < unat (hash_size t). \<forall>k < unat (hash_size t).
          slot_live t h \<and> slot_live t k \<and> hash_tids t ! h = hash_tids t ! k \<longrightarrow> h = k)
     \<and> DYNINSTthreadCount t = of_nat (registered t)"

abbreviation (input) idle :: "rt_threads \<Rightarrow> rt_threads" where
  "idle t \<equiv> t\<lparr>index_lock := \<lparr>mutex = 0, holder = DYNINST_INITIAL_LOCK_PID\<rparr>\<rparr>"

lemma tc_lock_unlock_eq: "tc_lock_unlock = (\<lambda>_. \<lparr>mutex = 0, holder = DYNINST_INITIAL_LOCK_PID\<rparr>)"
proof
  fix l
  show "tc_lock_unlock l = \<lparr>mutex = 0, holder = DYNINST_INITIAL_LOCK_PID\<rparr>"
    by (cases l) (simp add: tc_lock_unlock_def unlock_writes_def)
qed

lemma ucast_IDX_NONE [simp]: "(ucast (- 1 :: u64) :: u32) = - 1"
  by (rule bit_word_eqI) (simp add: bit_simps)

lemma ucast_index [simp]: "(ucast (ucast (k :: u32) :: u64) :: u32) = k"
  by (rule bit_word_eqI) (simp add: bit_simps)

lemma slot_live_iff: "table_ok t \<Longrightarrow> h < unat (hash_size t) \<Longrightarrow> slot_live t h \<longleftrightarrow> hash_indices t ! h \<noteq> IDX_NONE"
  using nth_mem [of h "hash_indices t"] unfolding table_ok_def slot_live_def by force

lemma slot_live_unique:
  "table_ok t \<Longrightarrow> h < unat (hash_size t) \<Longrightarrow> k < unat (hash_size t) \<Longrightarrow> slot_live t h \<Longrightarrow> slot_live t k
    \<Longrightarrow> hash_tids t ! h = hash_tids t ! k \<Longrightarrow> h = k"
  unfolding table_ok_def by blast

lemma index_map_live:
  assumes "table_ok t" "h < unat (hash_size t)" "slot_live t h"
  shows "index_map t (hash_tids t ! h) = Some (ucast (hash_indices t ! h))"
proof (cases "find (\<lambda>k. slot_live t k \<and> hash_tids t ! k = hash_tids t ! h) [0..<unat (hash_size t)]")
  case None
  then show ?thesis using assms by (auto simp: find_None_iff)
next
  case (Some k)
  then have "k < unat (hash_size t)" "slot_live t k" "hash_tids t ! k = hash_tids t ! h" by (auto simp: find_Some_iff)
  then have "k = h" using slot_live_unique assms by blast
  then show ?thesis using Some by (simp add: index_map_def)
qed

lemma index_map_None:
  "index_map t tid = None \<longleftrightarrow> (\<forall>h < unat (hash_size t). slot_live t h \<longrightarrow> hash_tids t ! h \<noteq> tid)"
  by (auto simp: index_map_def find_None_iff)

lemma index_map_SomeE:
  assumes "index_map t tid = Some i"
  obtains h where "h < unat (hash_size t)" "slot_live t h" "hash_tids t ! h = tid" "i = ucast (hash_indices t ! h)"
  using assms by (auto simp: index_map_def find_Some_iff)

text \<open>The first slot of a search is in the table.\<close>

lemma hash_in_table: "n \<noteq> 0 \<Longrightarrow> unat (ucast ((tid :: u64) mod ucast (n :: u32)) :: u32) < unat n"
proof -
  assume "n \<noteq> 0"
  then have "unat (tid mod ucast n) < unat n" by (simp add: unat_mod_distrib unat_gt_0)
  then show ?thesis using unat_u32_less [of n] by (simp add: unsigned_ucast_eq take_bit_nat_eq_self)
qed

lemma hash32_in_table: "n \<noteq> 0 \<Longrightarrow> unat ((tid :: u32) mod n) < unat n"
  by (simp add: unat_mod_distrib unat_gt_0)

subsection \<open>What the operations do to the map\<close>

lemma with_index_lock_ok:
  assumes "table_ok t" "thread_id me"
  shows "with_index_lock me dead body t
    = and_then (body (t\<lparr>index_lock := (index_lock t)\<lparr>mutex := 1, holder := me\<rparr>\<rparr>)) (\<lambda>(r, t'). Inr (r, idle t'))"
  using assms by (simp add: with_lock_free table_ok_def tc_lock_unlock_eq)

lemma threadIndexSLOW_map:
  assumes "table_ok t" "thread_id me"
  shows "DYNINSTthreadIndexSLOW me tid t
    = Inr (case index_map t tid of Some i \<Rightarrow> i | None \<Rightarrow> DYNINST_NOT_IN_HASHTABLE, idle t)"
proof -
  let ?hit = "\<lambda>h :: u32. (ucast (hash_indices t ! unat h) :: u32) \<noteq> - 1 \<and> hash_tids t ! unat h = tid"
  have n: "hash_size t \<noteq> 0" using assms by (simp add: table_ok_def)
  from hash_in_table [OF n, of tid] show ?thesis
  proof (cases rule: hash_probe_cases [where hit = ?hit])
    case (1 h)
    then have "index_map t tid = Some (ucast (hash_indices t ! unat h))"
      using index_map_live [OF assms(1), of "unat h"] by (auto simp: slot_live_def)
    then show ?thesis using 1 n assms by (simp add: DYNINSTthreadIndexSLOW_def with_index_lock_ok Let_def)
  next
    case 2
    have "hash_tids t ! h \<noteq> tid" if "h < unat (hash_size t)" "slot_live t h" for h
      using 2(2) that unat_of_nat_u32 [OF that(1)] by (metis slot_live_def)
    then have "index_map t tid = None" by (simp add: index_map_None)
    then show ?thesis using 2(1) n assms by (simp add: DYNINSTthreadIndexSLOW_def with_index_lock_ok Let_def)
  qed
qed

lemma table_ok_idle [simp]: "table_ok t \<Longrightarrow> table_ok (idle t)"
  by (simp add: table_ok_def slot_live_def registered_def DYNINSTthreadCount_def lock_free_def)

lemma index_map_idle [simp]: "index_map (t\<lparr>index_lock := l\<rparr>) = index_map t"
  by (simp add: index_map_def slot_live_def fun_eq_iff)

lemma store_thread_live:
  assumes "table_ok t" "unat h < unat (hash_size t)" "index \<noteq> - 1"
  shows "slot_live (store_thread h tid index t) k \<longleftrightarrow> k = unat h \<or> slot_live t k"
  using assms by (auto simp: slot_live_def store_thread_def nth_list_update table_ok_def)

lemma store_thread_nth:
  assumes "table_ok t" "unat h < unat (hash_size t)"
  shows "hash_tids (store_thread h tid index t) ! k = (if k = unat h then tid else hash_tids t ! k)"
    "hash_indices (store_thread h tid index t) ! k = (if k = unat h then ucast index else hash_indices t ! k)"
  using assms by (auto simp: store_thread_def nth_list_update table_ok_def)

lemma store_thread_registered:
  assumes "table_ok t" "unat h < unat (hash_size t)" "hash_indices t ! unat h = IDX_NONE" "index \<noteq> - 1"
  shows "registered (store_thread h tid index t) = Suc (registered t)"
  using filter_update [of "unat h" "hash_indices t" "\<lambda>i. (ucast i :: u32) \<noteq> - 1" "ucast index"] assms
  by (simp add: registered_def store_thread_def table_ok_def)

lemma store_thread_ok:
  assumes ok: "table_ok t" and h: "unat h < unat (hash_size t)" "hash_indices t ! unat h = IDX_NONE"
    and new: "index_map t tid = None" "index \<noteq> - 1"
  shows "table_ok (store_thread h tid index t)"
proof -
  let ?t = "store_thread h tid index t"
  have uniq: "k = j" if "k < unat (hash_size t)" "j < unat (hash_size t)" "slot_live ?t k" "slot_live ?t j"
      "hash_tids ?t ! k = hash_tids ?t ! j" for k j
    using that store_thread_nth [OF ok h(1)] store_thread_live [OF ok h(1) new(2)] new(1) slot_live_unique [OF ok, of k j]
    by (auto simp: index_map_None split: if_splits)
  have "i = IDX_NONE \<or> (\<exists>k :: u32. k \<noteq> - 1 \<and> i = ucast k)" if "i \<in> set (hash_indices ?t)" for i
    using that ok new(2) set_update_subset_insert [of "hash_indices t" "unat h" "ucast index"]
    by (auto simp: store_thread_def table_ok_def)
  moreover have "DYNINSTthreadCount ?t = of_nat (registered ?t)"
    using ok store_thread_registered [OF ok h new(2)]
    by (simp add: table_ok_def DYNINSTthreadCount_def store_thread_def algebra_simps)
  ultimately show ?thesis using ok uniq by (simp add: table_ok_def store_thread_def)
qed

lemma store_thread_map:
  assumes ok: "table_ok t" and h: "unat h < unat (hash_size t)" "hash_indices t ! unat h = IDX_NONE"
    and new: "index_map t tid = None" "index \<noteq> - 1"
  shows "index_map (store_thread h tid index t) = (index_map t)(tid \<mapsto> index)"
proof
  let ?t = "store_thread h tid index t"
  note sel = store_thread_nth [OF ok h(1), of tid index] and live = store_thread_live [OF ok h(1) new(2), of tid]
  note in_map = index_map_live [OF store_thread_ok [OF ok h new]]
  fix u
  have n: "hash_size ?t = hash_size t" by (simp add: store_thread_def)
  have dead: "\<not> slot_live t (unat h)" using h(2) by (simp add: slot_live_def)
  consider (new) "u = tid" | (old) i where "u \<noteq> tid" "index_map t u = Some i" | (none) "u \<noteq> tid" "index_map t u = None"
    by (cases "index_map t u") auto
  then show "index_map ?t u = ((index_map t)(tid \<mapsto> index)) u"
  proof cases
    case new
    then show ?thesis using in_map [of "unat h"] n h(1) live sel by simp
  next
    case old
    from old(2) obtain k where k: "k < unat (hash_size t)" "slot_live t k" "hash_tids t ! k = u" "i = ucast (hash_indices t ! k)"
      by (rule index_map_SomeE)
    then have "k \<noteq> unat h" using dead by auto
    then show ?thesis using in_map [of k] n k live sel old by simp
  next
    case none
    then have "index_map ?t u = None" using n live sel dead by (auto simp: index_map_None)
    then show ?thesis using none by simp
  qed
qed

text \<open>Registering a thread that has no index succeeds as long as there is an empty slot, and then adds it to the map.\<close>

lemma free_slot:
  assumes "table_ok t" "registered t < unat (hash_size t)"
  shows "\<exists>h :: u32. unat h < unat (hash_size t) \<and> hash_indices t ! unat h = IDX_NONE"
proof -
  have "\<not> (\<forall>i \<in> set (hash_indices t). (ucast i :: u32) \<noteq> - 1)"
  proof
    assume "\<forall>i \<in> set (hash_indices t). (ucast i :: u32) \<noteq> - 1"
    then have "registered t = length (hash_indices t)" by (simp add: registered_def)
    then show False using assms by (simp add: table_ok_def)
  qed
  then obtain h where "h < unat (hash_size t)" "\<not> slot_live t h"
    using assms(1) by (auto simp: in_set_conv_nth table_ok_def slot_live_def)
  then show ?thesis using slot_live_iff [OF assms(1)] unat_of_nat_u32 [of h "hash_size t"]
    by (intro exI [of _ "of_nat h :: u32"]) simp
qed

lemma registerThread_map:
  assumes ok: "table_ok t" "thread_id me" "me \<noteq> 0" and new: "index_map t tid = None" "index \<noteq> - 1"
    and room: "registered t < unat (hash_size t)"
  shows "\<exists>t'. DYNINSTregisterThread me tid index t = Inr (me, t') \<and> table_ok t'
    \<and> index_map t' = (index_map t)(tid \<mapsto> index) \<and> registered t' = Suc (registered t)
    \<and> hash_size t' = hash_size t \<and> max_num_threads t' = max_num_threads t"
proof -
  have n: "hash_size t \<noteq> 0" using ok by (simp add: table_ok_def)
  let ?free = "\<lambda>h :: u32. hash_indices t ! unat h = IDX_NONE"
  from hash_in_table [OF n, of me] show ?thesis
  proof (cases rule: hash_probe_cases [where hit = ?free])
    case (1 h)
    have "DYNINSTregisterThread me tid index t = Inr (me, idle (store_thread h tid index t))"
      using 1 n ok by (simp add: DYNINSTregisterThread_def with_index_lock_ok Let_def store_thread_def)
    then show ?thesis using store_thread_ok [OF ok(1) 1(2,3) new] store_thread_map [OF ok(1) 1(2,3) new]
        store_thread_registered [OF ok(1) 1(2,3) new(2)]
      by (simp add: store_thread_def registered_def)
  next
    case 2
    then show ?thesis using free_slot [OF ok(1) room] by blast
  qed
qed

lemma registerThread_full:
  assumes "table_ok t" "thread_id me" "me \<noteq> 0" "registered t = unat (hash_size t)"
  shows "DYNINSTregisterThread me tid index t = Inr (0, idle t)"
proof -
  have n: "hash_size t \<noteq> 0" using assms by (simp add: table_ok_def)
  have "\<forall>i \<in> set (hash_indices t). (ucast i :: u32) \<noteq> - 1"
    using assms(1,4) length_filter_less [of _ "hash_indices t" "\<lambda>i. (ucast i :: u32) \<noteq> - 1"]
    by (fastforce simp: table_ok_def registered_def)
  then have "(ucast (hash_indices t ! h) :: u32) \<noteq> - 1" if "h < unat (hash_size t)" for h
    using that assms(1) by (simp add: table_ok_def)
  then have none: "hash_indices t ! h \<noteq> IDX_NONE" if "h < unat (hash_size t)" for h using that by fastforce
  from hash_in_table [OF n, of me] show ?thesis
  proof (cases rule: hash_probe_cases [where hit = "\<lambda>h :: u32. hash_indices t ! unat h = IDX_NONE"])
    case 2
    then show ?thesis using n assms by (simp add: DYNINSTregisterThread_def with_index_lock_ok Let_def)
  qed (use none in blast)
qed

text \<open>The table after the initialisation: empty, with its full size.\<close>

lemma fresh_table_ok:
  assumes "hash_size t \<noteq> 0" "length (hash_indices t) = unat (hash_size t)" "length (hash_tids t) = unat (hash_size t)"
    "lock_free (index_lock t)" "hash_indices t' = map (\<lambda>_. IDX_NONE) (hash_indices t)" "hash_tids t' = hash_tids t"
    "hash_size t' = hash_size t" "index_lock t' = index_lock t" "num_free t' = max_num_threads t'"
  shows "table_ok t'" "index_map t' = Map.empty" "registered t' = 0"
proof -
  have dead: "\<not> slot_live t' h" if "h < unat (hash_size t')" for h using that assms by (simp add: slot_live_def)
  show "registered t' = 0" using assms by (simp add: registered_def filter_empty_conv)
  then show "table_ok t'" using assms dead by (auto simp: table_ok_def DYNINSTthreadCount_def)
  show "index_map t' = Map.empty" using dead by (auto simp: index_map_None fun_eq_iff)
qed

definition malloc_ok :: "(nat \<Rightarrow> u64 list option) \<Rightarrow> bool" where
  "malloc_ok m \<longleftrightarrow> (\<forall>k. \<exists>b. m k = Some b \<and> length b = k)"

lemma initialize_index_list_ok:
  assumes "unat (max_num_threads t) * 5 div 4 < 2 ^ 31" "\<not> init_index_done t" "lock_free (index_lock t)"
    and mem: "malloc_ok malloc_indices" "malloc_ok malloc_tids"
  shows "\<exists>t'. DYNINST_initialize_index_list malloc_indices malloc_tids t = Inr t' \<and> table_ok t'
    \<and> index_map t' = Map.empty \<and> registered t' = 0
    \<and> max_num_threads t' = (if max_num_threads t = 0 then MAX_THREADS else max_num_threads t)
    \<and> unat (hash_size t') = unat (max_num_threads t') * 5 div 4"
proof -
  let ?t2 = "t\<lparr>init_index_done := True, max_num_threads := if max_num_threads t = 0 then MAX_THREADS else max_num_threads t\<rparr>"
  let ?s = "unat (max_num_threads ?t2) * 5 div 4"
  have "\<exists>t3. hash_arrays malloc_indices malloc_tids ?t2 = Inr t3 \<and> unat (hash_size t3) = ?s
      \<and> length (hash_indices t3) = ?s \<and> length (hash_tids t3) = ?s \<and> index_lock t3 = index_lock t
      \<and> max_num_threads t3 = max_num_threads ?t2"
  proof (cases "max_num_threads ?t2 = MAX_THREADS")
    case False
    then have s: "?s < 2 ^ 31" using assms(1) by (auto split: if_splits)
    then have "unat (of_nat ?s :: u32) = ?s" by (simp add: unsigned_of_nat take_bit_nat_eq_self)
    moreover obtain b c where "malloc_indices ?s = Some b" "length b = ?s" "malloc_tids ?s = Some c" "length c = ?s"
      using mem unfolding malloc_ok_def by meson
    ultimately show ?thesis using False s by (simp add: hash_arrays_def hash_size_for_def Let_def)
  qed (simp add: hash_arrays_def)
  then obtain t3 where t3: "hash_arrays malloc_indices malloc_tids ?t2 = Inr t3" "unat (hash_size t3) = ?s"
    "length (hash_indices t3) = ?s" "length (hash_tids t3) = ?s" "index_lock t3 = index_lock t" "max_num_threads t3 = max_num_threads ?t2"
    by blast
  have "0 < unat (max_num_threads ?t2)" by (simp add: unat_gt_0)
  then have "0 < ?s" by linarith
  then have "hash_size t3 \<noteq> 0" using t3(2) by auto
  moreover have "DYNINST_initialize_index_list malloc_indices malloc_tids t
      = and_then (hash_arrays malloc_indices malloc_tids ?t2) (\<lambda>t3.
          Inr (t3\<lparr>hash_indices := map (\<lambda>_. IDX_NONE) (hash_indices t3), num_free := max_num_threads t3\<rparr>))"
    using assms(2) by (simp add: DYNINST_initialize_index_list_def)
  ultimately show ?thesis
    using t3 assms(3) fresh_table_ok [of t3 "t3\<lparr>hash_indices := map (\<lambda>_. IDX_NONE) (hash_indices t3), num_free := max_num_threads t3\<rparr>"]
    unfolding t3(1)
    by (intro exI [of _ "t3\<lparr>hash_indices := map (\<lambda>_. IDX_NONE) (hash_indices t3), num_free := max_num_threads t3\<rparr>"]) simp
qed

subsection \<open>All threads of the target\<close>

text \<open>A sequence of calls: who calls, for which thread, with which index.\<close>

fun register_all :: "(dyntid \<times> dyntid \<times> u32) list \<Rightarrow> rt_threads \<Rightarrow> fault + rt_threads" where
  "register_all [] t = Inr t"
| "register_all ((me, tid, index) # cs) t = and_then (DYNINSTregisterThread me tid index t) (\<lambda>(r, t'). register_all cs t')"

lemma register_all_map:
  assumes "table_ok t" "\<forall>(me, tid, index) \<in> set cs. thread_id me \<and> me \<noteq> 0 \<and> index_map t tid = None \<and> index \<noteq> - 1"
    "distinct (map (fst \<circ> snd) cs)" "registered t + length cs \<le> unat (hash_size t)"
  shows "\<exists>t'. register_all cs t = Inr t' \<and> table_ok t' \<and> index_map t' = index_map t ++ map_of (map snd cs)
    \<and> registered t' = registered t + length cs \<and> max_num_threads t' = max_num_threads t"
  using assms
proof (induction cs arbitrary: t)
  case (Cons c cs)
  obtain me tid index where c: "c = (me, tid, index)" by (cases c)
  then obtain t1 where t1: "DYNINSTregisterThread me tid index t = Inr (me, t1)" "table_ok t1"
      "index_map t1 = (index_map t)(tid \<mapsto> index)" "registered t1 = Suc (registered t)" "hash_size t1 = hash_size t"
      "max_num_threads t1 = max_num_threads t"
    using registerThread_map [of t me tid index] Cons.prems by auto
  have rest: "\<forall>(me, u, i) \<in> set cs. thread_id me \<and> me \<noteq> 0 \<and> index_map t1 u = None \<and> i \<noteq> - 1"
    using Cons.prems(2,3) c t1(3) by (fastforce simp: image_iff)
  obtain t' where "register_all cs t1 = Inr t'" "table_ok t'" "index_map t' = index_map t1 ++ map_of (map snd cs)"
      "registered t' = registered t1 + length cs" "max_num_threads t' = max_num_threads t1"
    using Cons.IH [OF t1(2) rest] Cons.prems(3,4) t1(4,5) by auto
  moreover have "index_map t1 ++ map_of (map snd cs) = index_map t ++ map_of (map snd (c # cs))"
  proof -
    have "map_of (map snd cs) tid = None" using Cons.prems(3) c by (auto simp: map_of_eq_None_iff image_iff)
    then show ?thesis unfolding c t1(3) by (intro ext) (simp add: map_add_def split: option.split)
  qed
  ultimately show ?case using t1(1,4,6) unfolding c by (intro exI [of _ t']) (simp add: fun_eq_iff map_add_def)
qed simp

text \<open>C16: every thread finds its own index.  The table is initialised for at least one thread and any number of threads up to its size register with
  distinct ids; then \<^verbatim>\<open>DYNINSTthreadIndex\<close> gives each of them the index it registered with, any other thread
  the spare index behind the last one, and the thread count is the number of registered threads.\<close>

theorem every_thread_has_its_index:
  assumes size: "unat n * 5 div 4 < 2 ^ 31" "n \<noteq> 0" and mem: "malloc_ok malloc_indices" "malloc_ok malloc_tids"
    and calls: "\<forall>(me, tid, index) \<in> set cs. thread_id me \<and> me \<noteq> 0 \<and> index \<noteq> - 1"
    and ids: "distinct (map (fst \<circ> snd) cs)" "length cs \<le> unat n * 5 div 4"
  shows "\<exists>t\<^sub>0 t. DYNINST_initialize_index_list malloc_indices malloc_tids (rt_threads_start n) = Inr t\<^sub>0
    \<and> register_all cs t\<^sub>0 = Inr t \<and> DYNINSTthreadCount t = of_nat (length cs)
    \<and> (\<forall>self. thread_id self \<and> self \<noteq> DYNINST_SINGLETHREADED \<longrightarrow>
         (\<exists>t'. DYNINSTthreadIndex True self t =
            Inr (case map_of (map snd cs) self of Some index \<Rightarrow> index | None \<Rightarrow> n, t')))"
proof -
  obtain t\<^sub>0 where t0: "DYNINST_initialize_index_list malloc_indices malloc_tids (rt_threads_start n) = Inr t\<^sub>0"
      "table_ok t\<^sub>0" "index_map t\<^sub>0 = Map.empty" "registered t\<^sub>0 = 0" "max_num_threads t\<^sub>0 = n" "unat (hash_size t\<^sub>0) = unat n * 5 div 4"
    using initialize_index_list_ok [of "rt_threads_start n" malloc_indices malloc_tids] size mem
    by (auto simp: rt_threads_start_def)
  then obtain t where t: "register_all cs t\<^sub>0 = Inr t" "table_ok t" "index_map t = map_of (map snd cs)" "registered t = length cs"
      "max_num_threads t = n"
    using register_all_map [of t\<^sub>0 cs] calls ids by auto
  have "DYNINSTthreadIndex True self t = Inr (case map_of (map snd cs) self of Some index \<Rightarrow> index | None \<Rightarrow> n, idle t)"
    if self: "thread_id self" "self \<noteq> DYNINST_SINGLETHREADED" for self
  proof -
    have "index \<noteq> - 1" if "map_of (map snd cs) self = Some index" for index
      using map_of_SomeD [OF that] calls by auto
    then show ?thesis using self t threadIndexSLOW_map [OF t(2) self(1), of self]
      by (simp add: DYNINSTthreadIndex_def split: option.split)
  qed
  moreover have "DYNINSTthreadCount t = of_nat (length cs)" using t(2,4) by (simp add: table_ok_def)
  ultimately show ?thesis using t0(1) t(1) by blast
qed

theorem every_thread_has_its_index_witness:
  "\<exists>t\<^sub>0 t t'. DYNINST_initialize_index_list (\<lambda>k. Some (replicate k 0)) (\<lambda>k. Some (replicate k 7)) (rt_threads_start 4) = Inr t\<^sub>0
     \<and> register_all [(7, 7, 0), (12, 12, 1)] t\<^sub>0 = Inr t \<and> DYNINSTthreadIndex True 12 t = Inr (1, t')"
proof -
  have m: "malloc_ok (\<lambda>k. Some (replicate k c))" for c by (simp add: malloc_ok_def)
  have "\<forall>(me, tid, index) \<in> set [(7 :: dyntid, 7 :: dyntid, 0 :: u32), (12, 12, 1)]. thread_id me \<and> me \<noteq> 0 \<and> index \<noteq> - 1"
    by (simp add: thread_id_def)
  from every_thread_has_its_index [of 4, OF _ _ m m this]
  obtain t\<^sub>0 t where "DYNINST_initialize_index_list (\<lambda>k. Some (replicate k 0)) (\<lambda>k. Some (replicate k 7)) (rt_threads_start 4) = Inr t\<^sub>0"
      "register_all [(7, 7, 0), (12, 12, 1)] t\<^sub>0 = Inr t"
      "\<forall>self. thread_id self \<and> self \<noteq> DYNINST_SINGLETHREADED \<longrightarrow> (\<exists>t'. DYNINSTthreadIndex True self t =
         Inr (case map_of (map snd [(7, 7, 0), (12, 12, 1)]) self of Some index \<Rightarrow> index | None \<Rightarrow> 4, t'))"
    by fastforce
  moreover from this(3) have "\<exists>t'. DYNINSTthreadIndex True 12 t = Inr (1, t')"
    by (auto simp: thread_id_def dest: spec [of _ 12])
  ultimately show ?thesis by blast
qed

subsection \<open>Threads that end\<close>

definition drop_slot :: "u32 \<Rightarrow> rt_threads \<Rightarrow> rt_threads" where
  "drop_slot h t = t\<lparr>hash_indices := (hash_indices t)[unat h := IDX_NONE], num_free := num_free t + 1\<rparr>"

lemma unregisterThread_slot:
  assumes "lock_free (index_lock t)" "hash_size t \<noteq> 0" "thread_id me" "k < unat (hash_size t)" "hash_tids t ! k = tid"
    "\<And>h. h < unat (hash_size t) \<Longrightarrow> hash_tids t ! h = tid \<Longrightarrow> h = k"
  shows "DYNINSTunregisterThread me tid t = Inr (1, idle (drop_slot (of_nat k) t))"
proof -
  have k: "unat (of_nat k :: u32) = k" using unat_of_nat_u32 assms(4) .
  from hash32_in_table [OF assms(2), of "ucast tid"] show ?thesis
  proof (cases rule: hash_probe_cases [where hit = "\<lambda>h :: u32. hash_tids t ! unat h = tid"])
    case (1 h)
    then have "h = of_nat k" using assms(6) [of "unat h"] k by (simp add: word_unat_eq_iff)
    then show ?thesis using 1 assms(1-3)
      by (simp add: DYNINSTunregisterThread_def with_lock_free tc_lock_unlock_eq Let_def drop_slot_def)
  next
    case 2
    then show ?thesis using assms(4,5) k by metis
  qed
qed

lemma drop_slot_live:
  assumes "table_ok t" "h < unat (hash_size t)"
  shows "slot_live (drop_slot (of_nat h) t) k \<longleftrightarrow> k \<noteq> h \<and> slot_live t k"
  using assms unat_of_nat_u32 [OF assms(2)] by (auto simp: slot_live_def drop_slot_def nth_list_update table_ok_def)

lemma drop_slot_map:
  assumes ok: "table_ok t" and h: "h < unat (hash_size t)" "slot_live t h"
  shows "table_ok (drop_slot (of_nat h) t)" "index_map (drop_slot (of_nat h) t) = (index_map t)(hash_tids t ! h := None)"
    "Suc (registered (drop_slot (of_nat h) t)) = registered t"
proof -
  let ?t = "drop_slot (of_nat h) t"
  have k: "unat (of_nat h :: u32) = h" using unat_of_nat_u32 h(1) .
  have len: "length (hash_indices t) = unat (hash_size t)" using ok by (simp add: table_ok_def)
  have sel: "hash_tids ?t = hash_tids t" "hash_size ?t = hash_size t" "index_lock ?t = index_lock t"
      "\<And>k. k \<noteq> h \<Longrightarrow> hash_indices ?t ! k = hash_indices t ! k"
    using k by (simp_all add: drop_slot_def)
  note slot_live = drop_slot_live [OF ok h(1)]
  show reg: "Suc (registered ?t) = registered t"
    using filter_update [of h "hash_indices t" "\<lambda>i. (ucast i :: u32) \<noteq> - 1" IDX_NONE] h len k
    by (simp add: registered_def drop_slot_def slot_live_def)
  have "i = IDX_NONE \<or> (\<exists>k :: u32. k \<noteq> - 1 \<and> i = ucast k)" if "i \<in> set (hash_indices ?t)" for i
    using that ok set_update_subset_insert [of "hash_indices t" h IDX_NONE] k by (auto simp: drop_slot_def table_ok_def)
  moreover have "DYNINSTthreadCount ?t = of_nat (registered ?t)"
    using ok unfolding table_ok_def reg [symmetric] by (simp add: DYNINSTthreadCount_def drop_slot_def algebra_simps)
  moreover have "length (hash_indices ?t) = unat (hash_size t)" using len by (simp add: drop_slot_def)
  moreover have "j = i" if "j < unat (hash_size t)" "i < unat (hash_size t)" "slot_live ?t j" "slot_live ?t i" "hash_tids t ! j = hash_tids t ! i" for j i
    using that slot_live slot_live_unique [OF ok, of j i] by simp
  ultimately show ok': "table_ok ?t" using ok sel(1-3) unfolding table_ok_def by simp
  show "index_map ?t = (index_map t)(hash_tids t ! h := None)"
  proof
    fix u
    show "index_map ?t u = ((index_map t)(hash_tids t ! h := None)) u"
    proof (cases "u = hash_tids t ! h \<or> index_map t u = None")
      case True
      then have "index_map ?t u = None"
        using slot_live sel(1,2) slot_live_unique [OF ok _ h(1) _ h(2)] by (auto simp: index_map_None)
      then show ?thesis using True by auto
    next
      case False
      then obtain i where "index_map t u = Some i" by blast
      then obtain k where k: "k < unat (hash_size t)" "slot_live t k" "hash_tids t ! k = u" "i = ucast (hash_indices t ! k)"
        by (rule index_map_SomeE)
      then have "k \<noteq> h" using False by auto
      then show ?thesis using False index_map_live [OF ok', of k] index_map_live [OF ok, of k] k slot_live sel by simp
    qed
  qed
qed

text \<open>A thread that unregisters loses its index and the others keep theirs; but the search of \<^verbatim>\<open>DYNINSTunregisterThread\<close> does not
  skip empty slots, so that a second call for the same thread succeeds as well and takes one more thread off the count.\<close>

lemma unregister_twice:
  assumes ok: "table_ok t" "thread_id me" and slot: "h < unat (hash_size t)" "slot_live t h" "hash_tids t ! h = tid"
    and once: "\<And>k. k < unat (hash_size t) \<Longrightarrow> hash_tids t ! k = tid \<Longrightarrow> k = h"
  shows "\<exists>t\<^sub>1 t\<^sub>2. DYNINSTunregisterThread me tid t = Inr (1, t\<^sub>1)
    \<and> table_ok t\<^sub>1 \<and> index_map t\<^sub>1 = (index_map t)(tid := None) \<and> DYNINSTthreadCount t\<^sub>1 = DYNINSTthreadCount t - 1
    \<and> DYNINSTunregisterThread me tid t\<^sub>1 = Inr (1, t\<^sub>2)
    \<and> index_map t\<^sub>2 = index_map t\<^sub>1 \<and> DYNINSTthreadCount t\<^sub>2 = DYNINSTthreadCount t - 2"
proof -
  let ?t1 = "idle (drop_slot (of_nat h) t)" and ?t2 = "idle (drop_slot (of_nat h) (idle (drop_slot (of_nat h) t)))"
  have l: "lock_free (index_lock t)" "hash_size t \<noteq> 0" using ok by (simp_all add: table_ok_def)
  have "DYNINSTunregisterThread me tid t = Inr (1, ?t1)"
    using unregisterThread_slot [OF l ok(2) slot(1,3)] once by blast
  moreover have "DYNINSTunregisterThread me tid ?t1 = Inr (1, ?t2)"
  proof (rule unregisterThread_slot)
    show "lock_free (index_lock ?t1)" "hash_size ?t1 \<noteq> 0" "thread_id me" "h < unat (hash_size ?t1)" "hash_tids ?t1 ! h = tid"
      using l ok(2) slot by (simp_all add: drop_slot_def lock_free_def)
    show "k = h" if "k < unat (hash_size ?t1)" "hash_tids ?t1 ! k = tid" for k
      using once [of k] that by (simp add: drop_slot_def)
  qed
  moreover have "index_map ?t2 = index_map ?t1"
    by (simp add: index_map_def slot_live_def drop_slot_def fun_eq_iff)
  moreover have "DYNINSTthreadCount ?t1 = DYNINSTthreadCount t - 1" "DYNINSTthreadCount ?t2 = DYNINSTthreadCount t - 2"
    by (simp_all add: DYNINSTthreadCount_def drop_slot_def)
  ultimately show ?thesis using drop_slot_map [OF ok(1) slot(1,2)] slot(3)
    by (intro exI [of _ ?t1] exI [of _ ?t2]) simp
qed

definition small_table :: rt_threads where
  "small_table = \<lparr>max_num_threads = 4, hash_tids = [0, 0, 7, 0, 0], hash_indices = [- 1, - 1, 3, - 1, - 1], hash_size = 5,
     index_lock = DECLARE_TC_LOCK, num_free = 3, init_index_done = True\<rparr>"

lemma unregister_twice_example:
  "\<exists>t\<^sub>1 t\<^sub>2. DYNINSTthreadCount small_table = 1 \<and> DYNINSTunregisterThread 7 7 small_table = Inr (1, t\<^sub>1)
     \<and> DYNINSTunregisterThread 7 7 t\<^sub>1 = Inr (1, t\<^sub>2) \<and> DYNINSTthreadCount t\<^sub>2 = - 1"
proof -
  have five: "h < 5 \<Longrightarrow> h \<in> {0, 1, 2, 3, 4}" for h :: nat by auto
  have ok: "table_ok small_table"
    by (auto intro!: exI [of _ 3] simp: table_ok_def small_table_def slot_live_def registered_def DYNINSTthreadCount_def dest!: five)
  have slot: "thread_id 7" "2 < unat (hash_size small_table)" "slot_live small_table 2" "hash_tids small_table ! 2 = 7"
    by (simp_all add: thread_id_def small_table_def slot_live_def)
  have "k = 2" if "k < unat (hash_size small_table)" "hash_tids small_table ! k = 7" for k
    using that by (auto simp: small_table_def dest!: five)
  from unregister_twice [OF ok slot this] have "\<exists>t\<^sub>1 t\<^sub>2. DYNINSTunregisterThread 7 7 small_table = Inr (1, t\<^sub>1)
      \<and> DYNINSTunregisterThread 7 7 t\<^sub>1 = Inr (1, t\<^sub>2) \<and> DYNINSTthreadCount t\<^sub>2 = DYNINSTthreadCount small_table - 2" by blast
  moreover have "DYNINSTthreadCount small_table = 1" by (simp add: DYNINSTthreadCount_def small_table_def)
  ultimately show ?thesis by simp
qed

end
