(* ===== verification/RT_Events.thy ===== *)
theory RT_Events
  imports RT_Thread
begin

section \<open>dyninstAPI_RT: telling the mutator what happens\<close>

text \<open>
  The run-time library reports events (fork, exec, exit, a stopped thread, a message) to the controlling process: it
  writes what happened into four global variables and stops itself by a signal until the mutator has read them and let
  it go on.  Every system call is recorded together with what is published at that moment, which is what the mutator
  finds there.  \<open>w\<close>, the rest of the world, answers the last call of a sequence: its result, whether \<^verbatim>\<open>errno\<close> is
  \<^verbatim>\<open>ENOSYS\<close>, what the mutator wrote to \<^verbatim>\<open>DYNINST_break_point_event\<close> meanwhile, and whether the signal reached the process.
  \<open>static\<close> is \<^verbatim>\<open>DYNINSTstaticMode\<close>, \<open>me\<close> the id of the calling thread.
\<close>

datatype synch_event =
    DSE_undefined | DSE_forkEntry | DSE_forkExit | DSE_execEntry | DSE_execExit | DSE_exitEntry | DSE_loadLibrary
  | DSE_lwpExit | DSE_snippetBreakpoint | DSE_stopThread | DSE_userMessage | DSE_dynFuncCall

record published =
  event_id :: synch_event
  arg1 :: u64
  arg2 :: u64
  arg3 :: u64

datatype signo = SIGBUS | SIGSTOP
datatype sig_handler = Uncaught_breakpoint | Handler u64

record sigact =
  sa_handler :: sig_handler
  sa_rest :: u64

datatype rt_call = Gettid | Getpid | Tkill int signo | Kill int signo | Sigaction_get | Sigaction_set sigact

record answer =
  answer_ret :: int
  answer_nosys :: bool
  answer_event :: "u32 option"
  answer_handled :: bool

type_synonym rt_trace = "(rt_call \<times> published) list"
type_synonym rt_world = "rt_trace \<Rightarrow> answer"

record rt_state =
  trace_lock :: tc_lock
  published :: published
  break_point_event :: u32
  failed_breakpoint :: bool
  has_tkill :: bool
  gettid_not_valid :: bool
  bus_action :: sigact
  target_cache :: "(u64 \<times> u64) list"
  cacheLRUflags :: "u8 list"
  reentrant :: bool
  untranslated_entries :: int
  rt_trace :: rt_trace

definition rt_do :: "rt_world \<Rightarrow> rt_call \<Rightarrow> rt_state \<Rightarrow> answer \<times> rt_state" where
  "rt_do w c st =
     (let tr = rt_trace st @ [(c, published st)]
      in (w tr, st\<lparr>rt_trace := tr, break_point_event := case answer_event (w tr) of None \<Rightarrow> break_point_event st | Some v \<Rightarrow> v\<rparr>))"

subsection \<open>RTlinux.c: stopping oneself\<close>

definition dyn_lwp_self :: "rt_world \<Rightarrow> rt_state \<Rightarrow> int \<times> rt_state" where
  "dyn_lwp_self w st =
     (if gettid_not_valid st then map_prod answer_ret id (rt_do w Getpid st)
      else let (a, st1) = rt_do w Gettid st
           in if answer_ret a = - 1 \<and> answer_nosys a
              then map_prod answer_ret id (rt_do w Getpid (st1\<lparr>gettid_not_valid := True\<rparr>))
              else (answer_ret a, st1))"

definition t_kill :: "rt_world \<Rightarrow> int \<Rightarrow> signo \<Rightarrow> rt_state \<Rightarrow> bool \<times> rt_state" where
  "t_kill w pid sig st =
     (let (result, st1) =
            (if has_tkill st
             then let (a, st') = rt_do w (Tkill pid sig) st
                  in (answer_ret a, if answer_ret a = - 1 \<and> answer_nosys a then st'\<lparr>has_tkill := False\<rparr> else st')
             else (0, st));
          (result, st2) = (if \<not> has_tkill st1 then map_prod answer_ret id (rt_do w (Kill pid sig) st1) else (result, st1))
      in (result = 0, st2))"

partial_function (option) break_loop :: "rt_world \<Rightarrow> rt_state \<Rightarrow> rt_state option" where
  "break_loop w st =
     (if break_point_event st \<noteq> 0
      then let (pid, st1) = dyn_lwp_self w st; (_, st2) = t_kill w pid SIGBUS st1 in break_loop w st2
      else Some st)"

definition DYNINSTbreakPoint :: "bool \<Rightarrow> rt_world \<Rightarrow> rt_state \<Rightarrow> fault + rt_state" where
  "DYNINSTbreakPoint static w st = (if static then Inr st else or_endless (break_loop w (st\<lparr>break_point_event := 1\<rparr>)))"

definition uncaught_breakpoint :: "rt_state \<Rightarrow> rt_state" where
  "uncaught_breakpoint st = st\<lparr>failed_breakpoint := True\<rparr>"

text \<open>A signal that reaches the process runs the handler in force; only that of the library is known.\<close>

definition deliver :: "answer \<Rightarrow> rt_state \<Rightarrow> rt_state" where
  "deliver a st = (if answer_handled a \<and> sa_handler (bus_action st) = Uncaught_breakpoint then uncaught_breakpoint st else st)"

definition DYNINSTlinuxBreakPoint :: "bool \<Rightarrow> rt_world \<Rightarrow> rt_state \<Rightarrow> rt_state" where
  "DYNINSTlinuxBreakPoint static w st =
     (if static then st
      else let (a1, st1) = rt_do w Sigaction_get st
           in if answer_ret a1 = - 1 then st1
              else let act = (bus_action st1)\<lparr>sa_handler := Uncaught_breakpoint\<rparr>; (a2, st2) = rt_do w (Sigaction_set act) st1
                   in if answer_ret a2 = - 1 then st2
                      else let oldact = bus_action st2;
                               st3 = st2\<lparr>bus_action := act, break_point_event := 1, failed_breakpoint := False\<rparr>;
                               (pid, st4) = dyn_lwp_self w st3;
                               (a, st5) = rt_do w (Kill pid SIGBUS) st4;
                               st6 = deliver a st5;
                               st7 = (if failed_breakpoint st6 then st6\<lparr>break_point_event := 0, failed_breakpoint := False\<rparr> else st6);
                               (a3, st8) = rt_do w (Sigaction_set oldact) st7
                           in if answer_ret a3 = - 1 then st8 else st8\<lparr>bus_action := oldact\<rparr>)"

definition DYNINSTsafeBreakPoint :: "bool \<Rightarrow> rt_world \<Rightarrow> rt_state \<Rightarrow> rt_state" where
  "DYNINSTsafeBreakPoint static w st =
     (if static then st
      else let (pid, st1) = dyn_lwp_self w (st\<lparr>break_point_event := 2\<rparr>) in snd (rt_do w (Kill pid SIGSTOP) st1))"

subsection \<open>RTcommon.c: the events\<close>

text \<open>They all take the lock, whatever the result of that, publish, stop, clean up and release the lock.\<close>

definition report_event ::
  "dyntid \<Rightarrow> (published \<Rightarrow> published) \<Rightarrow> (rt_state \<Rightarrow> fault + rt_state) \<Rightarrow> (published \<Rightarrow> published) \<Rightarrow> rt_state \<Rightarrow> fault + rt_state" where
  "report_event me publish stop cleanup st =
     and_then (tc_lock_lock me (trace_lock st)) (\<lambda>(_, l).
     and_then (stop (st\<lparr>trace_lock := l, published := publish (published st)\<rparr>)) (\<lambda>st'.
     Inr (st'\<lparr>published := cleanup (published st'), trace_lock := tc_lock_unlock (trace_lock st')\<rparr>)))"

definition DYNINST_snippetBreakpoint :: "bool \<Rightarrow> rt_world \<Rightarrow> dyntid \<Rightarrow> rt_state \<Rightarrow> fault + rt_state" where
  "DYNINST_snippetBreakpoint static w me =
     report_event me (\<lambda>p. p\<lparr>event_id := DSE_snippetBreakpoint, arg1 := 0\<rparr>) (DYNINSTbreakPoint static w) (\<lambda>p. p\<lparr>event_id := DSE_undefined\<rparr>)"

definition DYNINST_instForkEntry :: "bool \<Rightarrow> rt_world \<Rightarrow> dyntid \<Rightarrow> rt_state \<Rightarrow> fault + rt_state" where
  "DYNINST_instForkEntry static w me =
     report_event me (\<lambda>p. p\<lparr>event_id := DSE_forkEntry, arg1 := 0\<rparr>) (DYNINSTbreakPoint static w) (\<lambda>p. p\<lparr>event_id := DSE_undefined, arg1 := 0\<rparr>)"

definition DYNINST_instForkExit :: "bool \<Rightarrow> rt_world \<Rightarrow> dyntid \<Rightarrow> u64 \<Rightarrow> rt_state \<Rightarrow> fault + rt_state" where
  "DYNINST_instForkExit static w me a =
     report_event me (\<lambda>p. p\<lparr>event_id := DSE_forkExit, arg1 := a\<rparr>)
       (if a = 0 then (\<lambda>st. Inr (DYNINSTsafeBreakPoint static w st)) else DYNINSTbreakPoint static w)
       (\<lambda>p. p\<lparr>event_id := DSE_undefined, arg1 := 0\<rparr>)"

definition DYNINST_instExecEntry :: "bool \<Rightarrow> rt_world \<Rightarrow> dyntid \<Rightarrow> u64 \<Rightarrow> rt_state \<Rightarrow> fault + rt_state" where
  "DYNINST_instExecEntry static w me a =
     report_event me (\<lambda>p. p\<lparr>event_id := DSE_execEntry, arg1 := a\<rparr>) (\<lambda>st. Inr (DYNINSTlinuxBreakPoint static w st))
       (\<lambda>p. p\<lparr>event_id := DSE_undefined, arg1 := 0\<rparr>)"

definition DYNINST_instExecExit :: "bool \<Rightarrow> rt_world \<Rightarrow> dyntid \<Rightarrow> u64 \<Rightarrow> rt_state \<Rightarrow> fault + rt_state" where
  "DYNINST_instExecExit static w me a =
     report_event me (\<lambda>p. p\<lparr>event_id := DSE_execExit, arg1 := a\<rparr>) (DYNINSTbreakPoint static w) (\<lambda>p. p\<lparr>event_id := DSE_undefined, arg1 := 0\<rparr>)"

definition DYNINST_instExitEntry :: "bool \<Rightarrow> rt_world \<Rightarrow> dyntid \<Rightarrow> u64 \<Rightarrow> rt_state \<Rightarrow> fault + rt_state" where
  "DYNINST_instExitEntry static w me a =
     report_event me (\<lambda>p. p\<lparr>event_id := DSE_exitEntry, arg1 := a\<rparr>) (DYNINSTbreakPoint static w) (\<lambda>p. p\<lparr>event_id := DSE_undefined, arg1 := 0\<rparr>)"

definition DYNINST_instLoadLibrary :: "bool \<Rightarrow> rt_world \<Rightarrow> dyntid \<Rightarrow> u64 \<Rightarrow> rt_state \<Rightarrow> fault + rt_state" where
  "DYNINST_instLoadLibrary static w me a =
     report_event me (\<lambda>p. p\<lparr>event_id := DSE_loadLibrary, arg1 := a\<rparr>) (DYNINSTbreakPoint static w) (\<lambda>p. p\<lparr>event_id := DSE_undefined, arg1 := 0\<rparr>)"

definition DYNINST_instLwpExit :: "bool \<Rightarrow> rt_world \<Rightarrow> dyntid \<Rightarrow> rt_state \<Rightarrow> fault + rt_state" where
  "DYNINST_instLwpExit static w me =
     report_event me (\<lambda>p. p\<lparr>event_id := DSE_lwpExit, arg1 := 0\<rparr>) (DYNINSTbreakPoint static w) (\<lambda>p. p\<lparr>event_id := DSE_undefined, arg1 := 0\<rparr>)"

definition DYNINSTasyncDynFuncCall :: "bool \<Rightarrow> rt_world \<Rightarrow> dyntid \<Rightarrow> u64 \<Rightarrow> u64 \<Rightarrow> rt_state \<Rightarrow> fault + rt_state" where
  "DYNINSTasyncDynFuncCall static w me call_target call_addr st =
     (if static then Inr st
      else report_event me (\<lambda>p. p\<lparr>event_id := DSE_dynFuncCall, arg1 := call_target, arg2 := call_addr\<rparr>) (DYNINSTbreakPoint static w)
             (\<lambda>p. p\<lparr>event_id := DSE_undefined, arg1 := 0, arg2 := 0\<rparr>) st)"

definition DYNINSTuserMessage :: "bool \<Rightarrow> rt_world \<Rightarrow> dyntid \<Rightarrow> u64 \<Rightarrow> u32 \<Rightarrow> rt_state \<Rightarrow> fault + rt_state" where
  "DYNINSTuserMessage static w me msg msg_size st =
     (if static then Inr st
      else report_event me (\<lambda>p. p\<lparr>event_id := DSE_userMessage, arg1 := msg, arg2 := ucast msg_size\<rparr>) (DYNINSTbreakPoint static w)
             (\<lambda>p. p\<lparr>event_id := DSE_undefined, arg1 := 0, arg2 := 0\<rparr>) st)"

subsection \<open>RTcommon.c: the cache of targets, and stopping a thread\<close>

abbreviation (input) TARGET_CACHE_WIDTH :: u64 where "TARGET_CACHE_WIDTH \<equiv> 128"

definition cache_index :: "u64 \<Rightarrow> nat" where
  "cache_index calculation = unat (calculation mod TARGET_CACHE_WIDTH)"

definition cacheLookup :: "u64 \<Rightarrow> rt_state \<Rightarrow> bool \<times> rt_state" where
  "cacheLookup calculation st =
     (let index = cache_index calculation; (way0, way1) = target_cache st ! index
      in if way0 = calculation then (True, st\<lparr>cacheLRUflags := (cacheLRUflags st)[index := 0]\<rparr>)
         else if way1 = calculation then (True, st\<lparr>cacheLRUflags := (cacheLRUflags st)[index := 1]\<rparr>)
         else if cacheLRUflags st ! index = 0
         then (False, st\<lparr>target_cache := (target_cache st)[index := (way0, calculation)], cacheLRUflags := (cacheLRUflags st)[index := 1]\<rparr>)
         else (False, st\<lparr>target_cache := (target_cache st)[index := (calculation, way1)], cacheLRUflags := (cacheLRUflags st)[index := 0]\<rparr>))"

text \<open>Bit 0 of the flags asks for the cache, bits 1 and 2 say that the value is a target or a return address.\<close>

definition DYNINST_stopThread :: "bool \<Rightarrow> rt_world \<Rightarrow> dyntid \<Rightarrow> u64 \<Rightarrow> u64 \<Rightarrow> u64 \<Rightarrow> u64 \<Rightarrow> rt_state \<Rightarrow> fault + rt_state" where
  "DYNINST_stopThread static w me pointAddr callBackID flags calculation st =
     (if reentrant st then Inr st
      else and_then (tc_lock_lock me (trace_lock st)) (\<lambda>(_, l).
        let st1 = st\<lparr>reentrant := True, trace_lock := l\<rparr>;
            (isInCache, st2) = (if flags AND 3 \<noteq> 0 then cacheLookup calculation st1 else (False, st1))
        in and_then
             (if flags AND 1 = 0 \<or> \<not> isInCache
              then let st3 = st2\<lparr>published := \<lparr>event_id = DSE_stopThread, arg1 = pointAddr,
                                  arg2 = if flags AND 6 \<noteq> 0 then - callBackID else callBackID, arg3 = calculation\<rparr>\<rparr>
                   in and_then (DYNINSTbreakPoint static w st3) (\<lambda>st4.
                        Inr (st4\<lparr>published := \<lparr>event_id = DSE_undefined, arg1 = 0, arg2 = 0, arg3 = 0\<rparr>\<rparr>))
              else Inr st2) (\<lambda>st5.
           Inr (st5\<lparr>trace_lock := tc_lock_unlock (trace_lock st5), reentrant := False\<rparr>))))"

definition DYNINST_stopInterProc ::
  "bool \<Rightarrow> rt_world \<Rightarrow> dyntid \<Rightarrow> u64 \<Rightarrow> u64 \<Rightarrow> u64 \<Rightarrow> u64 \<Rightarrow> u64 \<Rightarrow> u64 \<Rightarrow> rt_state \<Rightarrow> fault + rt_state" where
  "DYNINST_stopInterProc static w me pointAddr callBackID flags calculation objStart objEnd =
     DYNINST_stopThread static w me pointAddr callBackID
       (if calculation < objStart \<or> objEnd \<le> calculation then ucast ((ucast flags :: u32) AND 0xfffffffe) else flags) calculation"

subsection \<open>RTmemEmulator.c: code that runs untranslated\<close>

definition RThandleShadow :: "bool \<Rightarrow> rt_world \<Rightarrow> dyntid \<Rightarrow> u64 \<Rightarrow> u64 \<Rightarrow> u64 \<Rightarrow> u64 \<Rightarrow> rt_state \<Rightarrow> fault + rt_state" where
  "RThandleShadow static w me direction pointAddr callbackID flags st =
     (if (ucast direction :: u32) = 1
      then and_then (if untranslated_entries st = 0 then DYNINST_stopThread static w me pointAddr callbackID flags 1 st else Inr st) (\<lambda>st1.
             Inr (st1\<lparr>untranslated_entries := untranslated_entries st1 + 1\<rparr>))
      else let st1 = (if untranslated_entries st > 0 then st\<lparr>untranslated_entries := untranslated_entries st - 1\<rparr> else st)
           in if untranslated_entries st1 = 0 then DYNINST_stopThread static w me pointAddr callbackID flags 0 st1 else Inr st1)"

subsection \<open>What a stop does to the state\<close>

text \<open>A stop adds calls to the trace, all with the same published event, and touches nothing else but the variables of the
  stopping itself.\<close>

definition core :: "rt_state \<Rightarrow> rt_state" where
  "core st = st\<lparr>break_point_event := 0, has_tkill := True, gettid_not_valid := False, rt_trace := []\<rparr>"

definition grows :: "rt_state \<Rightarrow> rt_trace \<Rightarrow> rt_state \<Rightarrow> bool" where
  "grows st new st' \<longleftrightarrow> core st' = core st \<and> rt_trace st' = rt_trace st @ new \<and> snd ` set new \<subseteq> {published st}"

lemma core_fields:
  assumes "core st' = core st"
  shows "trace_lock st' = trace_lock st" "published st' = published st" "target_cache st' = target_cache st"
    "cacheLRUflags st' = cacheLRUflags st" "reentrant st' = reentrant st" "untranslated_entries st' = untranslated_entries st"
    "bus_action st' = bus_action st" "failed_breakpoint st' = failed_breakpoint st"
  using assms by (cases st; cases st'; simp add: core_def)+

lemma core_upd [simp]:
  "core (st\<lparr>has_tkill := b\<rparr>) = core st" "core (st\<lparr>gettid_not_valid := b\<rparr>) = core st" "core (st\<lparr>break_point_event := v\<rparr>) = core st"
  by (simp_all add: core_def)

lemma grows_refl: "core st' = core st \<Longrightarrow> rt_trace st' = rt_trace st \<Longrightarrow> grows st [] st'"
  by (simp add: grows_def)

lemma grows_trans: "grows st a st' \<Longrightarrow> grows st' b st'' \<Longrightarrow> grows st (a @ b) st''"
  using core_fields(2) [of st' st] by (auto simp: grows_def)

lemma grows_rt_do: "grows st [(c, published st)] (snd (rt_do w c st))"
  by (simp add: grows_def rt_do_def core_def Let_def)

lemma grows_upd [simp]:
  "grows st new (st'\<lparr>has_tkill := b\<rparr>) = grows st new st'" "grows st new (st'\<lparr>gettid_not_valid := b\<rparr>) = grows st new st'"
  "grows st new (st'\<lparr>break_point_event := v\<rparr>) = grows st new st'"
  "grows (st\<lparr>has_tkill := b\<rparr>) new st' = grows st new st'" "grows (st\<lparr>gettid_not_valid := b\<rparr>) new st' = grows st new st'"
  "grows (st\<lparr>break_point_event := v\<rparr>) new st' = grows st new st'"
  by (simp_all add: grows_def)

text \<open>The mutator lets the process go on when it gets a signal, after it has ignored \<open>n\<close> at most.\<close>

fun is_signal :: "rt_call \<times> published \<Rightarrow> bool" where
  "is_signal (Tkill _ _, _) \<longleftrightarrow> True"
| "is_signal (Kill _ _, _) \<longleftrightarrow> True"
| "is_signal _ \<longleftrightarrow> False"

definition signals :: "rt_trace \<Rightarrow> nat" where
  "signals tr = length (filter is_signal tr)"

definition attentive :: "nat \<Rightarrow> rt_world \<Rightarrow> bool" where
  "attentive n w \<longleftrightarrow> (\<forall>tr x. is_signal x \<and> n \<le> signals tr \<longrightarrow> answer_event (w (tr @ [x])) = Some 0)"

lemma signals_append [simp]: "signals (a @ b) = signals a + signals b"
  by (simp add: signals_def)

lemma dyn_lwp_self_grows: "\<exists>new. grows st new (snd (dyn_lwp_self w st))"
proof -
  have "\<exists>new. grows (snd (rt_do w Gettid st)) new (snd (rt_do w Getpid ((snd (rt_do w Gettid st))\<lparr>gettid_not_valid := True\<rparr>)))"
    using grows_rt_do [of "(snd (rt_do w Gettid st))\<lparr>gettid_not_valid := True\<rparr>" Getpid w] unfolding grows_upd by blast
  then obtain new where "grows st ([(Gettid, published st)] @ new) (snd (rt_do w Getpid ((snd (rt_do w Gettid st))\<lparr>gettid_not_valid := True\<rparr>)))"
    using grows_trans [OF grows_rt_do] by blast
  then show ?thesis using grows_rt_do [of st Gettid w] grows_rt_do [of st Getpid w]
    by (cases "gettid_not_valid st"; cases "answer_ret (fst (rt_do w Gettid st)) = - 1 \<and> answer_nosys (fst (rt_do w Gettid st))")
      (auto simp: dyn_lwp_self_def case_prod_unfold map_prod_def Let_def)
qed

lemma t_kill_last:
  "\<exists>new c. grows st (new @ [(c, published st)]) (snd (t_kill w pid sig st)) \<and> is_signal (c, published st)
     \<and> (\<forall>v. answer_event (w (rt_trace (snd (t_kill w pid sig st)))) = Some v \<longrightarrow> break_point_event (snd (t_kill w pid sig st)) = v)"
proof -
  let ?k = "\<lambda>st. rt_do w (Kill pid sig) st" and ?t = "rt_do w (Tkill pid sig) st"
  have k: "grows st [(Kill pid sig, published st)] (snd (?k st))" for st by (rule grows_rt_do)
  have ev: "\<forall>v. answer_event (w (rt_trace (snd (rt_do w c st)))) = Some v \<longrightarrow> break_point_event (snd (rt_do w c st)) = v" for c st
    by (simp add: rt_do_def Let_def)
  consider (kill) "\<not> has_tkill st" | (tkill) "has_tkill st" "\<not> (answer_ret (fst ?t) = - 1 \<and> answer_nosys (fst ?t))"
    | (both) "has_tkill st" "answer_ret (fst ?t) = - 1" "answer_nosys (fst ?t)" by blast
  then show ?thesis
  proof cases
    case kill
    then have "snd (t_kill w pid sig st) = snd (?k st)" by (simp add: t_kill_def map_prod_def case_prod_unfold)
    then show ?thesis using k [of st] ev [of "Kill pid sig" st] by (intro exI [of _ "[]"] exI [of _ "Kill pid sig"]) simp
  next
    case tkill
    then have "snd (t_kill w pid sig st) = snd ?t" by (auto simp: t_kill_def map_prod_def case_prod_unfold Let_def rt_do_def)
    then show ?thesis using grows_rt_do [of st "Tkill pid sig" w] ev [of "Tkill pid sig" st]
      by (intro exI [of _ "[]"] exI [of _ "Tkill pid sig"]) simp
  next
    case both
    let ?s = "(snd ?t)\<lparr>has_tkill := False\<rparr>"
    have e: "snd (t_kill w pid sig st) = snd (?k ?s)" using both by (simp add: t_kill_def map_prod_def case_prod_unfold Let_def)
    have p: "published ?s = published st" by (simp add: rt_do_def Let_def)
    have "grows (snd ?t) [(Kill pid sig, published st)] (snd (?k ?s))" using k [of ?s] unfolding p grows_upd .
    from grows_trans [OF grows_rt_do this] show ?thesis using ev [of "Kill pid sig" ?s] unfolding e
      by (intro exI [of _ "[(Tkill pid sig, published st)]"] exI [of _ "Kill pid sig"]) simp
  qed
qed

lemma break_loop_returns:
  assumes w: "attentive n w"
  shows "\<exists>st' new. break_loop w st = Some st' \<and> grows st new st' \<and> break_point_event st' = 0
    \<and> (break_point_event st \<noteq> 0 \<longrightarrow> (\<exists>x \<in> set new. is_signal x))"
proof (induction "Suc n - signals (rt_trace st)" arbitrary: st rule: less_induct)
  case less
  show ?case
  proof (cases "break_point_event st = 0")
    case True
    then show ?thesis by (subst break_loop.simps) (auto intro!: exI [of _ "[]"] grows_refl)
  next
    case False
    let ?s = "snd (dyn_lwp_self w st)"
    let ?t = "snd (t_kill w (fst (dyn_lwp_self w st)) SIGBUS ?s)"
    obtain a b c where a: "grows st a ?s" and b: "grows ?s (b @ [(c, published ?s)]) ?t" "is_signal (c, published ?s)"
        "\<forall>v. answer_event (w (rt_trace ?t)) = Some v \<longrightarrow> break_point_event ?t = v"
      using dyn_lwp_self_grows [of st w] t_kill_last [of ?s w _ SIGBUS] by metis
    have loop: "break_loop w st = break_loop w ?t" using False by (subst break_loop.simps) (simp add: case_prod_unfold Let_def)
    have tr: "rt_trace ?t = (rt_trace st @ a @ b) @ [(c, published ?s)]" using a b(1) by (simp add: grows_def)
    note g = grows_trans [OF a b(1)]
    show ?thesis
    proof (cases "n \<le> signals (rt_trace st)")
      case True
      then have "n \<le> signals (rt_trace st @ a @ b)" by simp
      then have "answer_event (w (rt_trace ?t)) = Some 0" using w b(2) unfolding attentive_def tr by blast
      then have 0: "break_point_event ?t = 0" using b(3) by blast
      then have "break_loop w st = Some ?t" using loop by (subst (asm) (2) break_loop.simps) simp
      then show ?thesis using g 0 b(2) by (intro exI [of _ ?t] exI [of _ "a @ b @ [(c, published ?s)]"]) auto
    next
      case more: False
      have "signals (rt_trace st) < signals (rt_trace ?t)" using b(2) unfolding tr by (simp add: signals_def)
      then have "Suc n - signals (rt_trace ?t) < Suc n - signals (rt_trace st)" using more by linarith
      then obtain st' new where s: "break_loop w ?t = Some st'" "grows ?t new st'" "break_point_event st' = 0"
        using less.hyps [of ?t] by blast
      from grows_trans [OF g s(2)] have "grows st ((a @ b @ [(c, published ?s)]) @ new) st'" by simp
      then show ?thesis using loop s b(2) by (intro exI [of _ st'] exI [of _ "(a @ b @ [(c, published ?s)]) @ new"]) auto
    qed
  qed
qed

text \<open>Stopped for real: a signal was sent while the event was published.\<close>

definition stopped_with :: "published \<Rightarrow> rt_trace \<Rightarrow> bool" where
  "stopped_with p new \<longleftrightarrow> snd ` set new \<subseteq> {p} \<and> (\<exists>x \<in> set new. is_signal x)"

lemma break_point_stops:
  assumes "attentive n w"
  shows "\<exists>st' new. DYNINSTbreakPoint False w st = Inr st' \<and> core st' = core st \<and> rt_trace st' = rt_trace st @ new
    \<and> stopped_with (published st) new"
  using break_loop_returns [OF assms, of "st\<lparr>break_point_event := 1\<rparr>"]
  by (auto simp: DYNINSTbreakPoint_def grows_def stopped_with_def)

definition reported :: "rt_state \<Rightarrow> fault + rt_state \<Rightarrow> published \<Rightarrow> published \<Rightarrow> bool" where
  "reported st r during after \<longleftrightarrow> (\<exists>st' new. r = Inr st' \<and> rt_trace st' = rt_trace st @ new \<and> stopped_with during new
     \<and> published st' = after \<and> lock_free (trace_lock st'))"

lemma report_event_stops:
  assumes w: "attentive n w" and l: "lock_free (trace_lock st)" "thread_id me"
    and p: "publish (published st) = during" "cleanup during = after"
  shows "reported st (report_event me publish (DYNINSTbreakPoint False w) cleanup st) during after"
proof -
  let ?s = "st\<lparr>trace_lock := (trace_lock st)\<lparr>mutex := 1, holder := me\<rparr>, published := publish (published st)\<rparr>"
  obtain st' new where s: "DYNINSTbreakPoint False w ?s = Inr st'" "core st' = core ?s" "rt_trace st' = rt_trace ?s @ new"
      "stopped_with (published ?s) new"
    using break_point_stops [OF w] by blast
  then show ?thesis using core_fields(2) [OF s(2)] p
    by (simp add: report_event_def reported_def tc_lock_lock_free [OF l])
qed


definition nothing_published :: published where
  "nothing_published = \<lparr>event_id = DSE_undefined, arg1 = 0, arg2 = 0, arg3 = 0\<rparr>"

definition rt_start :: rt_state where
  "rt_start = \<lparr>trace_lock = DECLARE_DYNINST_LOCK, published = nothing_published, break_point_event = 0, failed_breakpoint = False,
     has_tkill = True, gettid_not_valid = False, bus_action = \<lparr>sa_handler = Handler 0, sa_rest = 0\<rparr>,
     target_cache = replicate 128 (0, 0), cacheLRUflags = replicate 128 1, reentrant = False, untranslated_entries = 0, rt_trace = []\<rparr>"

text \<open>A mutator that lets the process go on at the second signal.\<close>

definition second_signal :: rt_world where
  "second_signal tr = \<lparr>answer_ret = 0, answer_nosys = False, answer_event = if 2 \<le> signals tr then Some 0 else None, answer_handled = False\<rparr>"

lemma second_signal_attentive: "attentive 1 second_signal"
  by (auto simp: attentive_def second_signal_def signals_def)


text \<open>The result of \<^verbatim>\<open>tc_lock_lock\<close> is ignored: an event inside of which the same thread reports another (from a signal handler, say) goes
  on without the lock.\<close>

lemma event_inside_event_unlocks:
  assumes "attentive n w" "trace_lock st = \<lparr>mutex = 1, holder = me\<rparr>"
  shows "\<exists>st'. DYNINST_instExitEntry False w me a st = Inr st' \<and> lock_free (trace_lock st')"
proof -
  obtain st' where "DYNINSTbreakPoint False w (st\<lparr>trace_lock := \<lparr>mutex = 1, holder = me\<rparr>,
      published := (published st)\<lparr>event_id := DSE_exitEntry, arg1 := a\<rparr>\<rparr>) = Inr st'"
    using break_point_stops [OF assms(1)] by blast
  then show ?thesis using assms(2) by (simp add: DYNINST_instExitEntry_def report_event_def tc_lock_lock_again)
qed

subsection \<open>The cache of targets keeps the two last of each set\<close>

text \<open>The content of a set, the one used last first.\<close>

definition cache_set :: "rt_state \<Rightarrow> nat \<Rightarrow> u64 list" where
  "cache_set st i = (let (way0, way1) = target_cache st ! i in if cacheLRUflags st ! i = 0 then [way0, way1] else [way1, way0])"

definition cache_ok :: "rt_state \<Rightarrow> bool" where
  "cache_ok st \<longleftrightarrow> length (target_cache st) = 128 \<and> length (cacheLRUflags st) = 128"

lemma cache_index_less: "cache_index x < 128"
proof -
  have "x mod 128 < 128" by (rule word_mod_less_divisor) simp
  then show ?thesis by (simp add: cache_index_def word_less_nat_alt)
qed

definition lru_step :: "u64 \<Rightarrow> u64 list \<Rightarrow> u64 list" where
  "lru_step x c = take 2 (x # remove1 x c)"

lemma cacheLookup_set:
  assumes ok: "cache_ok st"
  shows "fst (cacheLookup x st) \<longleftrightarrow> x \<in> set (cache_set st (cache_index x))" "cache_ok (snd (cacheLookup x st))"
    "cache_set (snd (cacheLookup x st)) i = (if i = cache_index x then lru_step x (cache_set st i) else cache_set st i)"
proof -
  obtain a b where w: "target_cache st ! cache_index x = (a, b)" by fastforce
  have i: "cache_index x < length (target_cache st)" "cache_index x < length (cacheLRUflags st)"
    using ok cache_index_less [of x] by (simp_all add: cache_ok_def)
  show "fst (cacheLookup x st) \<longleftrightarrow> x \<in> set (cache_set st (cache_index x))" by (auto simp: cacheLookup_def cache_set_def w Let_def)
  show "cache_ok (snd (cacheLookup x st))" using ok by (simp add: cacheLookup_def cache_ok_def w Let_def)
  show "cache_set (snd (cacheLookup x st)) i = (if i = cache_index x then lru_step x (cache_set st i) else cache_set st i)"
    using i w by (cases "i = cache_index x"; cases "x = a"; cases "x = b") (simp_all add: cacheLookup_def cache_set_def lru_step_def Let_def)
qed

fun lookups :: "u64 list \<Rightarrow> rt_state \<Rightarrow> rt_state" where
  "lookups [] st = st"
| "lookups (x # xs) st = lookups xs (snd (cacheLookup x st))"

lemma lookups_append: "lookups (xs @ ys) st = lookups ys (lookups xs st)"
  by (induction xs arbitrary: st) auto

lemma lookups_ok: "cache_ok st \<Longrightarrow> cache_ok (lookups xs st)"
  by (induction xs arbitrary: st) (auto simp: cacheLookup_set)

lemma lookups_set:
  "cache_ok st \<Longrightarrow> cache_set (lookups xs st) i = fold lru_step (filter (\<lambda>x. cache_index x = i) xs) (cache_set st i)"
  by (induction xs arbitrary: st) (auto simp: cacheLookup_set)

lemma lru_never: "x \<notin> set zs \<Longrightarrow> x \<notin> set c \<Longrightarrow> x \<notin> set (fold lru_step zs c)"
proof (induction zs arbitrary: c)
  case (Cons z zs)
  moreover have "set (lru_step z c) \<subseteq> insert z (set c)"
    unfolding lru_step_def by (rule order_trans [OF set_take_subset]) (simp add: notin_set_remove1 set_remove1_subset subset_insertI2)
  ultimately show ?case by auto
qed simp

lemma lru_second: "x \<notin> set zs \<Longrightarrow> z \<noteq> x \<Longrightarrow> x \<in> set (fold lru_step zs [z, x]) \<longleftrightarrow> set zs \<subseteq> {z}"
proof (induction zs)
  case (Cons y zs)
  show ?case
  proof (cases "y = z")
    case True
    then show ?thesis using Cons by (simp add: lru_step_def)
  next
    case False
    then have "lru_step y [z, x] = [y, z]" using Cons.prems by (simp add: lru_step_def)
    then show ?thesis using lru_never [of x zs "[y, z]"] Cons.prems False by simp
  qed
qed simp

lemma lru_hit:
  assumes "x \<notin> set zs" "c \<noteq> []"
  shows "x \<in> set (fold lru_step zs (lru_step x c)) \<longleftrightarrow> card (set zs) \<le> 1"
proof (cases zs)
  case Nil
  then show ?thesis by (simp add: lru_step_def)
next
  case (Cons z rest)
  obtain d where "lru_step x c = x # d" "length d \<le> 1" by (auto simp: lru_step_def)
  then have "lru_step z (lru_step x c) = [z, x]" using assms(1) Cons by (cases d) (auto simp: lru_step_def)
  then have "x \<in> set (fold lru_step zs (lru_step x c)) \<longleftrightarrow> set rest \<subseteq> {z}"
    using lru_second [of x rest z] assms(1) Cons by auto
  also have "\<dots> \<longleftrightarrow> card (set zs) \<le> 1" using Cons by (auto simp: card_le_Suc0_iff_eq)
  finally show ?thesis .
qed

text \<open>C25: The cache is least-recently-used within each of its sets: a value that was looked up is found again exactly when at most one other
  value of its set was looked up since then, and a value that was never looked up is not found unless it was there at the start.
\<close>

theorem cache_is_lru:
  assumes "cache_ok st"
  shows "(x \<notin> set zs \<longrightarrow> (fst (cacheLookup x (lookups (ys @ x # zs) st)) \<longleftrightarrow> card {z \<in> set zs. cache_index z = cache_index x} \<le> 1))
    \<and> (x \<notin> set ys \<and> fst (cacheLookup x (lookups ys st)) \<longrightarrow> x \<in> set (cache_set st (cache_index x)))"
proof -
  let ?same = "filter (\<lambda>z. cache_index z = cache_index x)"
  have "cache_set (lookups ys st) i \<noteq> []" for i by (simp add: cache_set_def split: prod.split)
  then have "x \<in> set (fold lru_step (?same zs) (lru_step x (cache_set (lookups ys st) (cache_index x)))) \<longleftrightarrow> card (set (?same zs)) \<le> 1"
    if "x \<notin> set zs" using that by (intro lru_hit) auto
  then show ?thesis
    using assms lookups_ok [OF assms] lru_never [of x "?same ys" "cache_set st (cache_index x)"]
    by (auto simp: lookups_append cacheLookup_set lookups_set lookups_ok)
qed

theorem cache_is_lru_witness:
  "fst (cacheLookup 1 (lookups [1, 129, 2, 129] rt_start)) \<and> \<not> fst (cacheLookup 1 (lookups [1, 129, 2, 257] rt_start))"
proof -
  have "cache_ok rt_start" by (simp add: cache_ok_def rt_start_def)
  moreover have "{z \<in> {129, 2, 129 :: u64}. cache_index z = cache_index 1} = {129}" "{z \<in> {129, 2, 257 :: u64}. cache_index z = cache_index 1} = {129, 257}"
    by (auto simp: cache_index_def)
  ultimately show ?thesis
    using cache_is_lru [of rt_start 1 "[129, 2, 129]" "[]"] cache_is_lru [of rt_start 1 "[129, 2, 257]" "[]"] by simp
qed

subsection \<open>Stopping a thread\<close>

lemma cacheLookup_frame [simp]:
  "rt_trace (snd (cacheLookup x st)) = rt_trace st" "published (snd (cacheLookup x st)) = published st"
  "trace_lock (snd (cacheLookup x st)) = trace_lock st" "reentrant (snd (cacheLookup x st)) = reentrant st"
  "untranslated_entries (snd (cacheLookup x st)) = untranslated_entries st"
  by (simp_all add: cacheLookup_def Let_def split: prod.split)

lemma cache_set_upd [simp]:
  "cache_set (st\<lparr>trace_lock := l\<rparr>) i = cache_set st i" "cache_set (st\<lparr>reentrant := b\<rparr>) i = cache_set st i"
  "cache_set (st\<lparr>published := p\<rparr>) i = cache_set st i"
  by (simp_all add: cache_set_def)

lemma cache_set_core: "core st' = core st \<Longrightarrow> cache_set st' i = cache_set st i"
  using core_fields(3,4) [of st' st] by (simp add: cache_set_def)

lemma flag_bit: "flags AND (1 :: u64) \<noteq> 0 \<Longrightarrow> flags AND 3 \<noteq> 0"
proof
  assume a: "flags AND 1 \<noteq> 0" "flags AND 3 = 0"
  have "flags AND 1 = (flags AND 3) AND 1" by (rule bit_word_eqI) (auto simp: bit_simps)
  then show False using a(1) unfolding a(2) by simp
qed

definition stop_event :: "u64 \<Rightarrow> u64 \<Rightarrow> u64 \<Rightarrow> u64 \<Rightarrow> published" where
  "stop_event pointAddr callBackID flags calculation =
     \<lparr>event_id = DSE_stopThread, arg1 = pointAddr, arg2 = if flags AND 6 \<noteq> 0 then - callBackID else callBackID, arg3 = calculation\<rparr>"

definition cached :: "u64 \<Rightarrow> u64 \<Rightarrow> rt_state \<Rightarrow> bool" where
  "cached flags calculation st \<longleftrightarrow> flags AND 1 \<noteq> 0 \<and> calculation \<in> set (cache_set st (cache_index calculation))"

text \<open>What a call does: the cache is consulted and brought up to date when the flags ask for it, the mutator is told unless it may be
  spared, and the lock and the mark against reentrance are given back.\<close>

definition thread_stopped :: "u64 \<Rightarrow> u64 \<Rightarrow> published \<Rightarrow> rt_state \<Rightarrow> rt_trace \<Rightarrow> rt_state \<Rightarrow> bool" where
  "thread_stopped flags calculation e st new st' \<longleftrightarrow>
     rt_trace st' = rt_trace st @ new \<and> lock_free (trace_lock st') \<and> \<not> reentrant st' \<and> untranslated_entries st' = untranslated_entries st
     \<and> (if cached flags calculation st then new = [] \<and> published st' = published st
        else stopped_with e new \<and> published st' = nothing_published)
     \<and> (\<forall>i. cache_set st' i = (if flags AND 3 \<noteq> 0 \<and> i = cache_index calculation then lru_step calculation (cache_set st i) else cache_set st i))"

lemma stop_thread_effect:
  assumes w: "attentive n w" and l: "lock_free (trace_lock st)" "thread_id me" and st: "\<not> reentrant st" "cache_ok st"
  shows "\<exists>st' new. DYNINST_stopThread False w me pointAddr callBackID flags calculation st = Inr st'
    \<and> thread_stopped flags calculation (stop_event pointAddr callBackID flags calculation) st new st'"
proof -
  define s1 where "s1 = st\<lparr>reentrant := True, trace_lock := (trace_lock st)\<lparr>mutex := 1, holder := me\<rparr>\<rparr>"
  define c where "c = (if flags AND 3 \<noteq> 0 then cacheLookup calculation s1 else (False, s1))"
  have ok: "cache_ok s1" using st(2) by (simp add: cache_ok_def s1_def)
  have s1: "cache_set s1 i = cache_set st i" for i by (simp add: s1_def)
  have stop: "flags AND 1 = 0 \<or> \<not> fst c \<longleftrightarrow> \<not> cached flags calculation st"
    using flag_bit [of flags] cacheLookup_set(1) [OF ok, of calculation] by (auto simp: cached_def c_def s1)
  have cache: "cache_set (snd c) i = (if flags AND 3 \<noteq> 0 \<and> i = cache_index calculation then lru_step calculation (cache_set st i) else cache_set st i)" for i
    using cacheLookup_set(3) [OF ok, of calculation i] unfolding s1 c_def
    by (cases "i = cache_index calculation") (simp_all add: s1)
  have frame: "rt_trace (snd c) = rt_trace st" "published (snd c) = published st" "untranslated_entries (snd c) = untranslated_entries st"
    by (simp_all add: c_def s1_def)
  have run: "DYNINST_stopThread False w me pointAddr callBackID flags calculation st =
      and_then (if flags AND 1 = 0 \<or> \<not> fst c
                then and_then (DYNINSTbreakPoint False w ((snd c)\<lparr>published := stop_event pointAddr callBackID flags calculation\<rparr>)) (\<lambda>st4.
                       Inr (st4\<lparr>published := nothing_published\<rparr>)) else Inr (snd c)) (\<lambda>st5.
        Inr (st5\<lparr>trace_lock := tc_lock_unlock (trace_lock st5), reentrant := False\<rparr>))"
    using st(1) by (simp add: DYNINST_stopThread_def tc_lock_lock_free [OF l] c_def s1_def stop_event_def nothing_published_def
        case_prod_unfold Let_def)
  show ?thesis
  proof (cases "cached flags calculation st")
    case True
    then show ?thesis using run stop frame cache
      by (intro exI [of _ "(snd c)\<lparr>trace_lock := tc_lock_unlock (trace_lock (snd c)), reentrant := False\<rparr>"] exI [of _ "[]"])
        (simp add: thread_stopped_def)
  next
    case False
    let ?s = "(snd c)\<lparr>published := stop_event pointAddr callBackID flags calculation\<rparr>"
    obtain st' new where s: "DYNINSTbreakPoint False w ?s = Inr st'" "core st' = core ?s" "rt_trace st' = rt_trace ?s @ new"
        "stopped_with (published ?s) new"
      using break_point_stops [OF w] by blast
    then show ?thesis using run stop False frame cache cache_set_core [OF s(2)] core_fields(6) [OF s(2)]
      by (intro exI [of _ "st'\<lparr>published := nothing_published, trace_lock := tc_lock_unlock (trace_lock st'), reentrant := False\<rparr>"] exI [of _ new])
        (simp add: thread_stopped_def)
  qed
qed

text \<open>C26: A call that is not nested in another ends.  The mutator is told about the point, the callback (with its sign turned when the value is a target or return address)
  and the value, unless the flags allow the cache and the value is there; the lock and the mark against reentrance are given back, and the
  set of the cache is updated.  A call that leaves the object always tells the mutator.
\<close>

theorem stop_thread_reports:
  assumes "attentive n w" "lock_free (trace_lock st)" "thread_id me" "\<not> reentrant st" "cache_ok st"
  shows "(\<exists>st' new. DYNINST_stopThread False w me pointAddr callBackID flags calculation st = Inr st'
      \<and> thread_stopped flags calculation (stop_event pointAddr callBackID flags calculation) st new st')
    \<and> (calculation \<notin> {objStart..<objEnd} \<longrightarrow>
        (\<exists>st' new. DYNINST_stopInterProc False w me pointAddr callBackID flags calculation objStart objEnd st = Inr st'
          \<and> rt_trace st' = rt_trace st @ new
          \<and> stopped_with (stop_event pointAddr callBackID (ucast ((ucast flags :: u32) AND 0xfffffffe)) calculation) new))"
proof (intro conjI impI)
  show "\<exists>st' new. DYNINST_stopThread False w me pointAddr callBackID flags calculation st = Inr st'
      \<and> thread_stopped flags calculation (stop_event pointAddr callBackID flags calculation) st new st'"
    by (rule stop_thread_effect [OF assms])
next
  let ?flags = "ucast ((ucast flags :: u32) AND 0xfffffffe) :: u64"
  assume out: "calculation \<notin> {objStart..<objEnd}"
  have "?flags AND 1 = 0"
    by (rule bit_word_eqI) (auto simp: bit_simps bit_1_iff intro!: gr0I)
  then have "\<not> cached ?flags calculation st" by (simp add: cached_def)
  moreover have "DYNINST_stopInterProc False w me pointAddr callBackID flags calculation objStart objEnd st
      = DYNINST_stopThread False w me pointAddr callBackID ?flags calculation st"
    using out by (auto simp: DYNINST_stopInterProc_def not_le not_less)
  ultimately show "\<exists>st' new. DYNINST_stopInterProc False w me pointAddr callBackID flags calculation objStart objEnd st = Inr st'
          \<and> rt_trace st' = rt_trace st @ new \<and> stopped_with (stop_event pointAddr callBackID ?flags calculation) new"
    using stop_thread_effect [OF assms, of pointAddr callBackID ?flags calculation] by (auto simp: thread_stopped_def)
qed

theorem stop_thread_reports_witness:
  "\<exists>st' new. DYNINST_stopThread False second_signal 7 0x400123 9 3 0x401000 rt_start = Inr st'
     \<and> rt_trace st' = new \<and> stopped_with \<lparr>event_id = DSE_stopThread, arg1 = 0x400123, arg2 = - 9, arg3 = 0x401000\<rparr> new"
proof -
  have c: "cache_ok rt_start" "rt_trace rt_start = []" "lock_free (trace_lock rt_start)" "\<not> reentrant rt_start" "thread_id 7"
    by (simp_all add: cache_ok_def rt_start_def thread_id_def)
  have "\<not> cached 3 0x401000 rt_start" by (simp add: cached_def cache_index_def cache_set_def rt_start_def)
  then show ?thesis using stop_thread_reports [OF second_signal_attentive c(3,5,4,1), of "0x400123" 9 3 "0x401000" 0 0] c(2)
    by (auto simp: thread_stopped_def stop_event_def)
qed

text \<open>Code that runs untranslated is reported when it is entered from translated code and when it is left for good.\<close>

lemma shadow_outermost:
  assumes "attentive n w" "lock_free (trace_lock st)" "thread_id me" "\<not> reentrant st" "cache_ok st" "untranslated_entries st = int d"
  shows "\<exists>st' new. RThandleShadow False w me dir pointAddr callbackID flags st = Inr st'
    \<and> untranslated_entries st' = (if (ucast dir :: u32) = 1 then int d + 1 else int (d - 1))
    \<and> rt_trace st' = rt_trace st @ new
    \<and> (new = [] \<longleftrightarrow> (if (ucast dir :: u32) = 1 then 0 < d \<or> cached flags 1 st else 1 < d \<or> cached flags 0 st))"
proof -
  have neq: "stopped_with e new \<Longrightarrow> new \<noteq> []" for e new by (auto simp: stopped_with_def)
  define s where "s = (if 0 < d then st\<lparr>untranslated_entries := int d - 1\<rparr> else st)"
  have s: "lock_free (trace_lock s)" "\<not> reentrant s" "cache_ok s" "rt_trace s = rt_trace st" "untranslated_entries s = int (d - 1)"
      "cached flags x s = cached flags x st" for x
    using assms(2,4-6) by (auto simp: s_def cache_ok_def cached_def cache_set_def)
  show ?thesis
    using stop_thread_effect [OF assms(1-5), of pointAddr callbackID flags 1]
      stop_thread_effect [OF assms(1) s(1) assms(3) s(2,3), of pointAddr callbackID flags 0] assms(6) s(4-6) neq
    by (cases "(ucast dir :: u32) = 1"; cases "d = 0"; cases "d = 1")
      (auto simp: RThandleShadow_def s_def thread_stopped_def Let_def split: if_splits)
qed

end
