(* ===== verification/RT_Init.thy ===== *)
theory RT_Init
  imports RT_Events
begin

section \<open>dyninstAPI_RT: start of the run-time library\<close>

text \<open>
  \<^verbatim>\<open>libdyninstAPI_RT_init\<close> runs when the library is loaded into a process that is being instrumented, \<^verbatim>\<open>DYNINSTBaseInit\<close> in a
  rewritten binary.  They set up the lock of the events, the table of thread indices, the guards that keep inserted
  code from running inside inserted code (an array with one word per thread, 1 for ``may run''), and the cache.
  \<open>tramp_guards\<close> is the array \<^verbatim>\<open>DYNINST_tramp_guards\<close> points to: \<open>None\<close> for the static array.
\<close>

record rt_lib =
  lib_threads :: rt_threads
  lib_reports :: rt_state
  default_tramp_guards :: "u32 list"
  tramp_guards :: "u32 list option"
  hasInitialized :: bool
  trap_handler_set :: bool
  init_called :: bool
  made_exec :: "(u64 \<times> u64) list"

definition guards_of :: "rt_lib \<Rightarrow> u32 list" where
  "guards_of lib = (case tramp_guards lib of None \<Rightarrow> default_tramp_guards lib | Some xs \<Rightarrow> xs)"

definition set_guards :: "nat \<Rightarrow> rt_lib \<Rightarrow> fault + rt_lib" where
  "set_guards n lib =
     (if length (guards_of lib) < n then Inl Out_of_bounds
      else let xs = replicate n 1 @ drop n (guards_of lib)
           in Inr (case tramp_guards lib of None \<Rightarrow> lib\<lparr>default_tramp_guards := xs\<rparr> | Some _ \<Rightarrow> lib\<lparr>tramp_guards := Some xs\<rparr>))"

text \<open>The number of bytes is computed from a 32-bit sum; \<open>malloc\<close> gives the block of so many words, or nothing.\<close>

definition initTrampGuards :: "(nat \<Rightarrow> u32 list option) \<Rightarrow> u32 \<Rightarrow> rt_lib \<Rightarrow> fault + rt_lib" where
  "initTrampGuards malloc maxthreads lib =
     (if maxthreads \<le> MAX_THREADS then set_guards (unat maxthreads) (lib\<lparr>tramp_guards := None\<rparr>)
      else case malloc (unat (maxthreads + 1)) of
             None \<Rightarrow> Inl Null_pointer
           | Some xs \<Rightarrow> set_guards (unat maxthreads) (lib\<lparr>tramp_guards := Some xs\<rparr>))"

definition init_index_list :: "(nat \<Rightarrow> u64 list option) \<Rightarrow> (nat \<Rightarrow> u64 list option) \<Rightarrow> rt_lib \<Rightarrow> fault + rt_lib" where
  "init_index_list malloc_indices malloc_tids lib =
     and_then (DYNINST_initialize_index_list malloc_indices malloc_tids (lib_threads lib)) (\<lambda>t. Inr (lib\<lparr>lib_threads := t\<rparr>))"

definition DYNINSTBaseInit :: "(nat \<Rightarrow> u64 list option) \<Rightarrow> (nat \<Rightarrow> u64 list option) \<Rightarrow> rt_lib \<Rightarrow> fault + rt_lib" where
  "DYNINSTBaseInit malloc_indices malloc_tids lib =
     and_then (set_guards (unat MAX_THREADS + 1)
       (lib\<lparr>lib_threads := (lib_threads lib)\<lparr>max_num_threads := MAX_THREADS\<rparr>, tramp_guards := None\<rparr>)) (\<lambda>lib1.
     and_then (init_index_list malloc_indices malloc_tids (lib1\<lparr>trap_handler_set := True\<rparr>)) (\<lambda>lib2.
     Inr (lib2\<lparr>hasInitialized := True, lib_reports := (lib_reports lib2)\<lparr>untranslated_entries := 0\<rparr>\<rparr>)))"

text \<open>The two static heaps become executable, from the page they begin in; \<open>pageSize\<close> is the result of \<^verbatim>\<open>sysconf\<close>.\<close>

definition exec_range :: "u64 \<Rightarrow> u64 \<Rightarrow> u64 \<Rightarrow> u64 \<times> u64" where
  "exec_range pageSize heap len = (let aligned = heap AND NOT (pageSize - 1) in (aligned, heap - aligned + len))"

definition mark_heaps_exec :: "u64 \<Rightarrow> u64 \<Rightarrow> u64 \<Rightarrow> rt_lib \<Rightarrow> rt_lib" where
  "mark_heaps_exec pageSize anyHeap lowmemHeap lib =
     (let page = (if pageSize = 0 \<or> pageSize = - 1 then 1024 * 16 else pageSize)
      in lib\<lparr>made_exec := made_exec lib @ [exec_range page anyHeap (16 * 1024 * 1024), exec_range page lowmemHeap (512 * 1024)]\<rparr>)"

definition DYNINSTinit ::
  "(nat \<Rightarrow> u32 list option) \<Rightarrow> (nat \<Rightarrow> u64 list option) \<Rightarrow> (nat \<Rightarrow> u64 list option) \<Rightarrow> u64 \<Rightarrow> u64 \<Rightarrow> u64 \<Rightarrow> rt_lib \<Rightarrow> fault + rt_lib" where
  "DYNINSTinit malloc_guards malloc_indices malloc_tids pageSize anyHeap lowmemHeap lib =
     (let lib1 = mark_heaps_exec pageSize anyHeap lowmemHeap lib;
          lib2 = lib1\<lparr>lib_reports := (lib_reports lib1)\<lparr>trace_lock := tc_lock_init (trace_lock (lib_reports lib1))\<rparr>\<rparr>;
          lib3 = (if max_num_threads (lib_threads lib2) < MAX_THREADS
                  then lib2\<lparr>lib_threads := (lib_threads lib2)\<lparr>max_num_threads := MAX_THREADS\<rparr>\<rparr> else lib2);
          lib4 = lib3\<lparr>hasInitialized := True\<rparr>
      in and_then (initTrampGuards malloc_guards (max_num_threads (lib_threads lib4)) lib4) (\<lambda>lib5.
         and_then (init_index_list malloc_indices malloc_tids lib5) (\<lambda>lib6.
         Inr (lib6\<lparr>lib_reports := (lib_reports lib6)\<lparr>target_cache := replicate 128 (0, 0), cacheLRUflags := replicate 128 1\<rparr>\<rparr>))))"

definition libdyninstAPI_RT_init ::
  "(nat \<Rightarrow> u32 list option) \<Rightarrow> (nat \<Rightarrow> u64 list option) \<Rightarrow> (nat \<Rightarrow> u64 list option) \<Rightarrow> u64 \<Rightarrow> u64 \<Rightarrow> u64 \<Rightarrow> rt_lib \<Rightarrow> fault + rt_lib" where
  "libdyninstAPI_RT_init malloc_guards malloc_indices malloc_tids pageSize anyHeap lowmemHeap lib =
     (if init_called lib then Inr lib
      else DYNINSTinit malloc_guards malloc_indices malloc_tids pageSize anyHeap lowmemHeap (lib\<lparr>init_called := True\<rparr>))"

subsection \<open>What they leave\<close>

definition blocks_ok :: "(nat \<Rightarrow> u32 list option) \<Rightarrow> bool" where
  "blocks_ok m \<longleftrightarrow> (\<forall>k. \<exists>b. m k = Some b \<and> length b = k)"

text \<open>The number of threads the library provides for.\<close>

definition threads_for :: "rt_lib \<Rightarrow> u32" where
  "threads_for lib = max MAX_THREADS (max_num_threads (lib_threads lib))"

definition lib_fresh :: "rt_lib \<Rightarrow> bool" where
  "lib_fresh lib \<longleftrightarrow> unat (threads_for lib) * 5 div 4 < 2 ^ 31 \<and> \<not> init_index_done (lib_threads lib) \<and> lock_free (index_lock (lib_threads lib))
     \<and> length (default_tramp_guards lib) = 33 \<and> \<not> init_called lib"

lemma set_guards_ok:
  assumes "n \<le> length (guards_of lib)"
  shows "\<exists>lib'. set_guards n lib = Inr lib' \<and> guards_of lib' = replicate n 1 @ drop n (guards_of lib)
    \<and> lib_threads lib' = lib_threads lib \<and> lib_reports lib' = lib_reports lib \<and> made_exec lib' = made_exec lib \<and> init_called lib' = init_called lib"
  using assms by (auto simp: set_guards_def guards_of_def Let_def split: option.split)

lemma init_guards_ok:
  assumes "blocks_ok malloc" "length (default_tramp_guards lib) = 33" "n \<noteq> - 1"
  shows "\<exists>lib' old. initTrampGuards malloc n lib = Inr lib' \<and> length old = unat n + 1 \<and> take (unat n + 1) (guards_of lib') = replicate (unat n) 1 @ [last old]
    \<and> (n = MAX_THREADS \<longrightarrow> old = default_tramp_guards lib)
    \<and> lib_threads lib' = lib_threads lib \<and> lib_reports lib' = lib_reports lib \<and> made_exec lib' = made_exec lib \<and> init_called lib' = init_called lib"
proof (cases "n \<le> MAX_THREADS")
  case True
  let ?lib = "lib\<lparr>tramp_guards := None\<rparr>"
  have n: "unat n \<le> 32" using True by (simp add: word_le_nat_alt)
  then obtain lib' where l: "set_guards (unat n) ?lib = Inr lib'" "guards_of lib' = replicate (unat n) 1 @ drop (unat n) (guards_of ?lib)"
      "lib_threads lib' = lib_threads lib" "lib_reports lib' = lib_reports lib" "made_exec lib' = made_exec lib" "init_called lib' = init_called lib"
    using set_guards_ok [of "unat n" ?lib] assms(2) by (auto simp: guards_of_def)
  let ?old = "take (unat n + 1) (default_tramp_guards lib)"
  have g: "guards_of ?lib = default_tramp_guards lib" by (simp add: guards_of_def)
  have "take (Suc 0) (drop (unat n) (default_tramp_guards lib)) = [last ?old]"
    using n assms(2) by (simp add: take_Suc_conv_app_nth hd_drop_conv_nth take_Suc)
  then show ?thesis using True l n assms(2) unfolding g
    by (intro exI [of _ lib'] exI [of _ ?old]) (auto simp: initTrampGuards_def)
next
  case False
  obtain b where b: "malloc (unat (n + 1)) = Some b" "length b = unat (n + 1)" using assms(1) by (auto simp: blocks_ok_def)
  have s: "unat (n + 1) = unat n + 1" using assms(3) unatSuc [of n] by (metis add.commute add_uminus_conv_diff eq_iff_diff_eq_0 Suc_eq_plus1 minus_minus)
  let ?lib = "lib\<lparr>tramp_guards := Some b\<rparr>"
  obtain lib' where l: "set_guards (unat n) ?lib = Inr lib'" "guards_of lib' = replicate (unat n) 1 @ drop (unat n) b"
      "lib_threads lib' = lib_threads lib" "lib_reports lib' = lib_reports lib" "made_exec lib' = made_exec lib" "init_called lib' = init_called lib"
    using set_guards_ok [of "unat n" ?lib] b s by (auto simp: guards_of_def)
  have "drop (unat n) b = [last b]" 
    using Cons_nth_drop_Suc [of "unat n" b] b s last_conv_nth [of b] by force
  then show ?thesis using False l b s by (intro exI [of _ lib'] exI [of _ b]) (auto simp: initTrampGuards_def)
qed

lemma exec_range_covers:
  assumes "unat heap + unat len < 2 ^ 64" "heap \<le> x" "unat x < unat heap + unat len"
  shows "fst (exec_range page heap len) \<le> x" "unat x < unat (fst (exec_range page heap len)) + unat (snd (exec_range page heap len))"
proof -
  let ?a = "heap AND NOT (page - 1)"
  have a: "?a \<le> heap" by (rule word_and_le2)
  then show "fst (exec_range page heap len) \<le> x" using assms(2) by (simp add: exec_range_def Let_def)
  have "unat (heap - ?a) = unat heap - unat ?a" using a by (simp add: unat_sub word_le_nat_alt)
  moreover have "unat ?a \<le> unat heap" using a by (simp add: word_le_nat_alt)
  ultimately have "unat ?a + unat (heap - ?a + len) = unat heap + unat len" using assms(1) by (subst unat_add_u64) auto
  then show "unat x < unat (fst (exec_range page heap len)) + unat (snd (exec_range page heap len))"
    using assms(3) by (simp add: exec_range_def Let_def)
qed

text \<open>The library before the guards are set.\<close>

definition half_ready :: "u64 \<Rightarrow> u64 \<Rightarrow> u64 \<Rightarrow> rt_lib \<Rightarrow> rt_lib" where
  "half_ready pageSize anyHeap lowmemHeap lib = (mark_heaps_exec pageSize anyHeap lowmemHeap (lib\<lparr>init_called := True\<rparr>))
     \<lparr>lib_reports := (lib_reports lib)\<lparr>trace_lock := tc_lock_init (trace_lock (lib_reports lib))\<rparr>,
      lib_threads := (lib_threads lib)\<lparr>max_num_threads := threads_for lib\<rparr>, hasInitialized := True\<rparr>"

lemma RT_init_half_ready:
  assumes "\<not> init_called lib"
  shows "libdyninstAPI_RT_init malloc_guards malloc_indices malloc_tids pageSize anyHeap lowmemHeap lib =
    and_then (initTrampGuards malloc_guards (threads_for lib) (half_ready pageSize anyHeap lowmemHeap lib)) (\<lambda>lib5.
    and_then (init_index_list malloc_indices malloc_tids lib5) (\<lambda>lib6.
    Inr (lib6\<lparr>lib_reports := (lib_reports lib6)\<lparr>target_cache := replicate 128 (0, 0), cacheLRUflags := replicate 128 1\<rparr>\<rparr>)))"
proof -
  have "threads_for lib = (if max_num_threads (lib_threads lib) < MAX_THREADS then MAX_THREADS else max_num_threads (lib_threads lib))"
    by (auto simp: threads_for_def max_def)
  then show ?thesis using assms
    by (cases "max_num_threads (lib_threads lib) < MAX_THREADS")
      (simp_all add: libdyninstAPI_RT_init_def DYNINSTinit_def half_ready_def mark_heaps_exec_def Let_def)
qed

lemma RT_init_returns:
  assumes fresh: "lib_fresh lib" and mem: "blocks_ok malloc_guards" "malloc_ok malloc_indices" "malloc_ok malloc_tids"
  shows "\<exists>lib' old. libdyninstAPI_RT_init malloc_guards malloc_indices malloc_tids pageSize anyHeap lowmemHeap lib = Inr lib'
    \<and> table_ok (lib_threads lib') \<and> index_map (lib_threads lib') = Map.empty \<and> max_num_threads (lib_threads lib') = threads_for lib
    \<and> trace_lock (lib_reports lib') = tc_lock_init (trace_lock (lib_reports lib))
    \<and> target_cache (lib_reports lib') = replicate 128 (0, 0) \<and> cacheLRUflags (lib_reports lib') = replicate 128 1
    \<and> take (unat (threads_for lib) + 1) (guards_of lib') = replicate (unat (threads_for lib)) 1 @ [last old]
    \<and> (threads_for lib = MAX_THREADS \<longrightarrow> old = default_tramp_guards lib)
    \<and> made_exec lib' = made_exec (mark_heaps_exec pageSize anyHeap lowmemHeap lib) \<and> init_called lib'"
proof -
  let ?lib = "half_ready pageSize anyHeap lowmemHeap lib" and ?n = "threads_for lib"
  have n: "?n \<noteq> - 1" "?n \<noteq> 0" using fresh by (auto simp: lib_fresh_def threads_for_def max_def unsigned_minus_1_eq_mask mask_eq_exp_minus_1)
  have "length (default_tramp_guards ?lib) = 33" using fresh by (simp add: half_ready_def mark_heaps_exec_def lib_fresh_def Let_def)
  from init_guards_ok [OF mem(1) this n(1)] obtain lib5 old where
    g: "initTrampGuards malloc_guards ?n ?lib = Inr lib5" "length old = unat ?n + 1"
      "take (unat ?n + 1) (guards_of lib5) = replicate (unat ?n) 1 @ [last old]" "?n = MAX_THREADS \<longrightarrow> old = default_tramp_guards ?lib"
      "lib_threads lib5 = lib_threads ?lib" "lib_reports lib5 = lib_reports ?lib" "made_exec lib5 = made_exec ?lib" "init_called lib5 = init_called ?lib"
    by blast
  have "unat (max_num_threads (lib_threads lib5)) * 5 div 4 < 2 ^ 31" "\<not> init_index_done (lib_threads lib5)" "lock_free (index_lock (lib_threads lib5))"
    using fresh by (simp_all add: g(5) half_ready_def lib_fresh_def)
  from initialize_index_list_ok [OF this mem(2,3)] obtain t where
    t: "DYNINST_initialize_index_list malloc_indices malloc_tids (lib_threads lib5) = Inr t" "table_ok t" "index_map t = Map.empty"
      "max_num_threads t = ?n" using n(2) by (auto simp: g(5) half_ready_def)
  let ?r = "lib5\<lparr>lib_threads := t, lib_reports := (lib_reports lib5)\<lparr>target_cache := replicate 128 (0, 0), cacheLRUflags := replicate 128 1\<rparr>\<rparr>"
  have "libdyninstAPI_RT_init malloc_guards malloc_indices malloc_tids pageSize anyHeap lowmemHeap lib = Inr ?r"
    using fresh g(1) t(1) by (simp add: RT_init_half_ready lib_fresh_def init_index_list_def)
  moreover have "guards_of ?r = guards_of lib5" by (simp add: guards_of_def split: option.split)
  ultimately show ?thesis using g t
    by (intro exI [of _ ?r] exI [of _ old]) (simp add: half_ready_def mark_heaps_exec_def Let_def)
qed


definition lib_loaded :: rt_lib where
  "lib_loaded = \<lparr>lib_threads = rt_threads_start 0, lib_reports = rt_start, default_tramp_guards = replicate 33 0, tramp_guards = None,
     hasInitialized = False, trap_handler_set = False, init_called = False, made_exec = []\<rparr>"

lemma lib_loaded_fresh: "lib_fresh lib_loaded" "threads_for lib_loaded = MAX_THREADS"
  by (simp_all add: lib_fresh_def lib_loaded_def threads_for_def rt_threads_start_def max_def)


text \<open>The array has one more element, for threads the library does not know (their index is the number of threads, see \<^verbatim>\<open>DYNINSTthreadIndex\<close>).
  Loading the library leaves it as it was; \<^verbatim>\<open>DYNINSTBaseInit\<close> sets it.\<close>

lemma init_forgets_last_guard:
  assumes "lib_fresh lib" "blocks_ok malloc_guards" "malloc_ok malloc_indices" "malloc_ok malloc_tids" "threads_for lib = MAX_THREADS"
    "libdyninstAPI_RT_init malloc_guards malloc_indices malloc_tids pageSize anyHeap lowmemHeap lib = Inr lib'"
  shows "guards_of lib' ! 32 = last (default_tramp_guards lib)"
proof -
  have "take 33 (guards_of lib') = replicate 32 1 @ [last (default_tramp_guards lib)]"
    using RT_init_returns [OF assms(1-4), of pageSize anyHeap lowmemHeap] assms(5,6) by auto
  from arg_cong [OF this, of "\<lambda>xs. xs ! 32"] show ?thesis by (simp add: nth_append)
qed

lemma base_init_guards:
  assumes "length (default_tramp_guards lib) = 33" "DYNINSTBaseInit malloc_indices malloc_tids lib = Inr lib'"
  shows "guards_of lib' = replicate 33 1"
  using assms by (auto simp: DYNINSTBaseInit_def set_guards_def guards_of_def init_index_list_def Let_def and_then_Inr split: if_splits)

end
