(* ===== verification/RT_Heap.thy ===== *)
theory RT_Heap
  imports Prelude
begin

section \<open>dyninstAPI_RT/RTheap.c: memory for the instrumentation\<close>

text \<open>
  The instrumented code needs memory in reach of the original code.  \<^verbatim>\<open>DYNINSTos_malloc\<close> reads the memory map of the
  process, sorts it, and tries to map a region in the gaps between two bounds; since it maps at a fixed address, a
  region that overlapped a segment would replace it.  The calls to the system are recorded; \<open>os\<close> answers the last call
  of a sequence.  The list of regions is linked through its nodes, which live in a heap.
\<close>

record dyninstmm =
  pr_vaddr :: u64
  pr_size :: u64

datatype mm_call = Mmap u64 u64 | Munmap u64 u64 | Open_zero | Close_zero u64

type_synonym mm_os = "mm_call list \<Rightarrow> u64"

definition mm_do :: "mm_os \<Rightarrow> mm_call \<Rightarrow> mm_call list \<Rightarrow> u64 \<times> mm_call list" where
  "mm_do os c tr = (os (tr @ [c]), tr @ [c])"

abbreviation (input) DYNINSTheap_align :: u64 where "DYNINSTheap_align \<equiv> 4"
abbreviation (input) DYNINSTheap_loAddr :: u64 where "DYNINSTheap_loAddr \<equiv> 0x10000"
abbreviation (input) DYNINSTheap_hiAddr :: u64 where "DYNINSTheap_hiAddr \<equiv> - 1"

definition DYNINSTheap_useMalloc :: "u64 \<Rightarrow> u64 \<Rightarrow> bool" where
  "DYNINSTheap_useMalloc lo hi = False"

definition BEG :: "dyninstmm \<Rightarrow> u64" where "BEG x = pr_vaddr x"
definition END :: "dyninstmm \<Rightarrow> u64" where "END x = pr_vaddr x + pr_size x"

definition heap_alignUp :: "u64 \<Rightarrow> u64 \<Rightarrow> u64" where
  "heap_alignUp a align = (if a mod align = 0 then a else (a div align + 1) * align)"

fun heap_checkMappings :: "dyninstmm list \<Rightarrow> fault + unit" where
  "heap_checkMappings (m # n # ms) = (if END m > BEG n then Inl Aborted else heap_checkMappings (n # ms))"
| "heap_checkMappings _ = Inr ()"

text \<open>The length is an \<^verbatim>\<open>int\<close> in these two.\<close>

definition map_region :: "mm_os \<Rightarrow> u64 \<Rightarrow> u64 \<Rightarrow> mm_call list \<Rightarrow> u64 \<times> mm_call list" where
  "map_region os a len tr =
     (let (result, tr') = mm_do os (Mmap a (scast (ucast len :: u32))) tr in (if result = - 1 then 0 else result, tr'))"

definition unmap_region :: "mm_os \<Rightarrow> u64 \<Rightarrow> u64 \<Rightarrow> mm_call list \<Rightarrow> bool \<times> mm_call list" where
  "unmap_region os a len tr =
     (let (result, tr') = mm_do os (Munmap a (scast (ucast len :: u32))) tr in (result \<noteq> - 1, tr'))"

partial_function (option) trymmap :: "mm_os \<Rightarrow> u64 \<Rightarrow> u64 \<Rightarrow> u64 \<Rightarrow> u64 \<Rightarrow> mm_call list \<Rightarrow> (u64 \<times> mm_call list) option" where
  "trymmap os len a hi inc tr =
     (if a + len \<le> hi
      then let (result, tr') = map_region os a len tr
           in if result \<noteq> 0 then Some (result, tr') else trymmap os len (a + inc) hi inc tr'
      else Some (0, tr))"

text \<open>The lowest segment above the lower bound, which is moved out of the segments before it.\<close>

function shift_lo :: "dyninstmm list \<Rightarrow> u64 \<Rightarrow> nat \<Rightarrow> u64 \<times> nat" where
  "shift_lo maps lo mlo =
     (if mlo < length maps
      then if lo < BEG (maps ! mlo) then (lo, mlo)
           else shift_lo maps (if BEG (maps ! mlo) \<le> lo \<and> lo < END (maps ! mlo) then END (maps ! mlo) else lo) (mlo + 1)
      else (lo, mlo))"
  by auto
termination by (relation "measure (\<lambda>(maps, _, mlo). length maps - mlo)") auto

declare shift_lo.simps [simp del]

text \<open>The highest one below the upper bound, from the last but down to \<open>mlo\<close>; the number is that of the segments up to
  and including it.\<close>

fun shift_hi :: "dyninstmm list \<Rightarrow> nat \<Rightarrow> u64 \<Rightarrow> nat \<Rightarrow> u64 \<times> nat" where
  "shift_hi maps mlo hi 0 = (hi, 0)"
| "shift_hi maps mlo hi (Suc k) =
     (if k < mlo then (hi, Suc k)
      else if END (maps ! k) < hi then (hi, Suc k)
      else shift_hi maps mlo (if BEG (maps ! k) \<le> hi \<and> hi \<le> END (maps ! k) then BEG (maps ! k) else hi) k)"

text \<open>What a pointer to the array of segments reads; the code also reads one element before or behind it.\<close>

definition segment_at :: "dyninstmm list \<Rightarrow> (int \<Rightarrow> dyninstmm) \<Rightarrow> int \<Rightarrow> dyninstmm" where
  "segment_at maps stray i = (if 0 \<le> i \<and> i < int (length maps) then maps ! nat i else stray i)"

fun try_gaps :: "mm_os \<Rightarrow> u64 \<Rightarrow> u64 \<Rightarrow> (u64 \<times> u64) list \<Rightarrow> mm_call list \<Rightarrow> (u64 \<times> mm_call list) option" where
  "try_gaps os len inc [] tr = Some (0, tr)"
| "try_gaps os len inc ((b, e) # gs) tr =
     (case trymmap os len b e inc tr of
        None \<Rightarrow> None
      | Some (try, tr') \<Rightarrow> if try \<noteq> 0 then Some (try, tr') else try_gaps os len inc gs tr')"

definition gaps_between :: "dyninstmm list \<Rightarrow> nat \<Rightarrow> nat \<Rightarrow> u64 \<Rightarrow> u64 \<Rightarrow> (u64 \<times> u64) list" where
  "gaps_between maps mlo mhi lo hi =
     (lo, BEG (maps ! mlo)) # map (\<lambda>p. (END (maps ! p), BEG (maps ! (p + 1)))) [mlo..<mhi] @ [(END (maps ! mhi), hi)]"

definition round_len :: "u64 \<Rightarrow> u64 \<Rightarrow> u64" where
  "round_len psize len = (if len mod psize \<noteq> 0 then (len + psize) AND NOT (psize - 1) else len)"

definition search_space ::
  "mm_os \<Rightarrow> (int \<Rightarrow> dyninstmm) \<Rightarrow> u64 \<Rightarrow> u64 \<Rightarrow> u64 \<Rightarrow> u64 \<Rightarrow> dyninstmm list \<Rightarrow> mm_call list \<Rightarrow> fault + u64 \<times> mm_call list" where
  "search_space os stray psize len lo0 hi0 maps tr =
     (let (lo, mlo) = shift_lo maps lo0 0; (hi, nhi) = shift_hi maps mlo hi0 (length maps); mhi = int nhi - 1
      in if hi \<le> lo then Inr (0, tr)
         else if hi \<le> BEG (segment_at maps stray (int mlo)) \<or> END (segment_at maps stray mhi) \<le> lo
         then or_endless (trymmap os len lo hi psize tr)
         else if \<not> (lo < BEG (segment_at maps stray (int mlo)) \<and> END (segment_at maps stray mhi) < hi) then Inl Aborted
         else or_endless (try_gaps os len psize (gaps_between maps mlo (nat mhi) lo hi) tr))"

definition constrained_mmap ::
  "mm_os \<Rightarrow> (int \<Rightarrow> dyninstmm) \<Rightarrow> u64 \<Rightarrow> u64 \<Rightarrow> u64 \<Rightarrow> u64 \<Rightarrow> dyninstmm list \<Rightarrow> mm_call list \<Rightarrow> fault + u64 \<times> mm_call list" where
  "constrained_mmap os stray psize len lo0 hi0 maps tr =
     (if lo0 > DYNINSTheap_hiAddr then Inr (0, tr)
      else let lo1 = (if lo0 < DYNINSTheap_loAddr then DYNINSTheap_loAddr else lo0);
               hi1 = (if hi0 > DYNINSTheap_hiAddr then DYNINSTheap_hiAddr else hi0);
               lo = lo1 AND NOT (psize - 1);
               hi = hi1 AND NOT (psize - 1)
           in if \<not> lo < hi then Inl Aborted
              else search_space os stray psize (round_len psize len) lo hi maps tr)"

subsection \<open>The list of regions\<close>

datatype heapType = HEAP_TYPE_UNKNOWN | HEAP_TYPE_MMAP | HEAP_TYPE_MALLOC

record heap_node =
  ret_addr :: u64
  heap_addr :: u64
  heap_len :: u64
  heap_type :: heapType
  node_prev :: addr
  node_next :: addr

record rt_heap =
  Heaps :: addr
  heap_nodes :: "addr \<rightharpoonup> heap_node"
  mm_trace :: "mm_call list"

definition push_heap :: "addr \<Rightarrow> heap_node \<Rightarrow> rt_heap \<Rightarrow> rt_heap" where
  "push_heap node n st =
     (let ns = (heap_nodes st)(node \<mapsto> n\<lparr>node_prev := NULL, node_next := Heaps st\<rparr>);
          ns' = (if Heaps st \<noteq> NULL then ns(Heaps st := map_option (node_prev_update (\<lambda>_. node)) (ns (Heaps st))) else ns)
      in st\<lparr>heap_nodes := ns', Heaps := node\<rparr>)"

definition heap_memmapSort :: "dyninstmm list \<Rightarrow> dyninstmm list" where
  "heap_memmapSort maps = sort_key pr_vaddr maps"

text \<open>\<open>node\<close> and \<open>buf\<close> are what the two calls of \<^verbatim>\<open>malloc\<close> return, \<open>maps\<close> the memory map, if it can be read.\<close>

definition malloc_heap :: "u64 \<Rightarrow> u64 \<Rightarrow> u64 \<Rightarrow> u64 \<Rightarrow> heap_node option" where
  "malloc_heap buf sz lo hi =
     (if buf = 0 then None
      else let ret_heap = heap_alignUp buf DYNINSTheap_align
           in if ret_heap < lo \<or> ret_heap + sz - 1 > hi then None
              else Some \<lparr>ret_addr = ret_heap, heap_addr = buf, heap_len = scast (ucast (sz + DYNINSTheap_align) :: u32),
                         heap_type = HEAP_TYPE_MALLOC, node_prev = NULL, node_next = NULL\<rparr>)"

definition mmap_heap ::
  "mm_os \<Rightarrow> (int \<Rightarrow> dyninstmm) \<Rightarrow> u64 \<Rightarrow> dyninstmm list option \<Rightarrow> u64 \<Rightarrow> u64 \<Rightarrow> u64 \<Rightarrow> mm_call list \<Rightarrow> fault + heap_node option \<times> mm_call list" where
  "mmap_heap os stray psize maps sz lo hi tr =
     (if hi < DYNINSTheap_loAddr \<or> lo > DYNINSTheap_hiAddr then Inr (None, tr)
      else case maps of
        None \<Rightarrow> Inr (None, tr)
      | Some ms \<Rightarrow>
          and_then (heap_checkMappings (heap_memmapSort ms)) (\<lambda>_.
            let (fd, tr1) = mm_do os Open_zero tr
            in if sint fd < 0 then Inr (None, tr1)
               else and_then (constrained_mmap os stray psize sz lo hi (heap_memmapSort ms) tr1) (\<lambda>(heap, tr2).
                 let (_, tr3) = mm_do os (Close_zero fd) tr2
                 in Inr (if heap = 0 then None
                         else Some \<lparr>ret_addr = heap, heap_addr = heap, heap_len = sz, heap_type = HEAP_TYPE_MMAP,
                                    node_prev = NULL, node_next = NULL\<rparr>, tr3))))"

definition DYNINSTos_malloc ::
  "mm_os \<Rightarrow> (int \<Rightarrow> dyninstmm) \<Rightarrow> u64 \<Rightarrow> dyninstmm list option \<Rightarrow> addr \<Rightarrow> u64 \<Rightarrow> u64 \<Rightarrow> u64 \<Rightarrow> u64 \<Rightarrow> rt_heap \<Rightarrow> fault + u64 \<times> rt_heap" where
  "DYNINSTos_malloc os stray psize maps node buf nbytes lo hi st =
     (if nbytes mod DYNINSTheap_align \<noteq> 0 then Inr (- 1, st)
      else and_then (if DYNINSTheap_useMalloc lo hi then Inr (malloc_heap buf nbytes lo hi, mm_trace st)
                     else mmap_heap os stray psize maps nbytes lo hi (mm_trace st)) (\<lambda>(h, tr).
        case h of
          None \<Rightarrow> Inr (0, st\<lparr>mm_trace := tr\<rparr>)
        | Some n \<Rightarrow>
            if node = NULL then Inl Null_pointer
            else Inr (ret_addr n, push_heap node n (st\<lparr>mm_trace := tr\<rparr>))))"

definition unlink_heap :: "addr \<Rightarrow> heap_node \<Rightarrow> rt_heap \<Rightarrow> rt_heap" where
  "unlink_heap t n st =
     (let ns1 = (if node_next n \<noteq> NULL then (heap_nodes st)(node_next n := map_option (node_prev_update (\<lambda>_. node_prev n)) (heap_nodes st (node_next n)))
                 else heap_nodes st);
          ns2 = (if node_prev n \<noteq> NULL then ns1(node_prev n := map_option (node_next_update (\<lambda>_. node_next n)) (ns1 (node_prev n)))
                 else ns1)
      in st\<lparr>heap_nodes := ns2, Heaps := if Heaps st = t then node_next n else Heaps st\<rparr>)"

definition release_heap :: "mm_os \<Rightarrow> heap_node \<Rightarrow> mm_call list \<Rightarrow> int \<times> mm_call list" where
  "release_heap os n tr =
     (case heap_type n of
        HEAP_TYPE_MMAP \<Rightarrow> (let (ok, tr') = unmap_region os (heap_addr n) (heap_len n) tr in (if ok then 0 else - 1, tr'))
      | HEAP_TYPE_MALLOC \<Rightarrow> (0, tr)
      | HEAP_TYPE_UNKNOWN \<Rightarrow> (- 1, tr))"

partial_function (option) free_loop :: "mm_os \<Rightarrow> u64 \<Rightarrow> addr \<Rightarrow> rt_heap \<Rightarrow> (fault + int \<times> rt_heap) option" where
  "free_loop os buf t st =
     (if t = NULL then Some (Inr (0, st))
      else case heap_nodes st t of
        None \<Rightarrow> Some (Inl Null_pointer)
      | Some n \<Rightarrow>
          if ret_addr n \<noteq> buf then free_loop os buf (node_next n) st
          else let st1 = unlink_heap t n st; (ret, tr) = release_heap os n (mm_trace st1)
               in Some (Inr (ret, st1\<lparr>heap_nodes := (heap_nodes st1)(t := None), mm_trace := tr\<rparr>)))"

definition DYNINSTos_free :: "mm_os \<Rightarrow> u64 \<Rightarrow> rt_heap \<Rightarrow> fault + int \<times> rt_heap" where
  "DYNINSTos_free os buf st = (case free_loop os buf (Heaps st) st of None \<Rightarrow> Inl Endless_loop | Some r \<Rightarrow> r)"

subsection \<open>Where regions are tried\<close>

definition segs_ok :: "dyninstmm list \<Rightarrow> bool" where
  "segs_ok maps \<longleftrightarrow> (\<forall>m \<in> set maps. unat (pr_vaddr m) + unat (pr_size m) < 2 ^ 64) \<and> heap_checkMappings maps = Inr ()"

lemma segs_ok_Cons: "segs_ok (m # ms) \<longleftrightarrow> BEG m \<le> END m \<and> unat (pr_vaddr m) + unat (pr_size m) < 2 ^ 64
    \<and> (ms \<noteq> [] \<longrightarrow> END m \<le> BEG (hd ms)) \<and> segs_ok ms"
proof -
  have "BEG m \<le> END m" if "unat (pr_vaddr m) + unat (pr_size m) < 2 ^ 64"
    using that by (simp add: BEG_def END_def word_le_nat_alt unat_add_u64)
  then show ?thesis by (cases ms) (auto simp: segs_ok_def not_less split: if_splits)
qed

lemma segs_order: "segs_ok maps \<Longrightarrow> i < j \<Longrightarrow> j < length maps \<Longrightarrow> END (maps ! i) \<le> BEG (maps ! j)"
proof (induction maps arbitrary: i j)
  case (Cons m ms)
  then have ms: "ms \<noteq> []" "segs_ok ms" "END m \<le> BEG (hd ms)" by (auto simp: segs_ok_Cons)
  show ?case
  proof (cases i)
    case 0
    obtain k where k: "j = Suc k" using Cons.prems(2) by (cases j) auto
    have "BEG (hd ms) \<le> BEG (ms ! k)"
    proof (cases k)
      case 0
      then show ?thesis using ms(1) by (simp add: hd_conv_nth)
    next
      case (Suc k')
      then have "END (ms ! 0) \<le> BEG (ms ! k)" using Cons.IH [OF ms(2), of 0 k] Cons.prems(3) k by simp
      moreover have "BEG (ms ! 0) \<le> END (ms ! 0)" using ms(1,2) by (cases ms) (auto simp: segs_ok_Cons)
      ultimately show ?thesis using ms(1) by (simp add: hd_conv_nth)
    qed
    then show ?thesis using 0 k ms(3) by simp
  next
    case (Suc i')
    then show ?thesis using Cons.IH [OF ms(2), of i' "j - 1"] Cons.prems by (cases j) auto
  qed
qed simp

lemma segs_nonneg: "segs_ok maps \<Longrightarrow> i < length maps \<Longrightarrow> BEG (maps ! i) \<le> END (maps ! i)"
  by (induction maps arbitrary: i) (auto simp: segs_ok_Cons nth_Cons split: nat.split)

lemma shift_lo_spec:
  assumes "segs_ok maps" "shift_lo maps lo k = (lo', mlo)" "k \<le> length maps" "\<forall>i < k. END (maps ! i) \<le> lo"
  shows "lo \<le> lo' \<and> mlo \<le> length maps \<and> (\<forall>i < mlo. END (maps ! i) \<le> lo') \<and> (mlo < length maps \<longrightarrow> lo' < BEG (maps ! mlo))"
  using assms(2-4)
proof (induction maps lo k rule: shift_lo.induct)
  case (1 maps lo k)
  show ?case
  proof (cases "k < length maps \<and> BEG (maps ! k) \<le> lo")
    case True
    let ?lo = "if BEG (maps ! k) \<le> lo \<and> lo < END (maps ! k) then END (maps ! k) else lo"
    have "shift_lo maps ?lo (k + 1) = (lo', mlo)"
      using 1(2) True by (subst (asm) shift_lo.simps) (simp add: not_less [symmetric])
    moreover have "\<forall>i < k + 1. END (maps ! i) \<le> ?lo"
      using True 1(4) by (auto simp: less_Suc_eq not_less intro: order_trans)
    moreover have "lo \<le> ?lo" by auto
    ultimately show ?thesis using 1(1) True by (auto simp: not_less)
  next
    case False
    then have "(lo', mlo) = (lo, k)" using 1(2) by (subst (asm) shift_lo.simps) (auto simp: not_le split: if_splits)
    then show ?thesis using 1(3,4) False by auto
  qed
qed

lemma shift_hi_spec:
  assumes "segs_ok maps" "shift_hi maps mlo hi k = (hi', nhi)" "mlo \<le> k" "k \<le> length maps"
    "\<forall>i. k \<le> i \<and> i < length maps \<longrightarrow> hi \<le> BEG (maps ! i)"
  shows "hi' \<le> hi \<and> mlo \<le> nhi \<and> nhi \<le> length maps \<and> (\<forall>i. nhi \<le> i \<and> i < length maps \<longrightarrow> hi' \<le> BEG (maps ! i))
    \<and> (mlo < nhi \<longrightarrow> END (maps ! (nhi - 1)) < hi')"
  using assms(2-5)
proof (induction maps mlo hi k rule: shift_hi.induct)
  case (2 maps mlo hi k)
  show ?case
  proof (cases "mlo \<le> k \<and> hi \<le> END (maps ! k)")
    case True
    let ?hi = "if BEG (maps ! k) \<le> hi \<and> hi \<le> END (maps ! k) then BEG (maps ! k) else hi"
    have "shift_hi maps mlo ?hi k = (hi', nhi)" using 2(2) True by (auto simp: not_less [symmetric])
    moreover have "?hi \<le> hi" "?hi \<le> BEG (maps ! k)" using True by auto
    moreover have "\<forall>i. k \<le> i \<and> i < length maps \<longrightarrow> ?hi \<le> BEG (maps ! i)"
      using calculation(2,3) 2(5) by (metis Suc_leI le_neq_implies_less order_trans)
    ultimately show ?thesis using 2(1) True 2(4) by (auto simp: not_less)
  next
    case False
    then show ?thesis using 2 by (auto simp: not_le not_less split: if_splits)
  qed
qed auto

text \<open>A region between two bounds, clear of every segment.\<close>

definition tried_in :: "u64 \<Rightarrow> u64 \<Rightarrow> u64 \<Rightarrow> mm_call \<Rightarrow> bool" where
  "tried_in len lo hi c \<longleftrightarrow> (\<exists>x. c = Mmap x len \<and> lo \<le> x \<and> unat x + unat len \<le> unat hi)"

definition clear_of :: "dyninstmm list \<Rightarrow> mm_call \<Rightarrow> bool" where
  "clear_of maps c \<longleftrightarrow> (\<forall>x len. c = Mmap x len \<longrightarrow> (\<forall>m \<in> set maps. END m \<le> x \<or> unat x + unat len \<le> unat (BEG m)))"

lemma tried_in_mono: "tried_in len lo hi c \<Longrightarrow> lo' \<le> lo \<Longrightarrow> hi \<le> hi' \<Longrightarrow> tried_in len lo' hi' c"
  by (fastforce simp: tried_in_def word_le_nat_alt)

lemma tried_in_clear:
  assumes "tried_in len b e c" "\<forall>m \<in> set maps. END m \<le> b \<or> e \<le> BEG m"
  shows "clear_of maps c"
  using assms by (fastforce simp: tried_in_def clear_of_def word_le_nat_alt)

text \<open>What an attempt returns is the answer of the system to its last call; lengths below 2 GiB are passed on unchanged.\<close>

definition mapped_at :: "mm_os \<Rightarrow> u64 \<Rightarrow> mm_call list \<Rightarrow> mm_call list \<Rightarrow> bool" where
  "mapped_at os r tr new \<longleftrightarrow> (r \<noteq> 0 \<longrightarrow> new \<noteq> [] \<and> os (tr @ new) = r \<and> r \<noteq> - 1)"

lemma scast_small: "unat len < 2 ^ 31 \<Longrightarrow> scast (ucast (len :: u64) :: u32) = len"
proof -
  assume l: "unat len < 2 ^ 31"
  then have "take_bit 31 len = len" by (simp add: word_unat_eq_iff unsigned_take_bit_eq take_bit_nat_eq_self)
  then have b: "bit len n \<Longrightarrow> n < 31" for n by (metis bit_take_bit_iff)
  show ?thesis by (rule bit_word_eqI) (auto simp: bit_simps min_def dest: b split: if_splits)
qed

text \<open>Every place of a gap was tried, in steps of \<open>inc\<close>.\<close>

definition tried_all :: "u64 \<Rightarrow> u64 \<Rightarrow> u64 \<Rightarrow> u64 \<Rightarrow> mm_call list \<Rightarrow> bool" where
  "tried_all len inc b e new \<longleftrightarrow>
     (\<forall>x. b \<le> x \<and> unat x + unat len \<le> unat e \<and> unat inc dvd unat x - unat b \<longrightarrow> Mmap x len \<in> set new)"

lemma tried_all_mono: "tried_all len inc b e new \<Longrightarrow> set new \<subseteq> set new' \<Longrightarrow> tried_all len inc b e new'"
  by (auto simp: tried_all_def)

lemma tried_all_step:
  assumes "tried_all len inc (a + inc) e new" "unat (a + inc) = unat a + unat inc"
  shows "tried_all len inc a e (Mmap a len # new)"
proof -
  have "Mmap x len \<in> set new" if x: "a \<le> x" "unat x + unat len \<le> unat e" "unat inc dvd unat x - unat a" "x \<noteq> a" for x
  proof -
    have lt: "unat a < unat x" using x(1,4) unfolding word_less_nat_alt [symmetric] by simp
    then have "unat inc \<le> unat x - unat a" using x(3) by (simp add: dvd_imp_le)
    then have "unat (a + inc) \<le> unat x" unfolding assms(2) using lt by linarith
    moreover have "unat inc dvd unat x - unat (a + inc)"
      unfolding assms(2) diff_diff_left [symmetric] using x(3) by (rule dvd_diff_nat) simp
    ultimately show ?thesis using assms(1) x(2) unfolding tried_all_def word_le_nat_alt by blast
  qed
  then show ?thesis by (auto simp: tried_all_def)
qed

lemma trymmap_spec:
  assumes len: "unat len < 2 ^ 31" and inc: "inc \<noteq> 0" "unat hi + unat len + unat inc < 2 ^ 64" and a: "unat a \<le> unat hi + unat inc"
  shows "\<exists>r new. trymmap os len a hi inc tr = Some (r, tr @ new) \<and> (\<forall>c \<in> set new. tried_in len a hi c)
    \<and> mapped_at os r tr new \<and> (r = 0 \<longrightarrow> tried_all len inc a hi new)"
  using a
proof (induction "2 ^ 64 - unat a" arbitrary: a tr rule: less_induct)
  case less
  have s: "unat (a + len) = unat a + unat len" using less.prems inc by (intro unat_add_u64) simp
  show ?case
  proof (cases "a + len \<le> hi")
    case False
    then have "tried_all len inc a hi []" using s by (auto simp: tried_all_def word_le_nat_alt)
    then show ?thesis using False by (subst trymmap.simps) (simp add: mapped_at_def)
  next
    case True
    then have fit: "unat a + unat len \<le> unat hi" using s by (simp add: word_le_nat_alt)
    let ?c = "Mmap a len"
    have c: "tried_in len a hi ?c" using fit by (simp add: tried_in_def)
    have m: "map_region os a len tr = (if os (tr @ [?c]) = - 1 then 0 else os (tr @ [?c]), tr @ [?c])"
      by (simp add: map_region_def mm_do_def scast_small [OF len])
    show ?thesis
    proof (cases "os (tr @ [?c]) \<in> {0, - 1}")
      case ret: False
      then show ?thesis using True m c
        by (subst trymmap.simps) (intro exI [of _ "os (tr @ [?c])"] exI [of _ "[?c]"], simp add: mapped_at_def)
    next
      case again: True
      have ai: "unat (a + inc) = unat a + unat inc" using fit inc by (intro unat_add_u64) simp
      then have le: "a \<le> a + inc" by (simp add: word_le_nat_alt)
      have "0 < unat inc" using inc(1) by (simp add: unat_gt_0)
      moreover have "unat a + unat inc < 2 ^ 64" using unat_u64_less [of "a + inc"] unfolding ai .
      ultimately have "2 ^ 64 - unat (a + inc) < 2 ^ 64 - unat a" using ai by linarith
      from less.hyps [OF this, of "tr @ [?c]"] fit ai obtain r new where
        n: "trymmap os len (a + inc) hi inc (tr @ [?c]) = Some (r, (tr @ [?c]) @ new)"
          "\<forall>c \<in> set new. tried_in len (a + inc) hi c" "mapped_at os r (tr @ [?c]) new"
          "r = 0 \<longrightarrow> tried_all len inc (a + inc) hi new" by auto
      then have "trymmap os len a hi inc tr = Some (r, tr @ ?c # new)"
        using True again m by (subst trymmap.simps) auto
      moreover have "\<forall>c \<in> set (?c # new). tried_in len a hi c" using n(2) c le tried_in_mono by auto
      moreover have "mapped_at os r tr (?c # new)" using n(3) by (auto simp: mapped_at_def)
      ultimately show ?thesis using tried_all_step [OF _ ai] n(4) by blast
    qed
  qed
qed

lemma try_gaps_spec:
  assumes len: "unat len < 2 ^ 31" and inc: "inc \<noteq> 0"
    and gs: "\<forall>(b, e) \<in> set gs. b \<le> e \<and> unat e + unat len + unat inc < 2 ^ 64"
  shows "\<exists>r new. try_gaps os len inc gs tr = Some (r, tr @ new)
    \<and> (\<forall>c \<in> set new. \<exists>(b, e) \<in> set gs. tried_in len b e c) \<and> mapped_at os r tr new
    \<and> (r = 0 \<longrightarrow> (\<forall>(b, e) \<in> set gs. tried_all len inc b e new))"
  using gs
proof (induction gs arbitrary: tr)
  case (Cons g gs)
  obtain b e where g: "g = (b, e)" by fastforce
  have "unat b \<le> unat e + unat inc" "unat e + unat len + unat inc < 2 ^ 64" using Cons.prems g by (auto simp: word_le_nat_alt)
  then obtain r new where n: "trymmap os len b e inc tr = Some (r, tr @ new)" "\<forall>c \<in> set new. tried_in len b e c"
      "mapped_at os r tr new" "r = 0 \<longrightarrow> tried_all len inc b e new"
    using trymmap_spec [OF len inc] by blast
  show ?case
  proof (cases "r = 0")
    case True
    obtain r' new' where n': "try_gaps os len inc gs (tr @ new) = Some (r', (tr @ new) @ new')"
        "\<forall>c \<in> set new'. \<exists>(b, e) \<in> set gs. tried_in len b e c" "mapped_at os r' (tr @ new) new'"
        "r' = 0 \<longrightarrow> (\<forall>(b, e) \<in> set gs. tried_all len inc b e new')"
      using Cons.IH [of "tr @ new"] Cons.prems by auto
    then have "r' = 0 \<longrightarrow> (\<forall>(b, e) \<in> set (g # gs). tried_all len inc b e (new @ new'))"
      using n(4) True g tried_all_mono [of len inc _ _ new "new @ new'"] tried_all_mono [of len inc _ _ new' "new @ new'"] by auto
    then show ?thesis using n n' True g
      by (intro exI [of _ r'] exI [of _ "new @ new'"]) (auto simp: mapped_at_def)
  next
    case False
    then show ?thesis using n g by (intro exI [of _ r] exI [of _ new]) auto
  qed
qed (simp add: mapped_at_def)

text \<open>The segments around a gap.\<close>

lemma segs_around:
  assumes "segs_ok maps" "k \<le> length maps" "\<forall>i < k. END (maps ! i) \<le> b" "\<forall>i. k \<le> i \<and> i < length maps \<longrightarrow> e \<le> BEG (maps ! i)"
  shows "\<forall>m \<in> set maps. END m \<le> b \<or> e \<le> BEG m"
  using assms by (auto simp: in_set_conv_nth) (meson not_less)

lemma gap_clear:
  assumes segs: "segs_ok maps" and k: "mlo < nhi" "nhi \<le> length maps"
    and lo: "\<forall>i < mlo. END (maps ! i) \<le> lo" "lo < BEG (maps ! mlo)"
    and hi: "\<forall>i. nhi \<le> i \<and> i < length maps \<longrightarrow> hi \<le> BEG (maps ! i)" "END (maps ! (nhi - 1)) < hi"
    and g: "(b, e) \<in> set (gaps_between maps mlo (nhi - 1) lo hi)"
  shows "lo \<le> b \<and> b \<le> e \<and> e \<le> hi \<and> (\<forall>m \<in> set maps. END m \<le> b \<or> e \<le> BEG m)"
proof -
  have order: "END (maps ! i) \<le> BEG (maps ! j)" if "i < j" "j < length maps" for i j using segs_order [OF segs that] .
  have nn: "BEG (maps ! i) \<le> END (maps ! i)" if "i < length maps" for i using segs_nonneg [OF segs that] .
  have upto: "BEG (maps ! i) \<le> BEG (maps ! j)" if "i \<le> j" "j < length maps" for i j
    using order [of i j] nn [of i] that by (cases "i = j") auto
  have ends: "END (maps ! i) \<le> END (maps ! j)" if "i \<le> j" "j < length maps" for i j
    using order [of i j] nn [of j] that by (cases "i = j") auto
  have last: "END (maps ! i) < hi" if "i < nhi" for i
  proof -
    have "i \<le> nhi - 1" "nhi - 1 < length maps" using that k by linarith+
    from ends [OF this] hi(2) show ?thesis by (rule le_less_trans)
  qed
  consider "b = lo" "e = BEG (maps ! mlo)" | p where "mlo \<le> p" "p < nhi - 1" "b = END (maps ! p)" "e = BEG (maps ! (p + 1))"
    | "b = END (maps ! (nhi - 1))" "e = hi"
    using g by (auto simp: gaps_between_def)
  then show ?thesis
  proof cases
    case 1
    have "BEG (maps ! mlo) \<le> hi" using nn [of mlo] last [of mlo] k by (simp add: order_trans less_imp_le)
    then show ?thesis using 1 lo segs_around [OF segs, of mlo lo "BEG (maps ! mlo)"] upto k by auto
  next
    case (2 p)
    have p: "p + 1 < length maps" "mlo < length maps" using 2 k by auto
    have "lo \<le> b" using lo(2) upto [of mlo p] nn [of p] 2 p by auto
    moreover have "e \<le> hi" using nn [of "p + 1"] last [of "p + 1"] 2 p by (simp add: order_trans less_imp_le)
    ultimately show ?thesis
      using 2 p order [of p "p + 1"] segs_around [OF segs, of "p + 1" b e] ends upto by auto
  next
    case 3
    have q: "mlo \<le> nhi - 1" "nhi - 1 < length maps" using k by linarith+
    then have "lo \<le> b" using lo(2) upto [OF q] nn [OF q(2)] 3 by auto
    moreover have "END (maps ! i) \<le> b" if "i < nhi" for i using ends [OF _ q(2), of i] that 3 by auto
    ultimately show ?thesis using 3 hi segs_around [OF segs k(2), of b e] by auto
  qed
qed

text \<open>The loops that move the bounds, and the gaps, lose no room.\<close>

lemma clear_of_Mmap: "clear_of maps (Mmap x len) \<longleftrightarrow> (\<forall>m \<in> set maps. END m \<le> x \<or> unat x + unat len \<le> unat (BEG m))"
  by (simp add: clear_of_def)

lemma shift_lo_room:
  assumes "shift_lo maps lo k = (lo', mlo)" "clear_of maps (Mmap x len)" "len \<noteq> 0" "lo \<le> x"
  shows "lo' \<le> x"
  using assms(1,2,4)
proof (induction maps lo k rule: shift_lo.induct)
  case (1 maps lo k)
  show ?case
  proof (cases "k < length maps \<and> BEG (maps ! k) \<le> lo")
    case True
    let ?lo = "if BEG (maps ! k) \<le> lo \<and> lo < END (maps ! k) then END (maps ! k) else lo"
    have "unat (BEG (maps ! k)) \<le> unat x" using True 1(4) by (auto simp: word_le_nat_alt)
    moreover have "0 < unat len" using assms(3) by (simp add: unat_gt_0)
    ultimately have "\<not> unat x + unat len \<le> unat (BEG (maps ! k))" by linarith
    then have "END (maps ! k) \<le> x" using 1(3) True by (auto simp: clear_of_Mmap)
    then have "?lo \<le> x" using 1(4) by simp
    moreover have "shift_lo maps ?lo (k + 1) = (lo', mlo)"
      using 1(2) True by (subst (asm) shift_lo.simps) (simp add: not_less [symmetric])
    ultimately show ?thesis using 1(1,3) True by (simp add: not_less)
  next
    case False
    then have "(lo', mlo) = (lo, k)" using 1(2) by (subst (asm) shift_lo.simps) (auto simp: not_le split: if_splits)
    then show ?thesis using 1(4) by simp
  qed
qed

lemma shift_lo_from: "shift_lo maps lo k = (lo', mlo) \<Longrightarrow> lo' = lo \<or> (\<exists>m \<in> set maps. lo' = END m)"
proof (induction maps lo k rule: shift_lo.induct)
  case (1 maps lo k)
  then show ?case by (subst (asm) (2) shift_lo.simps) (auto simp: not_less split: if_splits)
qed

lemma shift_hi_room:
  assumes "shift_hi maps mlo hi k = (hi', nhi)" "clear_of maps (Mmap x len)" "len \<noteq> 0" "k \<le> length maps"
    "unat x + unat len \<le> unat hi"
  shows "unat x + unat len \<le> unat hi'"
  using assms(1,2,4,5)
proof (induction maps mlo hi k rule: shift_hi.induct)
  case (2 maps mlo hi k)
  have pos: "0 < unat len" using assms(3) by (simp add: unat_gt_0)
  let ?hi = "if BEG (maps ! k) \<le> hi \<and> hi \<le> END (maps ! k) then BEG (maps ! k) else hi"
  have "unat x + unat len \<le> unat ?hi" if "hi \<le> END (maps ! k)"
  proof -
    have "\<not> END (maps ! k) \<le> x" using that 2(5) pos by (auto simp: word_le_nat_alt)
    then show ?thesis using 2(3-5) by (auto simp: clear_of_Mmap)
  qed
  then show ?case using 2 by (auto simp: not_less split: if_splits)
qed auto

lemma gap_of_room:
  assumes "mlo < nhi" "nhi \<le> length maps" "clear_of maps (Mmap x len)" "lo \<le> x" "unat x + unat len \<le> unat hi"
  shows "\<exists>b e. (b, e) \<in> set (gaps_between maps mlo (nhi - 1) lo hi) \<and> b \<le> x \<and> unat x + unat len \<le> unat e"
proof (cases "\<exists>i. mlo \<le> i \<and> i < nhi \<and> END (maps ! i) \<le> x")
  case True
  define P where "P i \<longleftrightarrow> mlo \<le> i \<and> i < nhi \<and> END (maps ! i) \<le> x" for i
  obtain i where "P i" using True unfolding P_def by blast
  then obtain p where p: "P p" "\<And>q. P q \<Longrightarrow> q \<le> p"
    using ex_has_greatest_nat [of P i "\<lambda>q. q" nhi] unfolding P_def by auto
  show ?thesis
  proof (cases "p = nhi - 1")
    case True
    then show ?thesis using p(1) assms(5) by (auto simp: gaps_between_def P_def)
  next
    case False
    then have q: "p + 1 < nhi" using p(1) by (auto simp: P_def)
    then have "\<not> END (maps ! (p + 1)) \<le> x" using p(1) p(2) [of "p + 1"] by (auto simp: P_def)
    then have "unat x + unat len \<le> unat (BEG (maps ! (p + 1)))" using assms(2,3) q by (auto simp: clear_of_Mmap)
    then show ?thesis using p(1) q
      by (intro exI [of _ "END (maps ! p)"] exI [of _ "BEG (maps ! (p + 1))"]) (auto simp: gaps_between_def P_def)
  qed
next
  case False
  then have "unat x + unat len \<le> unat (BEG (maps ! mlo))" using assms(1-3) by (auto simp: clear_of_Mmap)
  then show ?thesis using assms(4) by (auto simp: gaps_between_def)
qed

text \<open>What the two loops leave: the bounds moved inwards, past the segments before \<open>mlo\<close> and from \<open>nhi\<close> on.\<close>

definition window :: "dyninstmm list \<Rightarrow> u64 \<Rightarrow> u64 \<Rightarrow> u64 \<Rightarrow> nat \<Rightarrow> u64 \<Rightarrow> nat \<Rightarrow> bool" where
  "window maps lo0 hi0 lo mlo hi nhi \<longleftrightarrow> lo0 \<le> lo \<and> hi \<le> hi0 \<and> mlo \<le> nhi \<and> nhi \<le> length maps
     \<and> (\<forall>i < mlo. END (maps ! i) \<le> lo) \<and> (mlo < length maps \<longrightarrow> lo < BEG (maps ! mlo))
     \<and> (\<forall>i. nhi \<le> i \<and> i < length maps \<longrightarrow> hi \<le> BEG (maps ! i)) \<and> (mlo < nhi \<longrightarrow> END (maps ! (nhi - 1)) < hi)"

lemma window_of_shifts:
  assumes "segs_ok maps" "shift_lo maps lo0 0 = (lo, mlo)" "shift_hi maps mlo hi0 (length maps) = (hi, nhi)"
  shows "window maps lo0 hi0 lo mlo hi nhi"
proof -
  have lo: "lo0 \<le> lo \<and> mlo \<le> length maps \<and> (\<forall>i < mlo. END (maps ! i) \<le> lo) \<and> (mlo < length maps \<longrightarrow> lo < BEG (maps ! mlo))"
    using shift_lo_spec [OF assms(1,2)] by simp
  have "\<forall>i. length maps \<le> i \<and> i < length maps \<longrightarrow> hi0 \<le> BEG (maps ! i)" by auto
  from shift_hi_spec [OF assms(1,3) _ order_refl this] lo show ?thesis by (simp add: window_def)
qed

text \<open>A call the search may make: between the bounds, and clear of every segment.  The search makes no other, and gives up
  only after it made all of them that start at a page.\<close>

definition in_room :: "u64 \<Rightarrow> u64 \<Rightarrow> u64 \<Rightarrow> dyninstmm list \<Rightarrow> mm_call \<Rightarrow> bool" where
  "in_room len lo hi maps c \<longleftrightarrow> tried_in len lo hi c \<and> clear_of maps c"

definition searched :: "mm_os \<Rightarrow> u64 \<Rightarrow> u64 \<Rightarrow> u64 \<Rightarrow> u64 \<Rightarrow> dyninstmm list \<Rightarrow> mm_call list \<Rightarrow> u64 \<Rightarrow> mm_call list \<Rightarrow> bool" where
  "searched os psize len lo hi maps tr r new \<longleftrightarrow>
     (\<forall>c \<in> set new. in_room len lo hi maps c) \<and> mapped_at os r tr new
     \<and> (r = 0 \<longrightarrow> (\<forall>x. unat psize dvd unat x \<and> in_room len lo hi maps (Mmap x len) \<longrightarrow> Mmap x len \<in> set new))"

text \<open>Segments start and end at page boundaries.\<close>

definition paged :: "u64 \<Rightarrow> dyninstmm list \<Rightarrow> bool" where
  "paged psize maps \<longleftrightarrow> (\<forall>m \<in> set maps. unat psize dvd unat (BEG m) \<and> unat psize dvd unat (END m))"

lemma room_in_window:
  assumes "shift_lo maps lo0 0 = (lo, mlo)" "shift_hi maps mlo hi0 (length maps) = (hi, nhi)" "len \<noteq> 0" "in_room len lo0 hi0 maps (Mmap x len)"
  shows "lo \<le> x \<and> unat x + unat len \<le> unat hi"
  using assms shift_lo_room [OF assms(1)] shift_hi_room [OF assms(2)] by (auto simp: in_room_def tried_in_def)

lemma tried_all_paged:
  assumes "tried_all len psize b e new" "unat psize dvd unat b" "unat psize dvd unat x" "b \<le> x" "unat x + unat len \<le> unat e"
  shows "Mmap x len \<in> set new"
  using assms dvd_diff_nat [OF assms(3,2)] by (simp add: tried_all_def)

lemma window_tests:
  assumes segs: "segs_ok maps" "maps \<noteq> []" and w: "window maps lo0 hi0 lo mlo hi nhi"
  shows "hi \<le> BEG (segment_at maps stray (int mlo)) \<or> END (segment_at maps stray (int nhi - 1)) \<le> lo \<longleftrightarrow> nhi = mlo"
    "mlo < nhi \<Longrightarrow> lo < BEG (segment_at maps stray (int mlo)) \<and> END (segment_at maps stray (int nhi - 1)) < hi"
proof -
  have inside: "\<not> (hi \<le> BEG (segment_at maps stray (int mlo)) \<or> END (segment_at maps stray (int nhi - 1)) \<le> lo)
      \<and> lo < BEG (segment_at maps stray (int mlo)) \<and> END (segment_at maps stray (int nhi - 1)) < hi" if lt: "mlo < nhi"
  proof -
    have at: "segment_at maps stray (int mlo) = maps ! mlo" "segment_at maps stray (int nhi - 1) = maps ! (nhi - 1)"
      using lt w by (auto simp: segment_at_def nat_diff_distrib window_def)
    have q: "mlo \<le> nhi - 1" "nhi - 1 < length maps" "mlo < length maps" using lt w by (auto simp: window_def)
    then have "BEG (maps ! mlo) \<le> END (maps ! (nhi - 1))"
      using segs_order [OF segs(1), of mlo "nhi - 1"] segs_nonneg [OF segs(1) q(2)] segs_nonneg [OF segs(1) q(3)]
      by (cases "mlo = nhi - 1") auto
    then show ?thesis using w lt q(3) unfolding at by (auto simp: window_def)
  qed
  have "hi \<le> BEG (segment_at maps stray (int mlo)) \<or> END (segment_at maps stray (int nhi - 1)) \<le> lo" if "nhi = mlo"
  proof (cases "mlo < length maps")
    case False
    then have "END (maps ! (nhi - 1)) \<le> lo" "0 < nhi" "nhi \<le> length maps" using w segs(2) that by (auto simp: window_def)
    then show ?thesis by (simp add: segment_at_def nat_diff_distrib)
  qed (use w that in \<open>simp add: segment_at_def window_def\<close>)
  moreover have "nhi = mlo \<or> mlo < nhi" using w by (auto simp: window_def)
  ultimately show "hi \<le> BEG (segment_at maps stray (int mlo)) \<or> END (segment_at maps stray (int nhi - 1)) \<le> lo \<longleftrightarrow> nhi = mlo"
    using inside by blast
  show "mlo < nhi \<Longrightarrow> lo < BEG (segment_at maps stray (int mlo)) \<and> END (segment_at maps stray (int nhi - 1)) < hi"
    using inside by blast
qed

lemma window_free:
  assumes segs: "segs_ok maps" and w: "window maps lo0 hi0 lo mlo hi mlo" and len: "unat len < 2 ^ 31"
    and ps: "psize \<noteq> 0" "unat hi + unat len + unat psize < 2 ^ 64" "lo < hi"
    and page: "unat psize dvd unat lo" and room: "\<And>x. in_room len lo0 hi0 maps (Mmap x len) \<Longrightarrow> lo \<le> x \<and> unat x + unat len \<le> unat hi"
  shows "\<exists>r new. trymmap os len lo hi psize tr = Some (r, tr @ new) \<and> searched os psize len lo0 hi0 maps tr r new"
proof -
  have clear: "\<forall>m \<in> set maps. END m \<le> lo \<or> hi \<le> BEG m" using segs_around [OF segs, of mlo] w by (auto simp: window_def)
  have "unat lo \<le> unat hi + unat psize" using ps(3) by (simp add: word_less_nat_alt)
  then obtain r new where n: "trymmap os len lo hi psize tr = Some (r, tr @ new)" "\<forall>c \<in> set new. tried_in len lo hi c" "mapped_at os r tr new"
      "r = 0 \<longrightarrow> tried_all len psize lo hi new"
    using trymmap_spec [OF len ps(1,2)] by blast
  have "in_room len lo0 hi0 maps c" if "c \<in> set new" for c
    using n(2) that tried_in_mono [of len lo hi c lo0 hi0] tried_in_clear [OF _ clear, of len c] w
    unfolding in_room_def window_def by blast
  moreover have "Mmap x len \<in> set new" if "r = 0" "unat psize dvd unat x" "in_room len lo0 hi0 maps (Mmap x len)" for x
    using tried_all_paged [OF _ page] n(4) room that by blast
  ultimately show ?thesis using n(1,3) unfolding searched_def by blast
qed

lemma gaps_paged:
  assumes "paged psize maps" "unat psize dvd unat lo" "mlo < nhi" "nhi \<le> length maps" "(b, e) \<in> set (gaps_between maps mlo (nhi - 1) lo hi)"
  shows "unat psize dvd unat b"
  using assms by (auto simp: gaps_between_def paged_def)

lemma window_gaps:
  assumes segs: "segs_ok maps" and w: "window maps lo0 hi0 lo mlo hi nhi" "mlo < nhi" and len: "unat len < 2 ^ 31"
    and ps: "psize \<noteq> 0" "unat hi + unat len + unat psize < 2 ^ 64"
    and page: "paged psize maps" "unat psize dvd unat lo"
    and room: "\<And>x. in_room len lo0 hi0 maps (Mmap x len) \<Longrightarrow> lo \<le> x \<and> unat x + unat len \<le> unat hi"
  shows "\<exists>r new. try_gaps os len psize (gaps_between maps mlo (nhi - 1) lo hi) tr = Some (r, tr @ new)
    \<and> searched os psize len lo0 hi0 maps tr r new"
proof -
  let ?gs = "gaps_between maps mlo (nhi - 1) lo hi"
  have nhi: "nhi \<le> length maps" using w(1) by (simp add: window_def)
  have gap: "lo \<le> b \<and> b \<le> e \<and> e \<le> hi \<and> (\<forall>m \<in> set maps. END m \<le> b \<or> e \<le> BEG m)" if "(b, e) \<in> set ?gs" for b e
    using gap_clear [OF segs w(2) _ _ _ _ _ that] w by (auto simp: window_def)
  have "b \<le> e \<and> unat e + unat len + unat psize < 2 ^ 64" if "(b, e) \<in> set ?gs" for b e
    using gap [OF that] ps(2) by (auto simp: word_le_nat_alt)
  then have "\<forall>(b, e) \<in> set ?gs. b \<le> e \<and> unat e + unat len + unat psize < 2 ^ 64" by blast
  then obtain r new where n: "try_gaps os len psize ?gs tr = Some (r, tr @ new)"
      "\<forall>c \<in> set new. \<exists>(b, e) \<in> set ?gs. tried_in len b e c" "mapped_at os r tr new"
      "r = 0 \<longrightarrow> (\<forall>(b, e) \<in> set ?gs. tried_all len psize b e new)"
    using try_gaps_spec [OF len ps(1)] by blast
  have "in_room len lo0 hi0 maps c" if c: "c \<in> set new" for c
  proof -
    obtain b e where g: "(b, e) \<in> set ?gs" "tried_in len b e c" using bspec [OF n(2) c] by auto
    then show ?thesis using gap [OF g(1)] w(1) tried_in_mono [OF g(2), of lo0 hi0] tried_in_clear [OF g(2), of maps]
      by (auto simp: window_def in_room_def)
  qed
  moreover have "Mmap x len \<in> set new" if z: "r = 0" "unat psize dvd unat x" "in_room len lo0 hi0 maps (Mmap x len)" for x
  proof -
    obtain b e where g: "(b, e) \<in> set ?gs" "b \<le> x" "unat x + unat len \<le> unat e"
      using gap_of_room [OF w(2) nhi] room [OF z(3)] z(3) unfolding in_room_def by blast
    then have "tried_all len psize b e new" using n(4) z(1) by auto
    then show ?thesis using tried_all_paged gaps_paged [OF page w(2) nhi g(1)] z(2) g by blast
  qed
  ultimately show ?thesis using n(1,3) unfolding searched_def by blast
qed

lemma search_space_spec:
  assumes segs: "segs_ok maps" "maps \<noteq> []" and len: "unat len < 2 ^ 31" "len \<noteq> 0"
    and ps: "psize \<noteq> 0" "unat hi0 + unat len + unat psize < 2 ^ 64" and page: "paged psize maps" "unat psize dvd unat lo0"
  shows "\<exists>r new. search_space os stray psize len lo0 hi0 maps tr = Inr (r, tr @ new) \<and> searched os psize len lo0 hi0 maps tr r new"
proof -
  obtain lo mlo where l: "shift_lo maps lo0 0 = (lo, mlo)" by fastforce
  obtain hi nhi where h: "shift_hi maps mlo hi0 (length maps) = (hi, nhi)" by fastforce
  note w = window_of_shifts [OF segs(1) l h] and room = room_in_window [OF l h len(2)]
  have lo: "unat psize dvd unat lo" using shift_lo_from [OF l] page by (auto simp: paged_def)
  have "unat hi \<le> unat hi0" "mlo \<le> nhi" using w by (simp_all add: window_def word_le_nat_alt)
  then have b: "unat hi + unat len + unat psize < 2 ^ 64" using ps(2) by linarith
  consider "hi \<le> lo" | "lo < hi" "nhi = mlo" | "lo < hi" "mlo < nhi" using \<open>mlo \<le> nhi\<close> by force
  then show ?thesis
  proof cases
    case 1
    have "\<not> in_room len lo0 hi0 maps (Mmap x len)" for x
    proof
      assume "in_room len lo0 hi0 maps (Mmap x len)"
      then have "unat lo \<le> unat x" "unat x + unat len \<le> unat hi" using room by (auto simp: word_le_nat_alt)
      moreover have "unat hi \<le> unat lo" "0 < unat len" using 1 len(2) by (simp_all add: word_le_nat_alt unat_gt_0)
      ultimately show False by linarith
    qed
    then show ?thesis using 1 l h by (auto simp: search_space_def searched_def mapped_at_def)
  next
    case 2
    then obtain r new where n: "trymmap os len lo hi psize tr = Some (r, tr @ new)" "searched os psize len lo0 hi0 maps tr r new"
      using window_free [OF segs(1) _ len(1) ps(1) b _ lo room] w by blast
    have "hi \<le> BEG (segment_at maps stray (int mlo)) \<or> END (segment_at maps stray (int nhi - 1)) \<le> lo"
      using 2 window_tests(1) [OF segs w, of stray] by blast
    then have "search_space os stray psize len lo0 hi0 maps tr = Inr (r, tr @ new)"
      using 2(1) [unfolded not_le [symmetric]] l h n(1) by (simp only: search_space_def Let_def prod.case if_True if_False or_endless_def option.case)
    then show ?thesis using n(2) by blast
  next
    case 3
    then obtain r new where n: "try_gaps os len psize (gaps_between maps mlo (nhi - 1) lo hi) tr = Some (r, tr @ new)"
        "searched os psize len lo0 hi0 maps tr r new"
      using window_gaps [OF segs(1) w 3(2) len(1) ps(1) b page(1) lo room] by blast
    have q: "nat (int nhi - 1) = nhi - 1" by simp
    have "\<not> (hi \<le> BEG (segment_at maps stray (int mlo)) \<or> END (segment_at maps stray (int nhi - 1)) \<le> lo)"
      using 3(2) window_tests(1) [OF segs w, of stray] by blast
    then have "search_space os stray psize len lo0 hi0 maps tr = Inr (r, tr @ new)"
      using 3(1) [unfolded not_le [symmetric]] l h n(1) window_tests(2) [OF segs w 3(2), of stray]
      by (simp only: search_space_def Let_def prod.case if_True if_False simp_thms q or_endless_def option.case)
    then show ?thesis using n(2) by blast
  qed
qed

subsection \<open>Page boundaries\<close>

lemma page_down_mono: "k < 64 \<Longrightarrow> a \<le> b \<Longrightarrow> (a :: u64) AND NOT (2 ^ k - 1) \<le> b AND NOT (2 ^ k - 1)"
  unfolding word_le_nat_alt by (simp only: page_down) (simp add: div_le_mono)

lemma unat_two_power: "k < 64 \<Longrightarrow> unat (2 ^ k :: u64) = 2 ^ k"
proof -
  assume k: "k < 64"
  then have "(2 :: nat) ^ k < 2 ^ 64" by (rule power_strict_increasing) simp
  moreover have "unat (2 ^ k :: u64) = take_bit 64 (2 ^ k)"
    using unat_of_nat [of "2 ^ k", where ?'a = 64] by (simp add: take_bit_eq_mod)
  ultimately show ?thesis using k by (simp add: take_bit_nat_eq_self)
qed

lemma round_len_ok:
  assumes k: "k < 64" and fit: "unat len + 2 ^ k < 2 ^ 64"
  shows "unat len \<le> unat (round_len (2 ^ k) len)" "unat (round_len (2 ^ k) len) \<le> unat len + 2 ^ k"
proof -
  have s: "unat (len + 2 ^ k) = unat len + 2 ^ k" using k fit by (simp add: unat_add_u64 unat_two_power)
  have r: "unat (round_len (2 ^ k) len) = (if unat len mod 2 ^ k = 0 then unat len else (unat len + 2 ^ k) div 2 ^ k * 2 ^ k)"
    using k by (simp add: round_len_def page_down s word_unat_eq_iff unat_mod_distrib unat_two_power)
  have "(unat len + 2 ^ k) div 2 ^ k * 2 ^ k = unat len div 2 ^ k * 2 ^ k + 2 ^ k"
    using div_add_self2 [of "2 ^ k :: nat" "unat len"] by (simp add: algebra_simps)
  moreover have "unat len < unat len div 2 ^ k * 2 ^ k + 2 ^ k"
  proof -
    have "unat len mod 2 ^ k < 2 ^ k" by simp
    then show ?thesis using div_mult_mod_eq [of "unat len" "2 ^ k"] by linarith
  qed
  ultimately show "unat len \<le> unat (round_len (2 ^ k) len)" by (simp only: r split: if_split) simp
  show "unat (round_len (2 ^ k) len) \<le> unat len + 2 ^ k" using div_times_less_eq_dividend [of "unat len + 2 ^ k" "2 ^ k"] by (simp add: r)
qed

text \<open>A request for \<open>len\<close> bytes between two bounds: what lies before and behind the array of segments does not matter.\<close>

lemma constrained_mmap_rooms:
  fixes psize :: u64
  defines "down \<equiv> \<lambda>a :: u64. a AND NOT (psize - 1)"
  defines "low \<equiv> \<lambda>a. down (if a < DYNINSTheap_loAddr then DYNINSTheap_loAddr else a)"
  assumes segs: "segs_ok maps" "maps \<noteq> []" "paged psize maps"
    and ps: "psize = 2 ^ k" "k < 31"
    and len: "len \<noteq> 0" "unat len + unat psize < 2 ^ 31"
    and bounds: "low lo < down hi" "unat hi + unat len + 2 * unat psize < 2 ^ 64"
  shows "\<exists>r new. constrained_mmap os stray psize len lo hi maps tr = Inr (r, tr @ new)
    \<and> unat len \<le> unat (round_len psize len)
    \<and> (\<forall>c \<in> set new. in_room (round_len psize len) (low lo) (down hi) maps c)
    \<and> (r \<noteq> 0 \<longrightarrow> new \<noteq> [] \<and> os (tr @ new) = r)
    \<and> (r = 0 \<longrightarrow> (\<forall>x. unat psize dvd unat x \<and> in_room (round_len psize len) (low lo) (down hi) maps (Mmap x (round_len psize len))
          \<longrightarrow> Mmap x (round_len psize len) \<in> set new))"
proof -
  have k: "k < 64" and p: "unat psize = 2 ^ k" using ps by (simp_all add: unat_two_power)
  note down = page_down [OF k, folded ps(1)]
  have n: "unat len \<le> unat (round_len psize len)" "unat (round_len psize len) \<le> unat len + unat psize"
    using round_len_ok [OF k, of len] len(2) p by (simp_all add: ps(1))
  then have small: "unat (round_len psize len) < 2 ^ 31" using len(2) by linarith
  have "0 < unat len" using len(1) by (simp add: unat_gt_0)
  then have some: "round_len psize len \<noteq> 0" using n(1) by (metis not_le unsigned_0)
  have "unat (down hi) \<le> unat hi" using down [of hi] by (simp add: down_def)
  then have fit: "unat (down hi) + unat (round_len psize len) + unat psize < 2 ^ 64" using n(2) bounds(2) by linarith
  have "psize \<noteq> 0" using p by (auto simp: unat_gt_0)
  moreover have "unat psize dvd unat (low lo)" by (simp add: low_def down_def down p)
  ultimately obtain r new where
    r: "search_space os stray psize (round_len psize len) (low lo) (down hi) maps tr = Inr (r, tr @ new)"
      "searched os psize (round_len psize len) (low lo) (down hi) maps tr r new"
    using search_space_spec [OF segs(1,2) small some _ fit segs(3)] by blast
  have "constrained_mmap os stray psize len lo hi maps tr = Inr (r, tr @ new)"
    using r(1) bounds(1) unfolding constrained_mmap_def Let_def down_def low_def by (simp add: word_not_simps)
  then show ?thesis using r(2) n(1) unfolding searched_def mapped_at_def by blast
qed

definition two_segments :: "dyninstmm list" where
  "two_segments = [\<lparr>pr_vaddr = 0x400000, pr_size = 0x1000\<rparr>, \<lparr>pr_vaddr = 0x7000000, pr_size = 0x2000\<rparr>]"

text \<open>A system that gives the second page behind the first segment, and no other.\<close>

definition one_page_free :: mm_os where
  "one_page_free cs = (if last cs = Mmap 0x402000 0x1000 then 0x402000 else if last cs = Open_zero then 3 else - 1)"

lemma page_above_low:
  fixes lo hi :: u64
  assumes k: "k < 64" and lt: "(if lo < DYNINSTheap_loAddr then DYNINSTheap_loAddr else lo) AND NOT (2 ^ k - 1) < hi AND NOT (2 ^ k - 1)"
  shows "\<not> hi < DYNINSTheap_loAddr"
proof
  assume h: "hi < DYNINSTheap_loAddr"
  have "DYNINSTheap_loAddr \<le> (if lo < DYNINSTheap_loAddr then DYNINSTheap_loAddr else lo)" by (simp add: not_less)
  then have "hi \<le> (if lo < DYNINSTheap_loAddr then DYNINSTheap_loAddr else lo)" by (rule less_imp_le [OF less_le_trans [OF h]])
  from page_down_mono [OF k this] show False using lt by simp
qed

lemma mmap_heap_eq:
  assumes "heap_checkMappings (heap_memmapSort ms) = Inr ()" "\<not> hi < DYNINSTheap_loAddr"
  shows "mmap_heap os stray psize (Some ms) nbytes lo hi tr = (if sint (os (tr @ [Open_zero])) < 0 then Inr (None, tr @ [Open_zero])
    else and_then (constrained_mmap os stray psize nbytes lo hi (heap_memmapSort ms) (tr @ [Open_zero])) (\<lambda>(heap, tr2). Inr
      (if heap = 0 then None else Some \<lparr>ret_addr = heap, heap_addr = heap, heap_len = nbytes, heap_type = HEAP_TYPE_MMAP,
         node_prev = NULL, node_next = NULL\<rparr>, tr2 @ [Close_zero (os (tr @ [Open_zero]))])))"
  using assms by (simp add: mmap_heap_def mm_do_def case_prod_unfold)

lemma clear_of_set: "set maps = set maps' \<Longrightarrow> clear_of maps = clear_of maps'"
  by (simp add: clear_of_def fun_eq_iff)



text \<open>Near the top of the address space the sum of the loop wraps: when the places below the upper bound are refused, it
  goes on from address zero, outside its bounds.\<close>

lemma trymmap_wraps:
  "trymmap (\<lambda>cs. if last cs = Mmap 0x1000 0x1000 then 0x1000 else - 1) 0x1000 0xffffffffffffe000 0xfffffffffffff000 0x1000 [] =
     Some (0x1000, [Mmap 0xffffffffffffe000 0x1000, Mmap 0xfffffffffffff000 0x1000, Mmap 0 0x1000, Mmap 0x1000 0x1000])"
  by (simp add: trymmap.simps map_region_def mm_do_def)

subsection \<open>The list of regions: a doubly linked list as a sequence\<close>

type_synonym nodes = "addr \<rightharpoonup> heap_node"

fun dll :: "nodes \<Rightarrow> addr \<Rightarrow> addr \<Rightarrow> addr list \<Rightarrow> addr \<Rightarrow> addr \<Rightarrow> bool" where
  "dll ns b p [] l q \<longleftrightarrow> p = q \<and> b = l"
| "dll ns b p (t # ts) l q \<longleftrightarrow> p = t \<and> t \<noteq> NULL \<and> (\<exists>n. ns t = Some n \<and> node_prev n = b \<and> dll ns t (node_next n) ts l q)"

lemma dll_append: "dll ns b p (xs @ ys) l q \<longleftrightarrow> (\<exists>l' q'. dll ns b p xs l' q' \<and> dll ns l' q' ys l q)"
  by (induction xs arbitrary: b p) auto

lemma dll_frame: "(\<And>x. x \<in> set ts \<Longrightarrow> ns' x = ns x) \<Longrightarrow> dll ns' b p ts l q = dll ns b p ts l q"
  by (induction ts arbitrary: b p) auto

lemma dll_upd [simp]: "x \<notin> set ts \<Longrightarrow> dll (ns(x := v)) b p ts l q = dll ns b p ts l q"
  by (rule dll_frame) auto

lemma dll_ends: "dll ns b p ts l q \<Longrightarrow> (ts = [] \<and> p = q \<and> l = b) \<or> (ts \<noteq> [] \<and> p = hd ts \<and> l = last ts \<and> p \<noteq> NULL \<and> l \<noteq> NULL)"
  by (induction ts arbitrary: b p) fastforce+

definition link_prev :: "addr \<Rightarrow> addr \<Rightarrow> nodes \<Rightarrow> nodes" where
  "link_prev p b ns = (if p \<noteq> NULL then ns(p := map_option (node_prev_update (\<lambda>_. b)) (ns p)) else ns)"

definition link_next :: "addr \<Rightarrow> addr \<Rightarrow> nodes \<Rightarrow> nodes" where
  "link_next p q ns = (if p \<noteq> NULL then ns(p := map_option (node_next_update (\<lambda>_. q)) (ns p)) else ns)"

lemma dll_link_prev:
  assumes "dll ns b p ts l NULL" "distinct ts"
  shows "dll (link_prev p b' ns) b' p ts (if ts = [] then b' else l) NULL"
  using assms by (cases ts) (auto simp: link_prev_def)

lemma dll_link_next:
  assumes "dll ns NULL p ts l q" "distinct ts"
  shows "dll (link_next l q' ns) NULL (if ts = [] then q' else p) ts l q'"
proof (cases ts rule: rev_cases)
  case (snoc us u)
  then show ?thesis using assms by (auto simp: dll_append link_next_def)
qed (use assms in \<open>auto simp: link_next_def\<close>)

lemma dll_set_other [simp]:
  "x \<notin> set ts \<Longrightarrow> dll (link_prev x b' ns) b p ts l q = dll ns b p ts l q"
  "x \<notin> set ts \<Longrightarrow> dll (link_next x q' ns) b p ts l q = dll ns b p ts l q"
  by (simp_all add: link_prev_def link_next_def)

lemma link_prev_other: "x \<noteq> p \<Longrightarrow> link_prev p b ns x = ns x"
  by (simp add: link_prev_def)

lemma link_next_other: "x \<noteq> p \<Longrightarrow> link_next p b ns x = ns x"
  by (simp add: link_next_def)

lemma unlink_heap_eq:
  "unlink_heap t n st = st\<lparr>heap_nodes := link_next (node_prev n) (node_next n) (link_prev (node_next n) (node_prev n) (heap_nodes st)),
     Heaps := if Heaps st = t then node_next n else Heaps st\<rparr>"
  by (simp add: unlink_heap_def link_prev_def link_next_def Let_def)

lemma push_heap_eq:
  "push_heap node n st = st\<lparr>heap_nodes := link_prev (Heaps st) node ((heap_nodes st)(node \<mapsto> n\<lparr>node_prev := NULL, node_next := Heaps st\<rparr>)),
     Heaps := node\<rparr>"
  by (simp add: push_heap_def link_prev_def Let_def)

text \<open>The state holds the nodes \<open>ts\<close>, in this order; \<open>regions\<close> is what they say.\<close>

definition heaps_at :: "rt_heap \<Rightarrow> addr list \<Rightarrow> bool" where
  "heaps_at st ts \<longleftrightarrow> distinct ts \<and> (\<exists>l. dll (heap_nodes st) NULL (Heaps st) ts l NULL)"

type_synonym region = "u64 \<times> u64 \<times> u64 \<times> heapType"

definition region_of :: "heap_node \<Rightarrow> region" where
  "region_of n = (ret_addr n, heap_addr n, heap_len n, heap_type n)"

definition regions :: "nodes \<Rightarrow> addr list \<Rightarrow> region list" where
  "regions ns ts = map (\<lambda>t. region_of (the (ns t))) ts"

lemma region_of_links [simp]: "region_of (n\<lparr>node_prev := b\<rparr>) = region_of n" "region_of (n\<lparr>node_next := q\<rparr>) = region_of n"
  by (simp_all add: region_of_def)

lemma region_link_prev [simp]: "region_of (the (link_prev p b ns x)) = region_of (the (ns x))"
  by (cases "ns p") (auto simp: link_prev_def)

lemma region_link_next [simp]: "region_of (the (link_next p b ns x)) = region_of (the (ns x))"
  by (cases "ns p") (auto simp: link_next_def)

lemma dll_nonnull: "dll ns b p ts l q \<Longrightarrow> NULL \<notin> set ts"
  by (induction ts arbitrary: b p) auto

lemma dll_allocated: "dll ns b p ts l q \<Longrightarrow> x \<in> set ts \<Longrightarrow> ns x \<noteq> None"
  by (induction ts arbitrary: b p) auto

lemma push_heap_at:
  assumes at: "heaps_at st ts" and new: "node \<noteq> NULL" "heap_nodes st node = None"
  shows "heaps_at (push_heap node n st) (node # ts)"
    "regions (heap_nodes (push_heap node n st)) (node # ts) = region_of n # regions (heap_nodes st) ts"
proof -
  let ?n = "n\<lparr>node_prev := NULL, node_next := Heaps st\<rparr>"
  obtain l where l: "distinct ts" "dll (heap_nodes st) NULL (Heaps st) ts l NULL" using at by (auto simp: heaps_at_def)
  have node: "node \<notin> set ts" using dll_allocated [OF l(2), of node] new by auto
  then have "dll ((heap_nodes st)(node \<mapsto> ?n)) NULL (Heaps st) ts l NULL" using l(2) by simp
  from dll_link_prev [OF this l(1), of node] have
    d: "dll (link_prev (Heaps st) node ((heap_nodes st)(node \<mapsto> ?n))) node (Heaps st) ts (if ts = [] then node else l) NULL" .
  have "Heaps st \<noteq> node" using dll_ends [OF l(2)] node new by auto
  then show "heaps_at (push_heap node n st) (node # ts)"
    using d l(1) node new by (auto simp: heaps_at_def push_heap_eq link_prev_other simp del: dll.simps(1))
  show "regions (heap_nodes (push_heap node n st)) (node # ts) = region_of n # regions (heap_nodes st) ts"
    using dll_allocated [OF l(2)] node by (auto simp: regions_def push_heap_eq)
qed

lemma dll_unlink:
  assumes d: "dll ns NULL h (pre @ t # post) l NULL" "distinct (pre @ t # post)" "ns t = Some n"
  shows "\<exists>l'. dll (link_next (node_prev n) (node_next n) (link_prev (node_next n) (node_prev n) ns)) NULL
    (if h = t then node_next n else h) (pre @ post) l' NULL"
proof -
  obtain l' where pre: "dll ns NULL h pre l' t" and prev: "node_prev n = l'" and post: "dll ns t (node_next n) post l NULL"
    using d(1,3) by (auto simp: dll_append)
  let ?q = "node_next n" and ?ns = "link_prev (node_next n) l' ns"
  have "?q \<notin> set pre" using dll_ends [OF post] dll_allocated d(1,2) by (cases post) (auto simp: dll_append dest: dll_nonnull)
  then have "dll ?ns NULL h pre l' t" using pre by simp
  then have 1: "dll (link_next l' ?q ?ns) NULL (if pre = [] then ?q else h) pre l' ?q" using d(2) by (intro dll_link_next) auto
  have "dll ?ns l' ?q post (if post = [] then l' else l) NULL" using dll_link_prev [OF post] d(2) by auto
  moreover have "l' \<notin> set post" using dll_ends [OF pre] d(2) dll_nonnull [OF post] last_in_set [of pre] by (auto simp: disjoint_iff)
  ultimately have 2: "dll (link_next l' ?q ?ns) l' ?q post (if post = [] then l' else l) NULL" by simp
  have "(h = t) = (pre = [])" using dll_ends [OF pre] d(2) by auto
  then show ?thesis using 1 2 unfolding prev dll_append by (simp only:) blast
qed

text \<open>Freeing, on the sequence: the first region with this address goes.\<close>

fun take_region :: "u64 \<Rightarrow> region list \<Rightarrow> (region \<times> region list) option" where
  "take_region buf [] = None"
| "take_region buf (r # rs) = (if fst r = buf then Some (r, rs) else map_option (\<lambda>(r', rs'). (r', r # rs')) (take_region buf rs))"

lemma take_region_None: "take_region buf rs = None \<longleftrightarrow> (\<forall>r \<in> set rs. fst r \<noteq> buf)"
  by (induction rs) auto

lemma free_loop_skips:
  assumes "dll (heap_nodes st) b p (pre @ post) l q" "\<forall>x \<in> set pre. ret_addr (the (heap_nodes st x)) \<noteq> buf"
  shows "\<exists>b' p'. free_loop os buf p st = free_loop os buf p' st \<and> dll (heap_nodes st) b' p' post l q"
  using assms by (induction pre arbitrary: b p) (auto, subst free_loop.simps, auto)

lemma heaps_at_split:
  assumes "heaps_at st ts" "take_region buf (regions (heap_nodes st) ts) = Some (r, rs)"
  shows "\<exists>pre t post n. ts = pre @ t # post \<and> (\<forall>x \<in> set pre. ret_addr (the (heap_nodes st x)) \<noteq> buf) \<and> heap_nodes st t = Some n
    \<and> ret_addr n = buf \<and> r = region_of n \<and> rs = regions (heap_nodes st) (pre @ post)"
proof -
  have alloc: "\<forall>t \<in> set ts. heap_nodes st t \<noteq> None" using assms(1) dll_allocated by (auto simp: heaps_at_def)
  show ?thesis using assms(2) alloc
  proof (induction ts arbitrary: rs)
    case (Cons t ts)
    then obtain n where n: "heap_nodes st t = Some n" by auto
    show ?case
    proof (cases "ret_addr n = buf")
      case True
      then show ?thesis using n Cons.prems
        by (intro exI [of _ "[]"] exI [of _ t] exI [of _ ts] exI [of _ n]) (auto simp: regions_def region_of_def)
    next
      case False
      then obtain rs' where rs: "take_region buf (regions (heap_nodes st) ts) = Some (r, rs')" "rs = region_of n # rs'"
        using n Cons.prems(1) by (auto simp: regions_def region_of_def)
      then obtain pre t' post n' where s: "ts = pre @ t' # post" "\<forall>x \<in> set pre. ret_addr (the (heap_nodes st x)) \<noteq> buf"
          "heap_nodes st t' = Some n'" "ret_addr n' = buf" "r = region_of n'" "rs' = regions (heap_nodes st) (pre @ post)"
        using Cons.IH [OF rs(1)] Cons.prems(2) by auto
      then show ?thesis using n False rs(2)
        by (intro exI [of _ "t # pre"] exI [of _ t'] exI [of _ post] exI [of _ n']) (auto simp: regions_def)
    qed
  qed (simp add: regions_def)
qed

lemma os_free_none:
  assumes "heaps_at st ts" "take_region buf (regions (heap_nodes st) ts) = None"
  shows "DYNINSTos_free os buf st = Inr (0, st)"
proof -
  obtain l where l: "dll (heap_nodes st) NULL (Heaps st) (ts @ []) l NULL" using assms(1) by (auto simp: heaps_at_def)
  have "\<forall>x \<in> set ts. ret_addr (the (heap_nodes st x)) \<noteq> buf"
    using assms(2) by (auto simp: take_region_None regions_def region_of_def)
  from free_loop_skips [OF l this, of os] have "free_loop os buf (Heaps st) st = free_loop os buf NULL st" by auto
  then show ?thesis by (simp add: DYNINSTos_free_def free_loop.simps [of _ _ NULL])
qed

lemma os_free_one:
  assumes at: "heaps_at st ts" and take: "take_region buf (regions (heap_nodes st) ts) = Some (r, rs)"
  shows "\<exists>n st' ts'. r = region_of n \<and> DYNINSTos_free os buf st = Inr (fst (release_heap os n (mm_trace st)), st')
    \<and> heaps_at st' ts' \<and> regions (heap_nodes st') ts' = rs \<and> mm_trace st' = snd (release_heap os n (mm_trace st))"
proof -
  obtain pre t post n where s: "ts = pre @ t # post" "\<forall>x \<in> set pre. ret_addr (the (heap_nodes st x)) \<noteq> buf" "heap_nodes st t = Some n"
      "ret_addr n = buf" "r = region_of n" "rs = regions (heap_nodes st) (pre @ post)"
    using heaps_at_split [OF assms] by blast
  obtain l where l: "dll (heap_nodes st) NULL (Heaps st) (pre @ t # post) l NULL" "distinct (pre @ t # post)"
    using at s(1) by (auto simp: heaps_at_def)
  let ?ns = "link_next (node_prev n) (node_next n) (link_prev (node_next n) (node_prev n) (heap_nodes st))"
  let ?st = "st\<lparr>heap_nodes := ?ns(t := None), Heaps := if Heaps st = t then node_next n else Heaps st,
      mm_trace := snd (release_heap os n (mm_trace st))\<rparr>"
  have "free_loop os buf (Heaps st) st = free_loop os buf t st" using free_loop_skips [OF l(1) s(2), of os] by auto
  then have "DYNINSTos_free os buf st = Inr (fst (release_heap os n (mm_trace st)), ?st)"
    using s(3,4) l(1) by (auto simp: DYNINSTos_free_def free_loop.simps [of _ _ t] unlink_heap_eq dll_append Let_def case_prod_unfold)
  moreover have "heaps_at ?st (pre @ post)"
    using dll_unlink [OF l s(3)] l(2) by (auto simp: heaps_at_def)
  moreover have "regions (heap_nodes ?st) (pre @ post) = rs"
    using dll_allocated [OF l(1)] l(2) unfolding s(6) by (auto simp: regions_def)
  moreover have "mm_trace ?st = snd (release_heap os n (mm_trace st))" by simp
  ultimately show ?thesis using s(5) by blast
qed

lemma os_malloc_pushes:
  assumes "DYNINSTos_malloc os stray psize maps node buf nbytes lo hi st = Inr (a, st')" "a \<noteq> 0" "a \<noteq> - 1"
  shows "\<exists>n tr. region_of n = (a, a, nbytes, HEAP_TYPE_MMAP) \<and> node \<noteq> NULL \<and> st' = push_heap node n (st\<lparr>mm_trace := tr\<rparr>)"
proof -
  obtain h tr where h: "mmap_heap os stray psize maps nbytes lo hi (mm_trace st) = Inr (h, tr)"
      "(case h of None \<Rightarrow> Inr (0, st\<lparr>mm_trace := tr\<rparr>)
        | Some n \<Rightarrow> if node = NULL then Inl Null_pointer else Inr (ret_addr n, push_heap node n (st\<lparr>mm_trace := tr\<rparr>))) = Inr (a, st')"
    using assms by (auto simp: DYNINSTos_malloc_def DYNINSTheap_useMalloc_def and_then_Inr split: if_splits)
  then obtain n where n: "h = Some n" "node \<noteq> NULL" "a = ret_addr n" "st' = push_heap node n (st\<lparr>mm_trace := tr\<rparr>)"
    using assms(2) by (auto split: option.splits if_splits)
  have "region_of n = (a, a, nbytes, HEAP_TYPE_MMAP)"
    using h(1) n(1,3) by (auto simp: mmap_heap_def mm_do_def and_then_Inr region_of_def split: if_splits option.splits)
  then show ?thesis using n by blast
qed

lemma os_malloc_region:
  assumes at: "heaps_at st ts" and new: "heap_nodes st node = None"
    and m: "DYNINSTos_malloc os stray psize maps node buf nbytes lo hi st = Inr (a, st')" "a \<noteq> 0" "a \<noteq> - 1"
  shows "heaps_at st' (node # ts) \<and> regions (heap_nodes st') (node # ts) = (a, a, nbytes, HEAP_TYPE_MMAP) # regions (heap_nodes st) ts"
proof -
  obtain n tr where n: "region_of n = (a, a, nbytes, HEAP_TYPE_MMAP)" "node \<noteq> NULL" "st' = push_heap node n (st\<lparr>mm_trace := tr\<rparr>)"
    using os_malloc_pushes [OF m] by auto
  have "heaps_at (st\<lparr>mm_trace := tr\<rparr>) ts" using at by (simp add: heaps_at_def)
  from push_heap_at [OF this n(2), of n] new n(1,3) show ?thesis by simp
qed

lemma os_free_mmap:
  assumes at: "heaps_at st ts" and t: "take_region buf (regions (heap_nodes st) ts) = Some ((a, b, n, HEAP_TYPE_MMAP), rs)" and n: "unat n < 2 ^ 31"
  shows "\<exists>st' ts'. DYNINSTos_free os buf st = Inr (if os (mm_trace st @ [Munmap b n]) = - 1 then - 1 else 0, st')
    \<and> heaps_at st' ts' \<and> regions (heap_nodes st') ts' = rs \<and> mm_trace st' = mm_trace st @ [Munmap b n]"
proof -
  obtain x st' ts' where x: "(a, b, n, HEAP_TYPE_MMAP) = region_of x" "DYNINSTos_free os buf st = Inr (fst (release_heap os x (mm_trace st)), st')"
      "heaps_at st' ts'" "regions (heap_nodes st') ts' = rs" "mm_trace st' = snd (release_heap os x (mm_trace st))"
    using os_free_one [OF at t, of os] by blast
  have f: "heap_addr x = b" "heap_len x = n" "heap_type x = HEAP_TYPE_MMAP" using x(1) by (simp_all add: region_of_def)
  have "release_heap os x (mm_trace st) = (if os (mm_trace st @ [Munmap b n]) = - 1 then - 1 else 0, mm_trace st @ [Munmap b n])"
    by (simp add: f release_heap_def unmap_region_def mm_do_def scast_small [OF n])
  then show ?thesis using x by auto
qed

text \<open>C31: The doubly linked list of regions is the sequence of the regions handed out and not yet given back.  An allocation that
  returns an address puts its region in front.  A release never runs astray: it takes the first region with that address
  out, wherever it is in the list, unmaps exactly that region and reports whether the system did; for an address that was
  not handed out it does nothing.
\<close>

theorem heap_list_refines:
  assumes at: "heaps_at st ts"
  shows "(heap_nodes st node = None \<and> DYNINSTos_malloc os stray psize maps node buf nbytes lo hi st = Inr (a, st') \<and> a \<notin> {0, - 1} \<longrightarrow>
      heaps_at st' (node # ts) \<and> regions (heap_nodes st') (node # ts) = (a, a, nbytes, HEAP_TYPE_MMAP) # regions (heap_nodes st) ts)
    \<and> (case take_region old (regions (heap_nodes st) ts) of
         None \<Rightarrow> DYNINSTos_free os old st = Inr (0, st)
       | Some ((_, b, n, ty), rs) \<Rightarrow> ty = HEAP_TYPE_MMAP \<and> unat n < 2 ^ 31 \<longrightarrow>
           (\<exists>st' ts'. DYNINSTos_free os old st = Inr (if os (mm_trace st @ [Munmap b n]) = - 1 then - 1 else 0, st')
             \<and> heaps_at st' ts' \<and> regions (heap_nodes st') ts' = rs \<and> mm_trace st' = mm_trace st @ [Munmap b n]))"
  using os_malloc_region [OF at] os_free_none [OF at] os_free_mmap [OF at] by (auto split: option.split)

definition heap_before :: rt_heap where
  "heap_before = \<lparr>Heaps = 8, heap_nodes =
     [8 \<mapsto> \<lparr>ret_addr = 0x10000, heap_addr = 0x10000, heap_len = 0x1000, heap_type = HEAP_TYPE_MMAP, node_prev = NULL, node_next = 16\<rparr>,
      16 \<mapsto> \<lparr>ret_addr = 0x20000, heap_addr = 0x20000, heap_len = 0x3000, heap_type = HEAP_TYPE_MMAP, node_prev = 8, node_next = NULL\<rparr>], mm_trace = []\<rparr>"

theorem heap_list_refines_witness:
  "heaps_at heap_before [8, 16]
   \<and> (\<exists>st' ts'. DYNINSTos_free (\<lambda>_. 0) 0x20000 heap_before = Inr (0, st') \<and> heaps_at st' ts'
      \<and> regions (heap_nodes st') ts' = [(0x10000, 0x10000, 0x1000, HEAP_TYPE_MMAP)] \<and> mm_trace st' = [Munmap 0x20000 0x3000])"
proof -
  have at: "heaps_at heap_before [8, 16]" by (simp add: heaps_at_def heap_before_def)
  have t: "mm_trace heap_before = []" "regions (heap_nodes heap_before) [8, 16] =
      [(0x10000, 0x10000, 0x1000, HEAP_TYPE_MMAP), (0x20000, 0x20000, 0x3000, HEAP_TYPE_MMAP)]"
    by (simp_all add: regions_def region_of_def heap_before_def)
  show ?thesis using heap_list_refines [OF at, of 0 "\<lambda>_. 0" "\<lambda>_. \<lparr>pr_vaddr = 0, pr_size = 0\<rparr>" 0 None 0 0 0 0 0 heap_before "0x20000"] at t by simp
qed

end
