(* ===== verification/RT_Memory_Map.thy ===== *)
theory RT_Memory_Map
  imports RT_Heap
begin

section \<open>dyninstAPI_RT/RTheap-linux.c: reading the memory map\<close>

text \<open>
  \<^verbatim>\<open>DYNINSTgetMemoryMap\<close> reads \<^verbatim>\<open>/proc/self/maps\<close> into a buffer, which it doubles until the file fits, cuts it into lines
  and takes the two addresses from each line.  \<open>rd k off cnt\<close> is what \<^verbatim>\<open>read\<close> returns for the file opened the
  \<open>k\<close>th time (\<open>None\<close> for an error, the empty string at the end of the file), \<open>can_open\<close> and \<open>mem\<close> tell whether opening
  and allocating works.  The size of the buffer is kept for the next call.
\<close>

abbreviation (input) MAX_MAP_SIZE :: u64 where "MAX_MAP_SIZE \<equiv> 2 ^ 20"
abbreviation (input) STRING_END :: char where "STRING_END \<equiv> CHR 0x00"
abbreviation (input) NEWLINE :: char where "NEWLINE \<equiv> CHR 0x0A"

datatype map_read = Read_done string | Read_failed | Read_full

function read_maps_loop :: "(nat \<Rightarrow> nat \<Rightarrow> string option) \<Rightarrow> nat \<Rightarrow> string \<Rightarrow> map_read" where
  "read_maps_loop rd cap acc =
     (case rd (length acc) (cap - length acc) of
        None \<Rightarrow> Read_failed
      | Some bs \<Rightarrow>
          if bs = [] then Read_done acc
          else if cap \<le> length acc + length bs then Read_full
          else read_maps_loop rd cap (acc @ bs))"
  by auto
termination
proof (relation "measure (\<lambda>(_, cap, acc). cap - length acc)", goal_cases)
  case (2 rd cap acc bs)
  then show ?case by (cases bs) auto
qed simp

declare read_maps_loop.simps [simp del]

text \<open>The result is the text, the size of the buffer from now on, and the number of files left open.\<close>

partial_function (option) read_maps ::
  "(nat \<Rightarrow> nat \<Rightarrow> nat \<Rightarrow> string option) \<Rightarrow> (nat \<Rightarrow> bool) \<Rightarrow> (nat \<Rightarrow> bool) \<Rightarrow> nat \<Rightarrow> u64 \<Rightarrow> (string option \<times> u64 \<times> nat) option" where
  "read_maps rd can_open mem k mapSize =
     (if \<not> mem k then Some (None, mapSize, 0)
      else if \<not> can_open k then Some (None, mapSize, 0)
      else case read_maps_loop (rd k) (unat mapSize) [] of
             Read_done body \<Rightarrow> Some (Some body, mapSize, 1)
           | Read_failed \<Rightarrow> Some (None, mapSize, 0)
           | Read_full \<Rightarrow> let mapSize' = push_bit 1 mapSize
                          in if mapSize' > MAX_MAP_SIZE then Some (None, mapSize', 0) else read_maps rd can_open mem (Suc k) mapSize')"

subsection \<open>The C library: strtok and strtoul\<close>

text \<open>The token of a string and what is behind the character that ends it.\<close>

definition strtok :: "char \<Rightarrow> string \<Rightarrow> (string \<times> string) option" where
  "strtok d s =
     (let t = dropWhile (\<lambda>c. c = d) s; tok = takeWhile (\<lambda>c. c \<noteq> d) t
      in if tok = [] then None else Some (tok, drop 1 (dropWhile (\<lambda>c. c \<noteq> d) t)))"

definition is_hex :: "char \<Rightarrow> bool" where
  "is_hex c \<longleftrightarrow> is_digit c \<or> 65 \<le> (of_char c :: nat) \<and> (of_char c :: nat) \<le> 70 \<or> 97 \<le> (of_char c :: nat) \<and> (of_char c :: nat) \<le> 102"

definition hex_val :: "char \<Rightarrow> nat" where
  "hex_val c = (if is_digit c then digit_val c else if (of_char c :: nat) \<le> 70 then of_char c - 55 else of_char c - 87)"

definition hexs_val :: "string \<Rightarrow> nat" where
  "hexs_val cs = foldl (\<lambda>a c. 16 * a + hex_val c) 0 cs"

definition strtoul16 :: "string \<Rightarrow> u64" where
  "strtoul16 s =
     (let t = dropWhile is_space s;
          neg = (t \<noteq> [] \<and> hd t = CHR ''-'');
          u = (if t \<noteq> [] \<and> hd t \<in> {CHR ''-'', CHR ''+''} then tl t else t);
          v = (if take 2 u \<in> {''0x'', ''0X''} \<and> length u > 2 \<and> is_hex (u ! 2) then drop 2 u else u);
          n = hexs_val (takeWhile is_hex v)
      in if n \<ge> 2 ^ 64 then - 1 else if neg then - of_nat n else of_nat n)"

subsection \<open>The lines\<close>

text \<open>The first pass puts a null character behind each line; newlines before a line stay in front of it.\<close>

function map_lines :: "string \<Rightarrow> string list" where
  "map_lines s =
     (let (nl, t) = (takeWhile (\<lambda>c. c = NEWLINE) s, dropWhile (\<lambda>c. c = NEWLINE) s); tok = takeWhile (\<lambda>c. c \<noteq> NEWLINE) t
      in if tok = [] then [] else (nl @ tok) # map_lines (drop 1 (dropWhile (\<lambda>c. c \<noteq> NEWLINE) t)))"
  by auto
termination
proof (relation "measure length", goal_cases)
  case (2 s x nl t tok)
  have "length (takeWhile (\<lambda>c. c \<noteq> NEWLINE) t) + length (dropWhile (\<lambda>c. c \<noteq> NEWLINE) t) = length t" by (metis length_append takeWhile_dropWhile_id)
  moreover have "0 < length (takeWhile (\<lambda>c. c \<noteq> NEWLINE) t)" using 2 by simp
  moreover have "length t \<le> length s" using 2 by (simp add: length_dropWhile_le)
  ultimately have "length (dropWhile (\<lambda>c. c \<noteq> NEWLINE) t) < length s" by linarith
  then show ?case by simp
qed simp

declare map_lines.simps [simp del]

definition parse_segment :: "string \<Rightarrow> dyninstmm option" where
  "parse_segment line =
     (case strtok CHR ''-'' line of
        None \<Rightarrow> None
      | Some (s, rest) \<Rightarrow>
          (case strtok CHR '' '' rest of
             None \<Rightarrow> None
           | Some (e, _) \<Rightarrow> Some \<lparr>pr_vaddr = strtoul16 s, pr_size = strtoul16 e - strtoul16 s\<rparr>))"

definition DYNINSTgetMemoryMap ::
  "(nat \<Rightarrow> nat \<Rightarrow> nat \<Rightarrow> string option) \<Rightarrow> (nat \<Rightarrow> bool) \<Rightarrow> (nat \<Rightarrow> bool) \<Rightarrow> bool \<Rightarrow> u64 \<Rightarrow> fault + dyninstmm list option \<times> u64 \<times> nat" where
  "DYNINSTgetMemoryMap rd can_open mem mem_ms mapSize =
     and_then (or_endless (read_maps rd can_open mem 0 mapSize)) (\<lambda>(body, mapSize', fds). Inr
       (case body of
          None \<Rightarrow> None
        | Some s \<Rightarrow>
            if \<not> mem_ms then None
            else let ms = map parse_segment (map_lines (takeWhile (\<lambda>c. c \<noteq> STRING_END) s))
                 in if None \<in> set ms then None else Some (map the ms), mapSize', fds))"

subsection \<open>Reading\<close>

text \<open>The file has the text, and every read gives some of what is left.\<close>

definition delivers :: "string \<Rightarrow> (nat \<Rightarrow> nat \<Rightarrow> string option) \<Rightarrow> bool" where
  "delivers body rd \<longleftrightarrow> (\<forall>off cnt. \<exists>bs. rd off cnt = Some bs \<and> bs = take (length bs) (drop off body) \<and> length bs \<le> cnt
     \<and> (bs = [] \<longrightarrow> cnt = 0 \<or> length body \<le> off))"

lemma read_maps_loop_delivers:
  assumes d: "delivers body rd"
    and "acc = take (length acc) body" "length acc \<le> length body" "length acc < cap"
  shows "read_maps_loop rd cap acc = (if length body < cap then Read_done body else Read_full)"
  using assms(2-)
proof (induction "length body - length acc" arbitrary: acc rule: less_induct)
  case less
  obtain bs where bs: "rd (length acc) (cap - length acc) = Some bs" "bs = take (length bs) (drop (length acc) body)"
      "length bs \<le> cap - length acc" "bs = [] \<longrightarrow> cap - length acc = 0 \<or> length body \<le> length acc"
    using d unfolding delivers_def by blast
  show ?case
  proof (cases "bs = []")
    case True
    then have "length body \<le> length acc" using bs(4) less.prems(3) by auto
    then have "acc = body" using less.prems(1) by (metis take_all)
    then show ?thesis using bs(1) True less.prems(3) by (subst read_maps_loop.simps) simp
  next
    case False
    have len: "length acc + length bs \<le> length body" using arg_cong [OF bs(2), of length] less.prems(2) by simp
    have pre: "acc @ bs = take (length (acc @ bs)) body" using less.prems(1) bs(2) by (metis length_append take_add)
    have "0 < length bs" using False by simp
    then have "length body - length (acc @ bs) < length body - length acc" using len unfolding length_append by linarith
    from less.hyps [OF this pre] len have "read_maps_loop rd cap (acc @ bs) = (if length body < cap then Read_done body else Read_full)"
      if "length acc + length bs < cap" using that by simp
    then show ?thesis using bs(1) False len by (subst read_maps_loop.simps) (simp add: not_le)
  qed
qed

lemma read_maps_delivers:
  assumes d: "\<forall>k. delivers body (rd k) \<and> can_open k \<and> mem k" and i: "i \<le> 20"
  shows "if length body < 2 ^ 20
    then \<exists>j \<le> 20. read_maps rd can_open mem k (2 ^ i) = Some (Some body, 2 ^ j, 1) \<and> length body < 2 ^ j
    else read_maps rd can_open mem k (2 ^ i) = Some (None, 2 ^ 21, 0)"
  using i
proof (induction "20 - i" arbitrary: i k)
  case 0
  then have i: "i = 20" by simp
  have "read_maps_loop (rd k) (unat (2 ^ 20 :: u64)) [] = (if length body < 2 ^ 20 then Read_done body else Read_full)"
    using read_maps_loop_delivers [of body "rd k" "[]" "2 ^ 20"] d by simp
  then show ?case using d unfolding i by (subst (1 2) read_maps.simps) (auto intro!: exI [of _ 20])
next
  case (Suc m)
  have u: "unat (2 ^ i :: u64) = 2 ^ i" using Suc.prems by (simp add: unat_two_power)
  have r: "read_maps_loop (rd k) (unat (2 ^ i :: u64)) [] = (if length body < 2 ^ i then Read_done body else Read_full)"
    using read_maps_loop_delivers [of body "rd k" "[]" "2 ^ i"] d u by simp
  have le: "(2 :: nat) ^ i < 2 ^ 20" using Suc.hyps(2) by (intro power_strict_increasing) auto
  show ?case
  proof (cases "length body < 2 ^ i")
    case True
    then show ?thesis using r d le Suc.prems by (subst (1 2) read_maps.simps) (auto intro!: exI [of _ i])
  next
    case False
    have i: "Suc i \<le> 20" "Suc i < 64" using Suc.hyps(2) by linarith+
    have "unat (2 ^ Suc i :: u64) \<le> unat (2 ^ 20 :: u64)"
      unfolding unat_two_power [OF i(2)] using power_increasing [OF i(1), of "2 :: nat"] by simp
    then have "\<not> (2 ^ Suc i :: u64) > 2 ^ 20" by (simp only: word_less_nat_alt not_less)
    then have "read_maps rd can_open mem k (2 ^ i) = read_maps rd can_open mem (Suc k) (2 ^ Suc i)"
      using r d False by (subst read_maps.simps) (simp add: push_bit_eq_mult Let_def mult.commute)
    moreover have "m = 20 - Suc i" using Suc.hyps(2) by linarith
    ultimately show ?thesis using Suc.hyps(1) [OF _ i(1), of "Suc k"] by presburger
  qed
qed

subsection \<open>Parsing\<close>

text \<open>A line as the kernel writes it: two numbers in hexadecimal, and a rest that does not matter.\<close>

type_synonym maps_line = "string \<times> string \<times> string"

fun line_text :: "maps_line \<Rightarrow> string" where
  "line_text (h1, h2, rest) = h1 @ CHR ''-'' # h2 @ CHR '' '' # rest"

fun line_ok :: "maps_line \<Rightarrow> bool" where
  "line_ok (h1, h2, rest) \<longleftrightarrow> h1 \<noteq> [] \<and> h2 \<noteq> [] \<and> list_all is_hex h1 \<and> list_all is_hex h2
     \<and> hexs_val h1 < 2 ^ 64 \<and> hexs_val h2 < 2 ^ 64 \<and> NEWLINE \<notin> set rest \<and> STRING_END \<notin> set rest"

fun line_segment :: "maps_line \<Rightarrow> dyninstmm" where
  "line_segment (h1, h2, rest) = \<lparr>pr_vaddr = of_nat (hexs_val h1), pr_size = of_nat (hexs_val h2) - of_nat (hexs_val h1)\<rparr>"

definition maps_text :: "maps_line list \<Rightarrow> string" where
  "maps_text ls = concat (map (\<lambda>l. line_text l @ [NEWLINE]) ls)"

lemma hex_not_special: "is_hex c \<Longrightarrow> \<not> is_space c \<and> c \<noteq> CHR ''-'' \<and> c \<noteq> CHR ''+'' \<and> c \<noteq> CHR '' '' \<and> c \<noteq> NEWLINE \<and> c \<noteq> STRING_END \<and> c \<noteq> CHR ''x'' \<and> c \<noteq> CHR ''X''"
  by (auto simp: is_hex_def is_digit_def is_space_def)

lemma strtok_first:
  assumes "xs \<noteq> []" "d \<notin> set xs"
  shows "strtok d (xs @ d # ys) = Some (xs, ys)"
proof -
  have "dropWhile (\<lambda>c. c = d) (xs @ d # ys) = xs @ d # ys" using assms by (cases xs) auto
  moreover have "takeWhile (\<lambda>c. c \<noteq> d) (xs @ d # ys) = xs" "dropWhile (\<lambda>c. c \<noteq> d) (xs @ d # ys) = d # ys"
    using assms(2) by (auto simp: takeWhile_append dropWhile_append)
  ultimately show ?thesis using assms(1) by (simp add: strtok_def)
qed

lemma strtoul16_hex:
  assumes "h \<noteq> []" "list_all is_hex h" "hexs_val h < 2 ^ 64"
  shows "strtoul16 h = of_nat (hexs_val h)"
proof -
  have hx: "is_hex c" if "c \<in> set h" for c using assms(2) that by (simp add: list_all_iff)
  have hd: "is_hex (hd h)" using assms(1) hx by simp
  have "dropWhile is_space h = h" using assms(1) hd hex_not_special [OF hd] by (cases h) auto
  moreover have "hd h \<noteq> CHR ''-''" "hd h \<noteq> CHR ''+''" using hex_not_special [OF hd] by auto
  moreover have "take 2 h \<notin> {''0x'', ''0X''}"
  proof
    assume "take 2 h \<in> {''0x'', ''0X''}"
    then have "CHR ''x'' \<in> set (take 2 h) \<or> CHR ''X'' \<in> set (take 2 h)" by auto
    then show False using hx hex_not_special in_set_takeD by metis
  qed
  moreover have "takeWhile is_hex h = h" using hx by (simp add: takeWhile_eq_all_conv)
  ultimately show ?thesis using assms(3) by (simp add: strtoul16_def Let_def del: takeWhile_eq_all_conv)
qed

lemma parse_segment_line:
  assumes "line_ok l"
  shows "parse_segment (line_text l) = Some (line_segment l)"
proof -
  obtain h1 h2 rest where l: "l = (h1, h2, rest)" by (cases l)
  have h: "CHR ''-'' \<notin> set h1" "CHR '' '' \<notin> set h2" using assms hex_not_special by (auto simp: l list_all_iff)
  then show ?thesis using assms strtok_first [of h1 "CHR ''-''"] strtok_first [of h2 "CHR '' ''"]
    by (simp add: l parse_segment_def strtoul16_hex)
qed

lemma map_lines_Cons:
  assumes "xs \<noteq> []" "NEWLINE \<notin> set xs"
  shows "map_lines (xs @ NEWLINE # ys) = xs # map_lines ys"
proof -
  have "takeWhile (\<lambda>c. c = NEWLINE) (xs @ NEWLINE # ys) = []" "dropWhile (\<lambda>c. c = NEWLINE) (xs @ NEWLINE # ys) = xs @ NEWLINE # ys"
    using assms by (cases xs; auto)+
  moreover have "takeWhile (\<lambda>c. c \<noteq> NEWLINE) (xs @ NEWLINE # ys) = xs" "dropWhile (\<lambda>c. c \<noteq> NEWLINE) (xs @ NEWLINE # ys) = NEWLINE # ys"
    using assms(2) by (auto simp: takeWhile_append dropWhile_append)
  ultimately show ?thesis using assms(1) by (subst map_lines.simps) (simp add: Let_def)
qed

lemma line_text_chars: "line_ok l \<Longrightarrow> line_text l \<noteq> [] \<and> NEWLINE \<notin> set (line_text l) \<and> STRING_END \<notin> set (line_text l)"
  using hex_not_special by (cases l) (auto simp: list_all_iff)

lemma map_lines_maps: "\<forall>l \<in> set ls. line_ok l \<Longrightarrow> map_lines (maps_text ls) = map line_text ls"
proof (induction ls)
  case Nil
  then show ?case by (subst map_lines.simps) (simp add: maps_text_def)
next
  case (Cons l ls)
  then show ?case using line_text_chars [of l] map_lines_Cons [of "line_text l" "maps_text ls"] by (simp add: maps_text_def)
qed

text \<open>C29: However the file is delivered in pieces, the memory map is read completely: the result is exactly the segments of its lines, in their order, and the
  buffer has doubled until the text and the final null character fit.  A text of a mebibyte or more is refused.
\<close>

theorem memory_map_roundtrip:
  assumes ls: "\<forall>l \<in> set ls. line_ok l" and d: "\<forall>k. delivers (maps_text ls) (rd k) \<and> can_open k \<and> mem k" and i: "i \<le> 20"
  shows "if length (maps_text ls) < 2 ^ 20
    then \<exists>j \<le> 20. DYNINSTgetMemoryMap rd can_open mem True (2 ^ i) = Inr (Some (map line_segment ls), 2 ^ j, 1) \<and> length (maps_text ls) < 2 ^ j
    else DYNINSTgetMemoryMap rd can_open mem True (2 ^ i) = Inr (None, 2 ^ 21, 0)"
proof -
  have "STRING_END \<notin> set (maps_text ls)" using ls line_text_chars by (auto simp: maps_text_def)
  then have t: "takeWhile (\<lambda>c. c \<noteq> STRING_END) (maps_text ls) = maps_text ls" by (auto simp: takeWhile_eq_all_conv)
  have p: "map parse_segment (map_lines (takeWhile (\<lambda>c. c \<noteq> STRING_END) (maps_text ls))) = map Some (map line_segment ls)"
    unfolding t map_lines_maps [OF ls] using ls by (simp add: parse_segment_line)
  show ?thesis
  proof (cases "length (maps_text ls) < 2 ^ 20")
    case True
    then obtain j where j: "j \<le> 20" "read_maps rd can_open mem 0 (2 ^ i) = Some (Some (maps_text ls), 2 ^ j, 1)" "length (maps_text ls) < 2 ^ j"
      using read_maps_delivers [OF d i, of 0] by auto
    then have "DYNINSTgetMemoryMap rd can_open mem True (2 ^ i) = Inr (Some (map line_segment ls), 2 ^ j, 1)"
      unfolding DYNINSTgetMemoryMap_def by (simp add: p Let_def image_iff comp_def)
    then show ?thesis using True j by auto
  next
    case False
    then have "read_maps rd can_open mem 0 (2 ^ i) = Some (None, 2 ^ 21, 0)" using read_maps_delivers [OF d i, of 0] by simp
    then show ?thesis using False by (simp add: DYNINSTgetMemoryMap_def)
  qed
qed

lemma delivers_take: "delivers body (\<lambda>off cnt. Some (take (min cnt (Suc n)) (drop off body)))"
proof -
  have t: "take m xs = take (length (take m xs)) xs" for m and xs :: string by (cases "m \<le> length xs") auto
  show ?thesis unfolding delivers_def option.inject
    by (intro allI exI conjI, rule refl, rule t) auto
qed

definition two_lines :: "maps_line list" where
  "two_lines = [(''00400000'', ''0040c000'', ''r-xp 00000000 08:01 131 /bin/cat''), (''7ffd3000'', ''7ffd5000'', ''rw-p 00000000 00:00 0 [stack]'')]"

theorem memory_map_roundtrip_witness:
  "\<exists>j \<le> 20. DYNINSTgetMemoryMap (\<lambda>_ off cnt. Some (take (min cnt 7) (drop off (maps_text two_lines)))) (\<lambda>_. True) (\<lambda>_. True) True (2 ^ 5)
     = Inr (Some [\<lparr>pr_vaddr = 0x400000, pr_size = 0xc000\<rparr>, \<lparr>pr_vaddr = 0x7ffd3000, pr_size = 0x2000\<rparr>], 2 ^ j, 1)"
proof -
  have ok: "\<forall>l \<in> set two_lines. line_ok l"
    by (simp add: two_lines_def is_hex_def is_digit_def hexs_val_def hex_val_def digit_val_def)
  have len: "length (maps_text two_lines) < 2 ^ 20" by (simp add: maps_text_def two_lines_def)
  have d: "\<forall>k :: nat. delivers (maps_text two_lines) (\<lambda>off cnt. Some (take (min cnt 7) (drop off (maps_text two_lines)))) \<and> True \<and> True"
    using delivers_take [of "maps_text two_lines" 6] by simp
  have seg: "map line_segment two_lines = [\<lparr>pr_vaddr = 0x400000, pr_size = 0xc000\<rparr>, \<lparr>pr_vaddr = 0x7ffd3000, pr_size = 0x2000\<rparr>]"
    by (simp add: two_lines_def hexs_val_def hex_val_def is_digit_def digit_val_def)
  show ?thesis using memory_map_roundtrip [OF ok d, of 5] len unfolding seg by auto
qed

end
