(* ===== verification/RT_Search.thy ===== *)
theory RT_Search
  imports Prelude
begin

section \<open>dyninstAPI_RT: bisection over intervals of addresses\<close>

text \<open>
  Two tables of address intervals that the instrumentation searches while the program runs: the blocks a write may
  hit (\<^verbatim>\<open>DYNINST_boundsCheck\<close> of \<^verbatim>\<open>RTcommon.c\<close>, an array of start and end addresses in turn), and the ranges whose
  accesses are redirected (\<^verbatim>\<open>RTtranslateMemory\<close> and \<^verbatim>\<open>RTtranslateMemoryShift\<close> of \<^verbatim>\<open>RTmemEmulator.c\<close>).  Indices are
  \<^verbatim>\<open>int\<close>s; an access outside the array is \<open>Out_of_bounds\<close>.
\<close>

text \<open>The division of C cuts off towards zero.\<close>

definition c_div :: "int \<Rightarrow> int \<Rightarrow> int" where
  "c_div a b = sgn a * sgn b * (\<bar>a\<bar> div \<bar>b\<bar>)"

lemma c_div_nonneg: "0 \<le> a \<Longrightarrow> 0 < b \<Longrightarrow> c_div a b = a div b"
  by (cases "a = 0") (auto simp: c_div_def sgn_if)

lemma c_div_2_neg: "a < 0 \<Longrightarrow> a \<le> c_div a 2 \<and> c_div a 2 \<le> 0"
  by (auto simp: c_div_def sgn_if)

definition in_array :: "'a list \<Rightarrow> int \<Rightarrow> bool" where
  "in_array xs i \<longleftrightarrow> 0 \<le> i \<and> i < int (length xs)"

lemma sint_ucast_small: "unat (a :: u64) < 2 ^ 31 \<Longrightarrow> sint (ucast a :: u32) = int (unat a)"
proof -
  assume "unat a < 2 ^ 31"
  then have "uint a < 2 ^ 31" using of_nat_less_iff [of "unat a" "2 ^ 31", where 'a = int] by simp
  then have "signed_take_bit 31 (uint a) = uint a"
    using uint_ge_0 [of a] by (intro signed_take_bit_int_eq_self) linarith+
  then show ?thesis by (simp add: signed_ucast_eq)
qed

subsection \<open>The blocks of a write check\<close>

text \<open>The index halfway between two even bounds, again even.\<close>

definition bounds_idx :: "int \<Rightarrow> int \<Rightarrow> int" where
  "bounds_idx lowIdx highIdx = c_div (highIdx - lowIdx) 4 * 2 + lowIdx"

function bounds_loop :: "u64 list \<Rightarrow> u64 \<Rightarrow> int \<Rightarrow> int \<Rightarrow> fault + bool" where
  "bounds_loop boundsArray writeTarget lowIdx highIdx =
     (if lowIdx < highIdx
      then let idx = bounds_idx lowIdx highIdx
           in if \<not> in_array boundsArray idx then Inl Out_of_bounds
              else if writeTarget < boundsArray ! nat idx then bounds_loop boundsArray writeTarget lowIdx idx
              else if \<not> in_array boundsArray (idx + 1) then Inl Out_of_bounds
              else if boundsArray ! nat (idx + 1) \<le> writeTarget then bounds_loop boundsArray writeTarget (idx + 2) highIdx
              else Inr True
      else Inr False)"
  by auto
termination
proof (relation "measure (\<lambda>(_, _, lowIdx, highIdx). nat (highIdx - lowIdx))")
  fix a :: "u64 list" and t :: u64 and lowIdx highIdx x :: int
  assume x: "lowIdx < highIdx" "x = bounds_idx lowIdx highIdx"
  then have "x = (highIdx - lowIdx) div 4 * 2 + lowIdx" by (simp add: bounds_idx_def c_div_nonneg)
  moreover have "(highIdx - lowIdx) div 4 * 4 \<le> highIdx - lowIdx" "0 \<le> (highIdx - lowIdx) div 4" using x(1) by simp_all
  ultimately have i: "lowIdx \<le> x" "x < highIdx" using x(1) by linarith+
  then show "((a, t, lowIdx, x), a, t, lowIdx, highIdx) \<in> measure (\<lambda>(_, _, lowIdx, highIdx). nat (highIdx - lowIdx))"
    and "((a, t, x + 2, highIdx), a, t, lowIdx, highIdx) \<in> measure (\<lambda>(_, _, lowIdx, highIdx). nat (highIdx - lowIdx))"
    by auto
qed simp

declare bounds_loop.simps [simp del]

text \<open>\<open>at\<close> is the address of the array; the number of its elements is passed as a pointer and cut to an \<^verbatim>\<open>int\<close>.\<close>

definition DYNINST_boundsCheck :: "u64 \<Rightarrow> u64 list \<Rightarrow> u64 \<Rightarrow> u64 \<Rightarrow> fault + bool" where
  "DYNINST_boundsCheck at boundsArray arrayLen writeTarget =
     (if at < 0x10000000 then Inr False
      else bounds_loop boundsArray writeTarget 0 (sint (ucast arrayLen :: u32)))"

text \<open>What the bisection decides: whether the address is in one of the blocks.\<close>

fun in_blocks :: "u64 list \<Rightarrow> u64 \<Rightarrow> bool" where
  "in_blocks (b # e # bs) t \<longleftrightarrow> b \<le> t \<and> t < e \<or> in_blocks bs t"
| "in_blocks _ t \<longleftrightarrow> False"

lemma in_blocks_nth: "length bs = 2 * n \<Longrightarrow> in_blocks bs t \<longleftrightarrow> (\<exists>k < n. bs ! (2 * k) \<le> t \<and> t < bs ! (2 * k + 1))"
proof (induction bs t arbitrary: n rule: in_blocks.induct)
  case (1 b e bs t)
  then obtain m where m: "n = Suc m" by (cases n) auto
  then show ?case using 1 by (auto simp: Ex_less_Suc2)
qed auto

lemma bounds_idx_even: "i \<le> j \<Longrightarrow> bounds_idx (2 * int i) (2 * int j) = 2 * int (i + (j - i) div 2)"
  by (simp add: bounds_idx_def c_div_nonneg of_nat_diff zdiv_int)

lemma bounds_loop_blocks:
  assumes "sorted bs" "length bs = 2 * n" "i \<le> j" "j \<le> n" "\<forall>k < i. bs ! (2 * k + 1) \<le> t" "\<forall>k. j \<le> k \<and> k < n \<longrightarrow> t < bs ! (2 * k)"
  shows "bounds_loop bs t (2 * int i) (2 * int j) = Inr (in_blocks bs t)"
  using assms(3-)
proof (induction "j - i" arbitrary: i j rule: less_induct)
  case less
  have mono: "bs ! a \<le> bs ! b" if "a \<le> b" "b < 2 * n" for a b using assms(1,2) that by (simp add: sorted_nth_mono)
  show ?case
  proof (cases "i = j")
    case True
    have "\<not> (bs ! (2 * k) \<le> t \<and> t < bs ! (2 * k + 1))" if "k < n" for k
      using less.prems(3,4) True that by (cases "k < i") (auto simp: not_less not_le)
    then show ?thesis using True by (subst bounds_loop.simps) (simp add: in_blocks_nth [OF assms(2)])
  next
    case False
    define m where "m = i + (j - i) div 2"
    have m: "i \<le> m" "m < j" "m < n" using False less.prems(1,2) by (auto simp: m_def)
    have idx: "bounds_idx (2 * int i) (2 * int j) = 2 * int m" using bounds_idx_even [OF less.prems(1)] by (simp add: m_def)
    have nat: "nat (2 * int m) = 2 * m" "nat (2 * int m + 1) = 2 * m + 1" by simp_all
    have arr: "in_array bs (2 * int m)" "in_array bs (2 * int m + 1)" using m assms(2) by (simp_all add: in_array_def)
    have down: "bounds_loop bs t (2 * int i) (2 * int m) = Inr (in_blocks bs t)" if "t < bs ! (2 * m)"
    proof -
      have "t < bs ! (2 * k)" if "m \<le> k" "k < n" for k using mono [of "2 * m" "2 * k"] that \<open>t < bs ! (2 * m)\<close> by simp
      then show ?thesis using less.hyps [of m i] less.prems m by simp
    qed
    have up: "bounds_loop bs t (2 * int m + 2) (2 * int j) = Inr (in_blocks bs t)" if "bs ! (2 * m + 1) \<le> t"
    proof -
      have "bs ! (2 * k + 1) \<le> t" if "k < Suc m" for k
        using mono [of "2 * k + 1" "2 * m + 1"] that m \<open>bs ! (2 * m + 1) \<le> t\<close> by simp
      then show ?thesis using less.hyps [of j "Suc m"] less.prems m by (simp add: algebra_simps)
    qed
    have "in_blocks bs t" if "\<not> t < bs ! (2 * m)" "\<not> bs ! (2 * m + 1) \<le> t"
      using in_blocks_nth [OF assms(2)] m that by auto
    then show ?thesis using False less.prems(1) idx nat arr down up by (subst bounds_loop.simps) (simp add: Let_def)
  qed
qed

text \<open>C32: For a sorted array of block bounds the check by bisection ends, stays inside the array and says exactly whether the
  address lies in one of the blocks.
\<close>

theorem bounds_check_blocks:
  assumes "sorted bs" "even (length bs)" "length bs < 2 ^ 31" "0x10000000 \<le> at"
  shows "DYNINST_boundsCheck at bs (of_nat (length bs)) t = Inr (in_blocks bs t)"
proof -
  obtain n where n: "length bs = 2 * n" using assms(2) by blast
  have l: "unat (of_nat (length bs) :: u64) = length bs" using assms(3) by (simp add: unat_of_nat)
  have "sint (ucast (of_nat (length bs) :: u64) :: u32) = int (length bs)"
    using sint_ucast_small [of "of_nat (length bs)"] assms(3) unfolding l .
  then have "sint (ucast (of_nat (length bs) :: u64) :: u32) = 2 * int n" unfolding n by simp
  then show ?thesis using bounds_loop_blocks [OF assms(1) n, of 0 n t] assms(4) by (simp add: DYNINST_boundsCheck_def not_less [symmetric])
qed

theorem bounds_check_blocks_witness:
  "DYNINST_boundsCheck 0x7f0000000000 [10, 20, 30, 40, 50, 60] 6 35 = Inr True
   \<and> DYNINST_boundsCheck 0x7f0000000000 [10, 20, 30, 40, 50, 60] 6 45 = Inr False"
  using bounds_check_blocks [of "[10, 20, 30, 40, 50, 60]" "0x7f0000000000" 35]
    bounds_check_blocks [of "[10, 20, 30, 40, 50, 60]" "0x7f0000000000" 45] by simp

subsection \<open>RTmemEmulator.c: redirected ranges\<close>

record MemoryMapperElement =
  el_lo :: u64
  el_hi :: u64
  el_shift :: u64

text \<open>The mapper as one round of the outer loop sees it: \<^verbatim>\<open>guard2\<close> at its beginning, \<^verbatim>\<open>guard1\<close> at its end.  The mutator
  may rewrite it meanwhile.\<close>

record MemoryMapper =
  guard2_before :: u32
  mapper_size :: int
  elements :: "MemoryMapperElement list"
  guard1_after :: u32

function mapper_search :: "MemoryMapperElement list \<Rightarrow> u64 \<Rightarrow> int \<Rightarrow> int \<Rightarrow> fault + int \<times> int \<times> int" where
  "mapper_search els input lo hi =
     (let index = lo + c_div (hi - lo) 2
      in if \<not> in_array els index then Inl Out_of_bounds
         else if el_lo (els ! nat index) \<le> input
         then if input < el_hi (els ! nat index) then Inr (index, lo, hi)
              else if index + 1 \<le> hi then mapper_search els input (index + 1) hi
              else Inr (index, index + 1, hi)
         else if lo \<le> index - 1 then mapper_search els input lo (index - 1)
         else Inr (index, lo, index - 1))"
  by auto
termination
proof (relation "measure (\<lambda>(_, _, lo, hi). nat (hi - lo + 1))")
  fix els :: "MemoryMapperElement list" and input :: u64 and lo hi x :: int
  assume x: "x = lo + c_div (hi - lo) 2"
  have "lo \<le> x \<and> x \<le> hi \<or> hi \<le> x \<and> x \<le> lo" if "lo \<le> hi \<or> hi < lo"
    using x c_div_nonneg [of "hi - lo" 2] c_div_2_neg [of "hi - lo"] by (cases "lo \<le> hi") auto
  then have x: "lo \<le> x \<and> x \<le> hi \<or> hi \<le> x \<and> x \<le> lo" by linarith
  show "((els, input, x + 1, hi), els, input, lo, hi) \<in> measure (\<lambda>(_, _, lo, hi). nat (hi - lo + 1))" if "x + 1 \<le> hi"
    using x that by auto
  show "((els, input, lo, x - 1), els, input, lo, hi) \<in> measure (\<lambda>(_, _, lo, hi). nat (hi - lo + 1))" if "lo \<le> x - 1"
    using x that by auto
qed simp

declare mapper_search.simps [simp del]

text \<open>The outer loop, until the two guards agree; it leaves the last index and the bounds.\<close>

partial_function (option) mapper_rounds :: "(nat \<Rightarrow> MemoryMapper) \<Rightarrow> u64 \<Rightarrow> nat \<Rightarrow> (fault + nat \<times> int \<times> int \<times> int) option" where
  "mapper_rounds look input n =
     (case mapper_search (elements (look n)) input 0 (mapper_size (look n) - 1) of
        Inl f \<Rightarrow> Some (Inl f)
      | Inr r \<Rightarrow> if guard2_before (look n) \<noteq> guard1_after (look n) then mapper_rounds look input (Suc n) else Some (Inr (n, r)))"

text \<open>The shift is read after the loop, from the mapper as it then is (\<open>later\<close>, given the number of the last round).\<close>

definition mapper_find ::
  "(nat \<Rightarrow> MemoryMapper) \<Rightarrow> (nat \<Rightarrow> MemoryMapperElement list) \<Rightarrow> u64 \<Rightarrow> fault + u64 option" where
  "mapper_find look later input =
     (case mapper_rounds look input 0 of
        None \<Rightarrow> Inl Endless_loop
      | Some (Inl f) \<Rightarrow> Inl f
      | Some (Inr (n, index, lo, hi)) \<Rightarrow>
          if lo \<le> hi
          then if in_array (later n) index then Inr (Some (el_shift (later n ! nat index))) else Inl Out_of_bounds
          else Inr None)"

definition RTtranslateMemory :: "(nat \<Rightarrow> MemoryMapper) \<Rightarrow> (nat \<Rightarrow> MemoryMapperElement list) \<Rightarrow> u64 \<Rightarrow> fault + u64" where
  "RTtranslateMemory look later input =
     and_then (mapper_find look later input) (\<lambda>shift. Inr
       (case shift of Some s \<Rightarrow> if s = - 1 then 0 else input + s | None \<Rightarrow> input))"

definition RTtranslateMemoryShift :: "(nat \<Rightarrow> MemoryMapper) \<Rightarrow> (nat \<Rightarrow> MemoryMapperElement list) \<Rightarrow> u64 \<Rightarrow> fault + u64" where
  "RTtranslateMemoryShift look later input =
     and_then (mapper_find look later input) (\<lambda>shift. Inr
       (case shift of Some s \<Rightarrow> if s = - 1 then - 1 * input else s | None \<Rightarrow> 0))"

text \<open>What they compute: the shift of the range that has the address.\<close>

definition shift_of :: "MemoryMapperElement list \<Rightarrow> u64 \<Rightarrow> u64 option" where
  "shift_of els input = map_option el_shift (find (\<lambda>e. el_lo e \<le> input \<and> input < el_hi e) els)"

definition ranges_ok :: "MemoryMapperElement list \<Rightarrow> bool" where
  "ranges_ok els \<longleftrightarrow> (\<forall>e \<in> set els. el_lo e \<le> el_hi e) \<and> sorted_wrt (\<lambda>a b. el_hi a \<le> el_lo b) els"

lemma ranges_nth:
  assumes "ranges_ok els" "i < j" "j < length els"
  shows "el_hi (els ! i) \<le> el_lo (els ! j)"
  using assms sorted_wrt_nth_less [of "\<lambda>a b. el_hi a \<le> el_lo b" els i j] by (simp add: ranges_ok_def)

lemma shift_of_nth:
  assumes ok: "ranges_ok els" and i: "i < length els" "el_lo (els ! i) \<le> input" "input < el_hi (els ! i)"
  shows "shift_of els input = Some (el_shift (els ! i))"
proof -
  have "\<not> (el_lo (els ! j) \<le> input \<and> input < el_hi (els ! j))" if "j < i" for j
    using ranges_nth [OF ok that i(1)] i(2) by auto
  then have "find (\<lambda>e. el_lo e \<le> input \<and> input < el_hi e) els = Some (els ! i)"
    using i by (auto simp: find_Some_iff intro!: exI [of _ i])
  then show ?thesis by (simp add: shift_of_def)
qed

lemma shift_of_none:
  "(\<And>i. i < length els \<Longrightarrow> \<not> (el_lo (els ! i) \<le> input \<and> input < el_hi (els ! i))) \<Longrightarrow> shift_of els input = None"
  by (auto simp: shift_of_def find_None_iff in_set_conv_nth)

definition found_at :: "MemoryMapperElement list \<Rightarrow> nat \<Rightarrow> u64 \<Rightarrow> int \<Rightarrow> int \<Rightarrow> int \<Rightarrow> bool" where
  "found_at els n input index lo hi \<longleftrightarrow>
     (if lo \<le> hi then 0 \<le> index \<and> nat index < n \<and> shift_of (take n els) input = Some (el_shift (els ! nat index))
      else shift_of (take n els) input = None)"

text \<open>What a probe of the range \<open>i\<close> says of the ranges on either side of it.\<close>

lemma ranges_below:
  assumes n: "n \<le> length els" and ok: "ranges_ok (take n els)" and i: "i < n" "el_hi (els ! i) \<le> input" and j: "j \<le> i"
  shows "el_hi (els ! j) \<le> input"
proof (cases "j = i")
  case False
  have "take n els ! i \<in> set (take n els)" using i n by (intro nth_mem) simp
  then have "el_lo (els ! i) \<le> el_hi (els ! i)" using ok i by (auto simp: ranges_ok_def)
  then show ?thesis using ranges_nth [OF ok, of j i] False i j n by auto
qed (use i in simp)

lemma ranges_above:
  assumes n: "n \<le> length els" and ok: "ranges_ok (take n els)" and i: "input < el_lo (els ! i)" and j: "i \<le> j" "j < n"
  shows "input < el_lo (els ! j)"
proof (cases "j = i")
  case False
  have "take n els ! i \<in> set (take n els)" using j n by (intro nth_mem) simp
  then have "el_lo (els ! i) \<le> el_hi (els ! i)" using ok j by (auto simp: ranges_ok_def)
  then show ?thesis using ranges_nth [OF ok, of i j] False i j n by auto
qed (use i in simp)

lemma shift_of_missed:
  assumes "n \<le> length els" "\<forall>k < m. el_hi (els ! k) \<le> input" "\<forall>k. m \<le> k \<and> k < n \<longrightarrow> input < el_lo (els ! k)"
  shows "shift_of (take n els) input = None"
proof (rule shift_of_none)
  fix k assume "k < length (take n els)"
  then show "\<not> (el_lo (take n els ! k) \<le> input \<and> input < el_hi (take n els ! k))"
    using assms by (cases "k < m") (auto simp: not_le not_less)
qed

lemma mapper_search_found:
  assumes n: "n \<le> length els" and ok: "ranges_ok (take n els)"
    and "0 \<le> lo" "lo \<le> hi" "hi < int n" "\<forall>k < nat lo. el_hi (els ! k) \<le> input" "\<forall>k. nat (hi + 1) \<le> k \<and> k < n \<longrightarrow> input < el_lo (els ! k)"
  shows "\<exists>index lo' hi'. mapper_search els input lo hi = Inr (index, lo', hi') \<and> found_at els n input index lo' hi'"
  using assms(3-)
proof (induction "nat (hi - lo)" arbitrary: lo hi rule: less_induct)
  case less
  define i where "i = lo + c_div (hi - lo) 2"
  have i: "lo \<le> i" "i \<le> hi" using less.prems(2) c_div_nonneg [of "hi - lo" 2] by (auto simp: i_def)
  have k: "nat i < n" "in_array els i" using i less.prems(1,3) n by (auto simp: in_array_def)
  note s = mapper_search.simps [of els input lo hi, folded i_def, unfolded Let_def]
  consider (hit) "el_lo (els ! nat i) \<le> input" "input < el_hi (els ! nat i)"
    | (right) "el_lo (els ! nat i) \<le> input" "\<not> input < el_hi (els ! nat i)"
    | (left) "\<not> el_lo (els ! nat i) \<le> input" by fastforce
  then show ?case
  proof cases
    case hit
    then have "shift_of (take n els) input = Some (el_shift (els ! nat i))" using shift_of_nth [OF ok, of "nat i"] k n by simp
    then show ?thesis using hit k i less.prems(1,2) s by (simp add: found_at_def)
  next
    case right
    have below: "\<forall>j < nat (i + 1). el_hi (els ! j) \<le> input" using ranges_below [OF n ok k(1), of input] right(2) by simp
    show ?thesis
    proof (cases "i + 1 \<le> hi")
      case True
      then show ?thesis using less.hyps [of hi "i + 1"] less.prems i below s right k by simp
    next
      case False
      then have "i = hi" using i by simp
      then show ?thesis using shift_of_missed [OF n below] less.prems(5) s right k by (simp add: found_at_def)
    qed
  next
    case left
    have above: "\<forall>j. nat (i - 1 + 1) \<le> j \<and> j < n \<longrightarrow> input < el_lo (els ! j)"
      using ranges_above [OF n ok, of input "nat i"] left by simp
    show ?thesis
    proof (cases "lo \<le> i - 1")
      case True
      then show ?thesis using less.hyps [of "i - 1" lo] less.prems i above s left k by simp
    next
      case False
      then have "i = lo" using i by simp
      then show ?thesis using shift_of_missed [OF n less.prems(4)] above s left k by (simp add: found_at_def)
    qed
  qed
qed

lemma mapper_search_empty:
  assumes "els \<noteq> []"
  shows "\<exists>index lo' hi'. mapper_search els input 0 (- 1) = Inr (index, lo', hi') \<and> found_at els 0 input index lo' hi'"
proof -
  have "c_div (- 1) 2 = 0" "in_array els 0" using assms by (simp_all add: c_div_def in_array_def)
  then show ?thesis by (subst mapper_search.simps) (simp add: found_at_def shift_of_def)
qed

text \<open>A mapper the library may search: not more ranges than the array has elements, in order and disjoint.\<close>

definition mapper_ok :: "MemoryMapper \<Rightarrow> bool" where
  "mapper_ok m \<longleftrightarrow> 0 \<le> mapper_size m \<and> mapper_size m \<le> int (length (elements m)) \<and> elements m \<noteq> []
     \<and> ranges_ok (take (nat (mapper_size m)) (elements m))"

definition ranges :: "MemoryMapper \<Rightarrow> MemoryMapperElement list" where
  "ranges m = take (nat (mapper_size m)) (elements m)"

lemma mapper_search_ok:
  assumes "mapper_ok m"
  shows "\<exists>index lo hi. mapper_search (elements m) input 0 (mapper_size m - 1) = Inr (index, lo, hi)
    \<and> found_at (elements m) (nat (mapper_size m)) input index lo hi"
proof (cases "mapper_size m = 0")
  case True
  then show ?thesis using assms mapper_search_empty [of "elements m" input] by (simp add: mapper_ok_def)
next
  case False
  then show ?thesis
    using assms by (intro mapper_search_found) (auto simp: mapper_ok_def nat_le_iff)
qed

lemma mapper_find_ok:
  assumes ok: "\<forall>k \<le> n. mapper_ok (look k)" and changed: "\<forall>k < n. guard2_before (look k) \<noteq> guard1_after (look k)"
    and same: "guard2_before (look n) = guard1_after (look n)" "later n = elements (look n)"
  shows "mapper_find look later input = Inr (shift_of (ranges (look n)) input)"
proof -
  let ?m = "look n"
  obtain index lo hi where s: "mapper_search (elements ?m) input 0 (mapper_size ?m - 1) = Inr (index, lo, hi)"
      and found: "found_at (elements ?m) (nat (mapper_size ?m)) input index lo hi"
    using mapper_search_ok [of ?m input] ok by blast
  have "mapper_rounds look input k = Some (Inr (n, index, lo, hi))" if "k \<le> n" for k
    using that
  proof (induction rule: inc_induct)
    case base
    then show ?case using s same(1) by (subst mapper_rounds.simps) simp
  next
    case (step k)
    then show ?case using mapper_search_ok [of "look k" input] ok changed by (subst mapper_rounds.simps) auto
  qed
  then have "mapper_rounds look input 0 = Some (Inr (n, index, lo, hi))" by simp
  moreover have "nat index < nat (mapper_size ?m) \<Longrightarrow> 0 \<le> index \<Longrightarrow> in_array (elements ?m) index" using ok by (auto simp: in_array_def mapper_ok_def)
  ultimately show ?thesis using found same(2) by (auto simp: mapper_find_def found_at_def ranges_def split: if_splits)
qed

text \<open>C30: An address is translated by the range of the table that has it, in the first round in which the guards agree: it becomes 0
  when the shift of the range is \<open>-1\<close>, is moved by the shift otherwise, and stays what it is when no range has it.  The two entry points
  agree: the second returns the difference.
\<close>

theorem translate_memory_table:
  assumes "\<forall>k \<le> n. mapper_ok (look k)" "\<forall>k < n. guard2_before (look k) \<noteq> guard1_after (look k)"
    and "guard2_before (look n) = guard1_after (look n)" "later n = elements (look n)"
  shows "RTtranslateMemory look later input
      = Inr (case shift_of (ranges (look n)) input of None \<Rightarrow> input | Some s \<Rightarrow> if s = - 1 then 0 else input + s)
    \<and> and_then (RTtranslateMemoryShift look later input) (\<lambda>d. Inr (input + d)) = RTtranslateMemory look later input"
  using mapper_find_ok [where look = look and later = later and n = n] assms by (simp add: RTtranslateMemory_def RTtranslateMemoryShift_def split: option.split)

definition three_ranges :: MemoryMapper where
  "three_ranges = \<lparr>guard2_before = 4, mapper_size = 3, elements =
     [\<lparr>el_lo = 100, el_hi = 200, el_shift = 1000\<rparr>, \<lparr>el_lo = 200, el_hi = 300, el_shift = - 1\<rparr>, \<lparr>el_lo = 500, el_hi = 600, el_shift = - 50\<rparr>,
      \<lparr>el_lo = 0, el_hi = 0, el_shift = 0\<rparr>], guard1_after = 4\<rparr>"

theorem translate_memory_table_witness:
  "mapper_ok three_ranges \<and> RTtranslateMemory (\<lambda>k. if k = 0 then three_ranges\<lparr>guard1_after := 5\<rparr> else three_ranges) (\<lambda>_. elements three_ranges) 550 = Inr 500"
proof -
  have ok: "mapper_ok three_ranges" "mapper_ok (three_ranges\<lparr>guard1_after := 5\<rparr>)"
    by (simp_all add: mapper_ok_def three_ranges_def ranges_ok_def)
  let ?look = "\<lambda>k. if k = 0 then three_ranges\<lparr>guard1_after := 5\<rparr> else three_ranges"
  have "\<forall>k \<le> (1 :: nat). mapper_ok (?look k)" using ok by simp
  from translate_memory_table [OF this, of "\<lambda>_. elements three_ranges" 550] ok(1) show ?thesis
    by (simp add: three_ranges_def shift_of_def ranges_def)
qed

text \<open>The shift is read after the guards were compared, and so may be that of another range, put there by the mutator in between.\<close>

lemma translate_memory_late_read:
  "RTtranslateMemory (\<lambda>_. three_ranges) (\<lambda>_. \<lparr>el_lo = 0, el_hi = 50, el_shift = 7\<rparr> # elements three_ranges) 150 = Inr 157"
proof -
  have "mapper_search (elements three_ranges) 150 0 2 = Inr (0, 0, 0)"
    by (simp add: mapper_search.simps three_ranges_def in_array_def c_div_def)
  then have "mapper_rounds (\<lambda>_. three_ranges) 150 0 = Some (Inr (0, 0, 0, 0))"
    by (subst mapper_rounds.simps) (simp add: three_ranges_def)
  then show ?thesis by (simp add: RTtranslateMemory_def mapper_find_def in_array_def)
qed

end
