(* ===== verification/Environment.thy ===== *)
theory Environment
  imports Prelude
begin

section \<open>The kernel and the C library as an environment\<close>

text \<open>
  System calls and allocation are answered by an environment \<open>os\<close>, an arbitrary function of the
  history of earlier calls and the request at hand; every theorem that does not name a hypothesis
  on \<open>os\<close> holds for every behaviour of the kernel.  A state carries the history (\<open>trace\<close>), so a
  property can speak about which calls a component made, with which arguments, in which order.
  A failed call returns a negative \<open>ret\<close> and sets \<open>err\<close>, the value of \<^verbatim>\<open>errno\<close>.
  The documented behaviour that some theorems rely on is stated here as predicates on \<open>os\<close>.
\<close>

record perf_event_attr =
  attr_type :: u32
  attr_size :: u32
  config :: u64
  disabled :: bool
  inherit :: bool
  exclude_user :: bool
  exclude_kernel :: bool

definition zero_attr :: perf_event_attr where
  "zero_attr = \<lparr>attr_type = 0, attr_size = 0, config = 0, disabled = False, inherit = False,
     exclude_user = False, exclude_kernel = False\<rparr>"

datatype ioctl_op = PERF_EVENT_IOC_ENABLE | PERF_EVENT_IOC_DISABLE

datatype request =
    Malloc nat
  | Free addr
  | PerfEventOpen perf_event_attr int
  | Ioctl int ioctl_op
  | Mmap int
  | Munmap addr
  | Close int
  | GetRlimit
  | SetRlimit u64 u64
  | Read int u64
  | Fopen string
  | Fclose string

record response =
  ret :: int
  err :: int
  out :: "u64 list"
  bytes :: "u8 list"

type_synonym trace = "(request \<times> response) list"
type_synonym os = "trace \<Rightarrow> request \<Rightarrow> response"

definition sys_call :: "os \<Rightarrow> request \<Rightarrow> trace \<Rightarrow> response \<times> trace" where
  "sys_call os rq tr = (let r = os tr rq in (r, tr @ [(rq, r)]))"

definition sys_do :: "os \<Rightarrow> request \<Rightarrow> trace \<Rightarrow> trace" where
  "sys_do os rq tr = snd (sys_call os rq tr)"

lemma sys_call_simps [simp]:
  "fst (sys_call os rq tr) = os tr rq" "snd (sys_call os rq tr) = tr @ [(rq, os tr rq)]"
  "sys_do os rq tr = tr @ [(rq, os tr rq)]"
  by (simp_all add: sys_call_def sys_do_def Let_def)

abbreviation (input) EINTR :: int where "EINTR \<equiv> 4"
abbreviation (input) EINVAL :: int where "EINVAL \<equiv> 22"
abbreviation (input) EMFILE :: int where "EMFILE \<equiv> 24"

subsection \<open>Descriptors\<close>

text \<open>The descriptors a history leaves open: those \<^verbatim>\<open>perf_event_open\<close> returned and no later
  \<^verbatim>\<open>close\<close> named.\<close>

fun open_fds_step :: "int set \<Rightarrow> request \<times> response \<Rightarrow> int set" where
  "open_fds_step S (PerfEventOpen a p, r) = (if 0 \<le> ret r then insert (ret r) S else S)"
| "open_fds_step S (Close fd, r) = S - {fd}"
| "open_fds_step S _ = S"

definition open_fds :: "trace \<Rightarrow> int set" where
  "open_fds tr = foldl open_fds_step {} tr"

lemma open_fds_Nil [simp]: "open_fds [] = {}"
  by (simp add: open_fds_def)

lemma open_fds_append [simp]: "open_fds (tr @ es) = foldl open_fds_step (open_fds tr) es"
  by (simp add: open_fds_def)

text \<open>Documented: \<^verbatim>\<open>perf_event_open\<close> and \<^verbatim>\<open>open\<close> return a descriptor that is not in use.\<close>

definition fresh_fds :: "os \<Rightarrow> bool" where
  "fresh_fds os \<longleftrightarrow>
     (\<forall>tr a p. 0 \<le> ret (os tr (PerfEventOpen a p)) \<longrightarrow> ret (os tr (PerfEventOpen a p)) \<notin> open_fds tr)"

text \<open>The addresses a history leaves allocated, and what \<^verbatim>\<open>malloc\<close> promises: \<^verbatim>\<open>NULL\<close> or an
  address that is not in use.\<close>

fun live_step :: "addr set \<Rightarrow> request \<times> response \<Rightarrow> addr set" where
  "live_step S (Malloc n, r) = (if 0 < ret r then insert (nat (ret r)) S else S)"
| "live_step S (Free a, r) = S - {a}"
| "live_step S _ = S"

definition live :: "trace \<Rightarrow> addr set" where
  "live tr = foldl live_step {} tr"

lemma live_Nil [simp]: "live [] = {}"
  by (simp add: live_def)

lemma live_append [simp]: "live (tr @ es) = foldl live_step (live tr) es"
  by (simp add: live_def)

definition fresh_malloc :: "os \<Rightarrow> bool" where
  "fresh_malloc os \<longleftrightarrow>
     (\<forall>tr n. 0 < ret (os tr (Malloc n)) \<longrightarrow> nat (ret (os tr (Malloc n))) \<notin> live tr)"

text \<open>Documented: \<^verbatim>\<open>read\<close> transfers at most the number of bytes asked for, and puts that many
  bytes in the buffer.\<close>

definition read_doc :: "os \<Rightarrow> int \<Rightarrow> bool" where
  "read_doc os fd \<longleftrightarrow>
     (\<forall>tr n. 0 < ret (os tr (Read fd n)) \<longrightarrow>
        ret (os tr (Read fd n)) \<le> uint n \<and>
        int (length (bytes (os tr (Read fd n)))) = ret (os tr (Read fd n)))"

subsection \<open>A well-behaved environment\<close>

text \<open>
  An environment that answers every request with success: a descriptor, an address and a page that
  no earlier call of the history returned.  It shows that the documented behaviour above can be
  met, and the witnesses run the model on it.
\<close>

fun bump :: "trace \<Rightarrow> nat" where
  "bump [] = 3"
| "bump ((rq, r) # tr) = nat (ret r) + bump tr"

lemma bump_bound: "e \<in> set tr \<Longrightarrow> ret (snd e) < int (bump tr)"
proof (induction tr)
  case (Cons e tr)
  have "0 < bump tr" by (induction tr) auto
  then show ?case using Cons by (cases e) auto
qed simp

lemma open_fds_step_sub: "x \<in> open_fds_step S e \<Longrightarrow> x \<in> S \<or> ret (snd e) = x"
  by (cases "(S, e)" rule: open_fds_step.cases) (auto split: if_splits)

lemma live_step_sub: "x \<in> live_step S e \<Longrightarrow> x \<in> S \<or> nat (ret (snd e)) = x"
  by (cases "(S, e)" rule: live_step.cases) (auto split: if_splits)

lemma open_fds_returned: "x \<in> open_fds tr \<Longrightarrow> \<exists>e \<in> set tr. ret (snd e) = x"
  by (induction tr rule: rev_induct) (auto dest: open_fds_step_sub)

lemma live_returned: "x \<in> live tr \<Longrightarrow> \<exists>e \<in> set tr. nat (ret (snd e)) = x"
  by (induction tr rule: rev_induct) (auto dest: live_step_sub)

definition calm_kernel :: os where
  "calm_kernel tr rq =
     (case rq of
        PerfEventOpen a p \<Rightarrow> \<lparr>ret = int (bump tr), err = 0, out = [], bytes = []\<rparr>
      | Malloc n \<Rightarrow> \<lparr>ret = 1000 + int (bump tr), err = 0, out = [], bytes = []\<rparr>
      | Mmap f \<Rightarrow> \<lparr>ret = 8192, err = 0, out = [1], bytes = []\<rparr>
      | Read f n \<Rightarrow> \<lparr>ret = uint n, err = 0, out = [], bytes = replicate (unat n) 1\<rparr>
      | _ \<Rightarrow> \<lparr>ret = 0, err = 0, out = [], bytes = []\<rparr>)"

lemma calm_fresh_fds: "fresh_fds calm_kernel"
  using open_fds_returned bump_bound by (fastforce simp: fresh_fds_def calm_kernel_def)

lemma calm_fresh_malloc: "fresh_malloc calm_kernel"
  using live_returned bump_bound by (fastforce simp: fresh_malloc_def calm_kernel_def)

lemma calm_read_doc: "read_doc calm_kernel fd"
  by (simp add: read_doc_def calm_kernel_def)

end
