(* ===== verification/Util.thy ===== *)
theory Util
  imports Environment
begin

section \<open>probe/util.h, probe/inst.h and probe/array.[ch]\<close>

text \<open>
  The helpers every file of the probe uses: zeroed allocation, rounding up to a power of two,
  reading exactly \<open>n\<close> bytes, the two halves of the \<^verbatim>\<open>rdtsc\<close> and \<^verbatim>\<open>rdpmc\<close> results, and
  the flexible array.  The lemmas show that \<^verbatim>\<open>__roundup_2\<close> is the least power of two at least its
  argument, that \<^verbatim>\<open>readn\<close> delivers exactly what was asked for, and which array element
  addresses lie inside the allocation.
\<close>

subsection \<open>Allocation\<close>

definition zalloc :: "os \<Rightarrow> nat \<Rightarrow> trace \<Rightarrow> addr \<times> trace" where
  "zalloc os sz tr =
     (let (r, tr') = sys_call os (Malloc sz) tr
      in if ret r \<le> 0 then (NULL, tr') else (nat (ret r), tr'))"

lemma zalloc_fresh:
  assumes "fresh_malloc os" "zalloc os n tr = (a, tr')" "a \<noteq> NULL"
  shows "a \<notin> live tr" "live tr' = insert a (live tr)"
  using assms by (auto simp: zalloc_def fresh_malloc_def Let_def sys_call_def split: if_splits)

subsection \<open>Rounding up to a power of two\<close>

definition roundup_2 :: "u32 \<Rightarrow> u32" where
  "roundup_2 num =
     (let num = num - 1;
          num = num OR drop_bit 1 num;
          num = num OR drop_bit 2 num;
          num = num OR drop_bit 4 num;
          num = num OR drop_bit 8 num;
          num = num OR drop_bit 16 num
      in num + 1)"

definition smear :: "nat \<Rightarrow> u32 \<Rightarrow> u32 \<Rightarrow> bool" where
  "smear k x y \<longleftrightarrow> (\<forall>i. bit y i \<longleftrightarrow> (\<exists>j. i \<le> j \<and> j < i + k \<and> bit x j))"

lemma smear_step:
  assumes "smear k x y"
  shows "smear (2 * k) x (y OR drop_bit k y)"
  unfolding smear_def
proof (intro allI iffI)
  fix i
  assume "bit (y OR drop_bit k y) i"
  then have "bit y i \<or> bit y (i + k)"
    by (simp add: bit_or_iff bit_drop_bit_eq add.commute)
  then obtain j where "(i \<le> j \<and> j < i + k \<or> i + k \<le> j \<and> j < i + k + k) \<and> bit x j"
    using assms unfolding smear_def by blast
  then show "\<exists>j. i \<le> j \<and> j < i + 2 * k \<and> bit x j" by (intro exI [of _ j]) auto
next
  fix i
  assume "\<exists>j. i \<le> j \<and> j < i + 2 * k \<and> bit x j"
  then obtain j where j: "i \<le> j" "j < i + 2 * k" "bit x j" by blast
  have "bit y i \<or> bit y (i + k)"
  proof (cases "j < i + k")
    case True
    then have "bit y i" using assms j unfolding smear_def by blast
    then show ?thesis ..
  next
    case False
    then have "i + k \<le> j" "j < i + k + k" using j by auto
    then have "bit y (i + k)" using assms j(3) unfolding smear_def by blast
    then show ?thesis ..
  qed
  then show "bit (y OR drop_bit k y) i"
    by (simp add: bit_or_iff bit_drop_bit_eq add.commute)
qed

lemma smear_full:
  assumes "smear 32 x y" "x \<noteq> 0"
  obtains m where "m < 32" "y = mask (Suc m)" "2 ^ m \<le> unat x" "unat x < 2 ^ Suc m"
proof -
  let ?S = "{j. bit x j}"
  have fin: "finite ?S" by (rule finite_subset [of _ "{..<32}"]) (auto dest: bit_imp_le_length)
  have ne: "?S \<noteq> {}" using assms(2) by (auto simp: bit_eq_iff)
  define m where "m = Max ?S"
  have m: "bit x m" using Max_in [OF fin ne] by (simp add: m_def)
  then have m32: "m < 32" using bit_imp_le_length [of x m] by simp
  have top: "j \<le> m" if "bit x j" for j using Max_ge [OF fin] that by (simp add: m_def)
  have "bit y i \<longleftrightarrow> i \<le> m" for i
  proof
    assume "bit y i"
    then obtain j where "i \<le> j" "bit x j" using assms(1) unfolding smear_def by blast
    then show "i \<le> m" using top [of j] by simp
  next
    assume "i \<le> m"
    then have "i \<le> m \<and> m < i + 32 \<and> bit x m" using m m32 by simp
    then show "bit y i" using assms(1) unfolding smear_def by blast
  qed
  then have "y = mask (Suc m)"
    by (intro bit_word_eqI) (auto simp: bit_mask_iff less_Suc_eq_le)
  moreover have "unat x < 2 ^ Suc m"
  proof -
    have "take_bit (Suc m) x = x"
      by (rule bit_word_eqI) (use top in \<open>auto simp: bit_take_bit_iff less_Suc_eq_le\<close>)
    then show ?thesis by (metis take_bit_nat_less_exp unsigned_take_bit_eq)
  qed
  moreover have "2 ^ m \<le> unat x"
  proof (rule ccontr)
    assume "\<not> 2 ^ m \<le> unat x"
    then have "\<not> bit (unat x) m" by (simp add: bit_iff_odd)
    with m m32 show False by (simp add: bit_unsigned_iff)
  qed
  ultimately show ?thesis using that m32 by blast
qed

lemma smear_start: "smear 1 x x"
  by (auto simp: smear_def less_Suc_eq_le dest: le_antisym)

lemma roundup_2_smear:
  obtains y where "smear 32 (num - 1) y" "roundup_2 num = y + 1"
proof -
  have "smear 32 (num - 1) (roundup_2 num - 1)"
    using smear_step [OF smear_step [OF smear_step [OF smear_step [OF smear_step
      [OF smear_start [of "num - 1"]]]]]] by (simp add: roundup_2_def Let_def)
  then show ?thesis using that [of "roundup_2 num - 1"] by simp
qed

lemma unat_pow2: "n < 32 \<Longrightarrow> unat ((2 :: u32) ^ n) = 2 ^ n"
proof -
  assume n: "n < 32"
  have "(2 :: u32) ^ n = of_nat (2 ^ n)" by simp
  moreover have "unat (of_nat (2 ^ n) :: u32) = 2 ^ n mod 2 ^ 32"
    using unat_of_nat [where 'a = 32, of "2 ^ n"] by simp
  moreover have "(2::nat) ^ n < 2 ^ 32" using n by (intro power_strict_increasing) auto
  ultimately show ?thesis by simp
qed

lemma mask_plus_1: "(mask n :: u32) + 1 = 2 ^ n"
  by (simp add: mask_eq_decr_exp)

text \<open>For an argument from 1 to \<open>2 ^ 31\<close>, \<^verbatim>\<open>__roundup_2\<close> returns the least power of two that
  is at least the argument.\<close>

lemma roundup_2_least_power:
  assumes "0 < unat num" "unat num \<le> 2 ^ 31"
  shows "\<exists>n. unat (roundup_2 num) = 2 ^ n \<and> unat num \<le> 2 ^ n
    \<and> (\<forall>k. unat num \<le> 2 ^ k \<longrightarrow> n \<le> k)"
proof (cases "num = 1")
  case True
  then show ?thesis by (intro exI [of _ 0]) (simp add: roundup_2_def)
next
  case False
  then have ne: "num - 1 \<noteq> 0" by simp
  have num: "unat (num - 1) = unat num - 1"
    using assms(1) by (simp add: unat_sub_if' word_le_nat_alt)
  obtain y where y: "smear 32 (num - 1) y" "roundup_2 num = y + 1" by (rule roundup_2_smear)
  from smear_full [OF y(1) ne] obtain m where m: "m < 32" "y = mask (Suc m)"
    "2 ^ m \<le> unat (num - 1)" "unat (num - 1) < 2 ^ Suc m" by blast
  have "(2::nat) ^ m < 2 ^ 31" using m(3) num assms by linarith
  then have "m < 31" by (rule power_less_imp_less_exp [rotated]) simp
  then have "unat (roundup_2 num) = 2 ^ Suc m"
    using y(2) m(2) mask_plus_1 [of "Suc m"] by (simp del: power_Suc add: unat_pow2)
  moreover have "Suc m \<le> k" if "unat num \<le> 2 ^ k" for k
  proof -
    have "(2::nat) ^ m < 2 ^ k" using that m(3) num assms(1) by linarith
    then show ?thesis by simp
  qed
  ultimately show ?thesis using m(4) num by (intro exI [of _ "Suc m"]) auto
qed

lemma roundup_2_least_power_example:
  "\<exists>n. unat (roundup_2 100) = 2 ^ n \<and> (100::nat) \<le> 2 ^ n \<and> (\<forall>k. (100::nat) \<le> 2 ^ k \<longrightarrow> n \<le> k)"
  using roundup_2_least_power [of 100] by simp

subsection \<open>Reading exactly n bytes\<close>

text \<open>\<^verbatim>\<open>left\<close> is a \<^verbatim>\<open>size_t\<close>: the subtraction wraps.  The loop has no value when the kernel answers
  \<^verbatim>\<open>EINTR\<close> for ever.\<close>

partial_function (option) readn_loop ::
  "os \<Rightarrow> int \<Rightarrow> u64 \<Rightarrow> u64 \<Rightarrow> u8 list \<Rightarrow> trace \<Rightarrow> (int \<times> u8 list \<times> trace) option" where
  "readn_loop os fd n left buf tr =
     (if left = 0 then Some (sint n, buf, tr)
      else let r = os tr (Read fd left); tr' = tr @ [(Read fd left, r)]
           in if ret r < 0 \<and> err r = EINTR then readn_loop os fd n left buf tr'
              else if ret r \<le> 0 then Some (ret r, buf, tr')
              else readn_loop os fd n (left - word_of_int (ret r)) (buf @ bytes r) tr')"

definition readn :: "os \<Rightarrow> int \<Rightarrow> u64 \<Rightarrow> trace \<Rightarrow> (int \<times> u8 list \<times> trace) option" where
  "readn os fd n tr = readn_loop os fd n n [] tr"

text \<open>\<open>reads_until os fd left tr rs\<close>: the environment's answers from here on are \<open>rs\<close>, none of
  them an error, and together they transfer \<open>left\<close> bytes.\<close>

fun reads_until :: "os \<Rightarrow> int \<Rightarrow> u64 \<Rightarrow> trace \<Rightarrow> response list \<Rightarrow> bool" where
  "reads_until os fd left tr [] = (left = 0)"
| "reads_until os fd left tr (r # rs) =
     (left \<noteq> 0 \<and> os tr (Read fd left) = r \<and>
      (if ret r < 0 then err r = EINTR \<and> reads_until os fd left (tr @ [(Read fd left, r)]) rs
       else 0 < ret r \<and>
         reads_until os fd (left - word_of_int (ret r)) (tr @ [(Read fd left, r)]) rs))"

definition delivered :: "response list \<Rightarrow> u8 list" where
  "delivered rs = concat (map bytes (filter (\<lambda>r. 0 < ret r) rs))"

lemma readn_loop_complete:
  "reads_until os fd left tr rs \<Longrightarrow>
     \<exists>tr'. readn_loop os fd n left buf tr = Some (sint n, buf @ delivered rs, tr')"
proof (induction rs arbitrary: left tr buf)
  case Nil
  then show ?case by (simp add: readn_loop.simps delivered_def)
next
  case (Cons r rs)
  then show ?case
    using Cons.IH [of "left - word_of_int (ret r)" "tr @ [(Read fd left, r)]" "buf @ bytes r"]
    by (subst readn_loop.simps) (auto simp: Let_def delivered_def split: if_splits)
qed

lemma reads_until_bytes:
  assumes "read_doc os fd"
  shows "reads_until os fd left tr rs \<Longrightarrow> int (length (delivered rs)) = uint left"
proof (induction rs arbitrary: left tr)
  case Nil
  then show ?case by (simp add: delivered_def)
next
  case (Cons r rs)
  then have r: "os tr (Read fd left) = r" by simp
  show ?case
  proof (cases "ret r < 0")
    case True
    then show ?thesis using Cons by (auto simp: delivered_def)
  next
    case False
    then have pos: "0 < ret r" using Cons.prems by simp
    with r assms have le: "ret r \<le> uint left" and len: "int (length (bytes r)) = ret r"
      unfolding read_doc_def by metis+
    have lt: "ret r < 2 ^ 64" using le uint_lt2p [of left] by simp
    have "uint (left - word_of_int (ret r)) = uint left - ret r"
      using pos le lt by (simp add: uint_sub_if' uint_word_of_int take_bit_int_eq_self)
    moreover have "int (length (delivered rs)) = uint (left - word_of_int (ret r))"
      using Cons False by auto
    ultimately show ?thesis using len pos by (simp add: delivered_def)
  qed
qed

text \<open>\<^verbatim>\<open>readn\<close> of \<open>n\<close> bytes returns \<open>n\<close> and delivers exactly \<open>n\<close> bytes, those of the successive
  \<^verbatim>\<open>read\<close> calls in order, however the kernel splits the transfer and however often it
  interrupts it, as long as the answers add up.\<close>

lemma readn_exact:
  assumes "read_doc os fd" "reads_until os fd n tr rs"
  shows "\<exists>buf tr'. readn os fd n tr = Some (sint n, buf, tr')
    \<and> buf = delivered rs \<and> int (length buf) = uint n"
  using readn_loop_complete [OF assms(2), of n "[]"] reads_until_bytes [OF assms]
  by (auto simp: readn_def)

text \<open>An environment that first interrupts, then delivers three bytes, then the rest.\<close>

definition split_reader :: os where
  "split_reader tr rq =
     (case rq of
        Read fd n \<Rightarrow>
          (if tr = [] then \<lparr>ret = -1, err = EINTR, out = [], bytes = []\<rparr>
           else if length tr = 1 \<and> 3 \<le> uint n then \<lparr>ret = 3, err = 0, out = [], bytes = [1, 2, 3]\<rparr>
           else \<lparr>ret = uint n, err = 0, out = [], bytes = replicate (unat n) 7\<rparr>)
      | _ \<Rightarrow> \<lparr>ret = 0, err = 0, out = [], bytes = []\<rparr>)"

lemma split_reader_doc: "read_doc split_reader fd"
  by (auto simp: read_doc_def split_reader_def)

lemma readn_exact_example:
  "\<exists>buf tr'. readn split_reader 5 8 [] = Some (8, buf, tr') \<and> int (length buf) = 8"
  using readn_exact [OF split_reader_doc, of 5 8 "[]"
    "[\<lparr>ret = -1, err = EINTR, out = [], bytes = []\<rparr>, \<lparr>ret = 3, err = 0, out = [], bytes = [1, 2, 3]\<rparr>,
      \<lparr>ret = 5, err = 0, out = [], bytes = replicate 5 7\<rparr>]"]
  by (auto simp: split_reader_def)

subsection \<open>The two halves of a 64-bit hardware register\<close>

definition EAX_EDX_VAL :: "u64 \<Rightarrow> u64 \<Rightarrow> u64" where
  "EAX_EDX_VAL low high = low OR push_bit 32 high"

definition rdpmc_val :: "u32 \<Rightarrow> u32 \<Rightarrow> u64" where
  "rdpmc_val low high = ucast low OR push_bit 32 (ucast high)"

text \<open>The instruction leaves the low half of the counter in \<^verbatim>\<open>eax\<close> and the high half in \<^verbatim>\<open>edx\<close>;
  both combinations rebuild the 64-bit value.\<close>

lemma EAX_EDX_VAL_halves: "EAX_EDX_VAL (take_bit 32 v) (drop_bit 32 v) = v"
proof (rule bit_word_eqI)
  fix n assume "n < LENGTH(64)"
  then show "bit (EAX_EDX_VAL (take_bit 32 v) (drop_bit 32 v)) n = bit v n"
    by (cases "n < 32")
      (simp_all add: EAX_EDX_VAL_def bit_or_iff bit_take_bit_iff bit_push_bit_iff bit_drop_bit_eq)
qed

lemma rdpmc_val_halves: "rdpmc_val (ucast v) (ucast (drop_bit 32 v)) = v"
  by (rule bit_word_eqI)
    (auto simp: rdpmc_val_def bit_or_iff bit_push_bit_iff bit_drop_bit_eq bit_ucast_iff)

subsection \<open>The flexible array\<close>

record carray =
  elem_num :: u32
  elem_size :: u32
  contents_len :: nat

text \<open>\<^verbatim>\<open>elem_num * elem_size\<close> is a product of two \<^verbatim>\<open>uint32_t\<close>: it wraps before it is widened.\<close>

definition array_alloc_len :: "u32 \<Rightarrow> u32 \<Rightarrow> nat" where
  "array_alloc_len n sz = unat (n * sz)"

definition array__new :: "os \<Rightarrow> u32 \<Rightarrow> u32 \<Rightarrow> trace \<Rightarrow> carray option \<times> trace" where
  "array__new os n sz tr =
     (let (a, tr') = zalloc os (8 + array_alloc_len n sz) tr
      in if a \<noteq> NULL
         then (Some \<lparr>elem_num = n, elem_size = sz, contents_len = array_alloc_len n sz\<rparr>, tr')
         else (None, tr'))"

definition array__delete :: "os \<Rightarrow> addr \<Rightarrow> trace \<Rightarrow> trace" where
  "array__delete os arr tr = sys_do os (Free arr) tr"

definition array__entry :: "carray \<Rightarrow> u32 \<Rightarrow> nat option" where
  "array__entry arr i =
     (if elem_num arr \<le> i then None else Some (unat (i * elem_size arr)))"

text \<open>Where the product of count and size fits in 32 bits, every element \<^verbatim>\<open>array__entry\<close> hands
  out lies inside the allocation, elements do not overlap, and an index past the end gives
  \<^verbatim>\<open>NULL\<close>.\<close>

lemma array_entries_in_bounds:
  assumes "array__new os n sz tr = (Some arr, tr')" "unat n * unat sz < 2 ^ 32"
  shows "(\<forall>i. array__entry arr i = None \<longleftrightarrow> n \<le> i)
    \<and> (\<forall>i off. array__entry arr i = Some off \<longrightarrow> off + unat sz \<le> contents_len arr)
    \<and> (\<forall>i j a b. array__entry arr i = Some a \<longrightarrow> array__entry arr j = Some b \<longrightarrow> i < j
         \<longrightarrow> a + unat sz \<le> b)"
proof -
  from assms(1) have arr: "arr = \<lparr>elem_num = n, elem_size = sz, contents_len = unat (n * sz)\<rparr>"
    by (auto simp: array__new_def array_alloc_len_def split: prod.splits if_splits)
  have len: "unat (n * sz) = unat n * unat sz" using assms(2) by (simp add: unat_mult_lem [THEN iffD1])
  have off: "unat (i * sz) = unat i * unat sz" if "i < n" for i
  proof -
    have "unat i * unat sz \<le> unat n * unat sz"
      using that by (intro mult_right_mono) (auto simp: word_less_nat_alt)
    then have "unat i * unat sz < 2 ^ 32" using assms(2) by (rule le_less_trans)
    then show ?thesis by (simp add: unat_mult_lem [THEN iffD1])
  qed
  have step: "unat i * unat sz + unat sz \<le> unat j * unat sz" if "i < j" for i j :: u32
  proof -
    have "Suc (unat i) * unat sz \<le> unat j * unat sz"
      using that by (intro mult_right_mono) (auto simp: word_less_nat_alt)
    then show ?thesis by simp
  qed
  show ?thesis
    using step len off by (auto simp: arr array__entry_def not_le)
qed

definition simple_heap :: os where
  "simple_heap tr rq = \<lparr>ret = 4096, err = 0, out = [], bytes = []\<rparr>"

lemma array_entries_in_bounds_example:
  "\<exists>arr tr'. array__new simple_heap 4 24 [] = (Some arr, tr')
    \<and> (\<forall>i off. array__entry arr i = Some off \<longrightarrow> off + 24 \<le> contents_len arr)"
proof -
  obtain arr tr' where n: "array__new simple_heap 4 24 [] = (Some arr, tr')"
    by (auto simp: array__new_def zalloc_def sys_call_def simple_heap_def Let_def)
  from array_entries_in_bounds [OF n] show ?thesis using n by auto
qed

text \<open>Without that bound the product wraps: an array of 65537 elements of 65536 bytes is
  allocated with room for one element, and element 1 lies past the end of the allocation.\<close>

lemma array_size_overflow:
  "\<exists>arr tr'. array__new simple_heap 65537 65536 [] = (Some arr, tr') \<and> contents_len arr = 65536
    \<and> array__entry arr 1 = Some 65536"
  by (simp add: array__new_def zalloc_def sys_call_def simple_heap_def Let_def array_alloc_len_def
      array__entry_def word_le_nat_alt)

end
