(* ===== verification/Pmu.thy ===== *)
theory Pmu
  imports Prelude
begin

section \<open>probe/pmu.[ch]: the table of performance events\<close>

text \<open>
  The table \<^verbatim>\<open>pmu_list\<close> with its 37 entries in the order of the enumeration, the search by
  name, and the dump.  The constants of \<^verbatim>\<open>linux/perf_event.h\<close> have the values of the kernel's
  ABI.  The lemmas show that the search inverts the table (every event is found under its own name,
  and no other name is found) and that two entries never select the same hardware event.
\<close>

record prof_pmu =
  pmu_name :: string
  pmu_type :: u32
  pmu_config :: u64
  is_support :: bool

definition PROFILE_PMU_NAME_MAX :: nat where
  "PROFILE_PMU_NAME_MAX = 30"

abbreviation (input) PERF_TYPE_HARDWARE :: u32 where "PERF_TYPE_HARDWARE \<equiv> 0"
abbreviation (input) PERF_TYPE_HW_CACHE :: u32 where "PERF_TYPE_HW_CACHE \<equiv> 3"
abbreviation (input) PERF_COUNT_HW_CPU_CYCLES :: u64 where "PERF_COUNT_HW_CPU_CYCLES \<equiv> 0"
abbreviation (input) PERF_COUNT_HW_INSTRUCTIONS :: u64 where "PERF_COUNT_HW_INSTRUCTIONS \<equiv> 1"
abbreviation (input) PERF_COUNT_HW_CACHE_REFERENCES :: u64 where "PERF_COUNT_HW_CACHE_REFERENCES \<equiv> 2"
abbreviation (input) PERF_COUNT_HW_CACHE_MISSES :: u64 where "PERF_COUNT_HW_CACHE_MISSES \<equiv> 3"
abbreviation (input) PERF_COUNT_HW_BRANCH_INSTRUCTIONS :: u64 where
  "PERF_COUNT_HW_BRANCH_INSTRUCTIONS \<equiv> 4"
abbreviation (input) PERF_COUNT_HW_BRANCH_MISSES :: u64 where "PERF_COUNT_HW_BRANCH_MISSES \<equiv> 5"
abbreviation (input) PERF_COUNT_HW_BUS_CYCLES :: u64 where "PERF_COUNT_HW_BUS_CYCLES \<equiv> 6"
abbreviation (input) PERF_COUNT_HW_CACHE_L1D :: u64 where "PERF_COUNT_HW_CACHE_L1D \<equiv> 0"
abbreviation (input) PERF_COUNT_HW_CACHE_L1I :: u64 where "PERF_COUNT_HW_CACHE_L1I \<equiv> 1"
abbreviation (input) PERF_COUNT_HW_CACHE_LL :: u64 where "PERF_COUNT_HW_CACHE_LL \<equiv> 2"
abbreviation (input) PERF_COUNT_HW_CACHE_DTLB :: u64 where "PERF_COUNT_HW_CACHE_DTLB \<equiv> 3"
abbreviation (input) PERF_COUNT_HW_CACHE_ITLB :: u64 where "PERF_COUNT_HW_CACHE_ITLB \<equiv> 4"
abbreviation (input) PERF_COUNT_HW_CACHE_OP_READ :: u64 where "PERF_COUNT_HW_CACHE_OP_READ \<equiv> 0"
abbreviation (input) PERF_COUNT_HW_CACHE_OP_WRITE :: u64 where "PERF_COUNT_HW_CACHE_OP_WRITE \<equiv> 1"
abbreviation (input) PERF_COUNT_HW_CACHE_OP_PREFETCH :: u64 where "PERF_COUNT_HW_CACHE_OP_PREFETCH \<equiv> 2"
abbreviation (input) PERF_COUNT_HW_CACHE_RESULT_ACCESS :: u64 where
  "PERF_COUNT_HW_CACHE_RESULT_ACCESS \<equiv> 0"
abbreviation (input) PERF_COUNT_HW_CACHE_RESULT_MISS :: u64 where "PERF_COUNT_HW_CACHE_RESULT_MISS \<equiv> 1"

definition hw_cache_config :: "u64 \<Rightarrow> u64 \<Rightarrow> u64 \<Rightarrow> u64" where
  "hw_cache_config cache opn result = cache OR push_bit 8 opn OR push_bit 16 result"

definition pmu_entry :: "string \<Rightarrow> u32 \<Rightarrow> u64 \<Rightarrow> prof_pmu" where
  "pmu_entry n t c = \<lparr>pmu_name = n, pmu_type = t, pmu_config = c, is_support = False\<rparr>"

definition PROF_PMU_MAX :: nat where
  "PROF_PMU_MAX = 37"

text \<open>The table, in the order of the enumeration: the generic hardware events, the events of the two
  first-level caches, and those of the last-level cache and the translation buffers.\<close>

definition pmu_hardware :: "prof_pmu list" where
  "pmu_hardware =
    [pmu_entry ''cpu-cycles'' PERF_TYPE_HARDWARE PERF_COUNT_HW_CPU_CYCLES,
     pmu_entry ''instructions'' PERF_TYPE_HARDWARE PERF_COUNT_HW_INSTRUCTIONS,
     pmu_entry ''cache-references'' PERF_TYPE_HARDWARE PERF_COUNT_HW_CACHE_REFERENCES,
     pmu_entry ''cache-misses'' PERF_TYPE_HARDWARE PERF_COUNT_HW_CACHE_MISSES,
     pmu_entry ''bus-cycles'' PERF_TYPE_HARDWARE PERF_COUNT_HW_BUS_CYCLES,
     pmu_entry ''branch-instructions'' PERF_TYPE_HARDWARE PERF_COUNT_HW_BRANCH_INSTRUCTIONS,
     pmu_entry ''branch-misses'' PERF_TYPE_HARDWARE PERF_COUNT_HW_BRANCH_MISSES]"

definition pmu_l1_caches :: "prof_pmu list" where
  "pmu_l1_caches =
    [pmu_entry ''l1d-read'' PERF_TYPE_HW_CACHE
       (hw_cache_config PERF_COUNT_HW_CACHE_L1D PERF_COUNT_HW_CACHE_OP_READ PERF_COUNT_HW_CACHE_RESULT_ACCESS),
     pmu_entry ''l1d-read-misses'' PERF_TYPE_HW_CACHE
       (hw_cache_config PERF_COUNT_HW_CACHE_L1D PERF_COUNT_HW_CACHE_OP_READ PERF_COUNT_HW_CACHE_RESULT_MISS),
     pmu_entry ''l1d-write'' PERF_TYPE_HW_CACHE
       (hw_cache_config PERF_COUNT_HW_CACHE_L1D PERF_COUNT_HW_CACHE_OP_WRITE PERF_COUNT_HW_CACHE_RESULT_ACCESS),
     pmu_entry ''l1d-write-misses'' PERF_TYPE_HW_CACHE
       (hw_cache_config PERF_COUNT_HW_CACHE_L1D PERF_COUNT_HW_CACHE_OP_WRITE PERF_COUNT_HW_CACHE_RESULT_MISS),
     pmu_entry ''l1d-prefetch'' PERF_TYPE_HW_CACHE
       (hw_cache_config PERF_COUNT_HW_CACHE_L1D PERF_COUNT_HW_CACHE_OP_PREFETCH PERF_COUNT_HW_CACHE_RESULT_ACCESS),
     pmu_entry ''l1d-prefetch-misses'' PERF_TYPE_HW_CACHE
       (hw_cache_config PERF_COUNT_HW_CACHE_L1D PERF_COUNT_HW_CACHE_OP_PREFETCH PERF_COUNT_HW_CACHE_RESULT_MISS),
     pmu_entry ''l1i-read'' PERF_TYPE_HW_CACHE
       (hw_cache_config PERF_COUNT_HW_CACHE_L1I PERF_COUNT_HW_CACHE_OP_READ PERF_COUNT_HW_CACHE_RESULT_ACCESS),
     pmu_entry ''l1i-read-misses'' PERF_TYPE_HW_CACHE
       (hw_cache_config PERF_COUNT_HW_CACHE_L1I PERF_COUNT_HW_CACHE_OP_READ PERF_COUNT_HW_CACHE_RESULT_MISS),
     pmu_entry ''l1i-write'' PERF_TYPE_HW_CACHE
       (hw_cache_config PERF_COUNT_HW_CACHE_L1I PERF_COUNT_HW_CACHE_OP_WRITE PERF_COUNT_HW_CACHE_RESULT_ACCESS),
     pmu_entry ''l1i-write-misses'' PERF_TYPE_HW_CACHE
       (hw_cache_config PERF_COUNT_HW_CACHE_L1I PERF_COUNT_HW_CACHE_OP_WRITE PERF_COUNT_HW_CACHE_RESULT_MISS),
     pmu_entry ''l1i-prefetch'' PERF_TYPE_HW_CACHE
       (hw_cache_config PERF_COUNT_HW_CACHE_L1I PERF_COUNT_HW_CACHE_OP_PREFETCH PERF_COUNT_HW_CACHE_RESULT_ACCESS),
     pmu_entry ''l1i-prefetch-misses'' PERF_TYPE_HW_CACHE
       (hw_cache_config PERF_COUNT_HW_CACHE_L1I PERF_COUNT_HW_CACHE_OP_PREFETCH PERF_COUNT_HW_CACHE_RESULT_MISS)]"

definition pmu_ll_and_tlbs :: "prof_pmu list" where
  "pmu_ll_and_tlbs =
    [pmu_entry ''ll-read'' PERF_TYPE_HW_CACHE
       (hw_cache_config PERF_COUNT_HW_CACHE_LL PERF_COUNT_HW_CACHE_OP_READ PERF_COUNT_HW_CACHE_RESULT_ACCESS),
     pmu_entry ''ll-read-misses'' PERF_TYPE_HW_CACHE
       (hw_cache_config PERF_COUNT_HW_CACHE_LL PERF_COUNT_HW_CACHE_OP_READ PERF_COUNT_HW_CACHE_RESULT_MISS),
     pmu_entry ''ll-write'' PERF_TYPE_HW_CACHE
       (hw_cache_config PERF_COUNT_HW_CACHE_LL PERF_COUNT_HW_CACHE_OP_WRITE PERF_COUNT_HW_CACHE_RESULT_ACCESS),
     pmu_entry ''ll-write-misses'' PERF_TYPE_HW_CACHE
       (hw_cache_config PERF_COUNT_HW_CACHE_LL PERF_COUNT_HW_CACHE_OP_WRITE PERF_COUNT_HW_CACHE_RESULT_MISS),
     pmu_entry ''ll-prefetch'' PERF_TYPE_HW_CACHE
       (hw_cache_config PERF_COUNT_HW_CACHE_LL PERF_COUNT_HW_CACHE_OP_PREFETCH PERF_COUNT_HW_CACHE_RESULT_ACCESS),
     pmu_entry ''ll-prefetch-misses'' PERF_TYPE_HW_CACHE
       (hw_cache_config PERF_COUNT_HW_CACHE_LL PERF_COUNT_HW_CACHE_OP_PREFETCH PERF_COUNT_HW_CACHE_RESULT_MISS),
     pmu_entry ''dtlb-read'' PERF_TYPE_HW_CACHE
       (hw_cache_config PERF_COUNT_HW_CACHE_DTLB PERF_COUNT_HW_CACHE_OP_READ PERF_COUNT_HW_CACHE_RESULT_ACCESS),
     pmu_entry ''dtlb-read-misses'' PERF_TYPE_HW_CACHE
       (hw_cache_config PERF_COUNT_HW_CACHE_DTLB PERF_COUNT_HW_CACHE_OP_READ PERF_COUNT_HW_CACHE_RESULT_MISS),
     pmu_entry ''dtlb-write'' PERF_TYPE_HW_CACHE
       (hw_cache_config PERF_COUNT_HW_CACHE_DTLB PERF_COUNT_HW_CACHE_OP_WRITE PERF_COUNT_HW_CACHE_RESULT_ACCESS),
     pmu_entry ''dtlb-write-misses'' PERF_TYPE_HW_CACHE
       (hw_cache_config PERF_COUNT_HW_CACHE_DTLB PERF_COUNT_HW_CACHE_OP_WRITE PERF_COUNT_HW_CACHE_RESULT_MISS),
     pmu_entry ''dtlb-prefetch'' PERF_TYPE_HW_CACHE
       (hw_cache_config PERF_COUNT_HW_CACHE_DTLB PERF_COUNT_HW_CACHE_OP_PREFETCH PERF_COUNT_HW_CACHE_RESULT_ACCESS),
     pmu_entry ''dtlb-prefetch-misses'' PERF_TYPE_HW_CACHE
       (hw_cache_config PERF_COUNT_HW_CACHE_DTLB PERF_COUNT_HW_CACHE_OP_PREFETCH PERF_COUNT_HW_CACHE_RESULT_MISS),
     pmu_entry ''itlb-read'' PERF_TYPE_HW_CACHE
       (hw_cache_config PERF_COUNT_HW_CACHE_ITLB PERF_COUNT_HW_CACHE_OP_READ PERF_COUNT_HW_CACHE_RESULT_ACCESS),
     pmu_entry ''itlb-read-misses'' PERF_TYPE_HW_CACHE
       (hw_cache_config PERF_COUNT_HW_CACHE_ITLB PERF_COUNT_HW_CACHE_OP_READ PERF_COUNT_HW_CACHE_RESULT_MISS),
     pmu_entry ''itlb-write'' PERF_TYPE_HW_CACHE
       (hw_cache_config PERF_COUNT_HW_CACHE_ITLB PERF_COUNT_HW_CACHE_OP_WRITE PERF_COUNT_HW_CACHE_RESULT_ACCESS),
     pmu_entry ''itlb-write-misses'' PERF_TYPE_HW_CACHE
       (hw_cache_config PERF_COUNT_HW_CACHE_ITLB PERF_COUNT_HW_CACHE_OP_WRITE PERF_COUNT_HW_CACHE_RESULT_MISS),
     pmu_entry ''itlb-prefetch'' PERF_TYPE_HW_CACHE
       (hw_cache_config PERF_COUNT_HW_CACHE_ITLB PERF_COUNT_HW_CACHE_OP_PREFETCH PERF_COUNT_HW_CACHE_RESULT_ACCESS),
     pmu_entry ''itlb-prefetch-misses'' PERF_TYPE_HW_CACHE
       (hw_cache_config PERF_COUNT_HW_CACHE_ITLB PERF_COUNT_HW_CACHE_OP_PREFETCH PERF_COUNT_HW_CACHE_RESULT_MISS)]"

definition pmu_list :: "prof_pmu list" where
  "pmu_list = pmu_hardware @ pmu_l1_caches @ pmu_ll_and_tlbs"

lemmas pmu_table = pmu_list_def pmu_hardware_def pmu_l1_caches_def pmu_ll_and_tlbs_def

text \<open>\<^verbatim>\<open>__pmu__init\<close> only sets the static flag (the support probe is compiled out).\<close>

definition pmu_init :: "bool \<Rightarrow> bool" where
  "pmu_init pmu_is_init = True"

text \<open>The search returns the index of the entry whose address the code returns, and the static
  flag.\<close>

fun pmu_find_from :: "string \<Rightarrow> nat \<Rightarrow> prof_pmu list \<Rightarrow> nat option" where
  "pmu_find_from str i [] = None"
| "pmu_find_from str i (pmu # rest) =
     (if str = pmu_name pmu then Some i else pmu_find_from str (Suc i) rest)"

definition prof_pmu__find :: "string \<Rightarrow> bool \<Rightarrow> nat option \<times> bool" where
  "prof_pmu__find str pmu_is_init =
     (let flag = (if \<not> pmu_is_init then pmu_init pmu_is_init else pmu_is_init)
      in (pmu_find_from str 0 pmu_list, flag))"

definition prof_pmu__dump :: "bool \<Rightarrow> (string \<times> string) list \<times> bool" where
  "prof_pmu__dump pmu_is_init =
     (let flag = (if \<not> pmu_is_init then pmu_init pmu_is_init else pmu_is_init)
      in (concat (map (\<lambda>pmu.
            if is_support pmu
            then (if pmu_type pmu = PERF_TYPE_HARDWARE then [(pmu_name pmu, ''HARDWARE'')]
                  else if pmu_type pmu = PERF_TYPE_HW_CACHE
                  then [(pmu_name pmu, ''HARDWARE CACHE'')] else [])
            else []) pmu_list), flag))"

lemma length_pmu_list: "length pmu_list = PROF_PMU_MAX"
  by (simp add: pmu_table PROF_PMU_MAX_def)

lemma distinct_pmu_names: "distinct (map pmu_name pmu_list)"
  by (simp add: pmu_table pmu_entry_def)

lemma distinct_pmu_events: "distinct (map (\<lambda>p. (pmu_type p, pmu_config p)) pmu_list)"
  by (simp add: pmu_table pmu_entry_def hw_cache_config_def)

lemma pmu_names_fit: "list_all (\<lambda>p. length (pmu_name p) < PROFILE_PMU_NAME_MAX) pmu_list"
  by (simp add: pmu_table pmu_entry_def PROFILE_PMU_NAME_MAX_def)

lemma pmu_find_from_Some:
  "pmu_find_from s i ps = Some k \<Longrightarrow> i \<le> k \<and> k - i < length ps \<and> pmu_name (ps ! (k - i)) = s"
proof (induction s i ps rule: pmu_find_from.induct)
  case (2 str i pmu rest)
  then show ?case by (auto simp: nth_Cons' Suc_diff_le split: if_splits)
qed simp

lemma pmu_find_from_None: "pmu_find_from s i ps = None \<longleftrightarrow> s \<notin> set (map pmu_name ps)"
  by (induction s i ps rule: pmu_find_from.induct) auto

lemma pmu_find_nth: "fst (prof_pmu__find s flag) = Some k \<longleftrightarrow> k < PROF_PMU_MAX \<and> pmu_name (pmu_list ! k) = s"
proof
  assume "fst (prof_pmu__find s flag) = Some k"
  then show "k < PROF_PMU_MAX \<and> pmu_name (pmu_list ! k) = s"
    using pmu_find_from_Some [of s 0 pmu_list k] by (simp add: prof_pmu__find_def Let_def length_pmu_list)
next
  assume k: "k < PROF_PMU_MAX \<and> pmu_name (pmu_list ! k) = s"
  then have "s \<in> set (map pmu_name pmu_list)" by (auto simp: length_pmu_list)
  then obtain j where j: "pmu_find_from s 0 pmu_list = Some j"
    using pmu_find_from_None [of s 0 pmu_list] by blast
  then have "j < length pmu_list" "pmu_name (pmu_list ! j) = s" using pmu_find_from_Some by fastforce+
  then have "j = k"
    using k distinct_pmu_names nth_eq_iff_index_eq [of "map pmu_name pmu_list" j k]
    by (simp add: length_pmu_list)
  then show "fst (prof_pmu__find s flag) = Some k" using j by (simp add: prof_pmu__find_def Let_def)
qed

text \<open>The event table and the search agree: the search finds an entry exactly under the name
  the table gives it, whatever the state of the initialisation flag, so a name determines one
  entry; every name fits its 30-byte field; and two different entries never select the same
  (type, config) pair.\<close>

lemma pmu_find_inverts_table:
  "(fst (prof_pmu__find s flag) = Some k \<longleftrightarrow> k < PROF_PMU_MAX \<and> pmu_name (pmu_list ! k) = s)
   \<and> (fst (prof_pmu__find s flag) = None \<longleftrightarrow> s \<notin> set (map pmu_name pmu_list))
   \<and> list_all (\<lambda>p. length (pmu_name p) < PROFILE_PMU_NAME_MAX) pmu_list
   \<and> distinct (map (\<lambda>p. (pmu_type p, pmu_config p)) pmu_list)"
  using pmu_find_nth pmu_names_fit distinct_pmu_events pmu_find_from_None [of s 0 pmu_list]
  by (simp add: prof_pmu__find_def Let_def)

text \<open>\<^verbatim>\<open>prof_pmu__dump\<close> prints no event at all: \<^verbatim>\<open>is_support\<close> is never set.\<close>

lemma pmu_dump_prints_nothing: "fst (prof_pmu__dump flag) = []"
  by (simp add: prof_pmu__dump_def Let_def pmu_table pmu_entry_def)

end
