(* ===== verification/Intrusive_List.thy ===== *)
theory Intrusive_List
  imports Prelude
begin

section \<open>probe/list.h: the intrusive circular doubly linked list\<close>

text \<open>
  The nodes (\<^verbatim>\<open>struct list_head\<close>) live in a heap, a function from addresses to nodes; every
  operation of \<^verbatim>\<open>list.h\<close> is a sequence of pointer stores in the order of the source.  The
  abstraction \<open>dlist h head xs\<close> says that from \<open>head\<close> the \<^verbatim>\<open>next\<close> pointers run through \<open>xs\<close>
  and back to \<open>head\<close>, that the \<^verbatim>\<open>prev\<close> pointers run the other way, and that no node occurs
  twice.  The lemmas state each operation on this abstraction, with the nodes it leaves alone.
\<close>

record list_head =
  next_ptr :: addr
  prev_ptr :: addr

type_synonym list_heap = "addr \<Rightarrow> list_head"

definition set_next :: "addr \<Rightarrow> addr \<Rightarrow> list_heap \<Rightarrow> list_heap" where
  "set_next p v h = h(p := (h p)\<lparr>next_ptr := v\<rparr>)"

definition set_prev :: "addr \<Rightarrow> addr \<Rightarrow> list_heap \<Rightarrow> list_heap" where
  "set_prev p v h = h(p := (h p)\<lparr>prev_ptr := v\<rparr>)"

lemma next_set_next [simp]: "next_ptr (set_next p v h x) = (if x = p then v else next_ptr (h x))"
  by (simp add: set_next_def)

lemma prev_set_next [simp]: "prev_ptr (set_next p v h x) = prev_ptr (h x)"
  by (simp add: set_next_def)

lemma next_set_prev [simp]: "next_ptr (set_prev p v h x) = next_ptr (h x)"
  by (simp add: set_prev_def)

lemma prev_set_prev [simp]: "prev_ptr (set_prev p v h x) = (if x = p then v else prev_ptr (h x))"
  by (simp add: set_prev_def)

subsection \<open>The operations\<close>

definition INIT_LIST_HEAD :: "addr \<Rightarrow> list_heap \<Rightarrow> list_heap" where
  "INIT_LIST_HEAD list h = set_prev list list (set_next list list h)"

definition list_add_raw :: "addr \<Rightarrow> addr \<Rightarrow> addr \<Rightarrow> list_heap \<Rightarrow> list_heap" where
  "list_add_raw new prv nxt h =
     set_next prv new (set_prev new prv (set_next new nxt (set_prev nxt new h)))"

definition list_add :: "addr \<Rightarrow> addr \<Rightarrow> list_heap \<Rightarrow> list_heap" where
  "list_add new head h = list_add_raw new head (next_ptr (h head)) h"

definition list_add_tail :: "addr \<Rightarrow> addr \<Rightarrow> list_heap \<Rightarrow> list_heap" where
  "list_add_tail new head h = list_add_raw new (prev_ptr (h head)) head h"

definition list_del_raw :: "addr \<Rightarrow> addr \<Rightarrow> list_heap \<Rightarrow> list_heap" where
  "list_del_raw prv nxt h = set_next prv nxt (set_prev nxt prv h)"

definition list_del_entry_raw :: "addr \<Rightarrow> list_heap \<Rightarrow> list_heap" where
  "list_del_entry_raw entry h = list_del_raw (prev_ptr (h entry)) (next_ptr (h entry)) h"

definition list_del :: "addr \<Rightarrow> list_heap \<Rightarrow> list_heap" where
  "list_del entry h =
     set_prev entry NULL (set_next entry NULL
       (list_del_raw (prev_ptr (h entry)) (next_ptr (h entry)) h))"

definition list_replace :: "addr \<Rightarrow> addr \<Rightarrow> list_heap \<Rightarrow> list_heap" where
  "list_replace old new h =
     (let h1 = set_next new (next_ptr (h old)) h;
          h2 = set_prev (next_ptr (h1 new)) new h1;
          h3 = set_prev new (prev_ptr (h2 old)) h2
      in set_next (prev_ptr (h3 new)) new h3)"

definition list_replace_init :: "addr \<Rightarrow> addr \<Rightarrow> list_heap \<Rightarrow> list_heap" where
  "list_replace_init old new h = INIT_LIST_HEAD old (list_replace old new h)"

definition list_del_init :: "addr \<Rightarrow> list_heap \<Rightarrow> list_heap" where
  "list_del_init entry h = INIT_LIST_HEAD entry (list_del_entry_raw entry h)"

definition list_move :: "addr \<Rightarrow> addr \<Rightarrow> list_heap \<Rightarrow> list_heap" where
  "list_move list head h = list_add list head (list_del_entry_raw list h)"

definition list_move_tail :: "addr \<Rightarrow> addr \<Rightarrow> list_heap \<Rightarrow> list_heap" where
  "list_move_tail list head h = list_add_tail list head (list_del_entry_raw list h)"

definition list_is_last :: "addr \<Rightarrow> addr \<Rightarrow> list_heap \<Rightarrow> bool" where
  "list_is_last list head h = (next_ptr (h list) = head)"

definition list_empty :: "addr \<Rightarrow> list_heap \<Rightarrow> bool" where
  "list_empty head h = (next_ptr (h head) = head)"

definition list_empty_careful :: "addr \<Rightarrow> list_heap \<Rightarrow> bool" where
  "list_empty_careful head h =
     (let nxt = next_ptr (h head) in nxt = head \<and> nxt = prev_ptr (h head))"

definition list_rotate_left :: "addr \<Rightarrow> list_heap \<Rightarrow> list_heap" where
  "list_rotate_left head h =
     (if \<not> list_empty head h then list_move_tail (next_ptr (h head)) head h else h)"

definition list_is_singular :: "addr \<Rightarrow> list_heap \<Rightarrow> bool" where
  "list_is_singular head h =
     (\<not> list_empty head h \<and> next_ptr (h head) = prev_ptr (h head))"

definition list_cut_position_raw :: "addr \<Rightarrow> addr \<Rightarrow> addr \<Rightarrow> list_heap \<Rightarrow> list_heap" where
  "list_cut_position_raw list head entry h =
     (let new_first = next_ptr (h entry);
          h1 = set_next list (next_ptr (h head)) h;
          h2 = set_prev (next_ptr (h1 list)) list h1;
          h3 = set_prev list entry h2;
          h4 = set_next entry list h3;
          h5 = set_next head new_first h4
      in set_prev new_first head h5)"

definition list_cut_position :: "addr \<Rightarrow> addr \<Rightarrow> addr \<Rightarrow> list_heap \<Rightarrow> list_heap" where
  "list_cut_position list head entry h =
     (if list_empty head h then h
      else if list_is_singular head h \<and> next_ptr (h head) \<noteq> entry \<and> head \<noteq> entry then h
      else if entry = head then INIT_LIST_HEAD list h
      else list_cut_position_raw list head entry h)"

definition list_splice_raw :: "addr \<Rightarrow> addr \<Rightarrow> addr \<Rightarrow> list_heap \<Rightarrow> list_heap" where
  "list_splice_raw list prv nxt h =
     (let first = next_ptr (h list);
          last = prev_ptr (h list);
          h1 = set_prev first prv h;
          h2 = set_next prv first h1;
          h3 = set_next last nxt h2
      in set_prev nxt last h3)"

definition list_splice :: "addr \<Rightarrow> addr \<Rightarrow> list_heap \<Rightarrow> list_heap" where
  "list_splice list head h =
     (if \<not> list_empty list h then list_splice_raw list head (next_ptr (h head)) h else h)"

definition list_splice_tail :: "addr \<Rightarrow> addr \<Rightarrow> list_heap \<Rightarrow> list_heap" where
  "list_splice_tail list head h =
     (if \<not> list_empty list h then list_splice_raw list (prev_ptr (h head)) head h else h)"

definition list_splice_init :: "addr \<Rightarrow> addr \<Rightarrow> list_heap \<Rightarrow> list_heap" where
  "list_splice_init list head h =
     (if \<not> list_empty list h
      then INIT_LIST_HEAD list (list_splice_raw list head (next_ptr (h head)) h) else h)"

definition list_splice_tail_init :: "addr \<Rightarrow> addr \<Rightarrow> list_heap \<Rightarrow> list_heap" where
  "list_splice_tail_init list head h =
     (if \<not> list_empty list h
      then INIT_LIST_HEAD list (list_splice_raw list (prev_ptr (h head)) head h) else h)"

subsection \<open>The abstraction\<close>

fun chain :: "list_heap \<Rightarrow> addr list \<Rightarrow> bool" where
  "chain h (a # b # r) = (next_ptr (h a) = b \<and> prev_ptr (h b) = a \<and> chain h (b # r))"
| "chain h _ = True"

definition dlist :: "list_heap \<Rightarrow> addr \<Rightarrow> addr list \<Rightarrow> bool" where
  "dlist h head xs \<longleftrightarrow> distinct (head # xs) \<and> chain h (head # xs @ [head])"

lemma chain_append:
  "xs \<noteq> [] \<Longrightarrow> ys \<noteq> [] \<Longrightarrow>
     chain h (xs @ ys) \<longleftrightarrow>
       chain h xs \<and> next_ptr (h (last xs)) = hd ys \<and> prev_ptr (h (hd ys)) = last xs \<and> chain h ys"
proof (induction xs)
  case Nil
  then show ?case by simp
next
  case (Cons x xs)
  then show ?case by (cases xs; cases ys) auto
qed

lemma chain_middle:
  assumes "xs \<noteq> []" "ys \<noteq> []"
  shows "chain h (xs @ [e] @ ys) \<longleftrightarrow>
    chain h xs \<and> next_ptr (h (last xs)) = e \<and> prev_ptr (h e) = last xs
    \<and> next_ptr (h e) = hd ys \<and> prev_ptr (h (hd ys)) = e \<and> chain h ys"
  using assms chain_append [of xs "[e] @ ys" h] chain_append [of "[e]" ys h] by auto

lemma chain_segments:
  assumes "xs \<noteq> []" "ys \<noteq> []" "zs \<noteq> []"
  shows "chain h (xs @ ys @ zs) \<longleftrightarrow>
    chain h xs \<and> chain h ys \<and> chain h zs
    \<and> next_ptr (h (last xs)) = hd ys \<and> prev_ptr (h (hd ys)) = last xs
    \<and> next_ptr (h (last ys)) = hd zs \<and> prev_ptr (h (hd zs)) = last ys"
  using assms chain_append [of xs "ys @ zs" h] chain_append [of ys zs h] by auto

text \<open>A chain depends on the \<^verbatim>\<open>next\<close> fields of all nodes but the last and on the
  \<^verbatim>\<open>prev\<close> fields of all nodes but the first.\<close>

lemma chain_cong:
  assumes "\<And>x. x \<in> set (butlast xs) \<Longrightarrow> next_ptr (h' x) = next_ptr (h x)"
    and "\<And>x. x \<in> set (tl xs) \<Longrightarrow> prev_ptr (h' x) = prev_ptr (h x)"
  shows "chain h' xs = chain h xs"
  using assms by (induction h xs rule: chain.induct) auto

lemma chain_frame:
  assumes "chain h xs"
    and "\<And>x. x \<in> set (butlast xs) \<Longrightarrow> next_ptr (h' x) = next_ptr (h x)"
    and "\<And>x. x \<in> set (tl xs) \<Longrightarrow> prev_ptr (h' x) = prev_ptr (h x)"
  shows "chain h' xs"
  using assms chain_cong [of xs h' h] by blast

lemma dlist_cong:
  assumes "\<And>x. x \<in> set (head # xs) \<Longrightarrow> h' x = h x"
  shows "dlist h' head xs = dlist h head xs"
proof -
  have "chain h' (head # xs @ [head]) = chain h (head # xs @ [head])"
    by (rule chain_cong) (use assms in \<open>auto dest: in_set_butlastD\<close>)
  then show ?thesis by (simp add: dlist_def)
qed

lemma dlist_frame:
  "dlist h head xs \<Longrightarrow> (\<And>x. x \<in> set (head # xs) \<Longrightarrow> h' x = h x) \<Longrightarrow> dlist h' head xs"
  using dlist_cong by blast

lemma dlist_split:
  "dlist h head (ys @ zs) \<longleftrightarrow>
     distinct (head # ys @ zs) \<and> chain h (head # ys) \<and> chain h (zs @ [head])
     \<and> next_ptr (h (last (head # ys))) = hd (zs @ [head])
     \<and> prev_ptr (h (hd (zs @ [head]))) = last (head # ys)"
  using chain_append [of "head # ys" "zs @ [head]" h] by (auto simp: dlist_def)

lemma dlist_Nil: "dlist h head [] \<longleftrightarrow> next_ptr (h head) = head \<and> prev_ptr (h head) = head"
  by (auto simp: dlist_def)

lemma dlist_head_links:
  assumes "dlist h head xs"
  shows "next_ptr (h head) = hd (xs @ [head])" "prev_ptr (h head) = last (head # xs)"
proof -
  from assms dlist_split [of h head "[]" xs] show "next_ptr (h head) = hd (xs @ [head])"
    by simp
  from assms dlist_split [of h head xs "[]"] show "prev_ptr (h head) = last (head # xs)"
    by simp
qed

lemma dlist_entry_links:
  assumes "dlist h head (ys @ e # zs)"
  shows "next_ptr (h e) = hd (zs @ [head])" "prev_ptr (h e) = last (head # ys)"
proof -
  from assms dlist_split [of h head "ys @ [e]" zs] show "next_ptr (h e) = hd (zs @ [head])"
    by simp
  from assms dlist_split [of h head ys "e # zs"] show "prev_ptr (h e) = last (head # ys)"
    by simp
qed

text \<open>Two neighbouring segments joined by new links: the common core of insertion, removal and
  splicing.  The old heap links the two segments internally; the new heap agrees with it on
  every pointer inside a segment.\<close>

lemma dlist_join:
  assumes chains: "chain h (head # ys)" "chain h (zs @ [head])"
    and dist: "distinct (head # ys @ zs)"
    and link: "next_ptr (h' (last (head # ys))) = hd (zs @ [head])"
      "prev_ptr (h' (hd (zs @ [head]))) = last (head # ys)"
    and left: "\<And>x. x \<in> set (butlast (head # ys)) \<Longrightarrow> next_ptr (h' x) = next_ptr (h x)"
      "\<And>x. x \<in> set ys \<Longrightarrow> prev_ptr (h' x) = prev_ptr (h x)"
    and right: "\<And>x. x \<in> set zs \<Longrightarrow> next_ptr (h' x) = next_ptr (h x)"
      "\<And>x. x \<in> set (tl (zs @ [head])) \<Longrightarrow> prev_ptr (h' x) = prev_ptr (h x)"
  shows "dlist h' head (ys @ zs)"
proof -
  have "chain h' (head # ys)"
    using chains(1) chain_cong [of "head # ys" h' h] left by auto
  moreover have "chain h' (zs @ [head])"
    using chains(2) chain_cong [of "zs @ [head]" h' h] right by auto
  ultimately show ?thesis
    using dist link unfolding dlist_split by simp
qed

lemma last_head_notin_butlast: "distinct (a # ys) \<Longrightarrow> last (a # ys) \<notin> set (butlast (a # ys))"
  by (metis append_butlast_last_id distinct_split_unique(1) list.distinct(1))

lemma hd_tail_notin_tl: "distinct (a # zs) \<Longrightarrow> hd (zs @ [a]) \<notin> set (tl (zs @ [a]))"
  by (cases zs) auto

lemma ends_cases:
  "last (a # ys) \<in> set (a # ys)" "hd (zs @ [a]) \<in> set (zs @ [a])"
  by (auto simp: hd_append)

text \<open>Insertion between any two neighbours of a list.\<close>

lemma dlist_insert:
  assumes d: "dlist h head (ys @ zs)" and new: "new \<notin> set (head # ys @ zs)"
  shows "dlist (list_add_raw new (last (head # ys)) (hd (zs @ [head])) h) head (ys @ new # zs)"
    (is "dlist ?h' head _")
proof -
  let ?p = "last (head # ys)" and ?n = "hd (zs @ [head])"
  from d have dist: "distinct (head # ys @ zs)"
    and cl: "chain h (head # ys)" and cr: "chain h (zs @ [head])"
    unfolding dlist_split by auto
  have p: "?p \<notin> set (butlast (head # ys))" "?p \<notin> set zs" "?p \<noteq> new"
    using dist new last_head_notin_butlast [of head ys] ends_cases(1) [of head ys] by auto
  have n: "?n \<notin> set ys" "?n \<notin> set (tl (zs @ [head]))" "?n \<noteq> new"
    using dist new hd_tail_notin_tl [of head zs] ends_cases(2) [of zs head] by auto
  have "chain ?h' (head # ys)"
    using cl new p n by (subst chain_cong [where h = h]) (auto simp: list_add_raw_def dest: in_set_butlastD)
  moreover have "chain ?h' (zs @ [head])"
  proof (subst chain_cong [where h = h])
    fix x assume "x \<in> set (tl (zs @ [head]))"
    then have "x \<in> set (zs @ [head])" by (cases zs) auto
    with \<open>x \<in> set (tl (zs @ [head]))\<close> show "prev_ptr (?h' x) = prev_ptr (h x)"
      using new n by (auto simp: list_add_raw_def)
  qed (use cr new p in \<open>auto simp: list_add_raw_def\<close>)
  moreover have "next_ptr (?h' ?p) = new" "prev_ptr (?h' new) = ?p"
    "next_ptr (?h' new) = ?n" "prev_ptr (?h' ?n) = new"
    using p n unfolding list_add_raw_def by auto
  ultimately have "chain ?h' ((head # ys) @ [new] @ (zs @ [head]))"
    by (subst chain_middle) (simp_all del: append_Cons last.simps)
  then show ?thesis
    using dist new by (simp add: dlist_def)
qed

text \<open>Removal of the node between two neighbours.\<close>

lemma dlist_remove:
  assumes d: "dlist h head (ys @ e # zs)"
  shows "dlist (list_del_raw (last (head # ys)) (hd (zs @ [head])) h) head (ys @ zs)"
proof (rule dlist_join [where h = h])
  let ?p = "last (head # ys)" and ?n = "hd (zs @ [head])"
  from d have dist: "distinct (head # ys @ e # zs)" by (simp add: dlist_def)
  from d show "chain h (head # ys)" unfolding dlist_split by simp
  from d dlist_split [of h head "ys @ [e]" zs] show "chain h (zs @ [head])" by simp
  from dist show "distinct (head # ys @ zs)" by auto
  have p: "?p \<notin> set (butlast (head # ys))" "?p \<notin> set zs"
    using dist last_head_notin_butlast [of head ys] ends_cases(1) [of head ys] by auto
  have n: "?n \<notin> set ys" "?n \<notin> set (tl (zs @ [head]))"
    using dist hd_tail_notin_tl [of head zs] ends_cases(2) [of zs head] by auto
  show "\<And>x. x \<in> set (butlast (head # ys)) \<Longrightarrow>
      next_ptr (list_del_raw ?p ?n h x) = next_ptr (h x)"
    using p by (auto simp: list_del_raw_def)
  show "\<And>x. x \<in> set ys \<Longrightarrow> prev_ptr (list_del_raw ?p ?n h x) = prev_ptr (h x)"
    using n by (auto simp: list_del_raw_def)
  show "\<And>x. x \<in> set zs \<Longrightarrow> next_ptr (list_del_raw ?p ?n h x) = next_ptr (h x)"
    using p by (auto simp: list_del_raw_def)
  show "\<And>x. x \<in> set (tl (zs @ [head])) \<Longrightarrow> prev_ptr (list_del_raw ?p ?n h x) = prev_ptr (h x)"
    using n by (auto simp: list_del_raw_def)
qed (simp_all add: list_del_raw_def)

lemma dlist_entry_remove:
  assumes "dlist h head (ys @ e # zs)"
  shows "dlist (list_del_entry_raw e h) head (ys @ zs)"
  using dlist_remove [OF assms] dlist_entry_links [OF assms] by (simp add: list_del_entry_raw_def)

text \<open>Nodes an operation does not name keep their pointers.\<close>

lemma list_add_raw_frame: "x \<notin> {new, prv, nxt} \<Longrightarrow> list_add_raw new prv nxt h x = h x"
  by (simp add: list_add_raw_def set_next_def set_prev_def)

lemma list_del_raw_frame: "x \<notin> {prv, nxt} \<Longrightarrow> list_del_raw prv nxt h x = h x"
  by (simp add: list_del_raw_def set_next_def set_prev_def)

lemma INIT_LIST_HEAD_frame: "x \<noteq> list \<Longrightarrow> INIT_LIST_HEAD list h x = h x"
  by (simp add: INIT_LIST_HEAD_def set_next_def set_prev_def)

lemma INIT_LIST_HEAD_dlist: "dlist (INIT_LIST_HEAD list h) list []"
  by (simp add: dlist_Nil INIT_LIST_HEAD_def)

lemma dlist_INIT_other:
  "dlist h head xs \<Longrightarrow> e \<notin> set (head # xs) \<Longrightarrow> dlist (INIT_LIST_HEAD e h) head xs"
  by (erule dlist_frame) (metis INIT_LIST_HEAD_frame)

lemma dlist_memE:
  assumes "dlist h head xs" "e \<in> set xs"
  obtains ys zs where "xs = ys @ e # zs" "remove1 e xs = ys @ zs" "e \<notin> set (head # ys @ zs)"
proof -
  from assms(2) obtain ys zs where xs: "xs = ys @ e # zs" and "e \<notin> set ys"
    by (meson split_list_first)
  moreover from xs assms(1) have "e \<notin> set (head # ys @ zs)" by (auto simp: dlist_def)
  ultimately show ?thesis using that by simp
qed

subsection \<open>What each operation does to the lists\<close>

lemma list_add_dlist:
  assumes "dlist h head xs" "new \<notin> set (head # xs)"
  shows "dlist (list_add new head h) head (new # xs)"
  using dlist_insert [of h head "[]" xs new] dlist_head_links [OF assms(1)] assms
  by (simp add: list_add_def)

lemma list_add_tail_dlist:
  assumes "dlist h head xs" "new \<notin> set (head # xs)"
  shows "dlist (list_add_tail new head h) head (xs @ [new])"
  using dlist_insert [of h head xs "[]" new] dlist_head_links [OF assms(1)] assms
  by (simp add: list_add_tail_def)

lemma list_del_entry_raw_frame:
  assumes "dlist h head xs" "e \<in> set xs" "x \<notin> set (head # xs)"
  shows "list_del_entry_raw e h x = h x"
proof -
  from assms(1,2) obtain ys zs where xs: "xs = ys @ e # zs" by (elim dlist_memE)
  with assms(1) have d: "dlist h head (ys @ e # zs)" by simp
  have "prev_ptr (h e) \<in> set (head # xs)" "next_ptr (h e) \<in> set (head # xs)"
    using ends_cases(1) [of head ys] ends_cases(2) [of zs head]
    unfolding dlist_entry_links [OF d] xs by auto
  with assms(3) show ?thesis
    unfolding list_del_entry_raw_def by (subst list_del_raw_frame) auto
qed

lemma list_del_entry_raw_dlist:
  assumes "dlist h head xs" "e \<in> set xs"
  shows "dlist (list_del_entry_raw e h) head (remove1 e xs)"
  using dlist_memE [OF assms] assms(1) dlist_entry_remove by metis

lemma list_del_dlist:
  assumes "dlist h head xs" "e \<in> set xs"
  shows "dlist (list_del e h) head (remove1 e xs)"
    "next_ptr (list_del e h e) = NULL" "prev_ptr (list_del e h e) = NULL"
proof -
  have eq: "list_del e h = set_prev e NULL (set_next e NULL (list_del_entry_raw e h))"
    by (simp add: list_del_def list_del_entry_raw_def)
  from assms have nin: "e \<notin> set (head # remove1 e xs)" by (auto simp: dlist_def)
  show "dlist (list_del e h) head (remove1 e xs)"
    using list_del_entry_raw_dlist [OF assms] nin
    by (subst dlist_cong [where h = "list_del_entry_raw e h"])
      (auto simp: eq set_prev_def set_next_def)
qed (simp_all add: list_del_def)

lemma list_del_init_dlist:
  assumes "dlist h head xs" "e \<in> set xs"
  shows "dlist (list_del_init e h) head (remove1 e xs)" "dlist (list_del_init e h) e []"
proof -
  from assms have "e \<notin> set (head # remove1 e xs)" by (auto simp: dlist_def)
  then show "dlist (list_del_init e h) head (remove1 e xs)"
    using list_del_entry_raw_dlist [OF assms] by (simp add: list_del_init_def dlist_INIT_other)
qed (simp add: list_del_init_def INIT_LIST_HEAD_dlist)

lemma list_del_init_frame:
  assumes "dlist h head xs" "e \<in> set xs" "x \<notin> set (head # xs)"
  shows "list_del_init e h x = h x"
  using list_del_entry_raw_frame [OF assms] assms(2,3)
  unfolding list_del_init_def by (subst INIT_LIST_HEAD_frame) auto

lemma list_add_tail_frame:
  assumes "dlist h head xs" "x \<notin> set (head # xs)" "x \<noteq> new"
  shows "list_add_tail new head h x = h x"
  using assms dlist_head_links [OF assms(1)] ends_cases(1) [of head xs]
  unfolding list_add_tail_def by (subst list_add_raw_frame) auto

lemma list_add_frame:
  assumes "dlist h head xs" "x \<notin> set (head # xs)" "x \<noteq> new"
  shows "list_add new head h x = h x"
  using assms dlist_head_links [OF assms(1)] ends_cases(2) [of xs head]
  unfolding list_add_def by (subst list_add_raw_frame) auto

lemma list_replace_as_insert:
  assumes "new \<notin> {old, next_ptr (h old), prev_ptr (h old)}"
    "old \<notin> {next_ptr (h old), prev_ptr (h old)}"
  shows "list_replace old new h =
    list_add_raw new (prev_ptr (h old)) (next_ptr (h old)) (list_del_entry_raw old h)"
  using assms
  by (auto simp: list_replace_def list_add_raw_def list_del_entry_raw_def list_del_raw_def
      set_next_def set_prev_def Let_def fun_eq_iff)

lemma list_replace_dlist:
  assumes d: "dlist h head (ys @ old # zs)" and new: "new \<notin> set (head # ys @ old # zs)"
  shows "dlist (list_replace old new h) head (ys @ new # zs)"
proof -
  have "old \<notin> set (head # ys @ zs)" using d by (auto simp: dlist_def)
  then have "list_replace old new h =
      list_add_raw new (last (head # ys)) (hd (zs @ [head])) (list_del_entry_raw old h)"
    using dlist_entry_links [OF d] new ends_cases(1) [of head ys] ends_cases(2) [of zs head]
    by (subst list_replace_as_insert) auto
  then show ?thesis
    using dlist_insert [OF dlist_entry_remove [OF d]] new by simp
qed

lemma list_replace_init_dlist:
  assumes d: "dlist h head (ys @ old # zs)" and new: "new \<notin> set (head # ys @ old # zs)"
  shows "dlist (list_replace_init old new h) head (ys @ new # zs)"
    "dlist (list_replace_init old new h) old []"
proof -
  have "old \<notin> set (head # ys @ new # zs)" using assms by (auto simp: dlist_def)
  then show "dlist (list_replace_init old new h) head (ys @ new # zs)"
    using list_replace_dlist [OF assms] by (simp add: list_replace_init_def dlist_INIT_other)
qed (simp add: list_replace_init_def INIT_LIST_HEAD_dlist)

lemma list_move_dlist:
  assumes "dlist h head1 xs" "e \<in> set xs" "dlist h head2 ys"
    and disj: "set (head1 # xs) \<inter> set (head2 # ys) = {}"
  shows "dlist (list_move e head2 h) head1 (remove1 e xs)"
    "dlist (list_move e head2 h) head2 (e # ys)"
proof -
  let ?h1 = "list_del_entry_raw e h"
  have d1: "dlist ?h1 head1 (remove1 e xs)"
    using assms(1,2) by (rule list_del_entry_raw_dlist)
  have d2: "dlist ?h1 head2 ys"
    using dlist_frame [OF assms(3), of ?h1] list_del_entry_raw_frame [OF assms(1,2)] disj by blast
  have e: "e \<notin> set (head2 # ys)" using assms(2) disj by auto
  show "dlist (list_move e head2 h) head2 (e # ys)"
    using list_add_dlist [OF d2 e] by (simp add: list_move_def)
  have out: "x \<notin> set (head2 # ys) \<and> x \<noteq> e" if "x \<in> set (head1 # remove1 e xs)" for x
    using that disj assms(1,2) by (auto simp: dlist_def)
  show "dlist (list_move e head2 h) head1 (remove1 e xs)"
    unfolding list_move_def
    by (rule dlist_frame [OF d1]) (use out list_add_frame [OF d2] in blast)
qed

lemma list_move_tail_same:
  assumes "dlist h head xs" "e \<in> set xs"
  shows "dlist (list_move_tail e head h) head (remove1 e xs @ [e])"
proof -
  have "e \<notin> set (head # remove1 e xs)" using assms by (auto simp: dlist_def)
  then show ?thesis
    using list_add_tail_dlist [OF list_del_entry_raw_dlist [OF assms]]
    by (simp add: list_move_tail_def)
qed

lemma list_empty_iff:
  assumes "dlist h head xs"
  shows "list_empty head h \<longleftrightarrow> xs = []"
  using dlist_head_links [OF assms] assms by (cases xs) (auto simp: list_empty_def dlist_def)

lemma list_empty_careful_iff:
  assumes "dlist h head xs"
  shows "list_empty_careful head h \<longleftrightarrow> xs = []"
  using dlist_head_links [OF assms] assms
  by (cases xs) (auto simp: list_empty_careful_def dlist_def Let_def)

lemma list_is_singular_iff:
  assumes "dlist h head xs"
  shows "list_is_singular head h \<longleftrightarrow> length xs = 1"
proof (cases xs rule: rev_cases)
  case Nil
  then show ?thesis using list_empty_iff [OF assms] by (simp add: list_is_singular_def)
next
  case (snoc ys y)
  then show ?thesis
    using list_empty_iff [OF assms] dlist_head_links [OF assms] assms
    by (cases ys) (auto simp: list_is_singular_def dlist_def)
qed

lemma list_is_last_iff:
  assumes "dlist h head xs" "e \<in> set xs"
  shows "list_is_last e head h \<longleftrightarrow> e = last xs"
proof -
  from assms obtain ys zs where xs: "xs = ys @ e # zs" and "e \<notin> set (head # ys @ zs)"
    by (elim dlist_memE)
  moreover from assms(1) xs have "next_ptr (h e) = hd (zs @ [head])"
    using dlist_entry_links by simp
  ultimately show ?thesis
    using assms(1) by (cases zs rule: rev_cases) (auto simp: list_is_last_def dlist_def hd_append)
qed

lemma list_rotate_left_dlist:
  assumes "dlist h head xs"
  shows "dlist (list_rotate_left head h) head (rotate1 xs)"
proof (cases xs)
  case Nil
  then show ?thesis using assms list_empty_iff [OF assms] by (simp add: list_rotate_left_def)
next
  case (Cons x ys)
  then show ?thesis
    using list_move_tail_same [OF assms, of x] list_empty_iff [OF assms] dlist_head_links [OF assms]
    by (simp add: list_rotate_left_def)
qed

text \<open>Splicing: the nodes of a second list go between two neighbours of the first.\<close>

lemma list_splice_raw_ptrs:
  assumes "dlist h list xs" "xs \<noteq> []"
  shows "next_ptr (list_splice_raw list p n h x) =
      (if x = last xs then n else if x = p then hd xs else next_ptr (h x))"
    "prev_ptr (list_splice_raw list p n h x) =
      (if x = n then last xs else if x = hd xs then p else prev_ptr (h x))"
  using dlist_head_links [OF assms(1)] assms(2) by (simp_all add: list_splice_raw_def Let_def)

lemma distinct_ends:
  assumes "distinct xs" "xs \<noteq> []"
  shows "hd xs \<notin> set (tl xs)" "last xs \<notin> set (butlast xs)"
proof -
  from assms show "hd xs \<notin> set (tl xs)" by (cases xs) auto
  from assms show "last xs \<notin> set (butlast xs)" by (cases xs rule: rev_cases) auto
qed

lemma dlist_inner_chain: "dlist h list xs \<Longrightarrow> chain h xs"
  using chain_append [of "[list]" "xs @ [list]" h] chain_append [of xs "[list]" h]
  by (cases "xs = []") (auto simp: dlist_def)

lemma list_splice_raw_chains:
  assumes dl: "dlist h list xs" and dh: "dlist h head (ys @ zs)" and ne: "xs \<noteq> []"
    and disj: "set (list # xs) \<inter> set (head # ys @ zs) = {}"
  defines "h' \<equiv> list_splice_raw list (last (head # ys)) (hd (zs @ [head])) h"
  shows "chain h' (head # ys)" "chain h' xs" "chain h' (zs @ [head])"
proof -
  note ptrs = list_splice_raw_ptrs [OF dl ne, of "last (head # ys)" "hd (zs @ [head])",
      folded h'_def]
  from dh have dist: "distinct (head # ys @ zs)" and cl: "chain h (head # ys)"
    and cr: "chain h (zs @ [head])" unfolding dlist_split by auto
  have dx: "distinct xs" using dl by (simp add: dlist_def)
  have p: "last (head # ys) \<notin> set (butlast (head # ys))" "last (head # ys) \<notin> set zs"
      "last (head # ys) \<notin> set xs"
    using dist disj last_head_notin_butlast [of head ys] ends_cases(1) [of head ys] by auto
  have n: "hd (zs @ [head]) \<notin> set ys" "hd (zs @ [head]) \<notin> set (tl (zs @ [head]))"
      "hd (zs @ [head]) \<notin> set xs"
    using dist disj hd_tail_notin_tl [of head zs] ends_cases(2) [of zs head] by auto
  note ends = hd_in_set [OF ne] last_in_set [OF ne] distinct_ends [OF dx ne]
  show "chain h' (head # ys)"
    by (rule chain_frame [OF cl]; unfold ptrs)
      (use p n ends disj in_set_butlastD [of _ "head # ys"] in fastforce)+
  show "chain h' xs"
    by (rule chain_frame [OF dlist_inner_chain [OF dl]]; unfold ptrs)
      (use p n ends in_set_butlastD [of _ xs] list.set_sel(2) [OF ne] in metis)+
  show "chain h' (zs @ [head])"
    by (rule chain_frame [OF cr]; unfold ptrs)
      (use p n ends disj list.set_sel(2) [of "zs @ [head]"] in fastforce)+
qed

lemma list_splice_raw_dlist:
  assumes dl: "dlist h list xs" and dh: "dlist h head (ys @ zs)" and ne: "xs \<noteq> []"
    and disj: "set (list # xs) \<inter> set (head # ys @ zs) = {}"
  shows "dlist (list_splice_raw list (last (head # ys)) (hd (zs @ [head])) h) head (ys @ xs @ zs)"
    (is "dlist ?h' head _")
proof -
  let ?p = "last (head # ys)" and ?n = "hd (zs @ [head])"
  have out: "?p \<notin> set xs" "?n \<notin> set xs"
    using disj ends_cases(1) [of head ys] ends_cases(2) [of zs head] by auto
  have "next_ptr (?h' ?p) = hd xs" "prev_ptr (?h' (hd xs)) = ?p"
    "next_ptr (?h' (last xs)) = ?n" "prev_ptr (?h' ?n) = last xs"
    using out hd_in_set [OF ne] last_in_set [OF ne] unfolding list_splice_raw_ptrs [OF dl ne] by auto
  then have "chain ?h' ((head # ys) @ xs @ (zs @ [head]))"
    using list_splice_raw_chains [OF assms] ne by (subst chain_segments) blast+
  then show ?thesis
    using dl dh disj by (auto simp: dlist_def)
qed

lemma list_splice_dlist:
  assumes "dlist h list xs" "dlist h head ys" "set (list # xs) \<inter> set (head # ys) = {}"
  shows "dlist (list_splice list head h) head (xs @ ys)"
proof (cases "xs = []")
  case True
  then show ?thesis using assms list_empty_iff [OF assms(1)] by (simp add: list_splice_def)
next
  case False
  then show ?thesis
    using list_splice_raw_dlist [of h list xs head "[]" ys] assms list_empty_iff [OF assms(1)]
      dlist_head_links [OF assms(2)] by (simp add: list_splice_def)
qed

lemma list_splice_tail_dlist:
  assumes "dlist h list xs" "dlist h head ys" "set (list # xs) \<inter> set (head # ys) = {}"
  shows "dlist (list_splice_tail list head h) head (ys @ xs)"
proof (cases "xs = []")
  case True
  then show ?thesis using assms list_empty_iff [OF assms(1)] by (simp add: list_splice_tail_def)
next
  case False
  then show ?thesis
    using list_splice_raw_dlist [of h list xs head ys "[]"] assms list_empty_iff [OF assms(1)]
      dlist_head_links [OF assms(2)] by (simp add: list_splice_tail_def)
qed

text \<open>The \<^verbatim>\<open>_init\<close> variants do the same and leave the emptied head a valid empty list.\<close>

lemma splice_init_eqs:
  "list_splice_init list head h =
     (if list_empty list h then h else INIT_LIST_HEAD list (list_splice list head h))"
  "list_splice_tail_init list head h =
     (if list_empty list h then h else INIT_LIST_HEAD list (list_splice_tail list head h))"
  by (simp_all add: list_splice_init_def list_splice_tail_init_def list_splice_def
      list_splice_tail_def)

lemma list_splice_init_dlist:
  assumes "dlist h list xs" "dlist h head ys" "set (list # xs) \<inter> set (head # ys) = {}"
  shows "dlist (list_splice_init list head h) head (xs @ ys)"
    "dlist (list_splice_init list head h) list []"
proof -
  have "list \<notin> set (head # xs @ ys)" using assms by (auto simp: dlist_def)
  then show "dlist (list_splice_init list head h) head (xs @ ys)"
    using list_splice_dlist [OF assms] assms list_empty_iff [OF assms(1)]
    by (auto simp: splice_init_eqs intro: dlist_INIT_other)
  show "dlist (list_splice_init list head h) list []"
    using assms(1) list_empty_iff [OF assms(1)]
    by (auto simp: splice_init_eqs INIT_LIST_HEAD_dlist)
qed

lemma list_splice_tail_init_dlist:
  assumes "dlist h list xs" "dlist h head ys" "set (list # xs) \<inter> set (head # ys) = {}"
  shows "dlist (list_splice_tail_init list head h) head (ys @ xs)"
    "dlist (list_splice_tail_init list head h) list []"
proof -
  have "list \<notin> set (head # ys @ xs)" using assms by (auto simp: dlist_def)
  then show "dlist (list_splice_tail_init list head h) head (ys @ xs)"
    using list_splice_tail_dlist [OF assms] assms list_empty_iff [OF assms(1)]
    by (auto simp: splice_init_eqs intro: dlist_INIT_other)
  show "dlist (list_splice_tail_init list head h) list []"
    using assms(1) list_empty_iff [OF assms(1)]
    by (auto simp: splice_init_eqs INIT_LIST_HEAD_dlist)
qed

text \<open>Cutting: the initial part up to and including \<open>entry\<close> moves to the list at \<open>list\<close>.\<close>

lemma list_cut_position_raw_ptrs:
  assumes "dlist h head (ys @ e # zs)" "list \<notin> set (head # ys @ e # zs)"
  shows "next_ptr (list_cut_position_raw list head e h x) =
      (if x = head then hd (zs @ [head]) else if x = e then list
       else if x = list then hd (ys @ [e]) else next_ptr (h x))"
    "prev_ptr (list_cut_position_raw list head e h x) =
      (if x = hd (zs @ [head]) then head else if x = list then e
       else if x = hd (ys @ [e]) then list else prev_ptr (h x))"
proof -
  have "next_ptr (h head) = hd (ys @ [e])" "next_ptr (h e) = hd (zs @ [head])"
    using dlist_head_links(1) [OF assms(1)] dlist_entry_links(1) [OF assms(1)]
    by (cases ys; simp)+
  moreover have "e \<noteq> head" "list \<noteq> head" "list \<noteq> e" using assms by (auto simp: dlist_def)
  ultimately show "next_ptr (list_cut_position_raw list head e h x) =
      (if x = head then hd (zs @ [head]) else if x = e then list
       else if x = list then hd (ys @ [e]) else next_ptr (h x))"
    "prev_ptr (list_cut_position_raw list head e h x) =
      (if x = hd (zs @ [head]) then head else if x = list then e
       else if x = hd (ys @ [e]) then list else prev_ptr (h x))"
    by (simp_all add: list_cut_position_raw_def Let_def)
qed

lemma list_cut_position_raw_dlist:
  assumes d: "dlist h head (ys @ e # zs)" and l: "list \<notin> set (head # ys @ e # zs)"
  shows "dlist (list_cut_position_raw list head e h) list (ys @ [e])" (is "dlist ?h' _ _")
    "dlist (list_cut_position_raw list head e h) head zs"
proof -
  note ptrs = list_cut_position_raw_ptrs [OF d l]
  from d have dist: "distinct (head # ys @ e # zs)" by (simp add: dlist_def)
  from d dlist_split [of h head "ys @ [e]" zs] have cz: "chain h (zs @ [head])"
    and ch: "chain h (head # ys @ [e])" by simp_all
  from ch have cy: "chain h (ys @ [e])"
    using chain_append [of "[head]" "ys @ [e]" h] by simp
  have n: "hd (zs @ [head]) \<in> set (zs @ [head])" "hd (zs @ [head]) \<notin> set (tl (zs @ [head]))"
    using dist hd_tail_notin_tl [of head zs] ends_cases(2) [of zs head] by auto
  have f: "hd (ys @ [e]) \<in> set (ys @ [e])" "hd (ys @ [e]) \<notin> set (tl (ys @ [e]))"
    using dist distinct_ends(1) [of "ys @ [e]"] by (auto simp: hd_append)
  have "chain ?h' (ys @ [e])"
    by (rule chain_frame [OF cy]; unfold ptrs)
      (use dist l n f list.set_sel(2) [of "ys @ [e]"] in fastforce)+
  moreover have "next_ptr (?h' list) = hd (ys @ [e])" "prev_ptr (?h' (hd (ys @ [e]))) = list"
      "next_ptr (?h' e) = list" "prev_ptr (?h' list) = e"
    using dist l n(1) f(1) unfolding ptrs by auto
  ultimately have "chain ?h' ([list] @ (ys @ [e]) @ [list])"
    by (subst chain_segments) simp_all
  then show "dlist ?h' list (ys @ [e])" using dist l by (auto simp: dlist_def)
  have "chain ?h' (zs @ [head])"
    by (rule chain_frame [OF cz]; unfold ptrs)
      (use dist l n f list.set_sel(2) [of "zs @ [head]"] in fastforce)+
  moreover have "next_ptr (?h' head) = hd (zs @ [head])" "prev_ptr (?h' (hd (zs @ [head]))) = head"
    unfolding ptrs by auto
  ultimately have "chain ?h' ([head] @ (zs @ [head]))"
    by (subst chain_append) simp_all
  then show "dlist ?h' head zs" using dist by (auto simp: dlist_def)
qed

lemma list_cut_position_dlist:
  assumes d: "dlist h head (ys @ e # zs)" and l: "list \<notin> set (head # ys @ e # zs)"
  shows "dlist (list_cut_position list head e h) list (ys @ [e])"
    "dlist (list_cut_position list head e h) head zs"
proof -
  have "e \<noteq> head" using d by (auto simp: dlist_def)
  moreover have "next_ptr (h head) = e" if "list_is_singular head h"
    using that list_is_singular_iff [OF d] dlist_head_links(1) [OF d] by (cases ys) auto
  moreover have "\<not> list_empty head h" using list_empty_iff [OF d] by simp
  ultimately have "list_cut_position list head e h = list_cut_position_raw list head e h"
    by (auto simp: list_cut_position_def)
  then show "dlist (list_cut_position list head e h) list (ys @ [e])"
    "dlist (list_cut_position list head e h) head zs"
    using list_cut_position_raw_dlist [OF d l] by simp_all
qed

subsection \<open>The iteration macros\<close>

text \<open>
  \<^verbatim>\<open>list_entry\<close> (\<^verbatim>\<open>container_of\<close>) maps the address of the embedded node to the address of
  the structure that contains it, \<open>off\<close> bytes below.  A loop's state carries the heap of nodes,
  read by the projection \<open>hp\<close>.
\<close>

definition list_entry :: "nat \<Rightarrow> addr \<Rightarrow> addr" where
  "list_entry off ptr = ptr - off"

definition list_first_entry :: "nat \<Rightarrow> addr \<Rightarrow> list_heap \<Rightarrow> addr" where
  "list_first_entry off ptr h = list_entry off (next_ptr (h ptr))"

definition list_last_entry :: "nat \<Rightarrow> addr \<Rightarrow> list_heap \<Rightarrow> addr" where
  "list_last_entry off ptr h = list_entry off (prev_ptr (h ptr))"

definition list_first_entry_or_null :: "nat \<Rightarrow> addr \<Rightarrow> list_heap \<Rightarrow> addr" where
  "list_first_entry_or_null off ptr h =
     (if \<not> list_empty ptr h then list_first_entry off ptr h else NULL)"

definition list_next_entry :: "nat \<Rightarrow> addr \<Rightarrow> list_heap \<Rightarrow> addr" where
  "list_next_entry off pos h = list_entry off (next_ptr (h (pos + off)))"

definition list_prev_entry :: "nat \<Rightarrow> addr \<Rightarrow> list_heap \<Rightarrow> addr" where
  "list_prev_entry off pos h = list_entry off (prev_ptr (h (pos + off)))"

definition list_for_each ::
  "('s \<Rightarrow> list_heap) \<Rightarrow> (addr \<Rightarrow> 's \<Rightarrow> 's flow) \<Rightarrow> addr \<Rightarrow> 's \<Rightarrow> 's flow option" where
  "list_for_each hp body head s =
     walk (\<lambda>s p. next_ptr (hp s p)) body head (next_ptr (hp s head)) s"

definition list_for_each_prev ::
  "('s \<Rightarrow> list_heap) \<Rightarrow> (addr \<Rightarrow> 's \<Rightarrow> 's flow) \<Rightarrow> addr \<Rightarrow> 's \<Rightarrow> 's flow option" where
  "list_for_each_prev hp body head s =
     walk (\<lambda>s p. prev_ptr (hp s p)) body head (prev_ptr (hp s head)) s"

definition list_for_each_safe ::
  "('s \<Rightarrow> list_heap) \<Rightarrow> (addr \<Rightarrow> 's \<Rightarrow> 's flow) \<Rightarrow> addr \<Rightarrow> 's \<Rightarrow> 's flow option" where
  "list_for_each_safe hp body head s =
     (let pos = next_ptr (hp s head); n = next_ptr (hp s pos)
      in walk_safe (\<lambda>s p. next_ptr (hp s p)) body head pos n s)"

definition list_for_each_prev_safe ::
  "('s \<Rightarrow> list_heap) \<Rightarrow> (addr \<Rightarrow> 's \<Rightarrow> 's flow) \<Rightarrow> addr \<Rightarrow> 's \<Rightarrow> 's flow option" where
  "list_for_each_prev_safe hp body head s =
     (let pos = prev_ptr (hp s head); n = prev_ptr (hp s pos)
      in walk_safe (\<lambda>s p. prev_ptr (hp s p)) body head pos n s)"

text \<open>The \<^verbatim>\<open>_entry\<close> variants run the body on the containing structure.  The cursor is kept as the
  address of the embedded node, \<^verbatim>\<open>&pos->member\<close>, which is what the loop condition compares.\<close>

definition list_for_each_entry ::
  "nat \<Rightarrow> ('s \<Rightarrow> list_heap) \<Rightarrow> (addr \<Rightarrow> 's \<Rightarrow> 's flow) \<Rightarrow> addr \<Rightarrow> 's \<Rightarrow> 's flow option" where
  "list_for_each_entry off hp body head s = list_for_each hp (\<lambda>p. body (list_entry off p)) head s"

definition list_for_each_entry_reverse ::
  "nat \<Rightarrow> ('s \<Rightarrow> list_heap) \<Rightarrow> (addr \<Rightarrow> 's \<Rightarrow> 's flow) \<Rightarrow> addr \<Rightarrow> 's \<Rightarrow> 's flow option" where
  "list_for_each_entry_reverse off hp body head s =
     list_for_each_prev hp (\<lambda>p. body (list_entry off p)) head s"

definition list_for_each_entry_continue ::
  "nat \<Rightarrow> ('s \<Rightarrow> list_heap) \<Rightarrow> (addr \<Rightarrow> 's \<Rightarrow> 's flow) \<Rightarrow> addr \<Rightarrow> addr \<Rightarrow> 's \<Rightarrow> 's flow option" where
  "list_for_each_entry_continue off hp body head pos s =
     walk (\<lambda>s p. next_ptr (hp s p)) (\<lambda>p. body (list_entry off p)) head
       (next_ptr (hp s (pos + off))) s"

definition list_for_each_entry_from ::
  "nat \<Rightarrow> ('s \<Rightarrow> list_heap) \<Rightarrow> (addr \<Rightarrow> 's \<Rightarrow> 's flow) \<Rightarrow> addr \<Rightarrow> addr \<Rightarrow> 's \<Rightarrow> 's flow option" where
  "list_for_each_entry_from off hp body head pos s =
     walk (\<lambda>s p. next_ptr (hp s p)) (\<lambda>p. body (list_entry off p)) head (pos + off) s"

definition list_for_each_entry_safe ::
  "nat \<Rightarrow> ('s \<Rightarrow> list_heap) \<Rightarrow> (addr \<Rightarrow> 's \<Rightarrow> 's flow) \<Rightarrow> addr \<Rightarrow> 's \<Rightarrow> 's flow option" where
  "list_for_each_entry_safe off hp body head s =
     list_for_each_safe hp (\<lambda>p. body (list_entry off p)) head s"

definition list_for_each_entry_safe_reverse ::
  "nat \<Rightarrow> ('s \<Rightarrow> list_heap) \<Rightarrow> (addr \<Rightarrow> 's \<Rightarrow> 's flow) \<Rightarrow> addr \<Rightarrow> 's \<Rightarrow> 's flow option" where
  "list_for_each_entry_safe_reverse off hp body head s =
     list_for_each_prev_safe hp (\<lambda>p. body (list_entry off p)) head s"

definition list_prepare_entry :: "nat \<Rightarrow> addr \<Rightarrow> addr \<Rightarrow> addr" where
  "list_prepare_entry off pos head = (if pos \<noteq> NULL then pos else list_entry off head)"

definition list_for_each_entry_continue_reverse ::
  "nat \<Rightarrow> ('s \<Rightarrow> list_heap) \<Rightarrow> (addr \<Rightarrow> 's \<Rightarrow> 's flow) \<Rightarrow> addr \<Rightarrow> addr \<Rightarrow> 's \<Rightarrow> 's flow option" where
  "list_for_each_entry_continue_reverse off hp body head pos s =
     walk (\<lambda>s p. prev_ptr (hp s p)) (\<lambda>p. body (list_entry off p)) head
       (prev_ptr (hp s (pos + off))) s"

definition list_for_each_entry_safe_continue ::
  "nat \<Rightarrow> ('s \<Rightarrow> list_heap) \<Rightarrow> (addr \<Rightarrow> 's \<Rightarrow> 's flow) \<Rightarrow> addr \<Rightarrow> addr \<Rightarrow> 's \<Rightarrow> 's flow option" where
  "list_for_each_entry_safe_continue off hp body head pos s =
     (let p = next_ptr (hp s (pos + off))
      in walk_safe (\<lambda>s p. next_ptr (hp s p)) (\<lambda>p. body (list_entry off p)) head p (next_ptr (hp s p)) s)"

definition list_for_each_entry_safe_from ::
  "nat \<Rightarrow> ('s \<Rightarrow> list_heap) \<Rightarrow> (addr \<Rightarrow> 's \<Rightarrow> 's flow) \<Rightarrow> addr \<Rightarrow> addr \<Rightarrow> 's \<Rightarrow> 's flow option" where
  "list_for_each_entry_safe_from off hp body head pos s =
     walk_safe (\<lambda>s p. next_ptr (hp s p)) (\<lambda>p. body (list_entry off p)) head (pos + off)
       (next_ptr (hp s (pos + off))) s"

definition list_safe_reset_next :: "nat \<Rightarrow> addr \<Rightarrow> list_heap \<Rightarrow> addr" where
  "list_safe_reset_next off pos h = list_next_entry off pos h"

text \<open>A body that leaves the links alone visits the entries in order, and the loop ends.\<close>

locale quiet_body =
  fixes hp :: "'s \<Rightarrow> list_heap" and body :: "addr \<Rightarrow> 's \<Rightarrow> 's flow"
  assumes quiet: "hp (flow_state (body p s)) = hp s"
begin

lemma quiet_Go: "body p s = Go s' \<Longrightarrow> hp s' = hp s"
  using quiet [of p s] by simp

lemma walk_forward:
  "dlist (hp s) head (ys @ zs) \<Longrightarrow>
     walk (\<lambda>s p. next_ptr (hp s p)) body head (hd (zs @ [head])) s = Some (run_body body zs s)"
proof (induction zs arbitrary: ys s)
  case Nil
  then show ?case by (simp add: walk.simps)
next
  case (Cons z zs)
  then have "z \<noteq> head" by (auto simp: dlist_def)
  moreover have "walk (\<lambda>s p. next_ptr (hp s p)) body head (next_ptr (hp s' z)) s'
      = Some (run_body body zs s')" if "body z s = Go s'" for s'
    using Cons.IH [of s' "ys @ [z]"] Cons.prems dlist_entry_links(1) [of "hp s" head ys z zs]
      quiet_Go [OF that] by simp
  ultimately show ?case by (subst walk.simps) (auto split: flow.splits)
qed

lemma walk_backward:
  "dlist (hp s) head (ys @ zs) \<Longrightarrow>
     walk (\<lambda>s p. prev_ptr (hp s p)) body head (last (head # ys)) s = Some (run_body body (rev ys) s)"
proof (induction ys arbitrary: zs s rule: rev_induct)
  case Nil
  then show ?case by (simp add: walk.simps)
next
  case (snoc y ys)
  then have "y \<noteq> head" by (auto simp: dlist_def)
  moreover have "walk (\<lambda>s p. prev_ptr (hp s p)) body head (prev_ptr (hp s' y)) s'
      = Some (run_body body (rev ys) s')" if "body y s = Go s'" for s'
    using snoc.IH [of s' "y # zs"] snoc.prems dlist_entry_links(2) [of "hp s" head ys y zs]
      quiet_Go [OF that] by simp
  ultimately show ?case by (subst walk.simps) (auto split: flow.splits)
qed

lemma for_each: "dlist (hp s) head xs \<Longrightarrow> list_for_each hp body head s = Some (run_body body xs s)"
  using walk_forward [of s head "[]" xs] dlist_head_links(1) [of "hp s" head xs]
  by (simp add: list_for_each_def)

lemma for_each_prev:
  "dlist (hp s) head xs \<Longrightarrow> list_for_each_prev hp body head s = Some (run_body body (rev xs) s)"
  using walk_backward [of s head xs "[]"] dlist_head_links(2) [of "hp s" head xs]
  by (simp add: list_for_each_prev_def)

lemma run_body_hp: "hp (flow_state (run_body body xs s)) = hp s"
proof (induction xs arbitrary: s)
  case (Cons p ps)
  show ?case
  proof (cases "body p s")
    case (Go s')
    then show ?thesis using Cons.IH [of s'] quiet_Go [OF Go] by simp
  next
    case (Leave s')
    then show ?thesis using quiet [of p s] by simp
  qed
qed simp

end

text \<open>A body that unlinks the entry it is given: the successor was fetched before, so the
  \<^verbatim>\<open>_safe\<close> loop still visits every entry, in order, and ends.\<close>

locale unlinking_body =
  fixes hp :: "'s \<Rightarrow> list_heap" and body :: "addr \<Rightarrow> 's \<Rightarrow> 's flow" and head :: addr
  assumes unlink: "dlist (hp s) head (p # ps) \<Longrightarrow> body p s = Go s' \<Longrightarrow> dlist (hp s') head ps"
begin

lemma walk_safe_all:
  "dlist (hp s) head zs \<Longrightarrow> (zs \<noteq> [] \<Longrightarrow> n = next_ptr (hp s (hd zs))) \<Longrightarrow>
     walk_safe (\<lambda>s p. next_ptr (hp s p)) body head (hd (zs @ [head])) n s
       = Some (run_body body zs s)"
proof (induction zs arbitrary: n s)
  case Nil
  then show ?case by (simp add: walk_safe.simps)
next
  case (Cons z zs)
  then have z: "z \<noteq> head" by (auto simp: dlist_def)
  have n: "n = hd (zs @ [head])"
    using Cons.prems dlist_entry_links(1) [of "hp s" head "[]" z zs] by simp
  have "walk_safe (\<lambda>s p. next_ptr (hp s p)) body head n (next_ptr (hp s' n)) s'
      = Some (run_body body zs s')" if "body z s = Go s'" for s'
    unfolding n using unlink [OF Cons.prems(1) that] by (intro Cons.IH) (simp_all add: hd_append)
  with z show ?case by (subst walk_safe.simps) (auto split: flow.splits)
qed

lemma for_each_safe:
  "dlist (hp s) head xs \<Longrightarrow> list_for_each_safe hp body head s = Some (run_body body xs s)"
  unfolding list_for_each_safe_def Let_def
  by (subst (1 2) dlist_head_links(1), assumption+, rule walk_safe_all)
    (auto simp: neq_Nil_conv)

end

subsection \<open>The interface the event list relies on\<close>

text \<open>What \<^verbatim>\<open>evlist.c\<close> uses of the list: an empty list, appending a fresh node, unlinking a
  member.  \<open>rep h head xs\<close> relates a heap and a head to the sequence of nodes.\<close>

locale node_list =
  fixes rep :: "'h \<Rightarrow> addr \<Rightarrow> addr list \<Rightarrow> bool"
    and init :: "addr \<Rightarrow> 'h \<Rightarrow> 'h"
    and add_tail :: "addr \<Rightarrow> addr \<Rightarrow> 'h \<Rightarrow> 'h"
    and del_init :: "addr \<Rightarrow> 'h \<Rightarrow> 'h"
  assumes rep_distinct: "rep h head xs \<Longrightarrow> distinct (head # xs)"
    and rep_init: "rep (init head h) head []"
    and rep_add_tail:
      "rep h head xs \<Longrightarrow> new \<notin> set (head # xs) \<Longrightarrow> rep (add_tail new head h) head (xs @ [new])"
    and rep_del_init: "rep h head xs \<Longrightarrow> e \<in> set xs \<Longrightarrow> rep (del_init e h) head (remove1 e xs)"
begin

lemma add_tail_all:
  "rep h head xs \<Longrightarrow> distinct (head # xs @ ns) \<Longrightarrow>
     rep (fold (\<lambda>n. add_tail n head) ns h) head (xs @ ns)"
proof (induction ns arbitrary: h xs)
  case (Cons n ns)
  then have "rep (add_tail n head h) head (xs @ [n])" by (intro rep_add_tail) auto
  from Cons.IH [OF this] Cons.prems(2) show ?case by simp
qed simp

lemma del_init_all: "rep h head xs \<Longrightarrow> rep (fold del_init xs h) head []"
proof (induction xs arbitrary: h)
  case (Cons x xs)
  then have "rep (del_init x h) head xs" using rep_del_init [of h head "x # xs" x] by simp
  from Cons.IH [OF this] show ?case by simp
qed simp

end

lemma dlist_distinct: "dlist h head xs \<Longrightarrow> distinct (head # xs)"
  by (simp add: dlist_def)

interpretation lh: node_list dlist INIT_LIST_HEAD list_add_tail list_del_init
  by unfold_locales
    (fact dlist_distinct INIT_LIST_HEAD_dlist list_add_tail_dlist list_del_init_dlist(1))+

text \<open>Building a list by \<^verbatim>\<open>list_add_tail\<close> on a fresh head and tearing it down again with
  \<^verbatim>\<open>list_del_init\<close>, in list order, keeps the links consistent: after the appends the
  forward and backward links run through exactly the appended nodes in order, and after the
  removals the head is empty again.\<close>

lemma list_add_tail_build_and_drain:
  assumes "distinct (head # ns)"
  shows "dlist (fold (\<lambda>n. list_add_tail n head) ns (INIT_LIST_HEAD head h)) head ns
    \<and> dlist (fold list_del_init ns (fold (\<lambda>n. list_add_tail n head) ns (INIT_LIST_HEAD head h)))
        head []"
  using lh.add_tail_all [OF lh.rep_init, of head ns] lh.del_init_all assms by auto

lemma list_add_tail_build_and_drain_example:
  "dlist (fold (\<lambda>n. list_add_tail n 1) [2, 3, 4] (INIT_LIST_HEAD 1 (\<lambda>_. \<lparr>next_ptr = 0, prev_ptr = 0\<rparr>)))
     1 [2, 3, 4]"
  using list_add_tail_build_and_drain [of 1 "[2, 3, 4]" "\<lambda>_. \<lparr>next_ptr = 0, prev_ptr = 0\<rparr>"]
  by simp

end
