(* ===== verification/Evsel.thy ===== *)
theory Evsel
  imports Util Pmu Intrusive_List
begin

section \<open>probe/evsel.[ch]: one performance event\<close>

text \<open>
  A \<^verbatim>\<open>struct prof_evsel\<close> is a record; its embedded list node lives in the heap of
  \<^theory_text>\<open>Intrusive_List\<close> at the address of the structure (\<^verbatim>\<open>node\<close> is its first member).
  The operations that touch only one event (\<^verbatim>\<open>open\<close>, \<^verbatim>\<open>enable\<close>, \<^verbatim>\<open>disable\<close>, \<^verbatim>\<open>close\<close>) map an event and
  the history of system calls to the new event and history.  Log output is not modelled.
\<close>

record prof_evsel =
  evsel_evlist :: addr
  evsel_attr :: perf_event_attr
  fd :: int
  hwc_index :: u32
  mm_page :: addr
  is_open :: bool
  is_enable :: bool
  idx :: int
  name :: string

definition zero_evsel :: prof_evsel where
  "zero_evsel = \<lparr>evsel_evlist = NULL, evsel_attr = zero_attr, fd = 0, hwc_index = 0,
     mm_page = NULL, is_open = False, is_enable = False, idx = 0, name = ''''\<rparr>"

record prof_evlist =
  nr_entries :: int
  evlist_pid :: int

text \<open>The objects of the probe library: the list nodes, the events and event lists by address, and
  the history of system calls.  The sizes of the structures depend on the platform's headers.\<close>

record evstate =
  nodes :: list_heap
  evsels :: "addr \<rightharpoonup> prof_evsel"
  evlists :: "addr \<rightharpoonup> prof_evlist"
  history :: trace

record abi =
  sizeof_attr :: u32
  sizeof_evsel :: nat
  sizeof_evlist :: nat

subsection \<open>Creation and initialisation\<close>

definition prof_evsel__init ::
  "addr \<Rightarrow> perf_event_attr \<Rightarrow> int \<Rightarrow> evstate \<Rightarrow> evstate" where
  "prof_evsel__init a attr i s =
     (if a = NULL then s
      else s\<lparr>evsels := (evsels s)(a := map_option (\<lambda>ev. ev\<lparr>idx := i, evsel_attr := attr,
                evsel_evlist := NULL, is_open := False\<rparr>) (evsels s a)),
             nodes := INIT_LIST_HEAD a (nodes s)\<rparr>)"

definition prof_evsel__new ::
  "os \<Rightarrow> abi \<Rightarrow> perf_event_attr option \<Rightarrow> string \<Rightarrow> evstate \<Rightarrow> addr \<times> evstate" where
  "prof_evsel__new os abi attr nm s =
     (let (a, tr) = zalloc os (sizeof_evsel abi) (history s); s1 = s\<lparr>history := tr\<rparr>
      in if a = NULL then (NULL, s1)
         else let s2 = s1\<lparr>evsels := (evsels s1)(a \<mapsto> zero_evsel\<lparr>name := nm\<rparr>)\<rparr>
              in (a, case attr of None \<Rightarrow> s2 | Some at \<Rightarrow> prof_evsel__init a at 0 s2))"

subsection \<open>Enabling, disabling, closing\<close>

definition prof_evsel__disable :: "os \<Rightarrow> prof_evsel \<Rightarrow> trace \<Rightarrow> prof_evsel \<times> trace" where
  "prof_evsel__disable os ev tr =
     (if \<not> is_enable ev then (ev, tr)
      else if fd ev < 0 then (ev, tr)
      else let (ev1, tr1) =
                 (if mm_page ev \<noteq> NULL
                  then (ev\<lparr>mm_page := NULL\<rparr>, sys_do os (Munmap (mm_page ev)) tr) else (ev, tr));
               tr2 = sys_do os (Ioctl (fd ev1) PERF_EVENT_IOC_DISABLE) tr1
           in (ev1\<lparr>is_enable := True\<rparr>, tr2))"

definition prof_evsel__enable :: "os \<Rightarrow> prof_evsel \<Rightarrow> trace \<Rightarrow> int \<times> prof_evsel \<times> trace" where
  "prof_evsel__enable os ev tr =
     (if \<not> is_open ev then (1, ev, tr)
      else if is_enable ev then (0, ev, tr)
      else if fd ev < 0 then (1, ev, tr)
      else let tr1 = sys_do os (Ioctl (fd ev) PERF_EVENT_IOC_ENABLE) tr;
               (r, tr2) = sys_call os (Mmap (fd ev)) tr1
           in if ret r < 0
              then (-1, ev\<lparr>mm_page := NULL\<rparr>, sys_do os (Ioctl (fd ev) PERF_EVENT_IOC_DISABLE) tr2)
              else (0, ev\<lparr>mm_page := nat (ret r),
                         hwc_index := (case out r of [] \<Rightarrow> 0 | v # _ \<Rightarrow> ucast v),
                         is_enable := True\<rparr>, tr2))"

definition prof_evsel__close :: "os \<Rightarrow> prof_evsel \<Rightarrow> trace \<Rightarrow> prof_evsel \<times> trace" where
  "prof_evsel__close os ev tr =
     (if \<not> is_open ev then (ev, tr)
      else let (ev1, tr1) = (if is_enable ev then prof_evsel__disable os ev tr else (ev, tr))
           in if fd ev1 < 0 then (ev1, tr1)
              else (ev1\<lparr>fd := -1, is_open := False\<rparr>, sys_do os (Close (fd ev1)) tr1))"

definition prof_evsel__delete :: "os \<Rightarrow> addr \<Rightarrow> evstate \<Rightarrow> evstate" where
  "prof_evsel__delete os a s =
     (case evsels s a of
        None \<Rightarrow> s
      | Some ev \<Rightarrow>
          let (ev1, tr1) = (if is_open ev then prof_evsel__close os ev (history s)
                            else (ev, history s))
          in s\<lparr>evsels := (evsels s)(a := None), history := sys_do os (Free a) tr1\<rparr>)"

subsection \<open>Opening, with the retry after raising the descriptor limit\<close>

text \<open>\<^verbatim>\<open>set_rlimit\<close> runs through \<^verbatim>\<open>NO_CHANGE\<close> (0), \<^verbatim>\<open>SET_TO_MAX\<close> (1) and \<^verbatim>\<open>INCREASED_MAX\<close> (2).\<close>

definition raise_limit :: "os \<Rightarrow> nat \<Rightarrow> trace \<Rightarrow> bool \<times> trace" where
  "raise_limit os set_rlimit tr =
     (let (l, tr1) = sys_call os GetRlimit tr
      in if ret l = 0
         then let rlim_max = (case out l of c # m # _ \<Rightarrow> m | _ \<Rightarrow> 0);
                  (cur, mx) = (if set_rlimit = 0 then (rlim_max, rlim_max)
                               else (rlim_max + 1000, rlim_max + 1000));
                  (q, tr2) = sys_call os (SetRlimit cur mx) tr1
              in (ret q = 0, tr2)
         else (False, tr1))"

function open_retry ::
  "os \<Rightarrow> nat \<Rightarrow> prof_evsel \<Rightarrow> int \<Rightarrow> trace \<Rightarrow> int \<times> prof_evsel \<times> trace" where
  "open_retry os set_rlimit ev pid tr =
     (let r = os tr (PerfEventOpen (evsel_attr ev) pid);
          tr1 = tr @ [(PerfEventOpen (evsel_attr ev) pid, r)];
          ev1 = ev\<lparr>fd := ret r\<rparr>
      in if 0 \<le> ret r then (0, ev1\<lparr>is_open := True\<rparr>, tr1)
         else if - err r = - EMFILE \<and> set_rlimit < 2
         then (let (ok, tr2) = raise_limit os set_rlimit tr1
               in if ok then open_retry os (Suc set_rlimit) ev1 pid tr2
                  else (- err r, ev1\<lparr>is_open := False\<rparr>, tr2))
         else (- err r, ev1\<lparr>is_open := False\<rparr>, tr1))"
  by pat_completeness auto
termination
  by (relation "measure (\<lambda>(os, k, ev, pid, tr). 2 - k)") auto

declare open_retry.simps [simp del]

definition prof_evsel__open :: "os \<Rightarrow> prof_evsel \<Rightarrow> int \<Rightarrow> trace \<Rightarrow> int \<times> prof_evsel \<times> trace" where
  "prof_evsel__open os ev pid tr = open_retry os 0 ev pid tr"

subsection \<open>Parsing an event description\<close>

text \<open>\<^verbatim>\<open><event_name>:<opt1><opt2>...\<close>\<close>

fun evsel_scan_opt :: "string \<Rightarrow> bool \<Rightarrow> bool \<Rightarrow> bool \<times> bool" where
  "evsel_scan_opt [] user kern = (user, kern)"
| "evsel_scan_opt (c # cs) user kern =
     (if c = CHR ''u'' then evsel_scan_opt cs True kern
      else if c = CHR ''k'' then evsel_scan_opt cs user True
      else evsel_scan_opt cs user kern)"

definition evsel__parse_opt :: "string \<Rightarrow> perf_event_attr \<Rightarrow> perf_event_attr" where
  "evsel__parse_opt opt attr =
     (let (user, kern) = evsel_scan_opt opt False False
      in if user \<and> \<not> kern then attr\<lparr>exclude_kernel := True\<rparr>
         else if \<not> user \<and> kern then attr\<lparr>exclude_user := True\<rparr>
         else attr)"

definition prof_evsel__parse :: "abi \<Rightarrow> string \<Rightarrow> (string \<times> perf_event_attr) option" where
  "prof_evsel__parse abi str =
     (let nm = takeWhile (\<lambda>c. c \<noteq> CHR '':'') str;
          p = dropWhile (\<lambda>c. c \<noteq> CHR '':'') str;
          opt = (if length p > 1 then Some (tl p) else None)
      in case fst (prof_pmu__find nm False) of
           None \<Rightarrow> None
         | Some k \<Rightarrow>
             let pmu = pmu_list ! k;
                 attr = zero_attr\<lparr>attr_type := pmu_type pmu, config := pmu_config pmu,
                          attr_size := sizeof_attr abi, disabled := True, inherit := False,
                          exclude_kernel := True\<rparr>
             in Some (nm, case opt of None \<Rightarrow> attr | Some o' \<Rightarrow> evsel__parse_opt o' attr))"

subsection \<open>Lemmas on the life cycle of an event\<close>

text \<open>The well-formedness of an event: an open event has a descriptor, and a mapped page belongs to
  an enabled event.\<close>

definition evsel_ok :: "prof_evsel \<Rightarrow> bool" where
  "evsel_ok ev \<longleftrightarrow> (is_open ev \<longrightarrow> 0 \<le> fd ev) \<and> (mm_page ev \<noteq> NULL \<longrightarrow> is_enable ev \<and> is_open ev)"

lemma zero_evsel_ok: "evsel_ok (zero_evsel\<lparr>name := nm\<rparr>)"
  by (simp add: evsel_ok_def zero_evsel_def)

lemma disable_frame:
  "is_open (fst (prof_evsel__disable os ev tr)) = is_open ev"
  "fd (fst (prof_evsel__disable os ev tr)) = fd ev"
  "is_enable (fst (prof_evsel__disable os ev tr)) = is_enable ev"
  "evsel_attr (fst (prof_evsel__disable os ev tr)) = evsel_attr ev"
  by (auto simp: prof_evsel__disable_def Let_def)

lemma disable_fds: "open_fds (snd (prof_evsel__disable os ev tr)) = open_fds tr"
  by (auto simp: prof_evsel__disable_def Let_def)

lemma disable_mm_page:
  "is_enable ev \<Longrightarrow> 0 \<le> fd ev \<Longrightarrow> mm_page (fst (prof_evsel__disable os ev tr)) = NULL"
  by (auto simp: prof_evsel__disable_def Let_def)

lemma disable_ok: "evsel_ok ev \<Longrightarrow> evsel_ok (fst (prof_evsel__disable os ev tr))"
  by (auto simp: prof_evsel__disable_def Let_def evsel_ok_def)

lemma enable_ok:
  assumes "evsel_ok ev" "prof_evsel__enable os ev tr = (r, ev', tr')"
  shows "evsel_ok ev'" "open_fds tr' = open_fds tr" "is_open ev' = is_open ev" "fd ev' = fd ev"
  using assms
  by (auto simp: prof_evsel__enable_def Let_def evsel_ok_def sys_call_def split: if_splits)

lemma close_ok: "evsel_ok ev \<Longrightarrow> evsel_ok (fst (prof_evsel__close os ev tr))"
  using disable_ok [of ev os tr] disable_frame [of os ev tr] disable_mm_page [of ev os tr]
  by (auto simp: prof_evsel__close_def Let_def evsel_ok_def split: prod.splits)

lemma close_closes:
  assumes "evsel_ok ev"
  shows "\<not> is_open (fst (prof_evsel__close os ev tr))"
    "open_fds (snd (prof_evsel__close os ev tr)) =
       (if is_open ev then open_fds tr - {fd ev} else open_fds tr)"
proof -
  obtain ev1 tr1 where d: "prof_evsel__disable os ev tr = (ev1, tr1)" by fastforce
  have "fd ev1 = fd ev" "open_fds tr1 = open_fds tr"
    using disable_frame(2) [of os ev tr] disable_fds [of os ev tr] d by simp_all
  then show "\<not> is_open (fst (prof_evsel__close os ev tr))"
    "open_fds (snd (prof_evsel__close os ev tr)) =
       (if is_open ev then open_fds tr - {fd ev} else open_fds tr)"
    using assms d by (auto simp: prof_evsel__close_def Let_def evsel_ok_def)
qed

text \<open>The retry loop: the result is 0 exactly when the event is open at the end, and the only
  descriptor it adds is the one it stores.\<close>

lemma raise_limit_fds: "open_fds (snd (raise_limit os k tr)) = open_fds tr"
  by (auto simp: raise_limit_def Let_def sys_call_def)

definition errno_doc :: "os \<Rightarrow> bool" where
  "errno_doc os \<longleftrightarrow>
     (\<forall>tr a p. ret (os tr (PerfEventOpen a p)) < 0 \<longrightarrow> 0 < err (os tr (PerfEventOpen a p)))"

lemma open_retry_result:
  assumes "errno_doc os" "open_retry os k ev pid tr = (r, ev', tr')"
  shows "(r = 0 \<and> is_open ev' \<and> 0 \<le> fd ev' \<and> open_fds tr' = insert (fd ev') (open_fds tr)
         \<and> (fresh_fds os \<longrightarrow> fd ev' \<notin> open_fds tr))
       \<or> (r < 0 \<and> \<not> is_open ev' \<and> open_fds tr' = open_fds tr)"
  using assms
proof (induction os k ev pid tr rule: open_retry.induct)
  case (1 os k ev pid tr)
  let ?r = "os tr (PerfEventOpen (evsel_attr ev) pid)"
  let ?tr1 = "tr @ [(PerfEventOpen (evsel_attr ev) pid, ?r)]"
  obtain ok tr2 where rl: "raise_limit os k ?tr1 = (ok, tr2)" by fastforce
  have fds2: "open_fds tr2 = open_fds ?tr1" using raise_limit_fds [of os k ?tr1] rl by simp
  show ?case
  proof (cases "ret ?r < 0 \<and> - err ?r = - EMFILE \<and> k < 2 \<and> ok")
    case True
    then have "open_retry os (Suc k) (ev\<lparr>fd := ret ?r\<rparr>) pid tr2 = (r, ev', tr')"
      using "1.prems"(2) rl open_retry.simps [of os k ev pid tr] by (simp add: Let_def)
    then show ?thesis
      using "1.IH" [OF refl refl refl _ _ rl [symmetric] refl _ "1.prems"(1)] True fds2 by auto
  next
    case False
    then show ?thesis
      using "1.prems" rl fds2 open_retry.simps [of os k ev pid tr]
      by (auto simp: Let_def errno_doc_def fresh_fds_def split: if_splits)
  qed
qed

lemma open_retry_frame:
  "\<exists>f b. fst (snd (open_retry os k ev pid tr)) = ev\<lparr>fd := f, is_open := b\<rparr>"
proof (induction os k ev pid tr rule: open_retry.induct)
  case (1 os k ev pid tr)
  let ?r = "os tr (PerfEventOpen (evsel_attr ev) pid)"
  let ?tr1 = "tr @ [(PerfEventOpen (evsel_attr ev) pid, ?r)]"
  obtain ok tr2 where rl: "raise_limit os k ?tr1 = (ok, tr2)" by fastforce
  show ?case
  proof (cases "ret ?r < 0 \<and> - err ?r = - EMFILE \<and> k < 2 \<and> ok")
    case True
    then obtain f b where "fst (snd (open_retry os (Suc k) (ev\<lparr>fd := ret ?r\<rparr>) pid tr2))
        = ev\<lparr>fd := ret ?r\<rparr>\<lparr>fd := f, is_open := b\<rparr>"
      using "1.IH" [OF refl refl refl _ _ rl [symmetric] refl] by auto
    then show ?thesis using True rl open_retry.simps [of os k ev pid tr]
      by (intro exI [of _ f] exI [of _ b]) (simp add: Let_def)
  next
    case False
    then show ?thesis using rl open_retry.simps [of os k ev pid tr]
      by (intro exI [of _ "ret ?r"]) (auto simp: Let_def)
  qed
qed

lemma open_ok:
  assumes "errno_doc os" "evsel_ok ev" "\<not> is_open ev" "prof_evsel__open os ev pid tr = (r, ev', tr')"
  shows "evsel_ok ev'"
proof -
  obtain f b where "ev' = ev\<lparr>fd := f, is_open := b\<rparr>"
    using open_retry_frame [of os 0 ev pid tr] assms(4) by (auto simp: prof_evsel__open_def)
  then show ?thesis
    using open_retry_result [OF assms(1), of 0 ev pid tr r ev' tr'] assms
    by (auto simp: prof_evsel__open_def evsel_ok_def)
qed

fun is_perf_open :: "request \<times> response \<Rightarrow> bool" where
  "is_perf_open (PerfEventOpen a p, r) = True"
| "is_perf_open _ = False"

definition perf_opens :: "trace \<Rightarrow> nat" where
  "perf_opens tr = length (filter is_perf_open tr)"

lemma perf_opens_append [simp]: "perf_opens (tr @ es) = perf_opens tr + perf_opens es"
  by (simp add: perf_opens_def)

lemma perf_opens_step [simp]:
  "perf_opens [] = 0" "perf_opens ((PerfEventOpen a p, r) # es) = Suc (perf_opens es)"
  "\<not> is_perf_open e \<Longrightarrow> perf_opens (e # es) = perf_opens es"
  by (simp_all add: perf_opens_def)

lemma raise_limit_opens: "perf_opens (snd (raise_limit os k tr)) = perf_opens tr"
  by (auto simp: raise_limit_def Let_def sys_call_def perf_opens_def)

lemma open_retry_attempts:
  "k \<le> 2 \<Longrightarrow> perf_opens (snd (snd (open_retry os k ev pid tr))) \<le> perf_opens tr + (3 - k)"
proof (induction os k ev pid tr rule: open_retry.induct)
  case (1 os k ev pid tr)
  let ?r = "os tr (PerfEventOpen (evsel_attr ev) pid)"
  let ?tr1 = "tr @ [(PerfEventOpen (evsel_attr ev) pid, ?r)]"
  obtain ok tr2 where rl: "raise_limit os k ?tr1 = (ok, tr2)" by fastforce
  have n2: "perf_opens tr2 = Suc (perf_opens tr)" using raise_limit_opens [of os k ?tr1] rl by simp
  show ?case
  proof (cases "ret ?r < 0 \<and> - err ?r = - EMFILE \<and> k < 2 \<and> ok")
    case True
    then have "perf_opens (snd (snd (open_retry os (Suc k) (ev\<lparr>fd := ret ?r\<rparr>) pid tr2)))
        \<le> perf_opens tr2 + (3 - Suc k)"
      using "1.IH" [OF refl refl refl _ _ rl [symmetric] refl] by auto
    then show ?thesis using True rl n2 open_retry.simps [of os k ev pid tr]
      by (auto simp: Let_def less_2_cases_iff)
  next
    case False
    then show ?thesis using rl n2 "1.prems" open_retry.simps [of os k ev pid tr]
      by (auto simp: Let_def)
  qed
qed

text \<open>Opening an event asks the kernel for a descriptor at most three times; it reports success
  (0) exactly when the event is left open; and closing it afterwards leaves open exactly the
  descriptors that were open before, whether the opening succeeded or failed.\<close>

lemma evsel_open_close_no_leak:
  assumes "fresh_fds os" "errno_doc os" "evsel_ok ev" "\<not> is_open ev"
    and op: "prof_evsel__open os ev pid tr = (r, ev1, tr1)"
    and cl: "prof_evsel__close os ev1 tr1 = (ev2, tr2)"
  shows "perf_opens tr1 \<le> perf_opens tr + 3 \<and> (r = 0 \<longleftrightarrow> is_open ev1) \<and> r \<le> 0
    \<and> \<not> is_open ev2 \<and> open_fds tr2 = open_fds tr"
proof -
  have ok: "evsel_ok ev1" using open_ok assms by blast
  have res: "(r = 0 \<and> is_open ev1 \<and> 0 \<le> fd ev1 \<and> open_fds tr1 = insert (fd ev1) (open_fds tr)
        \<and> fd ev1 \<notin> open_fds tr) \<or> (r < 0 \<and> \<not> is_open ev1 \<and> open_fds tr1 = open_fds tr)"
    using open_retry_result [OF assms(2)] op assms(1) unfolding prof_evsel__open_def by blast
  moreover have "perf_opens tr1 \<le> perf_opens tr + 3"
    using open_retry_attempts [of 0 os ev pid tr] op by (simp add: prof_evsel__open_def)
  moreover have "\<not> is_open ev2"
    "open_fds tr2 = (if is_open ev1 then open_fds tr1 - {fd ev1} else open_fds tr1)"
    using close_closes [OF ok, of os tr1] cl by simp_all
  ultimately show ?thesis by auto
qed

lemma evsel_open_close_no_leak_example:
  "open_fds (snd (prof_evsel__close calm_kernel
     (fst (snd (prof_evsel__open calm_kernel zero_evsel 42 [])))
     (snd (snd (prof_evsel__open calm_kernel zero_evsel 42 []))))) = {}"
proof -
  have "errno_doc calm_kernel" by (simp add: errno_doc_def calm_kernel_def)
  moreover have "evsel_ok zero_evsel" by (simp add: evsel_ok_def zero_evsel_def)
  moreover have "\<not> is_open zero_evsel" by (simp add: zero_evsel_def)
  ultimately show ?thesis
    using evsel_open_close_no_leak [OF calm_fresh_fds, of zero_evsel 42 "[]"]
    by (metis open_fds_Nil prod.collapse)
qed

text \<open>\<^verbatim>\<open>prof_evsel__disable\<close> does not clear the enabled flag (it stores 1 where 0 is meant).
  After an event was disabled its page is unmapped but the event still counts as enabled, and once
  it was closed and opened again \<^verbatim>\<open>prof_evsel__enable\<close> reports success without a single system
  call: the counter stays disabled and the event has no page.\<close>

lemma disable_keeps_enabled_flag:
  assumes "evsel_ok ev" "is_open ev" "is_enable ev"
    and d: "prof_evsel__disable os ev tr = (ev1, tr1)"
    and c: "prof_evsel__close os ev1 tr1 = (ev2, tr2)"
    and op: "prof_evsel__open os ev2 pid tr2 = (0, ev3, tr3)" and "is_open ev3"
  shows "is_enable ev1 \<and> mm_page ev1 = NULL
    \<and> prof_evsel__enable os ev3 tr3 = (0, ev3, tr3) \<and> mm_page ev3 = NULL"
proof -
  have 1: "is_enable ev1" "mm_page ev1 = NULL" "fd ev1 = fd ev" "is_open ev1" "0 \<le> fd ev"
    using disable_frame [of os ev tr] disable_mm_page [of ev os tr] assms by (auto simp: evsel_ok_def)
  then have 2: "is_enable ev2" "mm_page ev2 = NULL"
    using c by (auto simp: prof_evsel__close_def prof_evsel__disable_def Let_def)
  obtain f b where "ev3 = ev2\<lparr>fd := f, is_open := b\<rparr>"
    using open_retry_frame [of os 0 ev2 pid tr2] op by (auto simp: prof_evsel__open_def)
  with 1 2 assms(7) show ?thesis by (simp add: prof_evsel__enable_def)
qed

lemma disable_keeps_enabled_flag_example:
  "\<exists>ev3 tr3. prof_evsel__enable calm_kernel ev3 tr3 = (0, ev3, tr3) \<and> is_open ev3 \<and> mm_page ev3 = 0"
proof -
  let ?ev = "zero_evsel\<lparr>fd := 7, is_open := True, is_enable := True, mm_page := 8192\<rparr>"
  have "evsel_ok ?ev" by (simp add: evsel_ok_def zero_evsel_def)
  moreover obtain ev1 tr1 where "prof_evsel__disable calm_kernel ?ev [] = (ev1, tr1)" by fastforce
  moreover obtain ev2 tr2 where "prof_evsel__close calm_kernel ev1 tr1 = (ev2, tr2)" by fastforce
  moreover obtain ev3 tr3 where "prof_evsel__open calm_kernel ev2 1 tr2 = (0, ev3, tr3)" "is_open ev3"
    by (simp add: prof_evsel__open_def open_retry.simps [of calm_kernel 0] calm_kernel_def)
  ultimately show ?thesis
    using disable_keeps_enabled_flag [of ?ev calm_kernel "[]" ev1 tr1 ev2 tr2 1 ev3 tr3]
    by (auto simp: zero_evsel_def)
qed

subsection \<open>Lemmas on the parser\<close>

lemma scan_opt_result:
  "evsel_scan_opt cs u k = (u \<or> CHR ''u'' \<in> set cs, k \<or> CHR ''k'' \<in> set cs)"
  by (induction cs arbitrary: u k) auto

lemma takeWhile_colon:
  "CHR '':'' \<notin> set nm \<Longrightarrow> takeWhile (\<lambda>c. c \<noteq> CHR '':'') (nm @ CHR '':'' # opt) = nm"
  "CHR '':'' \<notin> set nm \<Longrightarrow> dropWhile (\<lambda>c. c \<noteq> CHR '':'') (nm @ CHR '':'' # opt) = CHR '':'' # opt"
  by (induction nm) auto

lemma pmu_names_no_colon: "list_all (\<lambda>p. CHR '':'' \<notin> set (pmu_name p)) pmu_list"
  by (simp add: pmu_table pmu_entry_def)

text \<open>Parsing \<open>name:opts\<close> for the \<open>k\<close>-th event of the table succeeds for every option
  string, unknown letters included, and selects that event, disabled and not inherited.  Kernel
  counting is always excluded, and user counting is excluded exactly for options with \<open>k\<close> and
  without \<open>u\<close>: the option \<open>k\<close>, documented as counting in kernel space, then counts nothing.\<close>

lemma evsel_parse_table_entry:
  assumes "k < PROF_PMU_MAX"
  shows "\<exists>attr. prof_evsel__parse abi (pmu_name (pmu_list ! k) @ CHR '':'' # opt)
        = Some (pmu_name (pmu_list ! k), attr)
    \<and> attr_type attr = pmu_type (pmu_list ! k) \<and> config attr = pmu_config (pmu_list ! k)
    \<and> attr_size attr = sizeof_attr abi \<and> disabled attr \<and> \<not> inherit attr
    \<and> exclude_kernel attr \<and> (exclude_user attr \<longleftrightarrow> CHR ''k'' \<in> set opt \<and> CHR ''u'' \<notin> set opt)"
proof -
  have nc: "CHR '':'' \<notin> set (pmu_name (pmu_list ! k))"
    using pmu_names_no_colon assms by (simp add: list_all_length length_pmu_list)
  have f: "fst (prof_pmu__find (pmu_name (pmu_list ! k)) False) = Some k"
    using assms by (simp add: pmu_find_nth)
  show ?thesis
    by (cases "opt = []") (auto simp: prof_evsel__parse_def Let_def takeWhile_colon [OF nc] f
        evsel__parse_opt_def scan_opt_result zero_attr_def split: prod.splits)
qed

lemma evsel_parse_table_entry_example:
  "\<exists>attr. prof_evsel__parse \<lparr>sizeof_attr = 112, sizeof_evsel = 200, sizeof_evlist = 40\<rparr>
       (pmu_name (pmu_list ! 0) @ '':k'') = Some (pmu_name (pmu_list ! 0), attr)
     \<and> exclude_kernel attr \<and> exclude_user attr"
  using evsel_parse_table_entry [of 0 "\<lparr>sizeof_attr = 112, sizeof_evsel = 200, sizeof_evlist = 40\<rparr>" "''k''"]
  by (auto simp: PROF_PMU_MAX_def)

lemma evsel_parse_unknown:
  "takeWhile (\<lambda>c. c \<noteq> CHR '':'') str \<notin> set (map pmu_name pmu_list) \<Longrightarrow> prof_evsel__parse abi str = None"
  using pmu_find_from_None [of "takeWhile (\<lambda>c. c \<noteq> CHR '':'') str" 0 pmu_list]
  by (simp add: prof_evsel__parse_def prof_pmu__find_def Let_def)

end
