(* ===== verification/Evlist.thy ===== *)
theory Evlist
  imports Evsel
begin

section \<open>probe/evlist.[ch]: the list of events of a thread\<close>

text \<open>
  A \<^verbatim>\<open>struct prof_evlist\<close> owns the events linked into its \<^verbatim>\<open>entries\<close> list.  Its list head and
  the list nodes of its events are the first members of their structures, so their addresses are
  the addresses of the structures (offset 0).  Each operation maps an \<open>evstate\<close> to the new one; the
  loops are the macros of \<^theory_text>\<open>Intrusive_List\<close>, and \<open>None\<close> is the result of a loop that would not
  end.  The lemmas show that the loops end, that starting is all or nothing, and that the life of
  an event list leaves neither a descriptor nor memory behind.
\<close>

abbreviation (input) node_off :: nat where "node_off \<equiv> 0"

subsection \<open>The loops of evlist.h\<close>

definition evlist__for_each ::
  "addr \<Rightarrow> (addr \<Rightarrow> evstate \<Rightarrow> evstate flow) \<Rightarrow> evstate \<Rightarrow> evstate flow option" where
  "evlist__for_each e body s = list_for_each_entry node_off nodes body e s"

definition evlist__for_each_continue ::
  "addr \<Rightarrow> addr \<Rightarrow> (addr \<Rightarrow> evstate \<Rightarrow> evstate flow) \<Rightarrow> evstate \<Rightarrow> evstate flow option" where
  "evlist__for_each_continue e pos body s = list_for_each_entry_continue node_off nodes body e pos s"

definition evlist__for_each_reverse ::
  "addr \<Rightarrow> (addr \<Rightarrow> evstate \<Rightarrow> evstate flow) \<Rightarrow> evstate \<Rightarrow> evstate flow option" where
  "evlist__for_each_reverse e body s = list_for_each_entry_reverse node_off nodes body e s"

definition evlist__for_each_safe ::
  "addr \<Rightarrow> (addr \<Rightarrow> evstate \<Rightarrow> evstate flow) \<Rightarrow> evstate \<Rightarrow> evstate flow option" where
  "evlist__for_each_safe e body s = list_for_each_entry_safe node_off nodes body e s"

definition prof_evlist__first :: "addr \<Rightarrow> evstate \<Rightarrow> addr" where
  "prof_evlist__first e s = list_entry node_off (next_ptr (nodes s e))"

subsection \<open>Creation\<close>

definition prof_evlist__init :: "addr \<Rightarrow> evstate \<Rightarrow> evstate" where
  "prof_evlist__init e s = s\<lparr>nodes := INIT_LIST_HEAD e (nodes s)\<rparr>"

definition prof_evlist__new :: "os \<Rightarrow> abi \<Rightarrow> int \<Rightarrow> evstate \<Rightarrow> fault + addr \<times> evstate" where
  "prof_evlist__new os abi pid s =
     (let (e, tr) = zalloc os (sizeof_evlist abi) (history s);
          s1 = s\<lparr>history := tr\<rparr>
      in if e = NULL then Inl Null_pointer
         else let s2 = prof_evlist__init e
                    (s1\<lparr>evlists := (evlists s1)(e \<mapsto> \<lparr>nr_entries = 0, evlist_pid = 0\<rparr>)\<rparr>)
              in Inr (e, s2\<lparr>evlists := (evlists s2)(e \<mapsto> \<lparr>nr_entries = 0, evlist_pid = pid\<rparr>)\<rparr>))"

subsection \<open>One event at a time\<close>

definition on_evsel ::
  "(prof_evsel \<Rightarrow> trace \<Rightarrow> prof_evsel \<times> trace) \<Rightarrow> addr \<Rightarrow> evstate \<Rightarrow> evstate" where
  "on_evsel op p s =
     (case evsels s p of
        None \<Rightarrow> s
      | Some ev \<Rightarrow> let (ev', tr') = op ev (history s)
                   in s\<lparr>evsels := (evsels s)(p \<mapsto> ev'), history := tr'\<rparr>)"

definition unlink_delete :: "os \<Rightarrow> addr \<Rightarrow> evstate \<Rightarrow> evstate flow" where
  "unlink_delete os p s =
     (let s1 = s\<lparr>nodes := list_del_init p (nodes s)\<rparr>;
          s2 = s1\<lparr>evsels := (evsels s1)(p := map_option (\<lambda>ev. ev\<lparr>evsel_evlist := NULL\<rparr>) (evsels s1 p))\<rparr>
      in Go (prof_evsel__delete os p s2))"

definition prof_evlist__delete :: "os \<Rightarrow> addr \<Rightarrow> evstate \<Rightarrow> evstate option" where
  "prof_evlist__delete os e s =
     (case evlist__for_each_reverse e (\<lambda>p s. Go (on_evsel (prof_evsel__close os) p s)) s of
        None \<Rightarrow> None
      | Some f1 \<Rightarrow>
          (case evlist__for_each_safe e (unlink_delete os) (flow_state f1) of
             None \<Rightarrow> None
           | Some f2 \<Rightarrow>
               let s2 = flow_state f2;
                   s3 = s2\<lparr>evlists := (evlists s2)(e := map_option (\<lambda>el. el\<lparr>nr_entries := 0\<rparr>) (evlists s2 e))\<rparr>
               in Some (s3\<lparr>evlists := (evlists s3)(e := None), history := sys_do os (Free e) (history s3)\<rparr>)))"

subsection \<open>Adding events\<close>

definition evlist_add :: "os \<Rightarrow> abi \<Rightarrow> addr \<Rightarrow> string \<Rightarrow> evstate \<Rightarrow> int \<times> evstate" where
  "evlist_add os abi e str s =
     (case prof_evsel__parse abi str of
        None \<Rightarrow> (0, s)
      | Some (nm, attr) \<Rightarrow>
          let (p, s1) = prof_evsel__new os abi None nm s
          in if p = NULL then (0, s1)
             else let s2 = prof_evsel__init p attr (case evlists s1 e of None \<Rightarrow> 0 | Some el \<Rightarrow> nr_entries el) s1;
                      s3 = s2\<lparr>evsels := (evsels s2)(p := map_option (\<lambda>ev. ev\<lparr>evsel_evlist := e\<rparr>) (evsels s2 p))\<rparr>;
                      s4 = s3\<lparr>nodes := list_add_tail p e (nodes s3)\<rparr>
                  in (1, s4\<lparr>evlists := (evlists s4)(e := map_option (\<lambda>el. el\<lparr>nr_entries := nr_entries el + 1\<rparr>)
                                                     (evlists s4 e))\<rparr>))"

text \<open>The C string at offset \<open>p\<close> of a buffer, and \<^verbatim>\<open>strchr\<close> on it.\<close>

definition NUL :: char where "NUL = CHR 0x00"

definition cstr_at :: "string \<Rightarrow> nat \<Rightarrow> string" where
  "cstr_at buf p = takeWhile (\<lambda>c. c \<noteq> NUL) (drop p buf)"

definition strchr_at :: "string \<Rightarrow> nat \<Rightarrow> char \<Rightarrow> nat option" where
  "strchr_at buf p c =
     (let t = takeWhile (\<lambda>x. x \<noteq> c) (cstr_at buf p)
      in if length t < length (cstr_at buf p) then Some (p + length t) else None)"

lemma strchr_at_Some:
  assumes "strchr_at buf p c = Some q" "c \<noteq> NUL"
  shows "p \<le> q" "q < length buf" "buf ! q = c" "take (q - p) (drop p buf) = takeWhile (\<lambda>x. x \<noteq> c) (cstr_at buf p)"
proof -
  let ?t = "cstr_at buf p" and ?u = "takeWhile (\<lambda>x. x \<noteq> c) (cstr_at buf p)"
  have l: "length ?u < length ?t" and q: "q = p + length ?u"
    using assms(1) by (auto simp: strchr_at_def Let_def split: if_splits)
  have lt: "length ?t \<le> length (drop p buf)" unfolding cstr_at_def by (rule length_takeWhile_le)
  have tn: "?t ! k = drop p buf ! k" if "k < length ?t" for k
    using that unfolding cstr_at_def by (rule takeWhile_nth)
  show "p \<le> q" "q < length buf" using l lt q by auto
  have "?t ! length ?u = c" using nth_length_takeWhile [OF l] by simp
  then show "buf ! q = c" using tn [OF l] l lt q by simp
  have "take (length ?u) ?t = ?u" by (metis takeWhile_eq_take)
  moreover have "take (length ?u) ?t = take (length ?u) (drop p buf)"
    using l tn lt by (intro nth_equalityI) auto
  ultimately show "take (q - p) (drop p buf) = ?u" using q by simp
qed

function add_loop ::
  "os \<Rightarrow> abi \<Rightarrow> addr \<Rightarrow> nat \<Rightarrow> string \<Rightarrow> nat \<Rightarrow> int \<Rightarrow> evstate \<Rightarrow> string \<times> nat \<times> int \<times> evstate" where
  "add_loop os abi e len tmp pcur added s =
     (case strchr_at tmp pcur (CHR '','') of
        None \<Rightarrow> (tmp, pcur, added, s)
      | Some pnext \<Rightarrow>
          let tmp' = tmp[pnext := NUL];
              (n, s') = evlist_add os abi e (cstr_at tmp' pcur) s
          in if pnext = len - 1 then (tmp', pcur, added + n, s')
             else add_loop os abi e len tmp' (pnext + 1) (added + n) s')"
  by pat_completeness auto
termination
proof (relation "measure (\<lambda>(os, abi, e, len, tmp, pcur, added, s). count_list tmp (CHR '',''))")
  fix os :: os and abi :: abi and e len pcur pnext :: nat and tmp tmp' :: string
    and added n :: int and s s' :: evstate and x
  assume p: "strchr_at tmp pcur (CHR '','') = Some pnext" and t: "tmp' = tmp[pnext := NUL]"
  have "Suc (count_list tmp' (CHR '','')) = count_list tmp (CHR '','')"
    unfolding t using strchr_at_Some [OF p] by (intro count_list_update) (simp_all add: NUL_def)
  then show "((os, abi, e, len, tmp', pnext + 1, added + n, s'), os, abi, e, len, tmp, pcur, added, s)
      \<in> measure (\<lambda>(os, abi, e, len, tmp, pcur, added, s). count_list tmp (CHR '',''))"
    by simp
qed simp

declare add_loop.simps [simp del]

definition prof_evlist__add_from_str :: "os \<Rightarrow> abi \<Rightarrow> addr \<Rightarrow> string \<Rightarrow> evstate \<Rightarrow> int \<times> evstate" where
  "prof_evlist__add_from_str os abi e str s =
     (if str = [] then (- EINVAL, s)
      else let (tmp, pcur, added, s1) = add_loop os abi e (length str) str 0 0 s
           in if pcur < length str - 1
              then let (n, s2) = evlist_add os abi e (cstr_at tmp pcur) s1 in (added + n, s2)
              else (added, s1))"

subsection \<open>Dumping, starting, stopping\<close>

definition dump_body :: "addr \<Rightarrow> evstate \<times> (int \<times> string \<times> u32 \<times> u64) list
    \<Rightarrow> (evstate \<times> (int \<times> string \<times> u32 \<times> u64) list) flow" where
  "dump_body p = (\<lambda>(s, ls). case evsels s p of
       None \<Rightarrow> Go (s, ls)
     | Some ev \<Rightarrow> Go (s, ls @ [(idx ev, name ev, attr_type (evsel_attr ev), config (evsel_attr ev))]))"

definition prof_evlist__dump :: "addr \<Rightarrow> evstate \<Rightarrow> (int \<times> string \<times> u32 \<times> u64) list option" where
  "prof_evlist__dump e s =
     map_option (snd \<circ> flow_state) (list_for_each_entry node_off (nodes \<circ> fst) dump_body e (s, []))"

definition prof_evlist__enable :: "os \<Rightarrow> addr \<Rightarrow> evstate \<Rightarrow> evstate option" where
  "prof_evlist__enable os e s =
     map_option flow_state
       (evlist__for_each e (\<lambda>p s. Go (on_evsel (\<lambda>ev tr. snd (prof_evsel__enable os ev tr)) p s)) s)"

definition open_body :: "os \<Rightarrow> int \<Rightarrow> addr \<Rightarrow> evstate \<Rightarrow> evstate flow" where
  "open_body os pid p s =
     (case evsels s p of
        None \<Rightarrow> Go s
      | Some ev \<Rightarrow>
          if \<not> is_open ev
          then let (r, ev', tr') = prof_evsel__open os ev pid (history s);
                   s' = s\<lparr>evsels := (evsels s)(p \<mapsto> ev'), history := tr'\<rparr>
               in if r < 0 then Leave s' else Go s'
          else Go s)"

definition close_if_open :: "os \<Rightarrow> prof_evsel \<Rightarrow> trace \<Rightarrow> prof_evsel \<times> trace" where
  "close_if_open os ev tr = (if is_open ev then prof_evsel__close os ev tr else (ev, tr))"

definition prof_evlist__start :: "os \<Rightarrow> addr \<Rightarrow> evstate \<Rightarrow> (int \<times> evstate) option" where
  "prof_evlist__start os e s =
     (case evlists s e of
        None \<Rightarrow> None
      | Some el \<Rightarrow>
          (case evlist__for_each e (open_body os (evlist_pid el)) s of
             None \<Rightarrow> None
           | Some (Go s1) \<Rightarrow> map_option (Pair 0) (prof_evlist__enable os e s1)
           | Some (Leave s1) \<Rightarrow>
               map_option (\<lambda>f. (- 1, flow_state f))
                 (evlist__for_each e (\<lambda>p s. Go (on_evsel (close_if_open os) p s)) s1)))"

definition prof_evlist__stop :: "os \<Rightarrow> addr \<Rightarrow> evstate \<Rightarrow> evstate option" where
  "prof_evlist__stop os e s =
     map_option flow_state (evlist__for_each e (\<lambda>p s. Go (on_evsel (prof_evsel__disable os) p s)) s)"

definition prof_evlist__counter_nr :: "addr \<Rightarrow> evstate \<Rightarrow> int option" where
  "prof_evlist__counter_nr e s = map_option nr_entries (evlists s e)"

subsection \<open>Operations on a single event, run over the list\<close>

text \<open>The contract of an operation on one event: it keeps the event well formed, its owner, its
  index and its name, and neither allocates nor frees.\<close>

locale evsel_op =
  fixes op :: "prof_evsel \<Rightarrow> trace \<Rightarrow> prof_evsel \<times> trace"
  assumes op_ok: "evsel_ok ev \<Longrightarrow> evsel_ok (fst (op ev tr))"
    and op_evlist: "evsel_evlist (fst (op ev tr)) = evsel_evlist ev"
    and op_idx: "idx (fst (op ev tr)) = idx ev"
    and op_name: "name (fst (op ev tr)) = name ev"
    and op_live: "live (snd (op ev tr)) = live tr"
begin

abbreviation op_body :: "addr \<Rightarrow> evstate \<Rightarrow> evstate flow" where
  "op_body \<equiv> \<lambda>p s. Go (on_evsel op p s)"

lemma on_evsel_frame [simp]:
  "nodes (on_evsel op p s) = nodes s" "evlists (on_evsel op p s) = evlists s"
  "live (history (on_evsel op p s)) = live (history s)"
  by (simp_all add: on_evsel_def Let_def case_prod_beta op_live split: option.split)

lemma on_evsel_other: "q \<noteq> p \<Longrightarrow> evsels (on_evsel op p s) q = evsels s q"
  by (auto simp: on_evsel_def Let_def split: option.splits prod.splits)

lemma on_evsel_same:
  "evsels s p = Some ev \<Longrightarrow> evsels (on_evsel op p s) p = Some (fst (op ev (history s)))"
  by (auto simp: on_evsel_def Let_def split: prod.splits)

end

sublocale evsel_op \<subseteq> loop: quiet_body nodes "\<lambda>p s. Go (on_evsel op p s)"
  by unfold_locales simp

context evsel_op begin

lemma run_op_Go: "run_body op_body xs s = Go (fold (on_evsel op) xs s)"
  by (induction xs arbitrary: s) auto

lemma fold_op_frame [simp]:
  "nodes (fold (on_evsel op) xs s) = nodes s" "evlists (fold (on_evsel op) xs s) = evlists s"
  "live (history (fold (on_evsel op) xs s)) = live (history s)"
  by (induction xs arbitrary: s) simp_all

lemma fold_op_other: "q \<notin> set xs \<Longrightarrow> evsels (fold (on_evsel op) xs s) q = evsels s q"
  by (induction xs arbitrary: s) (auto simp: on_evsel_other)

end

text \<open>The facts the contract asks of the four operations.\<close>

lemma disable_live: "live (snd (prof_evsel__disable os ev tr)) = live tr"
  by (auto simp: prof_evsel__disable_def Let_def)

lemma disable_keeps:
  "evsel_evlist (fst (prof_evsel__disable os ev tr)) = evsel_evlist ev"
  "idx (fst (prof_evsel__disable os ev tr)) = idx ev"
  "name (fst (prof_evsel__disable os ev tr)) = name ev"
  by (auto simp: prof_evsel__disable_def Let_def)

lemma close_live: "live (snd (prof_evsel__close os ev tr)) = live tr"
  by (simp add: prof_evsel__close_def Let_def case_prod_beta disable_live)

lemma close_keeps:
  "evsel_evlist (fst (prof_evsel__close os ev tr)) = evsel_evlist ev"
  "idx (fst (prof_evsel__close os ev tr)) = idx ev"
  "name (fst (prof_evsel__close os ev tr)) = name ev"
  by (simp_all add: prof_evsel__close_def Let_def case_prod_beta disable_keeps)

lemma enable_live: "live (snd (snd (prof_evsel__enable os ev tr))) = live tr"
  by (auto simp: prof_evsel__enable_def Let_def sys_call_def)

lemma enable_keeps:
  "evsel_evlist (fst (snd (prof_evsel__enable os ev tr))) = evsel_evlist ev"
  "idx (fst (snd (prof_evsel__enable os ev tr))) = idx ev"
  "name (fst (snd (prof_evsel__enable os ev tr))) = name ev"
  by (auto simp: prof_evsel__enable_def Let_def sys_call_def)

lemma enable_keeps_ok: "evsel_ok ev \<Longrightarrow> evsel_ok (fst (snd (prof_evsel__enable os ev tr)))"
  by (metis enable_ok(1) prod.collapse)

interpretation dis: evsel_op "prof_evsel__disable os" for os
  by unfold_locales (simp_all add: disable_ok disable_keeps disable_live)

interpretation cls: evsel_op "prof_evsel__close os" for os
  by unfold_locales (simp_all add: close_ok close_keeps close_live)

interpretation ena: evsel_op "\<lambda>ev tr. snd (prof_evsel__enable os ev tr)" for os
  by unfold_locales (simp_all add: enable_keeps_ok enable_keeps enable_live)

lemma close_if_open_eq: "close_if_open os = prof_evsel__close os"
  by (intro ext) (simp add: close_if_open_def prof_evsel__close_def)

interpretation opn: quiet_body nodes "open_body os pid" for os pid
  by unfold_locales (simp add: open_body_def Let_def case_prod_beta split: option.split)

interpretation dmp: quiet_body "nodes \<circ> fst" dump_body
  by unfold_locales (auto simp: dump_body_def split: option.splits)

lemma delete_nodes [simp]: "nodes (prof_evsel__delete os p s) = nodes s"
  by (simp add: prof_evsel__delete_def Let_def case_prod_beta split: option.split)

interpretation unl: unlinking_body nodes "unlink_delete os" head for os head
proof
  fix s s' p ps
  assume "dlist (nodes s) head (p # ps)" "unlink_delete os p s = Go s'"
  then show "dlist (nodes s') head ps"
    using lh.rep_del_init [of "nodes s" head "p # ps" p] by (auto simp: unlink_delete_def Let_def)
qed

lemma list_entry_0 [simp]: "list_entry 0 p = p"
  by (simp add: list_entry_def)

lemmas evlist_loops = evlist__for_each_def evlist__for_each_reverse_def evlist__for_each_safe_def
  list_for_each_entry_def list_for_each_entry_reverse_def list_for_each_entry_safe_def

subsection \<open>The invariant of an event list\<close>

text \<open>The events at \<open>xs\<close> are well formed, belong to the list at \<open>e\<close> and are numbered in order.\<close>

definition events_ok :: "evstate \<Rightarrow> addr \<Rightarrow> addr list \<Rightarrow> bool" where
  "events_ok s e xs \<longleftrightarrow>
     (\<forall>i < length xs. \<exists>ev. evsels s (xs ! i) = Some ev \<and> evsel_ok ev \<and> evsel_evlist ev = e \<and> idx ev = int i)"

definition evlist_inv :: "evstate \<Rightarrow> addr \<Rightarrow> addr list \<Rightarrow> bool" where
  "evlist_inv s e xs \<longleftrightarrow>
     dlist (nodes s) e xs \<and> map_option nr_entries (evlists s e) = Some (int (length xs))
     \<and> events_ok s e xs \<and> 0 \<notin> set (e # xs) \<and> set (e # xs) \<subseteq> live (history s)"

text \<open>The descriptors of the open events, and the accounting that ties them to the kernel's: besides
  the descriptors \<open>B\<close> of the rest of the process, exactly those of the list are open.\<close>

definition fds_of :: "evstate \<Rightarrow> addr list \<Rightarrow> int set" where
  "fds_of s xs = {fd ev | p ev. p \<in> set xs \<and> evsels s p = Some ev \<and> is_open ev}"

definition acct :: "int set \<Rightarrow> evstate \<Rightarrow> addr list \<Rightarrow> bool" where
  "acct B s xs \<longleftrightarrow> open_fds (history s) = B \<union> fds_of s xs \<and> B \<inter> fds_of s xs = {}"

definition all_open :: "evstate \<Rightarrow> addr list \<Rightarrow> bool" where
  "all_open s xs \<longleftrightarrow> (\<forall>p \<in> set xs. \<exists>ev. evsels s p = Some ev \<and> is_open ev)"

definition none_open :: "evstate \<Rightarrow> addr list \<Rightarrow> bool" where
  "none_open s xs \<longleftrightarrow> (\<forall>p \<in> set xs. \<exists>ev. evsels s p = Some ev \<and> \<not> is_open ev)"

lemma fds_of_cong: "(\<And>p. p \<in> set xs \<Longrightarrow> evsels s' p = evsels s p) \<Longrightarrow> fds_of s' xs = fds_of s xs"
  unfolding fds_of_def by (metis (no_types, lifting))

lemma fds_of_Nil [simp]: "fds_of s [] = {}"
  by (simp add: fds_of_def)

lemma fds_of_Cons:
  "evsels s p = Some ev \<Longrightarrow> fds_of s (p # ps) = (if is_open ev then {fd ev} else {}) \<union> fds_of s ps"
  by (auto simp: fds_of_def)

lemma none_open_fds: "none_open s xs \<Longrightarrow> fds_of s xs = {}"
  by (auto simp: none_open_def fds_of_def)

lemma events_ok_member:
  "events_ok s e xs \<Longrightarrow> p \<in> set xs \<Longrightarrow> \<exists>ev. evsels s p = Some ev \<and> evsel_ok ev"
  by (auto simp: events_ok_def in_set_conv_nth)

lemma events_ok_update:
  assumes "events_ok s e xs" "evsels s p = Some ev"
    and "evsels s' = (evsels s)(p \<mapsto> ev')" "evsel_ok ev \<Longrightarrow> evsel_ok ev'" "evsel_evlist ev' = evsel_evlist ev"
      "idx ev' = idx ev"
  shows "events_ok s' e xs"
  using assms by (auto simp: events_ok_def)

context evsel_op begin

lemma on_evsel_events: "events_ok s e xs \<Longrightarrow> events_ok (on_evsel op p s) e xs"
proof (cases "evsels s p")
  case (Some ev)
  assume "events_ok s e xs"
  then show ?thesis
    by (rule events_ok_update [OF _ Some, where ev' = "fst (op ev (history s))"])
      (simp_all add: Some on_evsel_def Let_def case_prod_beta op_ok op_evlist op_idx)
qed (simp add: on_evsel_def)

lemma fold_op_inv: "evlist_inv s e xs \<Longrightarrow> evlist_inv (fold (on_evsel op) ps s) e xs"
proof (induction ps arbitrary: s)
  case (Cons p ps)
  then have "evlist_inv (on_evsel op p s) e xs" by (simp add: evlist_inv_def on_evsel_events)
  with Cons.IH show ?case by simp
qed simp

lemma for_each_op:
  assumes "evlist_inv s e xs"
  shows "evlist__for_each e op_body s = Some (Go (fold (on_evsel op) xs s))"
    "evlist__for_each_reverse e op_body s = Some (Go (fold (on_evsel op) (rev xs) s))"
  using assms loop.for_each [of s e xs] loop.for_each_prev [of s e xs]
  by (simp_all add: evlist_loops evlist_inv_def run_op_Go)

end

text \<open>Operations that leave the descriptors alone.\<close>

locale evsel_fd_op = evsel_op +
  assumes op_fds: "open_fds (snd (op ev tr)) = open_fds tr"
    and op_open: "is_open (fst (op ev tr)) = is_open ev"
    and op_fd: "fd (fst (op ev tr)) = fd ev"
begin

lemma on_evsel_fds:
  "open_fds (history (on_evsel op p s)) = open_fds (history s)"
  "fds_of (on_evsel op p s) xs = fds_of s xs" "all_open (on_evsel op p s) xs = all_open s xs"
  by (auto simp: on_evsel_def Let_def case_prod_beta op_fds op_open op_fd fds_of_def all_open_def
      split: option.split) (metis option.inject)

lemma fold_op_acct:
  "acct B s xs \<Longrightarrow> acct B (fold (on_evsel op) ps s) xs"
  "all_open (fold (on_evsel op) ps s) xs = all_open s xs"
  by (induction ps arbitrary: s) (simp_all add: acct_def on_evsel_fds)

end

lemma enable_fds:
  "open_fds (snd (snd (prof_evsel__enable os ev tr))) = open_fds tr"
  "is_open (fst (snd (prof_evsel__enable os ev tr))) = is_open ev"
  "fd (fst (snd (prof_evsel__enable os ev tr))) = fd ev"
  by (auto simp: prof_evsel__enable_def Let_def sys_call_def)

interpretation dis: evsel_fd_op "prof_evsel__disable os" for os
  by unfold_locales (simp_all add: disable_fds disable_frame)

interpretation ena: evsel_fd_op "\<lambda>ev tr. snd (prof_evsel__enable os ev tr)" for os
  by unfold_locales (simp_all add: enable_fds)

subsection \<open>Closing, deleting\<close>

lemma close_fold:
  fixes os :: os
  assumes "\<forall>p \<in> set xs. \<exists>ev. evsels s p = Some ev \<and> evsel_ok ev" "distinct xs"
  defines "s' \<equiv> fold (on_evsel (prof_evsel__close os)) xs s"
  shows "open_fds (history s') = open_fds (history s) - fds_of s xs \<and> none_open s' xs"
  using assms(1,2) unfolding s'_def
proof (induction xs arbitrary: s)
  case (Cons p ps)
  let ?s1 = "on_evsel (prof_evsel__close os) p s"
  obtain ev where ev: "evsels s p = Some ev" "evsel_ok ev" using Cons.prems by auto
  have same: "q \<in> set ps \<Longrightarrow> evsels ?s1 q = evsels s q" for q
    using Cons.prems(2) by (intro cls.on_evsel_other) auto
  have "open_fds (history ?s1) = open_fds (history s) - (if is_open ev then {fd ev} else {})"
    using close_closes(2) [OF ev(2), of os "history s"] ev(1)
    by (simp add: on_evsel_def Let_def case_prod_beta)
  moreover have "evsels (fold (on_evsel (prof_evsel__close os)) ps ?s1) p
      = Some (fst (prof_evsel__close os ev (history s)))"
    using Cons.prems(2) cls.fold_op_other [of p ps os ?s1] cls.on_evsel_same [OF ev(1)] by simp
  moreover note close_closes(1) [OF ev(2), of os "history s"] fds_of_cong [OF same, of ps]
  ultimately show ?case
    using Cons.IH [of ?s1] Cons.prems same fds_of_Cons [OF ev(1), of ps] by (auto simp: none_open_def)
qed (simp add: none_open_def)

lemma unlink_delete_effect:
  assumes "evsels s p = Some ev" "\<not> is_open ev"
  shows "\<exists>s'. unlink_delete os p s = Go s' \<and> evsels s' = (evsels s)(p := None) \<and> evlists s' = evlists s
    \<and> live (history s') = live (history s) - {p} \<and> open_fds (history s') = open_fds (history s)"
  using assms by (simp add: unlink_delete_def prof_evsel__delete_def Let_def)

lemma unlink_delete_run:
  assumes "none_open s xs" "distinct xs"
  shows "\<exists>s'. run_body (unlink_delete os) xs s = Go s' \<and> evsels s' = (evsels s) |` (- set xs)
    \<and> evlists s' = evlists s \<and> live (history s') = live (history s) - set xs
    \<and> open_fds (history s') = open_fds (history s)"
  using assms
proof (induction xs arbitrary: s)
  case (Cons p ps)
  then obtain ev where "evsels s p = Some ev" "\<not> is_open ev" by (auto simp: none_open_def)
  then obtain s1 where s1: "unlink_delete os p s = Go s1" "evsels s1 = (evsels s)(p := None)"
      "evlists s1 = evlists s" "live (history s1) = live (history s) - {p}"
      "open_fds (history s1) = open_fds (history s)"
    using unlink_delete_effect by blast
  then have "none_open s1 ps" using Cons.prems by (auto simp: none_open_def)
  with Cons.IH Cons.prems obtain s' where "run_body (unlink_delete os) ps s1 = Go s'"
      "evsels s' = (evsels s1) |` (- set ps)" "evlists s' = evlists s1"
      "live (history s') = live (history s1) - set ps" "open_fds (history s') = open_fds (history s1)"
    by auto blast
  with s1 show ?case by (auto simp: restrict_map_def fun_eq_iff)
qed (simp add: restrict_map_def)

lemma evlist_delete_effect:
  assumes inv: "evlist_inv s e xs"
  shows "\<exists>s'. prof_evlist__delete os e s = Some s' \<and> evsels s' = (evsels s) |` (- set xs)
    \<and> evlists s' = (evlists s)(e := None) \<and> live (history s') = live (history s) - set (e # xs)
    \<and> open_fds (history s') = open_fds (history s) - fds_of s xs"
proof -
  let ?s1 = "fold (on_evsel (prof_evsel__close os)) (rev xs) s"
  have d: "distinct xs" using inv by (simp add: evlist_inv_def dlist_def)
  have c: "open_fds (history ?s1) = open_fds (history s) - fds_of s xs" "none_open ?s1 xs"
    using close_fold [of "rev xs" s os] inv d
    by (auto simp: evlist_inv_def none_open_def fds_of_def intro: events_ok_member)
  have "evlist_inv ?s1 e xs" using inv by (rule cls.fold_op_inv)
  then have safe: "evlist__for_each_safe e (unlink_delete os) ?s1 = Some (run_body (unlink_delete os) xs ?s1)"
    using unl.for_each_safe [of ?s1 e xs] by (simp add: evlist_loops evlist_inv_def)
  obtain s2 where s2: "run_body (unlink_delete os) xs ?s1 = Go s2" "evsels s2 = (evsels ?s1) |` (- set xs)"
      "evlists s2 = evlists ?s1" "live (history s2) = live (history ?s1) - set xs"
      "open_fds (history s2) = open_fds (history ?s1)"
    using unlink_delete_run [OF c(2) d] by blast
  have "evsels s2 = (evsels s) |` (- set xs)"
    using s2(2) cls.fold_op_other [of _ "rev xs" os s] by (auto simp: restrict_map_def fun_eq_iff)
  with s2 c(1) safe show ?thesis
    by (auto simp: prof_evlist__delete_def cls.for_each_op(2) [OF inv])
qed

subsection \<open>Starting\<close>

lemma raise_limit_live: "live (snd (raise_limit os k tr)) = live tr"
  by (auto simp: raise_limit_def Let_def sys_call_def)

lemma open_retry_live: "live (snd (snd (open_retry os k ev pid tr))) = live tr"
proof (induction os k ev pid tr rule: open_retry.induct)
  case (1 os k ev pid tr)
  let ?r = "os tr (PerfEventOpen (evsel_attr ev) pid)"
  let ?tr1 = "tr @ [(PerfEventOpen (evsel_attr ev) pid, ?r)]"
  obtain ok tr2 where rl: "raise_limit os k ?tr1 = (ok, tr2)" by fastforce
  have "live tr2 = live tr" using raise_limit_live [of os k ?tr1] rl by simp
  then show ?case
    using "1.IH" [OF refl refl refl _ _ rl [symmetric] refl] rl
    by (subst open_retry.simps) (simp add: Let_def)
qed

lemma open_body_effect:
  assumes ev: "events_ok s e xs" and p: "p \<in> set xs" and a: "acct B s xs"
    and os: "fresh_fds os" "errno_doc os"
    and st: "s' = flow_state (open_body os pid p s)"
  shows "events_ok s' e xs \<and> acct B s' xs \<and> evlists s' = evlists s \<and> nodes s' = nodes s
    \<and> live (history s') = live (history s)
    \<and> (open_body os pid p s = Go s' \<longrightarrow> (\<exists>ev. evsels s' p = Some ev \<and> is_open ev))
    \<and> (\<forall>q ev. evsels s q = Some ev \<and> is_open ev \<longrightarrow> evsels s' q = Some ev)"
proof -
  obtain v where v: "evsels s p = Some v" "evsel_ok v" using events_ok_member [OF ev p] by blast
  show ?thesis
  proof (cases "is_open v")
    case True
    then show ?thesis using v ev a st by (simp add: open_body_def)
  next
    case False
    obtain r v' tr' where o: "prof_evsel__open os v pid (history s) = (r, v', tr')" by (metis prod_cases3)
    obtain f b where f: "v' = v\<lparr>fd := f, is_open := b\<rparr>"
      using open_retry_frame [of os 0 v pid "history s"] o by (auto simp: prof_evsel__open_def)
    have lv: "live tr' = live (history s)"
      using open_retry_live [of os 0 v pid "history s"] o by (simp add: prof_evsel__open_def)
    have ok: "evsel_ok v'" using open_ok [OF os(2) v(2) False o] .
    have res: "(r = 0 \<and> is_open v' \<and> open_fds tr' = insert (fd v') (open_fds (history s))
          \<and> fd v' \<notin> open_fds (history s)) \<or> (r < 0 \<and> \<not> is_open v' \<and> open_fds tr' = open_fds (history s))"
      using open_retry_result [OF os(2), of 0 v pid "history s" r v' tr'] o os(1)
      unfolding prof_evsel__open_def by blast
    have s': "s' = s\<lparr>evsels := (evsels s)(p \<mapsto> v'), history := tr'\<rparr>"
      "open_body os pid p s = (if r < 0 then Leave s' else Go s')"
      using st v False o by (auto simp: open_body_def Let_def)
    have fds: "fds_of s' xs = (if is_open v' then {fd v'} else {}) \<union> fds_of s xs"
      using p v(1) False unfolding s'(1) fds_of_def by (auto split: if_splits) (metis option.inject)+
    have "acct B s' xs" using a res unfolding acct_def fds by (auto simp: s'(1))
    moreover have "events_ok s' e xs"
      by (rule events_ok_update [OF ev v(1), where ev' = v']) (use s'(1) ok f in simp_all)
    ultimately show ?thesis using res False v(1) lv by (auto simp: s')
  qed
qed

lemma open_run:
  assumes "events_ok s e xs" "set ps \<subseteq> set xs" "acct B s xs" "fresh_fds os" "errno_doc os"
    "s' = flow_state (run_body (open_body os pid) ps s)"
  shows "events_ok s' e xs \<and> acct B s' xs \<and> evlists s' = evlists s \<and> nodes s' = nodes s
    \<and> live (history s') = live (history s)
    \<and> (run_body (open_body os pid) ps s = Go s' \<longrightarrow> all_open s' ps)
    \<and> (\<forall>q ev. evsels s q = Some ev \<and> is_open ev \<longrightarrow> evsels s' q = Some ev)"
  using assms
proof (induction ps arbitrary: s)
  case Nil
  then show ?case by (simp add: all_open_def)
next
  case (Cons p ps)
  let ?s1 = "flow_state (open_body os pid p s)"
  note one = open_body_effect [OF Cons.prems(1) _ Cons.prems(3,4,5) refl, of p pid]
  show ?case
  proof (cases "open_body os pid p s")
    case (Leave s1)
    then show ?thesis using one Cons.prems by (simp add: list.set_intros)
  next
    case (Go s1)
    then have o: "events_ok s1 e xs" "acct B s1 xs" "evlists s1 = evlists s" "nodes s1 = nodes s"
        "live (history s1) = live (history s)" "\<exists>ev. evsels s1 p = Some ev \<and> is_open ev"
        "\<forall>q ev. evsels s q = Some ev \<and> is_open ev \<longrightarrow> evsels s1 q = Some ev"
      using one Cons.prems by simp_all
    have rn: "run_body (open_body os pid) (p # ps) s = run_body (open_body os pid) ps s1"
      using Go by simp
    have ps: "set ps \<subseteq> set xs" using Cons.prems(2) by simp
    note ih = Cons.IH [OF o(1) ps o(2) Cons.prems(4,5) Cons.prems(6) [unfolded rn]]
    have "all_open s' ps \<Longrightarrow> all_open s' (p # ps)" using ih o(6) by (auto simp: all_open_def)
    then show ?thesis unfolding rn by (intro conjI; use ih o(3,4,5,7) in metis)
  qed
qed

lemma evlist_start_effect:
  assumes inv: "evlist_inv s e xs" and a: "acct B s xs" and os: "fresh_fds os" "errno_doc os"
  shows "\<exists>r s'. prof_evlist__start os e s = Some (r, s') \<and> evlist_inv s' e xs \<and> acct B s' xs
    \<and> live (history s') = live (history s)
    \<and> (r = 0 \<and> all_open s' xs \<or> r = - 1 \<and> none_open s' xs \<and> open_fds (history s') = B)"
proof -
  obtain el where el: "evlists s e = Some el" using inv by (auto simp: evlist_inv_def)
  let ?f = "run_body (open_body os (evlist_pid el)) xs s" and ?s1 = "flow_state (run_body (open_body os (evlist_pid el)) xs s)"
  have ev: "events_ok s e xs" using inv by (simp add: evlist_inv_def)
  have lp: "evlist__for_each e (open_body os (evlist_pid el)) s = Some ?f"
    using opn.for_each [of s e xs os "evlist_pid el"] inv by (simp add: evlist_loops evlist_inv_def)
  note run = open_run [OF ev subset_refl a os refl, of "evlist_pid el"]
  then have inv1: "evlist_inv ?s1 e xs" using inv by (auto simp: evlist_inv_def)
  show ?thesis
  proof (cases ?f)
    case (Go s1)
    let ?s2 = "fold (on_evsel (\<lambda>ev tr. snd (prof_evsel__enable os ev tr))) xs s1"
    have "prof_evlist__start os e s = Some (0, ?s2)"
      using el lp Go inv1 by (simp add: prof_evlist__start_def prof_evlist__enable_def ena.for_each_op(1))
    then show ?thesis
      using run inv1 Go ena.fold_op_inv [where s = s1] ena.fold_op_acct [where s = s1] by simp
  next
    case (Leave s1)
    let ?s2 = "fold (on_evsel (prof_evsel__close os)) xs s1"
    have s2: "prof_evlist__start os e s = Some (- 1, ?s2)"
      using el lp Leave inv1 by (simp add: prof_evlist__start_def close_if_open_eq cls.for_each_op(1))
    have c: "open_fds (history ?s2) = open_fds (history s1) - fds_of s1 xs" "none_open ?s2 xs"
      using close_fold [of xs s1 os] inv1 Leave
      by (auto simp: evlist_inv_def dlist_def intro: events_ok_member)
    have "acct B s1 xs" using run Leave by simp
    then have "open_fds (history ?s2) = B" using c(1) by (auto simp: acct_def)
    then show ?thesis
      using run inv1 Leave s2 c cls.fold_op_inv [where s = s1] none_open_fds [OF c(2)]
      by (simp add: acct_def)
  qed
qed

lemma evlist_stop_effect:
  assumes "evlist_inv s e xs" "acct B s xs"
  shows "\<exists>s'. prof_evlist__stop os e s = Some s' \<and> evlist_inv s' e xs \<and> acct B s' xs
    \<and> live (history s') = live (history s)"
  using assms dis.fold_op_inv [where s = s] dis.fold_op_acct(1) [where s = s]
  by (simp add: prof_evlist__stop_def dis.for_each_op(1) [OF assms(1)])

subsection \<open>Splitting the event description\<close>

text \<open>The pieces between commas, and which of them the loop of \<^verbatim>\<open>prof_evlist__add_from_str\<close>
  hands to \<^verbatim>\<open>__prof_evlist__add\<close>: all of them, except that a last piece of one character is
  skipped and that the last event is taken twice when the description ends in a comma.\<close>

fun split_on :: "char \<Rightarrow> string \<Rightarrow> string list" where
  "split_on c [] = [[]]"
| "split_on c (x # xs) =
     (if x = c then [] # split_on c xs
      else (case split_on c xs of [] \<Rightarrow> [[x]] | y # ys \<Rightarrow> (x # y) # ys))"

definition added_events :: "string \<Rightarrow> string list" where
  "added_events str =
     (let ps = split_on (CHR '','') str
      in if last ps = [] then butlast ps @ (if last (butlast ps) \<noteq> [] then [last (butlast ps)] else [])
         else if length (last ps) = 1 then butlast ps
         else ps)"

lemma split_on_no: "c \<notin> set a \<Longrightarrow> split_on c a = [a]"
  by (induction a) auto

lemma split_on_append: "c \<notin> set a \<Longrightarrow> split_on c (a @ c # b) = a # split_on c b"
  by (induction a) auto

lemma split_on_not_Nil [simp]: "split_on c a \<noteq> []"
  by (induction a) (auto split: list.splits)

lemma split_on_single: "split_on c a = [[]] \<longleftrightarrow> a = []"
  by (cases a) (auto split: list.splits)

lemma added_events_none: "CHR '','' \<notin> set a \<Longrightarrow> a \<noteq> [] \<Longrightarrow> added_events a = (if length a = 1 then [] else [a])"
  by (simp add: added_events_def split_on_no)

lemma added_events_end:
  "CHR '','' \<notin> set a \<Longrightarrow> added_events (a @ [CHR '','']) = a # (if a \<noteq> [] then [a] else [])"
  by (simp add: added_events_def split_on_append)

lemma added_events_more:
  assumes "CHR '','' \<notin> set a" "b \<noteq> []"
  shows "added_events (a @ CHR '','' # b) = a # added_events b"
proof -
  have "butlast (split_on (CHR '','') b) \<noteq> []" if "last (split_on (CHR '','') b) = []"
    using that assms(2) split_on_single [of "CHR '',''" b] append_butlast_last_id [of "split_on (CHR '','') b"]
    by auto
  then show ?thesis using assms by (auto simp: added_events_def split_on_append Let_def)
qed

definition add_all :: "os \<Rightarrow> abi \<Rightarrow> addr \<Rightarrow> string list \<Rightarrow> int \<times> evstate \<Rightarrow> int \<times> evstate" where
  "add_all os abi e ps =
     fold (\<lambda>p (n, s). let (m, s') = evlist_add os abi e p s in (n + m, s')) ps"

definition finish_add :: "os \<Rightarrow> abi \<Rightarrow> addr \<Rightarrow> nat \<Rightarrow> string \<times> nat \<times> int \<times> evstate \<Rightarrow> int \<times> evstate" where
  "finish_add os abi e len =
     (\<lambda>(tmp, pcur, added, s).
        if pcur < len - 1 then let (n, s2) = evlist_add os abi e (cstr_at tmp pcur) s in (added + n, s2)
        else (added, s))"

lemma cstr_at_clean: "NUL \<notin> set (drop p buf) \<Longrightarrow> cstr_at buf p = drop p buf"
  by (auto simp: cstr_at_def takeWhile_eq_all_conv)

lemma strchr_at_None:
  assumes "strchr_at buf p c = None" "NUL \<notin> set (drop p buf)"
  shows "c \<notin> set (drop p buf)"
proof
  assume "c \<in> set (drop p buf)"
  then have "length (takeWhile (\<lambda>x. x \<noteq> c) (drop p buf)) < length (drop p buf)"
    by (rule takeWhile_neq_shorter)
  then show False using assms by (simp add: strchr_at_def cstr_at_clean)
qed

lemma strchr_at_split:
  assumes "strchr_at buf p c = Some q" "c \<noteq> NUL" "NUL \<notin> set (drop p buf)"
  obtains a b where "drop p buf = a @ c # b" "c \<notin> set a" "q = p + length a"
    "cstr_at (buf[q := NUL]) p = a" "drop (q + 1) (buf[q := NUL]) = b"
proof -
  note S = strchr_at_Some [OF assms(1,2)]
  let ?a = "take (q - p) (drop p buf)" and ?b = "drop (q + 1) buf"
  have d: "drop p buf = ?a @ c # ?b"
    using S id_take_nth_drop [of "q - p" "drop p buf"] by (simp add: add.commute)
  have c: "c \<notin> set ?a" unfolding S(4) by (auto dest: set_takeWhileD)
  have l: "q = p + length ?a" using S(1,2) by (simp only: length_take length_drop)
  have "drop p (buf[q := NUL]) = ?a @ NUL # ?b"
    using d S(1,2) by (metis drop_update_swap l add_diff_cancel_left' list_update_length)
  moreover have "NUL \<notin> set ?a" using assms(3) in_set_takeD by fastforce
  ultimately have "cstr_at (buf[q := NUL]) p = ?a"
    by (simp add: cstr_at_def takeWhile_append takeWhile_eq_all_conv)
  with that d c l show thesis by simp
qed

lemma add_loop_finish:
  assumes "NUL \<notin> set (drop pcur tmp)" "pcur < length tmp"
  shows "finish_add os abi e (length tmp) (add_loop os abi e (length tmp) tmp pcur added s)
    = add_all os abi e (added_events (drop pcur tmp)) (added, s)"
  using assms
proof (induction "count_list tmp (CHR '','')" arbitrary: tmp pcur added s rule: less_induct)
  case less
  show ?case
  proof (cases "strchr_at tmp pcur (CHR '','')")
    case None
    have "drop pcur tmp \<noteq> []" "length (drop pcur tmp) = length tmp - pcur" using less.prems by auto
    then show ?thesis
      using None added_events_none [of "drop pcur tmp"] strchr_at_None [OF None less.prems(1)] less.prems
      by (subst add_loop.simps) (auto simp: finish_add_def add_all_def cstr_at_clean)
  next
    case (Some q)
    then obtain a b where ab: "drop pcur tmp = a @ CHR '','' # b" "CHR '','' \<notin> set a" "q = pcur + length a"
        "cstr_at (tmp[q := NUL]) pcur = a" "drop (q + 1) (tmp[q := NUL]) = b"
      using less.prems by (auto elim: strchr_at_split simp: NUL_def)
    obtain n s1 where n: "evlist_add os abi e a s = (n, s1)" by fastforce
    have len: "length tmp = q + 1 + length b"
      using arg_cong [OF ab(1), of length] less.prems(2) ab(3) by simp
    have lp: "add_loop os abi e (length tmp) tmp pcur added s =
        (if q = length tmp - 1 then (tmp[q := NUL], pcur, added + n, s1)
         else add_loop os abi e (length tmp) (tmp[q := NUL]) (q + 1) (added + n) s1)"
      using Some ab(4) n by (subst add_loop.simps) (simp add: Let_def)
    show ?thesis
    proof (cases "b = []")
      case True
      then show ?thesis using lp len ab n
        by (auto simp: finish_add_def add_all_def added_events_end)
    next
      case False
      have "count_list (tmp[q := NUL]) (CHR '','') < count_list tmp (CHR '','')"
        using strchr_at_Some [OF Some] count_list_update [of q tmp "CHR '',''" NUL] by (simp add: NUL_def)
      moreover have "NUL \<notin> set b" using less.prems(1) ab(1) by simp
      ultimately show ?thesis
        using less.hyps [of "tmp[q := NUL]" "q + 1" "added + n" s1] False lp len ab n
        by (simp add: added_events_more add_all_def)
    qed
  qed
qed

lemma add_from_str_events:
  "str \<noteq> [] \<Longrightarrow> NUL \<notin> set str \<Longrightarrow>
     prof_evlist__add_from_str os abi e str s = add_all os abi e (added_events str) (0, s)"
  using add_loop_finish [of 0 str os abi e 0 s]
  by (simp add: prof_evlist__add_from_str_def finish_add_def case_prod_beta Let_def)

subsection \<open>Adding events keeps the invariant\<close>

definition malloc_succeeds :: "os \<Rightarrow> bool" where
  "malloc_succeeds os \<longleftrightarrow> (\<forall>tr n. 0 < ret (os tr (Malloc n)))"

lemma evlist_add_effect:
  assumes inv: "evlist_inv s e xs" and os: "fresh_malloc os" and add: "evlist_add os abi e str s = (r, s')"
  shows "(\<exists>nm attr p. prof_evsel__parse abi str = Some (nm, attr) \<and> r = 1 \<and> p \<notin> live (history s)
         \<and> evlist_inv s' e (xs @ [p]) \<and> live (history s') = insert p (live (history s))
         \<and> open_fds (history s') = open_fds (history s)
         \<and> evsels s' = (evsels s)(p \<mapsto> zero_evsel\<lparr>name := nm, idx := int (length xs), evsel_attr := attr, evsel_evlist := e\<rparr>))
     \<or> (r = 0 \<and> evlist_inv s' e xs \<and> live (history s') = live (history s)
         \<and> open_fds (history s') = open_fds (history s) \<and> evsels s' = evsels s
         \<and> (malloc_succeeds os \<longrightarrow> prof_evsel__parse abi str = None))"
proof (cases "prof_evsel__parse abi str")
  case None
  then show ?thesis using add inv by (simp add: evlist_add_def)
next
  case (Some na)
  obtain nm attr where na: "na = (nm, attr)" by fastforce
  obtain p tr where z: "zalloc os (sizeof_evsel abi) (history s) = (p, tr)" by fastforce
  have o: "open_fds tr = open_fds (history s)"
    using z by (auto simp: zalloc_def Let_def sys_call_def split: if_splits)
  show ?thesis
  proof (cases "p = NULL")
    case True
    then have "live tr = live (history s)" "ret (os (history s) (Malloc (sizeof_evsel abi))) \<le> 0"
      using z by (auto simp: zalloc_def Let_def sys_call_def split: if_splits)
    moreover have "s' = s\<lparr>history := tr\<rparr>" "r = 0"
      using add Some na z True by (simp_all add: evlist_add_def prof_evsel__new_def)
    moreover have "\<not> malloc_succeeds os" using calculation(2) unfolding malloc_succeeds_def by (meson not_le)
    ultimately show ?thesis using inv o by (auto simp: evlist_inv_def events_ok_def)
  next
    case False
    note fr = zalloc_fresh [OF os z False]
    have new: "p \<notin> set (e # xs)" using fr inv by (auto simp: evlist_inv_def)
    obtain el where el: "evlists s e = Some el" "nr_entries el = int (length xs)"
      using inv by (auto simp: evlist_inv_def)
    have s': "s' = \<lparr>nodes = list_add_tail p e (INIT_LIST_HEAD p (nodes s)),
        evsels = (evsels s)(p \<mapsto> zero_evsel\<lparr>name := nm, idx := int (length xs), evsel_attr := attr, evsel_evlist := e\<rparr>),
        evlists = (evlists s)(e \<mapsto> el\<lparr>nr_entries := int (length xs) + 1\<rparr>), history = tr\<rparr>" "r = 1"
      using add Some na z False el
      by (auto simp: evlist_add_def prof_evsel__new_def prof_evsel__init_def Let_def zero_evsel_def)
    have "dlist (INIT_LIST_HEAD p (nodes s)) e xs"
      using inv new by (auto simp: evlist_inv_def intro: dlist_INIT_other)
    then have "dlist (nodes s') e (xs @ [p])" using new s'(1) by (simp add: lh.rep_add_tail)
    moreover have "events_ok s' e (xs @ [p])"
      using inv new s'(1) by (auto simp: evlist_inv_def events_ok_def nth_append less_Suc_eq evsel_ok_def zero_evsel_def)
    ultimately have "evlist_inv s' e (xs @ [p])"
      using inv fr False s'(1) by (auto simp: evlist_inv_def)
    then show ?thesis using Some na fr o s' by auto
  qed
qed

text \<open>The names and attributes of the events at \<open>xs\<close>: the list as its users see it.\<close>

definition contents :: "evstate \<Rightarrow> addr list \<Rightarrow> (string \<times> perf_event_attr) option list" where
  "contents s xs = map (\<lambda>p. map_option (\<lambda>ev. (name ev, evsel_attr ev)) (evsels s p)) xs"

lemma contents_cong: "(\<And>p. p \<in> set xs \<Longrightarrow> evsels s' p = evsels s p) \<Longrightarrow> contents s' xs = contents s xs"
  by (simp add: contents_def)

lemma add_all_Cons:
  "add_all os abi e (p # ps) (n, s) =
     add_all os abi e ps (n + fst (evlist_add os abi e p s), snd (evlist_add os abi e p s))"
  by (simp add: add_all_def case_prod_beta Let_def)

text \<open>What a sequence of additions that created the events \<open>ys\<close> did.\<close>

definition grown :: "abi \<Rightarrow> addr \<Rightarrow> addr list \<Rightarrow> string list \<Rightarrow> os \<Rightarrow> evstate \<Rightarrow> addr list \<Rightarrow> evstate \<Rightarrow> bool" where
  "grown abi e xs ps os s ys s' \<longleftrightarrow>
     evlist_inv s' e (xs @ ys) \<and> set ys \<inter> live (history s) = {}
     \<and> live (history s') = set ys \<union> live (history s) \<and> open_fds (history s') = open_fds (history s)
     \<and> (\<forall>p. p \<notin> set ys \<longrightarrow> evsels s' p = evsels s p) \<and> none_open s' ys
     \<and> (malloc_succeeds os \<longrightarrow> contents s' ys = map Some (List.map_filter (prof_evsel__parse abi) ps))"

lemma grown_step:
  assumes "evlist_inv s e xs" "fresh_malloc os" "evlist_add os abi e p s = (r, s')"
  shows "\<exists>ys. grown abi e xs [p] os s ys s' \<and> r = int (length ys)"
  using evlist_add_effect [OF assms]
proof (elim disjE exE conjE)
  fix nm attr q
  assume "prof_evsel__parse abi p = Some (nm, attr)" "r = 1" "q \<notin> live (history s)"
    "evlist_inv s' e (xs @ [q])" "live (history s') = insert q (live (history s))"
    "open_fds (history s') = open_fds (history s)"
    "evsels s' = (evsels s)(q \<mapsto> zero_evsel\<lparr>name := nm, idx := int (length xs), evsel_attr := attr, evsel_evlist := e\<rparr>)"
  then show ?thesis
    by (intro exI [of _ "[q]"])
      (simp add: grown_def none_open_def contents_def List.map_filter_def zero_evsel_def)
next
  assume "malloc_succeeds os \<longrightarrow> prof_evsel__parse abi p = None" "r = 0"
    "evlist_inv s' e xs" "live (history s') = live (history s)"
    "open_fds (history s') = open_fds (history s)" "evsels s' = evsels s"
  then show ?thesis
    by (intro exI [of _ "[]"])
      (auto simp: grown_def none_open_def contents_def List.map_filter_def)
qed

lemma grown_append:
  assumes "grown abi e xs ps os s ys s1" "grown abi e (xs @ ys) qs os s1 zs s2"
  shows "grown abi e xs (ps @ qs) os s (ys @ zs) s2"
proof -
  have "set ys \<inter> set zs = {}" using assms by (auto simp: grown_def)
  then have same: "\<And>p. p \<in> set ys \<Longrightarrow> evsels s2 p = evsels s1 p" using assms by (auto simp: grown_def)
  then have "none_open s2 (ys @ zs)" using assms by (auto simp: grown_def none_open_def)
  moreover have "contents s2 (ys @ zs) = contents s1 ys @ contents s2 zs"
    using contents_cong [OF same] by (simp add: contents_def)
  ultimately show ?thesis
    using assms by (auto simp: grown_def List.map_filter_def)
qed

lemma add_all_grown:
  "evlist_inv s e xs \<Longrightarrow> fresh_malloc os \<Longrightarrow>
     \<exists>ys s'. add_all os abi e ps (n, s) = (n + int (length ys), s') \<and> grown abi e xs ps os s ys s'"
proof (induction ps arbitrary: n s xs)
  case Nil
  then show ?case
    by (intro exI [of _ "[]"] exI [of _ s]) (simp add: add_all_def grown_def none_open_def contents_def List.map_filter_def)
next
  case (Cons p ps)
  obtain r s1 where a: "evlist_add os abi e p s = (r, s1)" by fastforce
  then obtain ys where y: "grown abi e xs [p] os s ys s1" "r = int (length ys)"
    using grown_step Cons.prems by blast
  then obtain zs s2 where z: "add_all os abi e ps (n + r, s1) = (n + r + int (length zs), s2)"
      "grown abi e (xs @ ys) ps os s1 zs s2"
    using Cons.IH [of s1 "xs @ ys" "n + r"] Cons.prems by (auto simp: grown_def)
  show ?case
    using grown_append [OF y(1) z(2)] z(1) y(2) a
    by (intro exI [of _ "ys @ zs"] exI [of _ s2]) (simp add: add_all_Cons add.assoc)
qed

lemma evlist_new_effect:
  assumes "fresh_malloc os" "prof_evlist__new os abi pid s = Inr (e, s')"
  shows "evlist_inv s' e []" "e \<notin> live (history s)" "live (history s') = insert e (live (history s))"
    "open_fds (history s') = open_fds (history s)" "evsels s' = evsels s"
proof -
  obtain tr where z: "zalloc os (sizeof_evlist abi) (history s) = (e, tr)" and e: "e \<noteq> NULL"
    and s': "s' = s\<lparr>history := tr, nodes := INIT_LIST_HEAD e (nodes s),
        evlists := (evlists s)(e \<mapsto> \<lparr>nr_entries = 0, evlist_pid = pid\<rparr>)\<rparr>"
    using assms(2) by (auto simp: prof_evlist__new_def prof_evlist__init_def Let_def split: prod.splits if_splits)
  note fr = zalloc_fresh [OF assms(1) z e]
  have "open_fds tr = open_fds (history s)"
    using z by (auto simp: zalloc_def Let_def sys_call_def split: if_splits)
  with fr e s' show "evlist_inv s' e []" "e \<notin> live (history s)" "live (history s') = insert e (live (history s))"
    "open_fds (history s') = open_fds (history s)" "evsels s' = evsels s"
    by (simp_all add: evlist_inv_def events_ok_def lh.rep_init)
qed

subsection \<open>Properties\<close>

definition example_evlist :: evstate where
  "example_evlist = \<lparr>
     nodes = fold (\<lambda>n. list_add_tail n 1) [2, 3] (INIT_LIST_HEAD 1 (\<lambda>_. \<lparr>next_ptr = 0, prev_ptr = 0\<rparr>)),
     evsels = [2 \<mapsto> zero_evsel\<lparr>evsel_evlist := 1\<rparr>, 3 \<mapsto> zero_evsel\<lparr>evsel_evlist := 1, idx := 1\<rparr>],
     evlists = [1 \<mapsto> \<lparr>nr_entries = 2, evlist_pid = 42\<rparr>],
     history = map (\<lambda>a. (Malloc 8, \<lparr>ret = a, err = 0, out = [], bytes = []\<rparr>)) [1, 2, 3]\<rparr>"

abbreviation (input) example_abi :: abi where
  "example_abi \<equiv> \<lparr>sizeof_attr = 112, sizeof_evsel = 200, sizeof_evlist = 40\<rparr>"

lemma example_evlist_inv: "evlist_inv example_evlist 1 [2, 3]"
proof -
  have "dlist (nodes example_evlist) 1 [2, 3]"
    using lh.add_tail_all [OF lh.rep_init [of 1 "\<lambda>_. \<lparr>next_ptr = 0, prev_ptr = 0\<rparr>"], of "[2, 3]"]
    by (simp add: example_evlist_def)
  then show ?thesis
    by (auto simp: evlist_inv_def events_ok_def example_evlist_def less_Suc_eq evsel_ok_def zero_evsel_def
        live_def)
qed

lemma example_evlist_acct: "acct {} example_evlist [2, 3]"
  by (auto simp: acct_def fds_of_def example_evlist_def zero_evsel_def open_fds_def)

lemma calm_errno_doc: "errno_doc calm_kernel"
  by (simp add: errno_doc_def calm_kernel_def)

lemma calm_malloc_succeeds: "malloc_succeeds calm_kernel"
  by (simp add: malloc_succeeds_def calm_kernel_def)

text \<open>C5: \<^verbatim>\<open>prof_evlist__start\<close> always returns, and it is all or nothing: it returns 0 with every
  event of the list open, or -1 with no event open and the descriptors of the process exactly those
  open before, whichever of the openings failed.  The list itself is unchanged.\<close>

theorem evlist_start_all_or_nothing:
  assumes "evlist_inv s e xs" "acct B s xs" "fresh_fds os" "errno_doc os"
  shows "\<exists>r s'. prof_evlist__start os e s = Some (r, s') \<and> evlist_inv s' e xs
    \<and> (r = 0 \<and> all_open s' xs \<and> open_fds (history s') = B \<union> fds_of s' xs
       \<or> r = - 1 \<and> none_open s' xs \<and> open_fds (history s') = B)"
  using evlist_start_effect [OF assms] by (auto simp: acct_def)

theorem evlist_start_all_or_nothing_witness:
  "\<exists>r s'. prof_evlist__start calm_kernel 1 example_evlist = Some (r, s') \<and> evlist_inv s' 1 [2, 3]"
  using evlist_start_all_or_nothing
    [OF example_evlist_inv example_evlist_acct calm_fresh_fds calm_errno_doc] by blast





text \<open>As long as allocation succeeds, \<^verbatim>\<open>prof_evlist__add_from_str\<close> appends one event for
  each piece of the description (\<open>added_events\<close>) whose name is in the event table, in the order of
  the description, with the parsed attributes, and returns their number; unknown names are skipped and
  earlier events stay as they were.\<close>

lemma add_from_str_appends_events:
  assumes "evlist_inv s e xs" "fresh_malloc os" "malloc_succeeds os" "str \<noteq> []" "NUL \<notin> set str"
  shows "\<exists>ys s'. prof_evlist__add_from_str os abi e str s = (int (length ys), s')
    \<and> evlist_inv s' e (xs @ ys) \<and> contents s' xs = contents s xs
    \<and> contents s' ys = map Some (List.map_filter (prof_evsel__parse abi) (added_events str))"
proof -
  obtain ys s' where g: "add_all os abi e (added_events str) (0, s) = (int (length ys), s')"
      "grown abi e xs (added_events str) os s ys s'"
    using add_all_grown [OF assms(1,2), of abi "added_events str" 0] by auto
  have "contents s' xs = contents s xs"
    using g(2) assms(1) by (intro contents_cong) (auto simp: grown_def evlist_inv_def)
  then show ?thesis using g assms(3) add_from_str_events [OF assms(4,5)] by (auto simp: grown_def)
qed

lemma add_from_str_appends_events_example:
  "\<exists>ys s'. prof_evlist__add_from_str calm_kernel example_abi 1 ''instructions,no-such-event,cpu-cycles:u'' example_evlist
       = (int (length ys), s') \<and> evlist_inv s' 1 ([2, 3] @ ys)"
  using add_from_str_appends_events [OF example_evlist_inv calm_fresh_malloc calm_malloc_succeeds,
      of "''instructions,no-such-event,cpu-cycles:u''" example_abi] by (auto simp: NUL_def)

text \<open>A description that ends in a comma adds its last event twice, and one that consists of
  a single character adds nothing, although the usage comment knows neither case.\<close>

lemma add_from_str_trailing_comma:
  assumes "evlist_inv s e xs" "fresh_malloc os" "malloc_succeeds os"
    and "prof_evsel__parse abi str = Some na" "str \<noteq> []" "NUL \<notin> set str" "CHR '','' \<notin> set str"
    and "c \<noteq> NUL" "c \<noteq> CHR '',''"
  shows "(\<exists>p q s'. prof_evlist__add_from_str os abi e (str @ '','') s = (2, s')
      \<and> evlist_inv s' e (xs @ [p, q]) \<and> contents s' [p, q] = [Some na, Some na])
    \<and> prof_evlist__add_from_str os abi e [c] s = (0, s)"
proof -
  obtain ys s' where g: "add_all os abi e (added_events (str @ '','')) (0, s) = (int (length ys), s')"
      "grown abi e xs (added_events (str @ '','')) os s ys s'"
    using add_all_grown [OF assms(1,2), of abi "added_events (str @ '','')" 0] by auto
  have ae: "added_events (str @ '','') = [str, str]" using assms(5,7) added_events_end by simp
  then have c: "contents s' ys = [Some na, Some na]"
    using g(2) assms(3,4) by (simp add: grown_def List.map_filter_def)
  then obtain p q where ys: "ys = [p, q]" by (auto simp: contents_def)
  have "prof_evlist__add_from_str os abi e [c] s = (0, s)"
    using assms(8,9) add_from_str_events [of "[c]" os abi e s] added_events_none [of "[c]"]
    by (simp add: add_all_def)
  moreover have "prof_evlist__add_from_str os abi e (str @ '','') s = (2, s')"
    using g(1) ys assms(6) add_from_str_events [of "str @ '',''" os abi e s] by (simp add: NUL_def)
  ultimately show ?thesis using g(2) c ys unfolding grown_def by blast
qed

lemma add_from_str_trailing_comma_example:
  "\<exists>s'. prof_evlist__add_from_str calm_kernel example_abi 1 (pmu_name (pmu_list ! 1) @ '','') example_evlist = (2, s')"
proof -
  have "prof_evsel__parse example_abi (pmu_name (pmu_list ! 1)) \<noteq> None"
    by (simp add: pmu_table pmu_entry_def prof_evsel__parse_def prof_pmu__find_def Let_def)
  then obtain na where "prof_evsel__parse example_abi (pmu_name (pmu_list ! 1)) = Some na" by blast
  then show ?thesis
    using add_from_str_trailing_comma [OF example_evlist_inv calm_fresh_malloc calm_malloc_succeeds,
        of example_abi "pmu_name (pmu_list ! 1)" na "CHR ''x''"]
    by (auto simp: NUL_def pmu_table pmu_entry_def)
qed

end
