(* ===== verification/Isolation.thy ===== *)
theory Isolation
  imports Evlist
begin

section \<open>Event lists of different threads do not interfere\<close>

text \<open>
  Every thread of the profiled program has its own event list, all of them in one address space.
  An operation on the list at \<open>e\<close> with the events \<open>xs\<close> changes memory only at these addresses and
  at addresses it has just allocated; the invariant of any other list therefore survives it.
\<close>

definition untouched :: "evstate \<Rightarrow> evstate \<Rightarrow> addr set \<Rightarrow> bool" where
  "untouched s s' A \<longleftrightarrow>
     (\<forall>q. q \<notin> A \<longrightarrow> nodes s' q = nodes s q \<and> evsels s' q = evsels s q \<and> evlists s' q = evlists s q)"

lemma untouched_refl [simp, intro]: "untouched s s A"
  by (simp add: untouched_def)

lemma untouched_trans: "untouched s s1 A \<Longrightarrow> untouched s1 s2 A \<Longrightarrow> untouched s s2 A"
  by (simp add: untouched_def)

lemma untouched_mono: "untouched s s' A \<Longrightarrow> A \<subseteq> B \<Longrightarrow> untouched s s' B"
  by (auto simp: untouched_def)

lemma evlist_inv_untouched:
  assumes "evlist_inv s e xs" "untouched s s' A" "A \<inter> set (e # xs) = {}"
    "set (e # xs) \<subseteq> live (history s')"
  shows "evlist_inv s' e xs" "fds_of s' xs = fds_of s xs"
proof -
  have same: "nodes s' q = nodes s q \<and> evsels s' q = evsels s q \<and> evlists s' q = evlists s q"
    if "q \<in> set (e # xs)" for q
    using that assms(2,3) by (auto simp: untouched_def)
  have "dlist (nodes s') e xs"
    using assms(1) same by (auto simp: evlist_inv_def intro: dlist_frame)
  moreover have "events_ok s' e xs"
    using assms(1) same by (auto simp: evlist_inv_def events_ok_def)
  ultimately show "evlist_inv s' e xs"
    using assms(1,4) same by (auto simp: evlist_inv_def)
  show "fds_of s' xs = fds_of s xs" using same by (intro fds_of_cong) auto
qed

subsection \<open>The footprint of each operation\<close>

context evsel_op begin

lemma on_evsel_untouched: "untouched s (on_evsel op p s) {p}"
  by (simp add: untouched_def on_evsel_other)

lemma fold_op_untouched: "untouched s (fold (on_evsel op) ps s) (set ps)"
  by (simp add: untouched_def fold_op_other)

end

lemma new_untouched: "prof_evlist__new os abi pid s = Inr (e, s') \<Longrightarrow> untouched s s' {e}"
  by (auto simp: prof_evlist__new_def prof_evlist__init_def Let_def untouched_def INIT_LIST_HEAD_frame
      split: prod.splits if_splits)

lemma evlist_add_untouched:
  assumes inv: "evlist_inv s e xs" and os: "fresh_malloc os" and add: "evlist_add os abi e str s = (r, s')"
  shows "untouched s s' (set (e # xs) \<union> (live (history s') - live (history s)))"
proof (cases "prof_evsel__parse abi str")
  case None
  then show ?thesis using add by (simp add: evlist_add_def)
next
  case (Some na)
  obtain nm attr where na: "na = (nm, attr)" by fastforce
  obtain p tr where z: "zalloc os (sizeof_evsel abi) (history s) = (p, tr)" by fastforce
  show ?thesis
  proof (cases "p = NULL")
    case True
    then have "s' = s\<lparr>history := tr\<rparr>"
      using add Some na z by (simp add: evlist_add_def prof_evsel__new_def)
    then show ?thesis by (simp add: untouched_def)
  next
    case False
    note fr = zalloc_fresh [OF os z False]
    have hs: "history s' = tr" and nd: "nodes s' = list_add_tail p e (INIT_LIST_HEAD p (nodes s))"
      and es: "q \<noteq> p \<Longrightarrow> evsels s' q = evsels s q" and el: "q \<noteq> e \<Longrightarrow> evlists s' q = evlists s q" for q
      using add Some na z False
      by (auto simp: evlist_add_def prof_evsel__new_def prof_evsel__init_def Let_def)
    have "p \<notin> set (e # xs)" using fr inv by (auto simp: evlist_inv_def)
    then have d: "dlist (INIT_LIST_HEAD p (nodes s)) e xs"
      using inv by (auto simp: evlist_inv_def intro: dlist_INIT_other)
    have ns: "nodes s' q = nodes s q" if "q \<notin> set (e # xs)" "q \<noteq> p" for q
      unfolding nd using list_add_tail_frame [OF d that] that(2) by (simp add: INIT_LIST_HEAD_frame)
    show ?thesis unfolding untouched_def
    proof (intro allI impI)
      fix q
      assume "q \<notin> set (e # xs) \<union> (live (history s') - live (history s))"
      then have "q \<notin> set (e # xs)" "q \<noteq> p" using fr hs by auto
      then show "nodes s' q = nodes s q \<and> evsels s' q = evsels s q \<and> evlists s' q = evlists s q"
        using ns es el by auto
    qed
  qed
qed

lemma add_all_untouched:
  "evlist_inv s e xs \<Longrightarrow> fresh_malloc os \<Longrightarrow> add_all os abi e ps (n, s) = (n', s') \<Longrightarrow>
     untouched s s' (set (e # xs) \<union> (live (history s') - live (history s)))"
proof (induction ps arbitrary: n s xs)
  case Nil
  then show ?case by (simp add: add_all_def)
next
  case (Cons p ps)
  obtain r s1 where a: "evlist_add os abi e p s = (r, s1)" by fastforce
  obtain ys where ys: "grown abi e xs [p] os s ys s1" using grown_step [OF Cons.prems(1,2) a] by blast
  have l: "add_all os abi e ps (n + r, s1) = (n', s')" using Cons.prems(3) a by (simp add: add_all_Cons)
  obtain zs where zs: "grown abi e (xs @ ys) ps os s1 zs s'"
    using add_all_grown [of s1 e "xs @ ys" os abi ps "n + r"] ys Cons.prems(2) l by (auto simp: grown_def)
  have "untouched s1 s' (set (e # xs @ ys) \<union> (live (history s') - live (history s1)))"
    using Cons.IH [OF _ Cons.prems(2) l, of "xs @ ys"] ys unfolding grown_def by blast
  then have "untouched s1 s' (set (e # xs) \<union> (live (history s') - live (history s)))"
    using ys zs by (rule_tac untouched_mono) (auto simp: grown_def)
  moreover have "untouched s s1 (set (e # xs) \<union> (live (history s') - live (history s)))"
    using evlist_add_untouched [OF Cons.prems(1,2) a] zs by (rule_tac untouched_mono) (auto simp: grown_def)
  ultimately show ?case using untouched_trans by blast
qed

lemma open_body_untouched: "untouched s (flow_state (open_body os pid p s)) {p}"
  by (simp add: open_body_def untouched_def Let_def case_prod_beta split: option.split)

lemma open_run_untouched: "untouched s (flow_state (run_body (open_body os pid) ps s)) (set ps)"
proof (induction ps arbitrary: s)
  case (Cons p ps)
  have 1: "untouched s (flow_state (open_body os pid p s)) (set (p # ps))"
    by (rule untouched_mono [OF open_body_untouched]) simp
  show ?case
  proof (cases "open_body os pid p s")
    case (Go s1)
    have "untouched s1 (flow_state (run_body (open_body os pid) ps s1)) (set (p # ps))"
      by (rule untouched_mono [OF Cons.IH]) auto
    then show ?thesis using 1 Go untouched_trans by simp
  qed (use 1 in simp)
qed simp

lemma start_untouched:
  assumes inv: "evlist_inv s e xs" and "prof_evlist__start os e s = Some (r, s')"
  shows "untouched s s' (set xs)"
proof -
  obtain el where el: "evlists s e = Some el" using inv by (auto simp: evlist_inv_def)
  let ?f = "run_body (open_body os (evlist_pid el)) xs s"
  have lp: "evlist__for_each e (open_body os (evlist_pid el)) s = Some ?f"
    using opn.for_each [of s e xs os "evlist_pid el"] inv by (simp add: evlist_loops evlist_inv_def)
  have u: "untouched s (flow_state ?f) (set xs)" by (rule open_run_untouched)
  have nd: "nodes (flow_state ?f) = nodes s" using opn.run_body_hp by simp
  have d: "dlist (nodes (flow_state ?f)) e xs" using inv nd by (simp add: evlist_inv_def)
  show ?thesis
  proof (cases ?f)
    case (Go s1)
    then have "s' = fold (on_evsel (\<lambda>ev tr. snd (prof_evsel__enable os ev tr))) xs s1"
      using assms(2) el lp d ena.loop.for_each [of s1 e xs os]
      by (simp add: prof_evlist__start_def prof_evlist__enable_def evlist_loops ena.run_op_Go)
    then show ?thesis using u Go ena.fold_op_untouched [of s1 os xs] untouched_trans by simp
  next
    case (Leave s1)
    then have "s' = fold (on_evsel (prof_evsel__close os)) xs s1"
      using assms(2) el lp d cls.loop.for_each [of s1 e xs os]
      by (simp add: prof_evlist__start_def evlist_loops close_if_open_eq cls.run_op_Go)
    then show ?thesis using u Leave cls.fold_op_untouched [of s1 os xs] untouched_trans by simp
  qed
qed

lemma unlink_run_untouched:
  "dlist (nodes s) e xs \<Longrightarrow> untouched s (flow_state (run_body (unlink_delete os) xs s)) (set (e # xs))"
proof (induction xs arbitrary: s)
  case (Cons p ps)
  obtain s1 where s1: "unlink_delete os p s = Go s1" by (simp add: unlink_delete_def Let_def)
  have "nodes s1 = list_del_init p (nodes s)" "evlists s1 = evlists s" "\<And>q. q \<noteq> p \<Longrightarrow> evsels s1 q = evsels s q"
    using s1 by (auto simp: unlink_delete_def prof_evsel__delete_def Let_def case_prod_beta split: option.splits)
  then have "untouched s s1 (set (e # p # ps))"
    using list_del_init_frame [OF Cons.prems, of p] by (simp add: untouched_def)
  moreover have "dlist (nodes s1) e ps" using unl.unlink [OF Cons.prems s1] .
  then have "untouched s1 (flow_state (run_body (unlink_delete os) ps s1)) (set (e # p # ps))"
    using Cons.IH by (rule_tac untouched_mono) auto
  ultimately show ?case using s1 untouched_trans by simp
qed simp

lemma delete_untouched:
  assumes inv: "evlist_inv s e xs" and del: "prof_evlist__delete os e s = Some s'"
  shows "untouched s s' (set (e # xs))"
proof -
  let ?s1 = "fold (on_evsel (prof_evsel__close os)) (rev xs) s"
  have d: "dlist (nodes ?s1) e xs" using inv by (simp add: evlist_inv_def)
  then have safe: "evlist__for_each_safe e (unlink_delete os) ?s1 = Some (run_body (unlink_delete os) xs ?s1)"
    using unl.for_each_safe [of ?s1 e xs] by (simp add: evlist_loops)
  have "untouched s ?s1 (set (e # xs))"
    by (rule untouched_mono [OF cls.fold_op_untouched]) auto
  then have "untouched s (flow_state (run_body (unlink_delete os) xs ?s1)) (set (e # xs))"
    using unlink_run_untouched [OF d] untouched_trans by blast
  then show ?thesis
    using del safe by (auto simp: prof_evlist__delete_def cls.for_each_op(2) [OF inv] untouched_def Let_def)
qed


definition two_evlists :: evstate where
  "two_evlists = example_evlist\<lparr>
     nodes := INIT_LIST_HEAD 7 (nodes example_evlist),
     evlists := (evlists example_evlist)(7 \<mapsto> \<lparr>nr_entries = 0, evlist_pid = 43\<rparr>),
     history := history example_evlist @ [(Malloc 8, \<lparr>ret = 7, err = 0, out = [], bytes = []\<rparr>)]\<rparr>"


end
