(* ===== verification/Counter_Read.thy ===== *)
theory Counter_Read
  imports Evsel
begin

section \<open>probe/evsel.c: reading a counter\<close>

text \<open>
  The two ways the probe reads an event: through its descriptor (\<^verbatim>\<open>prof_evsel__read\<close>) and from the
  page the kernel shares with the process (\<^verbatim>\<open>prof_evsel__rdpmc\<close> and \<^verbatim>\<open>mmap_read_self\<close>, a sequence
  lock with sign extension and time scaling).  The lemmas show that the sequence lock returns values
  of one consistent snapshot, that it returns as soon as there is one, and that the arithmetic is
  the mathematical one.
\<close>

subsection \<open>The operations\<close>

text \<open>
  \<^verbatim>\<open>prof_evsel__read\<close> reads the counter through the descriptor.  When \<^verbatim>\<open>readn\<close> meets the end of the
  file it returns 0 and the local \<^verbatim>\<open>data\<close> is returned uninitialised: the model returns
  \<open>Uninit\<close> there.
\<close>

datatype read_result = Value u64 | Uninit | NullDeref

definition le_u64 :: "u8 list \<Rightarrow> u64" where
  "le_u64 bs = horner_sum ucast (2 ^ 8) bs"

definition prof_evsel__read :: "os \<Rightarrow> prof_evsel \<Rightarrow> trace \<Rightarrow> (read_result \<times> trace) option" where
  "prof_evsel__read os ev tr =
     (if \<not> is_enable ev then Some (Value 0, tr)
      else if fd ev < 0 then Some (Value (- 1), tr)
      else case readn os (fd ev) 8 tr of
             None \<Rightarrow> None
           | Some (n, buf, tr') \<Rightarrow>
               if n < 0 then Some (Value (- 1), tr')
               else if length buf < 8 then Some (Uninit, tr')
               else Some (Value (le_u64 buf), tr'))"

text \<open>
  The self-monitoring page is written by the kernel while \<^verbatim>\<open>mmap_read_self\<close> reads it, so every
  iteration of its loop sees the fields of one \<open>page_read\<close>: \<open>lock0\<close> at its start, \<open>lock1\<close> at its
  end, the time stamp counter and the counter registers in between.
\<close>

record page_read =
  lock0 :: u32
  time_enabled :: u64
  time_running :: u64
  cap_user_time :: bool
  tsc :: u64
  time_offset :: u64
  time_mult :: u32
  time_shift :: nat
  pc_index :: u32
  pmc_width :: nat
  pc_offset :: u64
  cap_user_rdpmc :: bool
  rdpmc :: "u32 \<Rightarrow> u64"
  lock1 :: u32

definition time_delta :: "page_read \<Rightarrow> u64" where
  "time_delta p =
     (let cyc = tsc p;
          quot = drop_bit (time_shift p) cyc;
          rm = cyc AND (push_bit (time_shift p) 1 - 1)
      in time_offset p + quot * ucast (time_mult p)
           + drop_bit (time_shift p) (rm * ucast (time_mult p)))"

text \<open>\<^verbatim>\<open>x <<= 64 - width; x >>= 64 - width\<close> on an \<^verbatim>\<open>int64_t\<close>: the right shift is arithmetic.\<close>

definition sext :: "nat \<Rightarrow> u64 \<Rightarrow> u64" where
  "sext width x = signed_drop_bit (64 - width) (push_bit (64 - width) x)"

partial_function (option) mmap_read_loop ::
  "(nat \<Rightarrow> page_read) \<Rightarrow> nat \<Rightarrow> u64 \<Rightarrow> (u64 \<times> (u64 \<times> u64) option) option" where
  "mmap_read_loop pages k delta =
     (let pc = pages k;
          enabled = time_enabled pc; running = time_running pc;
          delta = (if cap_user_time pc \<and> enabled \<noteq> running then time_delta pc else delta);
          count = sext (pmc_width pc) (pc_offset pc)
      in if cap_user_rdpmc pc \<and> pc_index pc \<noteq> 0
         then let count = count + sext (pmc_width pc) (rdpmc pc (pc_index pc - 1))
              in if lock1 pc \<noteq> lock0 pc then mmap_read_loop pages (Suc k) delta
                 else Some (count, Some (enabled + delta, running + delta))
         else Some (- 1, None))"

definition mmap_read_self :: "(nat \<Rightarrow> page_read) \<Rightarrow> (u64 \<times> (u64 \<times> u64) option) option" where
  "mmap_read_self pages = mmap_read_loop pages 0 0"

definition prof_evsel__rdpmc :: "(nat \<Rightarrow> page_read) \<Rightarrow> prof_evsel \<Rightarrow> read_result option" where
  "prof_evsel__rdpmc pages ev =
     (if \<not> is_enable ev then Some (Value 0)
      else if mm_page ev = NULL then Some NullDeref
      else map_option (\<lambda>(v, _). Value v) (mmap_read_self pages))"

subsection \<open>Sign extension\<close>

lemma sext_signed_take_bit:
  assumes "0 < w" "w \<le> 64"
  shows "sext w x = signed_take_bit (w - 1) x"
proof (rule bit_word_eqI)
  fix n assume n: "n < LENGTH(64)"
  show "bit (sext w x) n = bit (signed_take_bit (w - 1) x) n"
  proof (cases "n < w")
    case True
    then have "64 - w + n < 64" "min n (w - 1) = n" using assms by auto
    then show ?thesis using n True assms
      by (auto simp: sext_def bit_signed_drop_bit_iff bit_push_bit_iff bit_signed_take_bit_iff)
  next
    case False
    then have "min n (w - 1) = w - 1" "63 - (64 - w) = w - 1" using assms by auto
    then show ?thesis using n False assms
      by (auto simp: sext_def bit_signed_drop_bit_iff bit_push_bit_iff bit_signed_take_bit_iff)
  qed
qed

lemma sext_of_int:
  assumes "0 < w" "w \<le> 64" "- (2 ^ (w - 1)) \<le> v" "v < 2 ^ (w - 1)"
  shows "sext w (word_of_int (take_bit w v)) = (word_of_int v :: u64)"
proof (rule bit_word_eqI)
  fix n assume n: "n < LENGTH(64)"
  have "bit v n = bit (signed_take_bit (w - 1) v) n"
    using signed_take_bit_int_eq_self [of "w - 1" v] assms by simp
  also have "\<dots> = bit v (min (w - 1) n)"
    by (simp add: bit_signed_take_bit_iff min.commute)
  finally show "bit (sext w (word_of_int (take_bit w v)) :: u64) n = bit (word_of_int v :: u64) n"
    using n assms
    by (auto simp: sext_signed_take_bit bit_signed_take_bit_iff bit_word_of_int_iff bit_take_bit_iff)
qed

subsection \<open>The sequence lock\<close>

definition readable :: "page_read \<Rightarrow> bool" where
  "readable pc \<longleftrightarrow> cap_user_rdpmc pc \<and> pc_index pc \<noteq> 0"

definition stable :: "page_read \<Rightarrow> bool" where
  "stable pc \<longleftrightarrow> lock1 pc = lock0 pc"

definition counter_value :: "page_read \<Rightarrow> u64" where
  "counter_value pc =
     sext (pmc_width pc) (pc_offset pc) + sext (pmc_width pc) (rdpmc pc (pc_index pc - 1))"

lemma mmap_read_loop_retry:
  "readable (pages k) \<Longrightarrow> \<not> stable (pages k) \<Longrightarrow>
     \<exists>d. mmap_read_loop pages k delta = mmap_read_loop pages (Suc k) d"
  by (subst mmap_read_loop.simps) (auto simp: readable_def stable_def Let_def)

lemma mmap_read_loop_stable:
  "readable (pages k) \<Longrightarrow> stable (pages k) \<Longrightarrow>
     \<exists>t. mmap_read_loop pages k delta = Some (counter_value (pages k), Some t)"
  by (subst mmap_read_loop.simps) (auto simp: readable_def stable_def counter_value_def Let_def)

lemma mmap_read_loop_unreadable:
  "\<not> readable (pages k) \<Longrightarrow> mmap_read_loop pages k delta = Some (- 1, None)"
  by (subst mmap_read_loop.simps) (auto simp: readable_def Let_def)

lemma mmap_read_loop_skip:
  "(\<forall>j < n. readable (pages (k + j)) \<and> \<not> stable (pages (k + j))) \<Longrightarrow>
     \<exists>d. mmap_read_loop pages k delta = mmap_read_loop pages (k + n) d"
proof (induction n arbitrary: k delta)
  case (Suc n)
  obtain d where d: "mmap_read_loop pages k delta = mmap_read_loop pages (Suc k) d"
    using mmap_read_loop_retry [of pages k delta] Suc.prems [rule_format, of 0] by auto
  have "\<forall>j < n. readable (pages (Suc k + j)) \<and> \<not> stable (pages (Suc k + j))"
    using Suc.prems by (metis Suc_less_eq add_Suc_shift)
  with Suc.IH [of "Suc k" d] d show ?case by auto
qed auto


definition example_page :: "nat \<Rightarrow> page_read" where
  "example_page k =
     \<lparr>lock0 = 4, time_enabled = 100, time_running = 100, cap_user_time = False, tsc = 0,
      time_offset = 0, time_mult = 1, time_shift = 10, pc_index = 1, pmc_width = 48,
      pc_offset = 5000, cap_user_rdpmc = True, rdpmc = (\<lambda>i. 2 ^ 48 - 7),
      lock1 = (if k = 0 then 5 else 4)\<rparr>"


text \<open>Where user-space reads are not available (no capability, or the event is not on a hardware
  counter) the result is the all-ones value and never a partial count.\<close>

lemma mmap_read_self_fallback:
  assumes "\<forall>j < k. readable (pages j) \<and> \<not> stable (pages j)" "\<not> readable (pages k)"
  shows "mmap_read_self pages = Some (- 1, None)"
  using mmap_read_loop_skip [of k pages 0 0] mmap_read_loop_unreadable [of pages k] assms
  by (auto simp: mmap_read_self_def)

lemma mmap_read_self_fallback_example:
  "mmap_read_self (\<lambda>k. (example_page k)\<lparr>pc_index := 0\<rparr>) = Some (- 1, None)"
  using mmap_read_self_fallback [of 0 "\<lambda>k. (example_page k)\<lparr>pc_index := 0\<rparr>"]
  by (simp add: readable_def)

subsection \<open>Time scaling\<close>

text \<open>The split multiplication of \<^verbatim>\<open>mmap_read_self\<close> (quotient and remainder of the time stamp
  multiplied separately) computes \<open>time_offset + (cycles * mult) >> shift\<close> exactly, as long as that
  product and sum fit in 64 bits.\<close>

lemma time_delta_exact:
  assumes shift: "time_shift p < 64"
    and prod: "unat (tsc p) * unat (time_mult p) < 2 ^ 64"
    and sum: "unat (time_offset p) + (unat (tsc p) * unat (time_mult p)) div 2 ^ time_shift p < 2 ^ 64"
  shows "unat (time_delta p) =
    unat (time_offset p) + (unat (tsc p) * unat (time_mult p)) div 2 ^ time_shift p"
proof -
  let ?s = "time_shift p" and ?c = "unat (tsc p)" and ?m = "unat (time_mult p)"
  have rm: "tsc p AND (push_bit ?s 1 - 1) = take_bit ?s (tsc p)"
    by (simp add: take_bit_eq_mask mask_eq_decr_exp push_bit_eq_mult)
  have q: "unat (drop_bit ?s (tsc p)) = ?c div 2 ^ ?s"
    by (subst unat_drop_bit_eq) (rule drop_bit_eq_div)
  have r: "unat (take_bit ?s (tsc p)) = ?c mod 2 ^ ?s"
    by (subst unsigned_take_bit_eq) (rule take_bit_eq_mod)
  have m: "unat (ucast (time_mult p) :: u64) = ?m"
    using unsigned_less [where 'a = nat, of "time_mult p"] by (simp add: unsigned_ucast_eq take_bit_nat_eq_self_iff)
  have split: "(?c * ?m) div 2 ^ ?s = ?c div 2 ^ ?s * ?m + (?c mod 2 ^ ?s * ?m) div 2 ^ ?s"
  proof -
    have "?c * ?m = ?c mod 2 ^ ?s * ?m + 2 ^ ?s * (?c div 2 ^ ?s * ?m)"
      by (metis add.commute distrib_right mult.assoc mult_div_mod_eq)
    then show ?thesis by (simp add: div_mult_self2)
  qed
  have "?c div 2 ^ ?s * ?m < 2 ^ 64" "?c mod 2 ^ ?s * ?m < 2 ^ 64"
    by (rule le_less_trans [OF mult_right_mono prod]; simp)+
  then have qm: "unat (drop_bit ?s (tsc p) * ucast (time_mult p)) = ?c div 2 ^ ?s * ?m"
    and rmm: "unat (take_bit ?s (tsc p) * ucast (time_mult p)) = ?c mod 2 ^ ?s * ?m"
    using unat_mult_u64 [of "drop_bit ?s (tsc p)" "ucast (time_mult p)"]
      unat_mult_u64 [of "take_bit ?s (tsc p)" "ucast (time_mult p)"] unfolding q r m by blast+
  have dr: "unat (drop_bit ?s (take_bit ?s (tsc p) * ucast (time_mult p)))
      = (?c mod 2 ^ ?s * ?m) div 2 ^ ?s"
    unfolding rmm [symmetric] by (subst unat_drop_bit_eq) (rule drop_bit_eq_div)
  have td: "time_delta p = time_offset p + drop_bit ?s (tsc p) * ucast (time_mult p)
      + drop_bit ?s (take_bit ?s (tsc p) * ucast (time_mult p))"
    unfolding time_delta_def Let_def rm ..
  have 1: "unat (time_offset p + drop_bit ?s (tsc p) * ucast (time_mult p))
      = unat (time_offset p) + ?c div 2 ^ ?s * ?m"
    using unat_add_u64 [of "time_offset p" "drop_bit ?s (tsc p) * ucast (time_mult p)"] qm sum split
    by linarith
  show ?thesis
    using unat_add_u64 [of "time_offset p + drop_bit ?s (tsc p) * ucast (time_mult p)"
        "drop_bit ?s (take_bit ?s (tsc p) * ucast (time_mult p))"] 1 dr sum split
    unfolding td by linarith
qed

lemma time_delta_exact_example:
  "unat (time_delta ((example_page 0)\<lparr>tsc := 123456, time_mult := 9, time_offset := 1000\<rparr>))
     = 1000 + (123456 * 9) div 2 ^ 10"
  using time_delta_exact [of "(example_page 0)\<lparr>tsc := 123456, time_mult := 9, time_offset := 1000\<rparr>"]
  by (simp add: example_page_def)

subsection \<open>What the probe gets after a disable\<close>

text \<open>Reading a disabled event crashes: after \<^verbatim>\<open>prof_evsel__disable\<close> the enabled flag is still
  set but the page is gone, so \<^verbatim>\<open>prof_evsel__rdpmc\<close> dereferences the null page.\<close>

lemma rdpmc_after_disable_null:
  assumes "evsel_ok ev" "is_open ev" "is_enable ev"
  shows "prof_evsel__rdpmc pages (fst (prof_evsel__disable os ev tr)) = Some NullDeref"
  using disable_frame [of os ev tr] disable_mm_page [of ev os tr] assms
  by (simp add: prof_evsel__rdpmc_def evsel_ok_def)

lemma rdpmc_after_disable_null_example:
  "prof_evsel__rdpmc example_page (fst (prof_evsel__disable calm_kernel
     (zero_evsel\<lparr>fd := 7, is_open := True, is_enable := True, mm_page := 8192\<rparr>) [])) = Some NullDeref"
  using rdpmc_after_disable_null
    [of "zero_evsel\<lparr>fd := 7, is_open := True, is_enable := True, mm_page := 8192\<rparr>"]
  by (simp add: evsel_ok_def)

end
