(* ===== verification/Threadmap.thy ===== *)
theory Threadmap
  imports Util
begin

section \<open>probe/threadmap.[ch]: the threads of a process\<close>

text \<open>
  A thread map is the flexible array of thread ids read from \<^verbatim>\<open>/proc/<pid>/task\<close>; the null
  pointer is \<open>None\<close>.  The directory is a parameter \<open>dir\<close>: the names in it, or \<open>None\<close> when it
  cannot be read.  The lemmas show that the map holds the ids in directory order and that the index
  lookup inverts it.
\<close>

record thread_map =
  nr :: int
  pid :: "int list"

definition dot_filter :: "string \<Rightarrow> bool" where
  "dot_filter d_name \<longleftrightarrow> \<not> (d_name \<noteq> [] \<and> hd d_name = CHR ''.'')"

definition task_dir :: "int \<Rightarrow> string" where
  "task_dir p = ''/proc/'' @ (if p < 0 then CHR ''-'' # decimal (nat (- p)) else decimal (nat p)) @ ''/task''"

text \<open>\<^verbatim>\<open>scandir\<close>: the number of entries that pass the filter, or -1, and their names.\<close>

definition scandir :: "(string \<Rightarrow> string list option) \<Rightarrow> string \<Rightarrow> (string \<Rightarrow> bool) \<Rightarrow> int \<times> string list" where
  "scandir dir nm flt =
     (case dir nm of None \<Rightarrow> (- 1, []) | Some ns \<Rightarrow> (int (length (filter flt ns)), filter flt ns))"

definition thread_map__alloc :: "os \<Rightarrow> nat \<Rightarrow> int \<Rightarrow> trace \<Rightarrow> addr \<times> thread_map option \<times> trace" where
  "thread_map__alloc os sizeof_map n tr =
     (let (a, tr') = zalloc os (sizeof_map + 4 * nat n) tr
      in if a = NULL then (NULL, None, tr')
         else (a, Some \<lparr>nr = 0, pid = replicate (nat n) 0\<rparr>, tr'))"

definition thread_map__new_dummy :: "os \<Rightarrow> nat \<Rightarrow> trace \<Rightarrow> addr \<times> thread_map option \<times> trace" where
  "thread_map__new_dummy os sizeof_map tr =
     (let (a, m, tr') = thread_map__alloc os sizeof_map 1 tr
      in (a, map_option (\<lambda>m. m\<lparr>nr := 1, pid := (pid m)[0 := - 1]\<rparr>) m, tr'))"

fun fill_pids :: "nat \<Rightarrow> string list \<Rightarrow> thread_map \<Rightarrow> thread_map" where
  "fill_pids i [] m = m"
| "fill_pids i (nm # nms) m = fill_pids (Suc i) nms (m\<lparr>pid := (pid m)[i := atoi nm]\<rparr>)"

definition thread_map__new ::
  "os \<Rightarrow> nat \<Rightarrow> (string \<Rightarrow> string list option) \<Rightarrow> int \<Rightarrow> trace \<Rightarrow> addr \<times> thread_map option \<times> trace" where
  "thread_map__new os sizeof_map dir p tr =
     (let (items, namelist) = scandir dir (task_dir p) dot_filter
      in if items \<le> 0 then (NULL, None, tr)
         else let (a, m, tr') = thread_map__alloc os sizeof_map items tr
              in (a, map_option (\<lambda>m. fill_pids 0 namelist (m\<lparr>nr := items\<rparr>)) m, tr'))"

definition thread_map__free :: "os \<Rightarrow> addr \<Rightarrow> trace \<Rightarrow> trace" where
  "thread_map__free os a tr = (if a \<noteq> NULL then sys_do os (Free a) tr else tr)"

definition thread_map__nr :: "thread_map option \<Rightarrow> int" where
  "thread_map__nr m = (case m of None \<Rightarrow> 1 | Some m \<Rightarrow> nr m)"

definition PID :: "thread_map option \<Rightarrow> nat \<Rightarrow> fault + int" where
  "PID m i =
     (case m of None \<Rightarrow> Inl Null_pointer
      | Some m \<Rightarrow> if i < length (pid m) then Inr (pid m ! i) else Inl Out_of_bounds)"

fun dump_from :: "thread_map option \<Rightarrow> nat list \<Rightarrow> fault + int list" where
  "dump_from m [] = Inr []"
| "dump_from m (i # is) = and_then (PID m i) (\<lambda>p. and_then (dump_from m is) (\<lambda>ps. Inr (p # ps)))"

definition thread_map__dump :: "thread_map option \<Rightarrow> fault + int list" where
  "thread_map__dump m = dump_from m [0..<nat (thread_map__nr m)]"

fun index_from :: "thread_map option \<Rightarrow> int \<Rightarrow> nat list \<Rightarrow> fault + int" where
  "index_from m p [] = Inr (- 1)"
| "index_from m p (i # is) =
     and_then (PID m i) (\<lambda>q. if p = q then Inr (int i) else index_from m p is)"

definition thread_map__getindex :: "thread_map option \<Rightarrow> int \<Rightarrow> fault + int" where
  "thread_map__getindex m p = index_from m p [0..<nat (thread_map__nr m)]"

subsection \<open>Lemmas\<close>

definition map_ok :: "thread_map \<Rightarrow> bool" where
  "map_ok m \<longleftrightarrow> nr m = int (length (pid m))"

lemma fill_pids_spec:
  "length (pid m) = k + length nms \<Longrightarrow>
     fill_pids k nms m = m\<lparr>pid := take k (pid m) @ map atoi nms\<rparr>"
proof (induction k nms m rule: fill_pids.induct)
  case (2 i nm nms m)
  let ?m = "m\<lparr>pid := (pid m)[i := atoi nm]\<rparr>"
  have "take (Suc i) (pid ?m) = take i (pid m) @ [atoi nm]"
    using "2.prems" by (simp add: take_Suc_conv_app_nth take_update_cancel)
  then show ?case using 2 by simp
qed simp

lemma index_from_spec:
  assumes "map_ok m" "k \<le> length (pid m)"
  shows "index_from (Some m) p [k..<length (pid m)] =
    Inr (if p \<in> set (drop k (pid m)) then int (k + length (takeWhile (\<lambda>q. q \<noteq> p) (drop k (pid m)))) else - 1)"
  using assms(2)
proof (induction "length (pid m) - k" arbitrary: k)
  case 0
  then show ?case by simp
next
  case (Suc n)
  then have k: "k < length (pid m)" by simp
  then have "[k..<length (pid m)] = k # [Suc k..<length (pid m)]" "drop k (pid m) = pid m ! k # drop (Suc k) (pid m)"
    by (simp_all add: upt_conv_Cons Cons_nth_drop_Suc)
  then show ?case using Suc.hyps(1) [of "Suc k"] Suc.hyps(2) k by (auto simp: PID_def)
qed

lemma thread_map__new_spec:
  assumes "dir (task_dir p) = Some names" "thread_map__new os sz dir p tr = (a, Some m, tr')"
  shows "map_ok m" "pid m = map atoi (filter dot_filter names)"
proof -
  let ?ns = "filter dot_filter names"
  have "m = fill_pids 0 ?ns \<lparr>nr = int (length ?ns), pid = replicate (length ?ns) 0\<rparr>"
    using assms
    by (auto simp: thread_map__new_def scandir_def thread_map__alloc_def Let_def split: if_splits prod.splits)
  then show "map_ok m" "pid m = map atoi ?ns"
    using fill_pids_spec [of "\<lparr>nr = int (length ?ns), pid = replicate (length ?ns) 0\<rparr>" 0 ?ns]
    by (simp_all add: map_ok_def)
qed

lemma decimal_no_dot: "dot_filter (decimal n)"
proof -
  have "is_digit (hd (decimal n))"
    using decimal_digits [of n] by (cases "decimal n") simp_all
  then show ?thesis by (auto simp: dot_filter_def is_digit_def)
qed

lemma dots_filtered: "\<not> dot_filter ''.''" "\<not> dot_filter ''..''"
  by (simp_all add: dot_filter_def)

subsection \<open>Properties\<close>

text \<open>For a task directory that lists the thread ids \<open>ts\<close> (besides \<open>.\<close> and \<open>..\<close>), the thread
  map holds exactly these ids in directory order, and \<^verbatim>\<open>thread_map__getindex\<close> returns the position of
  the first occurrence of an id, or -1 when the process has no such thread.\<close>

lemma thread_map_getindex_inverts:
  assumes "dir (task_dir p) = Some ([''.'', ''..''] @ map decimal ts)"
    and "thread_map__new os sz dir p tr = (a, Some m, tr')"
  shows "thread_map__dump (Some m) = Inr (map int ts)
    \<and> thread_map__getindex (Some m) q =
        Inr (if q \<in> int ` set ts then int (length (takeWhile (\<lambda>t. int t \<noteq> q) ts)) else - 1)"
proof -
  have "filter dot_filter ([''.'', ''..''] @ map decimal ts) = map decimal ts"
    by (simp add: dots_filtered decimal_no_dot filter_map o_def)
  then have ok: "map_ok m" and m: "pid m = map int ts"
    using thread_map__new_spec [OF assms] by (simp_all add: o_def atoi_decimal)
  have "dump_from (Some m) is = Inr (map (\<lambda>i. pid m ! i) is)" if "\<forall>i \<in> set is. i < length (pid m)" for "is"
    using that by (induction "is") (auto simp: PID_def)
  from this [of "[0..<length (pid m)]"] have "thread_map__dump (Some m) = Inr (map int ts)"
    using ok map_nth [of "pid m"] unfolding m [symmetric]
    by (simp add: thread_map__dump_def thread_map__nr_def map_ok_def)
  moreover have "takeWhile (\<lambda>x. x \<noteq> q) (map int ts) = map int (takeWhile (\<lambda>t. int t \<noteq> q) ts)"
    by (simp add: takeWhile_map o_def)
  ultimately show ?thesis
    using index_from_spec [OF ok, of 0 q] ok m
    by (simp add: thread_map__getindex_def thread_map__nr_def map_ok_def)
qed

lemma thread_map_getindex_inverts_example:
  "\<exists>a m tr'. thread_map__new calm_kernel 4 (\<lambda>_. Some ([''.'', ''..''] @ map decimal [17, 23])) 17 [] = (a, Some m, tr')
     \<and> thread_map__getindex (Some m) 23 = Inr 1"
proof -
  let ?d = "\<lambda>_ :: string. Some ([''.'', ''..''] @ map decimal [17, 23])"
  obtain a m tr' where n: "thread_map__new calm_kernel 4 ?d 17 [] = (a, Some m, tr')"
    by (simp add: thread_map__new_def scandir_def thread_map__alloc_def Let_def zalloc_def sys_call_def
        calm_kernel_def dots_filtered decimal_no_dot)
  show ?thesis
    using thread_map_getindex_inverts [of ?d 17 "[17, 23]", OF refl n, of 23] n by auto
qed

text \<open>\<^verbatim>\<open>thread_map__nr\<close> answers 1 for the null map, but both loops that use it read the
  first element through the null pointer.\<close>

lemma null_thread_map_faults:
  "thread_map__nr None = 1 \<and> thread_map__getindex None p = Inl Null_pointer
     \<and> thread_map__dump None = Inl Null_pointer"
  by (simp add: thread_map__nr_def thread_map__getindex_def thread_map__dump_def PID_def)

end
