(* ===== verification/Profile.thy ===== *)
theory Profile
  imports Isolation Counter_Read Threadmap
begin

section \<open>probe/profile.[ch]: the thread table and the probes\<close>

text \<open>
  The global \<^verbatim>\<open>globalinfo\<close> is a record: the table of 64 thread slots with its counters
  \<^verbatim>\<open>thread_nb\<close> and \<^verbatim>\<open>thread_nid\<close> (32-bit, \<^verbatim>\<open>UINT_MAX\<close> when the table is full) beside the
  settings.  A slot buffers 65536 records and writes them to its output file when the buffer is full
  and when the slot is destroyed.  The thread-local variables form the record \<open>tls\<close>.  An
  operation returns the new state or the fault it runs into.  Files are the sequence of records
  written to them; a short write is not modelled (the code ignores the result of
  \<^verbatim>\<open>fwrite\<close>).  Log output is not modelled.
\<close>

abbreviation (input) PROF_THREAD_MAX :: nat where "PROF_THREAD_MAX \<equiv> 64"
abbreviation (input) PROF_RECORD_CACHE :: nat where "PROF_RECORD_CACHE \<equiv> 65536"

datatype prof_state = PROF_STATE_UNINIT | PROF_STATE_RUNNING | PROF_STATE_ERROR

record prof_record =
  ts :: u64
  func_idx :: u16
  pos :: u8
  ev_idx :: u8
  count :: u64

record prof_tinfo =
  tid :: int
  tstate :: prof_state
  tevlist :: addr
  output_file :: "string option"
  nb_record :: u32
  records :: "nat \<Rightarrow> prof_record"

record prof_info =
  evlist_str :: string
  is_error :: bool
  min_index :: u32
  max_index :: u32
  sample_freq :: u32
  flog :: "string option"
  threads :: "prof_tinfo list"
  thread_nb :: u32
  thread_nid :: u32

record prof =
  ginfo :: prof_info
  evs :: evstate
  files :: "string \<rightharpoonup> prof_record list"

record tls =
  threadinfo :: "nat option"
  is_ignore :: bool
  threadid :: int

definition zero_record :: prof_record where
  "zero_record = \<lparr>ts = 0, func_idx = 0, pos = 0, ev_idx = 0, count = 0\<rparr>"

definition zero_tinfo :: prof_tinfo where
  "zero_tinfo = \<lparr>tid = 0, tstate = PROF_STATE_UNINIT, tevlist = NULL, output_file = None, nb_record = 0,
     records = (\<lambda>_. zero_record)\<rparr>"

definition globalinfo :: prof_info where
  "globalinfo = \<lparr>evlist_str = '''', is_error = False, min_index = UINT_MAX, max_index = 0,
     sample_freq = 0, flog = None, threads = replicate PROF_THREAD_MAX zero_tinfo, thread_nb = 0,
     thread_nid = 0\<rparr>"

definition tls_init :: tls where
  "tls_init = \<lparr>threadinfo = None, is_ignore = False, threadid = - 1\<rparr>"

subsection \<open>The thread table\<close>

definition update_threadnid :: "prof_info \<Rightarrow> prof_info" where
  "update_threadnid info =
     (if of_nat PROF_THREAD_MAX \<le> thread_nb info then info\<lparr>thread_nid := UINT_MAX\<rparr>
      else (case find (\<lambda>i. tid (threads info ! unat ((thread_nid info + of_nat i) mod of_nat PROF_THREAD_MAX)) = 0)
                   [1..<PROF_THREAD_MAX] of
              Some i \<Rightarrow> info\<lparr>thread_nid := (thread_nid info + of_nat i) mod of_nat PROF_THREAD_MAX\<rparr>
            | None \<Rightarrow> info))"

definition find_tinfo :: "int \<Rightarrow> prof_info \<Rightarrow> nat option" where
  "find_tinfo p info = find (\<lambda>i. tid (threads info ! i) = p) [0..<PROF_THREAD_MAX]"

definition upd_slot :: "nat \<Rightarrow> (prof_tinfo \<Rightarrow> prof_tinfo) \<Rightarrow> prof \<Rightarrow> prof" where
  "upd_slot i f st =
     st\<lparr>ginfo := (ginfo st)\<lparr>threads := (threads (ginfo st))[i := f (threads (ginfo st) ! i)]\<rparr>\<rparr>"

definition create_evlist :: "os \<Rightarrow> abi \<Rightarrow> prof_info \<Rightarrow> prof_tinfo \<Rightarrow> evstate \<Rightarrow> fault + int \<times> prof_tinfo \<times> evstate" where
  "create_evlist os abi info tinfo s =
     and_then (prof_evlist__new os abi (tid tinfo) s) (\<lambda>(e, s1).
       let (n, s2) = prof_evlist__add_from_str os abi e (evlist_str info) s1;
           fail = (\<lambda>s. and_then (or_endless (prof_evlist__delete os e s)) (\<lambda>s'. Inr (- 1, tinfo, s')))
       in if n < 0 then fail s2
          else and_then (or_endless (prof_evlist__start os e s2)) (\<lambda>(r, s3).
                 if r < 0 then fail s3
                 else Inr (0, tinfo\<lparr>tevlist := e, tstate := PROF_STATE_RUNNING\<rparr>, s3)))"

definition outfile :: "int \<Rightarrow> string" where
  "outfile t = ''prof.'' @ decimal (nat (t mod 2 ^ 32))"

definition open_output :: "os \<Rightarrow> nat \<Rightarrow> prof_tinfo \<Rightarrow> evstate \<Rightarrow> prof \<Rightarrow> prof" where
  "open_output os slot t s st =
     (let nm = outfile (tid t);
          (f, tr) = sys_call os (Fopen nm) (history s);
          t' = (if ret f \<le> 0 then t\<lparr>output_file := None, tstate := PROF_STATE_ERROR\<rparr>
                else t\<lparr>output_file := Some nm\<rparr>)
      in upd_slot slot (\<lambda>_. t')
           (st\<lparr>evs := s\<lparr>history := tr\<rparr>,
              files := (if ret f \<le> 0 then files st else (files st)(nm \<mapsto> []))\<rparr>))"

definition init_thread :: "os \<Rightarrow> abi \<Rightarrow> nat \<Rightarrow> prof \<Rightarrow> fault + prof" where
  "init_thread os abi slot st =
     (let tinfo = threads (ginfo st) ! slot
      in and_then (create_evlist os abi (ginfo st) tinfo (evs st)) (\<lambda>(r, t1, s1).
           let t2 = (if r \<noteq> 0 then t1\<lparr>tstate := PROF_STATE_ERROR\<rparr> else t1)
           in Inr (open_output os slot t2 s1 st)))"

text \<open>The steps shared by \<^verbatim>\<open>lprobe_thread_init\<close> and both branches of \<^verbatim>\<open>__scan_threads\<close>: take the next
  slot, count it, initialise it, look for the next free one.  The slot index is not checked.\<close>

definition claim_slot :: "nat \<Rightarrow> int \<Rightarrow> prof \<Rightarrow> prof" where
  "claim_slot nid p st =
     (let st1 = upd_slot nid (\<lambda>t. t\<lparr>tid := p\<rparr>) st
      in st1\<lparr>ginfo := (ginfo st1)\<lparr>thread_nb := thread_nb (ginfo st1) + 1\<rparr>\<rparr>)"

definition take_slot :: "os \<Rightarrow> abi \<Rightarrow> int \<Rightarrow> prof \<Rightarrow> fault + prof" where
  "take_slot os abi p st =
     (let nid = unat (thread_nid (ginfo st))
      in if length (threads (ginfo st)) \<le> nid then Inl Out_of_bounds
         else and_then (init_thread os abi nid (claim_slot nid p st))
                (\<lambda>st'. Inr (st'\<lparr>ginfo := update_threadnid (ginfo st')\<rparr>)))"

definition thread_init_locked :: "os \<Rightarrow> abi \<Rightarrow> int \<Rightarrow> prof \<Rightarrow> fault + prof" where
  "thread_init_locked os abi p st = take_slot os abi p st"

definition lprobe_thread_init ::
  "os \<Rightarrow> abi \<Rightarrow> (addr \<Rightarrow> addr) \<Rightarrow> (addr \<Rightarrow> int) \<Rightarrow> nat \<Rightarrow> addr \<Rightarrow> prof \<Rightarrow> fault + prof" where
  "lprobe_thread_init os abi mem_ptr mem_pid tid_offset ptr st =
     (let p = mem_pid (mem_ptr ptr + tid_offset)
      in if thread_nid (ginfo st) = UINT_MAX then Inr st
         else thread_init_locked os abi p st)"

definition lprobe_pthread_create ::
  "os \<Rightarrow> abi \<Rightarrow> (addr \<Rightarrow> addr) \<Rightarrow> (addr \<Rightarrow> int) \<Rightarrow> nat \<Rightarrow> (addr \<Rightarrow> int) \<Rightarrow> addr \<Rightarrow> prof \<Rightarrow> fault + int \<times> prof" where
  "lprobe_pthread_create os abi mem_ptr mem_pid tid_offset hook p1 st =
     (let r = hook p1
      in if r = 0 then and_then (lprobe_thread_init os abi mem_ptr mem_pid tid_offset p1 st) (\<lambda>st'. Inr (r, st'))
         else Inr (r, st))"

fun scan_slots :: "os \<Rightarrow> abi \<Rightarrow> string list \<Rightarrow> prof \<Rightarrow> fault + prof" where
  "scan_slots os abi [] st = Inr st"
| "scan_slots os abi (nm # nms) st =
     (let nid = unat (thread_nid (ginfo st))
      in if length (threads (ginfo st)) \<le> nid then Inl Out_of_bounds
         else if 0 < atoi nm
         then and_then (take_slot os abi (atoi nm) st) (scan_slots os abi nms)
         else scan_slots os abi nms (upd_slot nid (\<lambda>t. t\<lparr>tid := atoi nm\<rparr>) st))"

definition scan_threads :: "os \<Rightarrow> abi \<Rightarrow> (string \<Rightarrow> string list option) \<Rightarrow> int \<Rightarrow> prof \<Rightarrow> fault + prof" where
  "scan_threads os abi dir p st =
     (let (items, namelist) = scandir dir (task_dir p) dot_filter
      in if items \<le> 0 then take_slot os abi p st
         else let nb_thread = (if items > int PROF_THREAD_MAX then int PROF_THREAD_MAX else items)
              in scan_slots os abi (take (nat nb_thread) namelist) st)"

definition lprobe_init ::
  "os \<Rightarrow> abi \<Rightarrow> (string \<Rightarrow> string list option) \<Rightarrow> bool \<Rightarrow> int \<Rightarrow> string \<Rightarrow> u32 \<Rightarrow> u32 \<Rightarrow> u32
     \<Rightarrow> tls \<Rightarrow> prof \<Rightarrow> fault + int \<times> tls \<times> prof" where
  "lprobe_init os abi dir mutex_ok p ev min_id max_id freq l st =
     (let l1 = l\<lparr>threadid := p\<rparr>;
          st1 = st\<lparr>ginfo := (ginfo st)\<lparr>max_index := max_id, min_index := min_id, sample_freq := freq,
                     evlist_str := ev\<rparr>\<rparr>;
          fail_close_log = (\<lambda>l st. case flog (ginfo st) of
               None \<Rightarrow> Inl Null_pointer
             | Some f \<Rightarrow> Inr (- 1, l, st\<lparr>ginfo := (ginfo st)\<lparr>flog := None, is_error := True\<rparr>\<rparr>))
      in if \<not> mutex_ok then fail_close_log l1 st1
         else and_then (scan_threads os abi dir p st1) (\<lambda>st2.
                (case find_tinfo p (ginfo st2) of
                   None \<Rightarrow> Inl Null_pointer
                 | Some i \<Rightarrow>
                     let l2 = l1\<lparr>threadinfo := Some i\<rparr>
                     in if tstate (threads (ginfo st2) ! i) = PROF_STATE_ERROR then fail_close_log l2 st2
                        else Inr (0, l2, st2))))"

subsection \<open>Shutting down\<close>

definition buffered :: "prof_tinfo \<Rightarrow> prof_record list" where
  "buffered t = map (records t) [0..<unat (nb_record t)]"

definition fwrite :: "string \<Rightarrow> prof_record list \<Rightarrow> (string \<rightharpoonup> prof_record list) \<Rightarrow> (string \<rightharpoonup> prof_record list)" where
  "fwrite f rs fs = fs(f := map_option (\<lambda>old. old @ rs) (fs f))"

definition destroy_tinfo :: "os \<Rightarrow> nat \<Rightarrow> prof \<Rightarrow> fault + prof" where
  "destroy_tinfo os i st =
     (let t = threads (ginfo st) ! i;
          (t1, st1) = (case output_file t of
              None \<Rightarrow> (t, st)
            | Some f \<Rightarrow>
                let (t', fs) = (if 0 < nb_record t then (t\<lparr>nb_record := 0\<rparr>, fwrite f (buffered t) (files st))
                                else (t, files st))
                in (t'\<lparr>output_file := None\<rparr>,
                    st\<lparr>files := fs, evs := (evs st)\<lparr>history := sys_do os (Fclose f) (history (evs st))\<rparr>\<rparr>))
      in and_then (if tevlist t1 \<noteq> NULL
                   then and_then (or_endless (prof_evlist__delete os (tevlist t1) (evs st1)))
                          (\<lambda>s'. Inr (t1\<lparr>tevlist := NULL\<rparr>, st1\<lparr>evs := s'\<rparr>))
                   else Inr (t1, st1))
           (\<lambda>(t2, st2). Inr (upd_slot i (\<lambda>_. t2\<lparr>tid := - 1, tstate := PROF_STATE_UNINIT\<rparr>) st2)))"

fun exit_slots :: "os \<Rightarrow> nat list \<Rightarrow> prof \<Rightarrow> fault + prof" where
  "exit_slots os [] st = Inr st"
| "exit_slots os (i # is) st =
     (let t = threads (ginfo st) ! i
      in if tid t = - 1 then exit_slots os is st
         else if tstate t = PROF_STATE_RUNNING then and_then (destroy_tinfo os i st) (exit_slots os is)
         else exit_slots os is st)"

definition lprobe_exit :: "os \<Rightarrow> prof \<Rightarrow> fault + prof" where
  "lprobe_exit os st =
     (if is_error (ginfo st) then Inr st
      else let st1 = (case flog (ginfo st) of
                 None \<Rightarrow> st
               | Some f \<Rightarrow> st\<lparr>ginfo := (ginfo st)\<lparr>flog := None\<rparr>,
                              evs := (evs st)\<lparr>history := sys_do os (Fclose f) (history (evs st))\<rparr>\<rparr>)
           in exit_slots os [0..<PROF_THREAD_MAX] st1)"

subsection \<open>The probes\<close>

text \<open>The inner loop of \<^verbatim>\<open>__read_count\<close>: its state is the slot, the files and the event counter
  \<open>i\<close>.  \<open>pmc\<close> gives the value read from an event (\<^verbatim>\<open>prof_evsel__rdpmc\<close>), or its fault.
  Storing a record outside the buffer and writing to a null \<^verbatim>\<open>FILE\<close> are faults too.\<close>

record read_loop =
  rl_nodes :: list_heap
  rl_slot :: prof_tinfo
  rl_files :: "string \<rightharpoonup> prof_record list"
  rl_i :: u8
  rl_fault :: "fault option"

definition append_record ::
  "prof_record \<Rightarrow> prof_tinfo \<Rightarrow> (string \<rightharpoonup> prof_record list) \<Rightarrow> fault + prof_tinfo \<times> (string \<rightharpoonup> prof_record list)" where
  "append_record r t fs =
     (if PROF_RECORD_CACHE \<le> unat (nb_record t) then Inl Out_of_bounds
      else let t1 = t\<lparr>records := (records t)(unat (nb_record t) := r)\<rparr>;
               t2 = t1\<lparr>nb_record := nb_record t1 + 1\<rparr>
           in if nb_record t2 = of_nat PROF_RECORD_CACHE
              then (case output_file t2 of
                      None \<Rightarrow> Inl Null_pointer
                    | Some f \<Rightarrow> Inr (t2\<lparr>nb_record := 0\<rparr>, fwrite f (buffered t2) fs))
              else Inr (t2, fs))"

definition read_body ::
  "u32 \<Rightarrow> u8 \<Rightarrow> u64 \<Rightarrow> (addr \<Rightarrow> fault + u64) \<Rightarrow> addr \<Rightarrow> read_loop \<Rightarrow> read_loop flow" where
  "read_body func_index is_post cyc pmc p s =
     (case and_then (pmc p) (\<lambda>c. append_record
              \<lparr>ts = cyc, func_idx = ucast func_index, pos = is_post, ev_idx = rl_i s, count = c\<rparr> (rl_slot s) (rl_files s)) of
        Inl f \<Rightarrow> Leave (s\<lparr>rl_fault := Some f\<rparr>)
      | Inr (t, fs) \<Rightarrow> Go (s\<lparr>rl_slot := t, rl_files := fs, rl_i := rl_i s + 1\<rparr>))"

definition rdpmc_at :: "(addr \<Rightarrow> nat \<Rightarrow> page_read) \<Rightarrow> evstate \<Rightarrow> addr \<Rightarrow> fault + u64" where
  "rdpmc_at pages s p =
     (case evsels s p of
        None \<Rightarrow> Inl Null_pointer
      | Some ev \<Rightarrow>
          (case prof_evsel__rdpmc (pages p) ev of
             None \<Rightarrow> Inl Endless_loop
           | Some NullDeref \<Rightarrow> Inl Null_pointer
           | Some Uninit \<Rightarrow> Inl Indeterminate_value
           | Some (Value v) \<Rightarrow> Inr v))"

definition read_count :: "(addr \<Rightarrow> nat \<Rightarrow> page_read) \<Rightarrow> u64 \<Rightarrow> u32 \<Rightarrow> u8 \<Rightarrow> nat \<Rightarrow> prof \<Rightarrow> fault + prof" where
  "read_count pages cyc func_index is_post i st =
     (let t = threads (ginfo st) ! i
      in and_then (or_endless (list_for_each_entry node_off rl_nodes
              (read_body func_index is_post cyc (rdpmc_at pages (evs st))) (tevlist t)
              \<lparr>rl_nodes = nodes (evs st), rl_slot = t, rl_files = files st, rl_i = 0, rl_fault = None\<rparr>))
           (\<lambda>f. case rl_fault (flow_state f) of
                  Some e \<Rightarrow> Inl e
                | None \<Rightarrow> Inr (upd_slot i (\<lambda>_. rl_slot (flow_state f)) (st\<lparr>files := rl_files (flow_state f)\<rparr>))))"

definition lprobe_func ::
  "(addr \<Rightarrow> nat \<Rightarrow> page_read) \<Rightarrow> int \<Rightarrow> u64 \<Rightarrow> u8 \<Rightarrow> u32 \<Rightarrow> tls \<Rightarrow> prof \<Rightarrow> fault + tls \<times> prof" where
  "lprobe_func pages gettid cyc is_post func_index l st =
     (if is_ignore l then Inr (l, st)
      else let go = (\<lambda>l i. if tstate (threads (ginfo st) ! i) \<noteq> PROF_STATE_RUNNING then Inr (l, st)
                            else and_then (read_count pages cyc func_index is_post i st) (\<lambda>st'. Inr (l, st')))
           in case threadinfo l of
                Some i \<Rightarrow> go l i
              | None \<Rightarrow>
                  let l1 = l\<lparr>threadid := gettid\<rparr>
                  in (case find_tinfo gettid (ginfo st) of
                        None \<Rightarrow> Inr (l1\<lparr>is_ignore := True\<rparr>, st)
                      | Some i \<Rightarrow> go (l1\<lparr>threadinfo := Some i, is_ignore := False\<rparr>) i))"

definition lprobe_func_entry :: "(addr \<Rightarrow> nat \<Rightarrow> page_read) \<Rightarrow> int \<Rightarrow> u64 \<Rightarrow> u32 \<Rightarrow> tls \<Rightarrow> prof \<Rightarrow> fault + tls \<times> prof" where
  "lprobe_func_entry pages gettid cyc func_index l st = lprobe_func pages gettid cyc 0 func_index l st"

definition lprobe_func_exit :: "(addr \<Rightarrow> nat \<Rightarrow> page_read) \<Rightarrow> int \<Rightarrow> u64 \<Rightarrow> u32 \<Rightarrow> tls \<Rightarrow> prof \<Rightarrow> fault + tls \<times> prof" where
  "lprobe_func_exit pages gettid cyc func_index l st = lprobe_func pages gettid cyc 1 func_index l st"

text \<open>Thread exit: the original \<^verbatim>\<open>pthread_exit\<close> runs first, and the probe's own part is empty.\<close>

definition lprobe_thread_exit :: "prof \<Rightarrow> prof" where
  "lprobe_thread_exit st = st"

definition lprobe_pthread_exit :: "(addr \<Rightarrow> prof \<Rightarrow> prof) \<Rightarrow> addr \<Rightarrow> prof \<Rightarrow> prof" where
  "lprobe_pthread_exit hook p st = lprobe_thread_exit (hook p st)"

subsection \<open>probe/emptyprobe.c: the probes that measure nothing\<close>

definition lprobe_thread_init_empty :: "(addr \<Rightarrow> addr) \<Rightarrow> (addr \<Rightarrow> int) \<Rightarrow> nat \<Rightarrow> addr \<Rightarrow> int" where
  "lprobe_thread_init_empty mem_ptr mem_pid tid_offset ptid = mem_pid (mem_ptr ptid + tid_offset)"

definition lprobe_empty_pthread_create ::
  "(addr \<Rightarrow> addr) \<Rightarrow> (addr \<Rightarrow> int) \<Rightarrow> nat \<Rightarrow> (addr \<Rightarrow> int) \<Rightarrow> addr \<Rightarrow> int \<Rightarrow> int \<times> int" where
  "lprobe_empty_pthread_create mem_ptr mem_pid tid_offset hook p1 thread_tid =
     (let r = hook p1
      in (r, if r = 0 then lprobe_thread_init_empty mem_ptr mem_pid tid_offset p1 else thread_tid))"

end
