(* ===== verification/Probe_Log.thy ===== *)
theory Probe_Log
  imports Profile
begin

section \<open>Every probe hit reaches the output file\<close>

text \<open>
  The buffered writer of \<^verbatim>\<open>__read_count\<close> and \<^verbatim>\<open>__destroy_tinfo\<close> refines an append-only log: the
  records already in the file followed by the records still in the buffer.  The locale states what
  the probes rely on, the interpretation shows that the slot with its file provides it, and the
  properties follow the log from a sequence of probe hits to the file left by \<^verbatim>\<open>lprobe_exit\<close>.
\<close>

locale record_sink =
  fixes ok :: "'b \<Rightarrow> bool" and logged :: "'b \<Rightarrow> 'r list" and put :: "'r \<Rightarrow> 'b \<Rightarrow> 'b"
  assumes put_ok: "ok b \<Longrightarrow> ok (put r b)"
    and put_logged: "ok b \<Longrightarrow> logged (put r b) = logged b @ [r]"
begin

lemma put_all: "ok b \<Longrightarrow> ok (fold put rs b) \<and> logged (fold put rs b) = logged b @ rs"
  by (induction rs arbitrary: b) (simp_all add: put_ok put_logged)

end

type_synonym sink = "prof_tinfo \<times> (string \<rightharpoonup> prof_record list)"

definition sink_ok :: "sink \<Rightarrow> bool" where
  "sink_ok = (\<lambda>(t, fs). \<exists>f old. output_file t = Some f \<and> fs f = Some old
     \<and> unat (nb_record t) < PROF_RECORD_CACHE)"

definition sink_log :: "sink \<Rightarrow> prof_record list" where
  "sink_log = (\<lambda>(t, fs). the (fs (the (output_file t))) @ buffered t)"

definition sink_put :: "prof_record \<Rightarrow> sink \<Rightarrow> sink" where
  "sink_put r = (\<lambda>(t, fs). case append_record r t fs of Inl _ \<Rightarrow> (t, fs) | Inr b \<Rightarrow> b)"

lemma nb_record_Suc:
  fixes n :: u32
  assumes "unat n < PROF_RECORD_CACHE"
  shows "unat (n + 1) = Suc (unat n)" "n + 1 = of_nat PROF_RECORD_CACHE \<longleftrightarrow> Suc (unat n) = PROF_RECORD_CACHE"
proof -
  show s: "unat (n + 1) = Suc (unat n)"
    using assms unat_add_lem [of n 1] by simp
  show "n + 1 = of_nat PROF_RECORD_CACHE \<longleftrightarrow> Suc (unat n) = PROF_RECORD_CACHE"
    unfolding word_unat_eq_iff s by simp
qed

lemma buffered_append:
  assumes "unat (nb_record t) < PROF_RECORD_CACHE"
  shows "buffered (t\<lparr>records := (records t)(unat (nb_record t) := r), nb_record := nb_record t + 1\<rparr>)
    = buffered t @ [r]"
  using assms by (simp add: buffered_def nb_record_Suc)

text \<open>With an open file and room in the buffer an append does not fault.\<close>

lemma append_record_ok:
  assumes "output_file t = Some f" "unat (nb_record t) < PROF_RECORD_CACHE"
  shows "append_record r t fs = Inr
    (let t2 = t\<lparr>records := (records t)(unat (nb_record t) := r), nb_record := nb_record t + 1\<rparr>
     in if Suc (unat (nb_record t)) = PROF_RECORD_CACHE
        then (t2\<lparr>nb_record := 0\<rparr>, fwrite f (buffered t @ [r]) fs) else (t2, fs))"
proof -
  let ?t2 = "t\<lparr>records := (records t)(unat (nb_record t) := r), nb_record := nb_record t + 1\<rparr>"
  have "append_record r t fs = Inr
      (if nb_record t + 1 = of_nat PROF_RECORD_CACHE
       then (?t2\<lparr>nb_record := 0\<rparr>, fwrite f (buffered ?t2) fs) else (?t2, fs))"
    using assms unfolding append_record_def Let_def by simp
  then show ?thesis unfolding nb_record_Suc(2) [OF assms(2)] buffered_append [OF assms(2)] Let_def .
qed

lemma append_record_sink: "sink_ok (t, fs) \<Longrightarrow> append_record r t fs = Inr (sink_put r (t, fs))"
  by (auto simp: sink_ok_def sink_put_def append_record_ok)

interpretation sink: record_sink sink_ok sink_log sink_put
proof
  fix b :: sink and r
  assume "sink_ok b"
  moreover obtain t fs where b: "b = (t, fs)" by fastforce
  ultimately obtain f old where o: "output_file t = Some f" "fs f = Some old"
    "unat (nb_record t) < PROF_RECORD_CACHE" by (auto simp: sink_ok_def)
  show "sink_ok (sink_put r b)"
    using o nb_record_Suc(1) [OF o(3)]
    by (auto simp: b sink_ok_def sink_put_def append_record_ok [OF o(1,3)] Let_def fwrite_def)
  show "sink_log (sink_put r b) = sink_log b @ [r]"
    using o buffered_append [OF o(3), of r]
    by (simp add: b sink_log_def sink_put_def append_record_ok [OF o(1,3)] Let_def fwrite_def)
      (simp add: buffered_def)
qed

text \<open>What else an append leaves alone.\<close>

lemma sink_put_frame:
  assumes "sink_put r (t, fs) = (t', fs')"
  shows "tid t' = tid t" "tstate t' = tstate t" "tevlist t' = tevlist t" "output_file t' = output_file t"
    "g \<noteq> the (output_file t) \<Longrightarrow> fs' g = fs g"
  using assms by (auto simp: sink_put_def append_record_def Let_def fwrite_def split: if_splits option.splits)

subsection \<open>One probe hit\<close>

interpretation rdb: quiet_body rl_nodes "read_body func_index is_post cyc pmc" for func_index is_post cyc pmc
  by unfold_locales (simp add: read_body_def split: sum.split prod.split)

text \<open>The records of one hit: one per event, numbered in list order.\<close>

definition hit_records :: "u32 \<Rightarrow> u8 \<Rightarrow> u64 \<Rightarrow> (addr \<Rightarrow> u64) \<Rightarrow> addr list \<Rightarrow> prof_record list" where
  "hit_records func_index is_post cyc c xs =
     map (\<lambda>k. \<lparr>ts = cyc, func_idx = ucast func_index, pos = is_post, ev_idx = of_nat k, count = c (xs ! k)\<rparr>)
       [0..<length xs]"

lemma read_run:
  assumes "\<forall>p \<in> set xs. pmc p = Inr (c p)" "rl_fault s = None" "sink_ok (rl_slot s, rl_files s)"
  shows "\<exists>s'. run_body (read_body func_index is_post cyc pmc) xs s = Go s' \<and> rl_fault s' = None
    \<and> (rl_slot s', rl_files s') = fold sink_put
        (map (\<lambda>k. \<lparr>ts = cyc, func_idx = ucast func_index, pos = is_post, ev_idx = rl_i s + of_nat k,
                    count = c (xs ! k)\<rparr>) [0..<length xs]) (rl_slot s, rl_files s)"
  using assms
proof (induction xs arbitrary: s)
  case (Cons p ps)
  let ?r = "\<lparr>ts = cyc, func_idx = ucast func_index, pos = is_post, ev_idx = rl_i s, count = c p\<rparr>"
  obtain t fs where a: "sink_put ?r (rl_slot s, rl_files s) = (t, fs)" by fastforce
  let ?s1 = "s\<lparr>rl_slot := t, rl_files := fs, rl_i := rl_i s + 1\<rparr>"
  have b: "read_body func_index is_post cyc pmc p s = Go ?s1"
    using Cons.prems a by (simp add: read_body_def append_record_sink)
  have ok: "sink_ok (t, fs)" using sink.put_ok [OF Cons.prems(3), of ?r] a by simp
  have upt: "[0..<length (p # ps)] = 0 # map Suc [0..<length ps]"
    by (simp add: upt_conv_Cons map_Suc_upt del: upt_Suc)
  obtain s' where "run_body (read_body func_index is_post cyc pmc) ps ?s1 = Go s'" "rl_fault s' = None"
    "(rl_slot s', rl_files s') = fold sink_put
        (map (\<lambda>k. \<lparr>ts = cyc, func_idx = ucast func_index, pos = is_post, ev_idx = rl_i ?s1 + of_nat k,
                    count = c (ps ! k)\<rparr>) [0..<length ps]) (rl_slot ?s1, rl_files ?s1)"
    using Cons.IH [of ?s1] Cons.prems ok by auto
  then show ?case
    using b a unfolding upt by (simp add: o_def add.assoc add.commute add.left_commute)
qed simp

lemma fold_sink_put_frame:
  assumes "fold sink_put rs (t, fs) = (t', fs')"
  shows "tid t' = tid t \<and> tstate t' = tstate t \<and> tevlist t' = tevlist t \<and> output_file t' = output_file t
    \<and> (\<forall>g. g \<noteq> the (output_file t) \<longrightarrow> fs' g = fs g)"
  using assms
proof (induction rs arbitrary: t fs)
  case (Cons r rs)
  obtain t1 fs1 where a: "sink_put r (t, fs) = (t1, fs1)" by fastforce
  then have "fold sink_put rs (t1, fs1) = (t', fs')" using Cons.prems by simp
  from Cons.IH [OF this] sink_put_frame [OF a] show ?case by simp
qed simp

text \<open>A slot in use: its events are well formed and its buffer has room.\<close>

definition slot_of :: "prof \<Rightarrow> nat \<Rightarrow> prof_tinfo" where
  "slot_of st i = threads (ginfo st) ! i"

definition running_slot :: "prof \<Rightarrow> nat \<Rightarrow> addr list \<Rightarrow> bool" where
  "running_slot st i xs \<longleftrightarrow>
     i < length (threads (ginfo st)) \<and> tstate (slot_of st i) = PROF_STATE_RUNNING \<and> tid (slot_of st i) \<noteq> - 1
     \<and> evlist_inv (evs st) (tevlist (slot_of st i)) xs \<and> sink_ok (slot_of st i, files st)"

definition thread_log :: "prof \<Rightarrow> nat \<Rightarrow> prof_record list" where
  "thread_log st i = sink_log (slot_of st i, files st)"

lemma slot_of_upd [simp]:
  "i < length (threads (ginfo st)) \<Longrightarrow> slot_of (upd_slot i f st) j = (if j = i then f (slot_of st i) else slot_of st j)"
  "length (threads (ginfo (upd_slot i f st))) = length (threads (ginfo st))"
  "files (upd_slot i f st) = files st" "evs (upd_slot i f st) = evs st"
  by (auto simp: slot_of_def upd_slot_def)

lemma slot_of_files [simp]: "slot_of (st\<lparr>files := fs\<rparr>) i = slot_of st i" "slot_of (st\<lparr>evs := s\<rparr>) i = slot_of st i"
  by (simp_all add: slot_of_def)

text \<open>What a hit keeps of the table: the events and the output file of the thread, the size and the error flag.\<close>

definition same_owner :: "prof \<Rightarrow> prof \<Rightarrow> nat \<Rightarrow> bool" where
  "same_owner st st' i \<longleftrightarrow>
     output_file (slot_of st' i) = output_file (slot_of st i) \<and> tevlist (slot_of st' i) = tevlist (slot_of st i)
     \<and> length (threads (ginfo st')) = length (threads (ginfo st)) \<and> is_error (ginfo st') = is_error (ginfo st)"

lemma same_owner_refl [simp]: "same_owner st st i"
  by (simp add: same_owner_def)

lemma same_owner_trans: "same_owner st st1 i \<Longrightarrow> same_owner st1 st2 i \<Longrightarrow> same_owner st st2 i"
  by (simp add: same_owner_def)

lemma is_error_upd [simp]: "is_error (ginfo (upd_slot i f st)) = is_error (ginfo st)"
  by (simp add: upd_slot_def)

lemma read_count_effect:
  assumes run: "running_slot st i xs" and val: "\<forall>p \<in> set xs. rdpmc_at pages (evs st) p = Inr (c p)"
  shows "\<exists>st'. read_count pages cyc func_index is_post i st = Inr st' \<and> running_slot st' i xs
    \<and> thread_log st' i = thread_log st i @ hit_records func_index is_post cyc c xs
    \<and> evs st' = evs st \<and> same_owner st st' i
    \<and> (\<forall>j. j \<noteq> i \<longrightarrow> slot_of st' j = slot_of st j)
    \<and> (\<forall>g. g \<noteq> the (output_file (slot_of st i)) \<longrightarrow> files st' g = files st g)"
proof -
  let ?t = "slot_of st i"
  let ?s0 = "\<lparr>rl_nodes = nodes (evs st), rl_slot = ?t, rl_files = files st, rl_i = 0, rl_fault = None\<rparr>"
  let ?b = "read_body func_index is_post cyc (rdpmc_at pages (evs st))"
  have i: "i < length (threads (ginfo st))" using run by (simp add: running_slot_def)
  have "list_for_each_entry node_off rl_nodes ?b (tevlist ?t) ?s0 = Some (run_body ?b xs ?s0)"
    using rdb.for_each [of ?s0 "tevlist ?t" xs] run
    by (simp add: list_for_each_entry_def running_slot_def evlist_inv_def)
  moreover obtain s' where s': "run_body ?b xs ?s0 = Go s'" "rl_fault s' = None"
      "(rl_slot s', rl_files s') = fold sink_put (hit_records func_index is_post cyc c xs) (?t, files st)"
    using read_run [OF val, of ?s0 func_index is_post cyc] run by (auto simp: hit_records_def running_slot_def)
  ultimately have rc: "read_count pages cyc func_index is_post i st
      = Inr (upd_slot i (\<lambda>_. rl_slot s') (st\<lparr>files := rl_files s'\<rparr>))"
    by (simp add: read_count_def slot_of_def Let_def)
  have "sink_ok (?t, files st)" using run by (simp add: running_slot_def)
  from sink.put_all [OF this, of "hit_records func_index is_post cyc c xs"]
  have "sink_ok (rl_slot s', rl_files s')"
      "sink_log (rl_slot s', rl_files s') = sink_log (?t, files st) @ hit_records func_index is_post cyc c xs"
    using s'(3) by simp_all
  then show ?thesis
    using rc run i fold_sink_put_frame [OF s'(3) [symmetric]]
    by (intro exI [of _ "upd_slot i (\<lambda>_. rl_slot s') (st\<lparr>files := rl_files s'\<rparr>)"])
      (simp add: running_slot_def thread_log_def same_owner_def)
qed

subsection \<open>A sequence of probe hits\<close>

record hit =
  h_exit :: bool
  h_func :: u32
  h_cyc :: u64
  h_pages :: "addr \<Rightarrow> nat \<Rightarrow> page_read"

definition probe_hit :: "int \<Rightarrow> hit \<Rightarrow> tls \<Rightarrow> prof \<Rightarrow> fault + tls \<times> prof" where
  "probe_hit gettid h l st =
     (if h_exit h then lprobe_func_exit (h_pages h) gettid (h_cyc h) (h_func h) l st
      else lprobe_func_entry (h_pages h) gettid (h_cyc h) (h_func h) l st)"

fun run_hits :: "int \<Rightarrow> hit list \<Rightarrow> tls \<Rightarrow> prof \<Rightarrow> fault + tls \<times> prof" where
  "run_hits gettid [] l st = Inr (l, st)"
| "run_hits gettid (h # hs) l st = and_then (probe_hit gettid h l st) (\<lambda>(l', st'). run_hits gettid hs l' st')"

definition log_of_hit :: "(hit \<Rightarrow> addr \<Rightarrow> u64) \<Rightarrow> addr list \<Rightarrow> hit \<Rightarrow> prof_record list" where
  "log_of_hit c xs h = hit_records (h_func h) (if h_exit h then 1 else 0) (h_cyc h) (c h) xs"

lemma probe_hit_effect:
  assumes run: "running_slot st i xs" and l: "threadinfo l = Some i" "\<not> is_ignore l"
    and val: "\<forall>p \<in> set xs. rdpmc_at (h_pages h) (evs st) p = Inr (c h p)"
  shows "\<exists>st'. probe_hit gettid h l st = Inr (l, st') \<and> running_slot st' i xs
    \<and> thread_log st' i = thread_log st i @ log_of_hit c xs h \<and> evs st' = evs st
    \<and> same_owner st st' i
    \<and> (\<forall>j. j \<noteq> i \<longrightarrow> slot_of st' j = slot_of st j)
    \<and> (\<forall>g. g \<noteq> the (output_file (slot_of st i)) \<longrightarrow> files st' g = files st g)"
proof -
  have r: "tstate (threads (ginfo st) ! i) = PROF_STATE_RUNNING"
    using run by (simp add: running_slot_def slot_of_def)
  have "probe_hit gettid h l st = and_then (read_count (h_pages h) (h_cyc h) (h_func h) (if h_exit h then 1 else 0) i st)
      (\<lambda>st'. Inr (l, st'))"
    using l r by (simp add: probe_hit_def lprobe_func_exit_def lprobe_func_entry_def lprobe_func_def Let_def)
  then show ?thesis
    using read_count_effect [OF run val, of "h_cyc h" "h_func h" "if h_exit h then 1 else 0"]
    by (auto simp: log_of_hit_def)
qed

lemma run_hits_effect:
  assumes "running_slot st i xs" "threadinfo l = Some i" "\<not> is_ignore l"
    and "\<forall>h \<in> set hs. \<forall>p \<in> set xs. rdpmc_at (h_pages h) (evs st) p = Inr (c h p)"
  shows "\<exists>st'. run_hits gettid hs l st = Inr (l, st') \<and> running_slot st' i xs
    \<and> thread_log st' i = thread_log st i @ concat (map (log_of_hit c xs) hs) \<and> evs st' = evs st
    \<and> same_owner st st' i
    \<and> (\<forall>j. j \<noteq> i \<longrightarrow> slot_of st' j = slot_of st j)
    \<and> (\<forall>g. g \<noteq> the (output_file (slot_of st i)) \<longrightarrow> files st' g = files st g)"
  using assms(1,4)
proof (induction hs arbitrary: st)
  case (Cons h hs)
  have hv: "\<forall>p \<in> set xs. rdpmc_at (h_pages h) (evs st) p = Inr (c h p)" using Cons.prems by simp
  obtain st1 where "probe_hit gettid h l st = Inr (l, st1)" "running_slot st1 i xs"
      "thread_log st1 i = thread_log st i @ log_of_hit c xs h" "evs st1 = evs st"
      "same_owner st st1 i"
      "\<forall>j. j \<noteq> i \<longrightarrow> slot_of st1 j = slot_of st j"
      "\<forall>g. g \<noteq> the (output_file (slot_of st i)) \<longrightarrow> files st1 g = files st g"
    using probe_hit_effect [where c = c, OF Cons.prems(1) assms(2,3) hv] by blast
  with Cons.IH [of st1] Cons.prems(2) show ?case
    using same_owner_trans [of st st1 i] by (auto simp: same_owner_def)
qed simp

subsection \<open>Shutting down\<close>

lemma buffered_empty: "nb_record t = 0 \<Longrightarrow> buffered t = []"
  by (simp add: buffered_def)

lemma nb_record_id: "nb_record t = 0 \<Longrightarrow> t\<lparr>nb_record := 0\<rparr> = t" for t :: prof_tinfo
  by (cases t) simp

lemma evlist_inv_history:
  "evlist_inv s e xs \<Longrightarrow> live tr = live (history s) \<Longrightarrow> evlist_inv (s\<lparr>history := tr\<rparr>) e xs"
  by (simp add: evlist_inv_def events_ok_def)

lemma destroy_effect:
  assumes run: "running_slot st i xs"
  defines "e \<equiv> tevlist (slot_of st i)" and "f \<equiv> the (output_file (slot_of st i))"
  shows "\<exists>st' t'. destroy_tinfo os i st = Inr st' \<and> files st' = (files st)(f \<mapsto> thread_log st i)
    \<and> threads (ginfo st') = (threads (ginfo st))[i := t'] \<and> tid t' = - 1 \<and> tstate t' = PROF_STATE_UNINIT
    \<and> untouched (evs st) (evs st') (set (e # xs))
    \<and> live (history (evs st')) = live (history (evs st)) - set (e # xs)
    \<and> open_fds (history (evs st')) = open_fds (history (evs st)) - fds_of (evs st) xs"
proof -
  let ?t = "slot_of st i" and ?s = "(evs st)\<lparr>history := sys_do os (Fclose f) (history (evs st))\<rparr>"
  obtain old where f: "output_file ?t = Some f" "files st f = Some old"
    using run by (auto simp: running_slot_def sink_ok_def f_def)
  have inv: "evlist_inv ?s e xs"
    using run by (intro evlist_inv_history) (simp_all add: running_slot_def e_def)
  then have e: "e \<noteq> NULL" by (auto simp: evlist_inv_def)
  obtain s' where s': "prof_evlist__delete os e ?s = Some s'" "live (history s') = live (history ?s) - set (e # xs)"
      "open_fds (history s') = open_fds (history ?s) - fds_of ?s xs"
    using evlist_delete_effect [OF inv, of os] by blast
  have u: "untouched (evs st) s' (set (e # xs))"
    using delete_untouched [OF inv s'(1)] by (simp add: untouched_def)
  have log: "thread_log st i = old @ buffered ?t" using f by (simp add: thread_log_def sink_log_def)
  have "destroy_tinfo os i st = Inr (upd_slot i
      (\<lambda>_. ?t\<lparr>nb_record := 0, output_file := None, tevlist := NULL, tid := - 1, tstate := PROF_STATE_UNINIT\<rparr>)
      (st\<lparr>files := (files st)(f \<mapsto> thread_log st i), evs := s'\<rparr>))"
    using f s'(1) e buffered_empty [of ?t] log
    by (cases "nb_record ?t = 0")
      (auto simp: destroy_tinfo_def Let_def fwrite_def e_def slot_of_def word_neq_0_conv map_upd_triv nb_record_id)
  moreover have "fds_of ?s xs = fds_of (evs st) xs" by (rule fds_of_cong) simp
  ultimately show ?thesis using u s'(2,3) by (auto simp: upd_slot_def)
qed

text \<open>The invariant of the whole table: \<open>L i\<close> are the events of slot \<open>i\<close>.  Different running slots have
  different files and share no memory.\<close>

definition table_running :: "prof \<Rightarrow> (nat \<Rightarrow> addr list) \<Rightarrow> nat set \<Rightarrow> bool" where
  "table_running st L I \<longleftrightarrow>
     length (threads (ginfo st)) = PROF_THREAD_MAX
     \<and> (\<forall>i < PROF_THREAD_MAX. tstate (slot_of st i) = PROF_STATE_RUNNING \<and> tid (slot_of st i) \<noteq> - 1 \<longleftrightarrow> i \<in> I)
     \<and> (\<forall>i \<in> I. running_slot st i (L i))
     \<and> (\<forall>i \<in> I. \<forall>j \<in> I. i \<noteq> j \<longrightarrow> set (tevlist (slot_of st i) # L i) \<inter> set (tevlist (slot_of st j) # L j) = {}
           \<and> output_file (slot_of st i) \<noteq> output_file (slot_of st j))"

lemma destroy_table:
  assumes tab: "table_running st L I" and i: "i \<in> I"
  shows "\<exists>st'. destroy_tinfo os i st = Inr st' \<and> table_running st' L (I - {i})
    \<and> files st' = (files st)(the (output_file (slot_of st i)) \<mapsto> thread_log st i)
    \<and> (\<forall>j \<in> I - {i}. slot_of st' j = slot_of st j \<and> thread_log st' j = thread_log st j)"
proof -
  let ?e = "\<lambda>i. tevlist (slot_of st i)"
  have run: "running_slot st i (L i)" using assms by (simp add: table_running_def)
  then have i64: "i < length (threads (ginfo st))" by (simp add: running_slot_def)
  obtain st' t' where st': "destroy_tinfo os i st = Inr st'"
      "files st' = (files st)(the (output_file (slot_of st i)) \<mapsto> thread_log st i)"
      "threads (ginfo st') = (threads (ginfo st))[i := t']" "tid t' = - 1" "tstate t' = PROF_STATE_UNINIT"
      "untouched (evs st) (evs st') (set (?e i # L i))"
      "live (history (evs st')) = live (history (evs st)) - set (?e i # L i)"
    using destroy_effect [OF run, of os] by blast
  have sl: "slot_of st' j = (if j = i then t' else slot_of st j)" for j
    using st'(3) i64 by (simp add: slot_of_def nth_list_update)
  have other: "running_slot st' j (L j) \<and> thread_log st' j = thread_log st j" if j: "j \<in> I - {i}" for j
  proof -
    have rj: "running_slot st j (L j)" and dj: "set (?e i # L i) \<inter> set (?e j # L j) = {}"
      and fj: "output_file (slot_of st i) \<noteq> output_file (slot_of st j)"
      using tab i j by (auto simp: table_running_def)
    have ej: "evlist_inv (evs st) (?e j) (L j)" using rj by (simp add: running_slot_def)
    have "evlist_inv (evs st') (?e j) (L j)"
      by (rule evlist_inv_untouched(1) [OF ej st'(6) dj])
        (use ej dj st'(7) in \<open>auto simp: evlist_inv_def\<close>)
    moreover have "files st' (the (output_file (slot_of st j))) = files st (the (output_file (slot_of st j)))"
      using st'(2) fj rj run by (auto simp: running_slot_def sink_ok_def)
    ultimately show ?thesis
      using rj j sl st'(3) by (auto simp: running_slot_def sink_ok_def thread_log_def sink_log_def)
  qed
  have "table_running st' L (I - {i})"
    unfolding table_running_def using tab other sl st'(3,4) by (auto simp: table_running_def)
  then show ?thesis using st'(1,2) other sl by auto
qed

lemma table_running_slot: "table_running st L I \<Longrightarrow> i \<in> I \<Longrightarrow> i < PROF_THREAD_MAX"
  by (auto simp: table_running_def running_slot_def)

lemma table_runningD:
  "table_running st L I \<Longrightarrow> i \<in> I \<Longrightarrow> tstate (slot_of st i) = PROF_STATE_RUNNING \<and> tid (slot_of st i) \<noteq> - 1"
  by (simp add: table_running_def running_slot_def)

lemma table_running_files:
  assumes "table_running st L I" "j \<in> I" "i \<in> I" "j \<noteq> i"
  shows "the (output_file (slot_of st j)) \<noteq> the (output_file (slot_of st i))"
proof -
  have "output_file (slot_of st j) \<noteq> output_file (slot_of st i)" "running_slot st i (L i)" "running_slot st j (L j)"
    using assms by (simp_all add: table_running_def)
  then show ?thesis by (auto simp: running_slot_def sink_ok_def)
qed

lemma exit_slots_effect:
  "table_running st L I \<Longrightarrow> distinct is \<Longrightarrow> set is \<subseteq> {..<PROF_THREAD_MAX} \<Longrightarrow>
     \<exists>st'. exit_slots os is st = Inr st' \<and> table_running st' L (I - set is)
       \<and> (\<forall>i \<in> I \<inter> set is. files st' (the (output_file (slot_of st i))) = Some (thread_log st i))
       \<and> (\<forall>f. (\<forall>i \<in> I \<inter> set is. f \<noteq> the (output_file (slot_of st i))) \<longrightarrow> files st' f = files st f)"
proof (induction "is" arbitrary: st I)
  case (Cons i "is")
  show ?case
  proof (cases "i \<in> I")
    case False
    then have "exit_slots os (i # is) st = exit_slots os is st"
      using Cons.prems by (auto simp: table_running_def slot_of_def Let_def)
    moreover have "I - set (i # is) = I - set is" "I \<inter> set (i # is) = I \<inter> set is" using False by auto
    ultimately show ?thesis using Cons.IH [OF Cons.prems(1)] Cons.prems by simp
  next
    case True
    let ?f = "\<lambda>j. the (output_file (slot_of st j))"
    obtain st1 where st1: "destroy_tinfo os i st = Inr st1" "table_running st1 L (I - {i})"
        "files st1 = (files st)(?f i \<mapsto> thread_log st i)"
        "\<forall>j \<in> I - {i}. slot_of st1 j = slot_of st j \<and> thread_log st1 j = thread_log st j"
      using destroy_table [OF Cons.prems(1) True, of os] by blast
    obtain st' where st': "exit_slots os is st1 = Inr st'" "table_running st' L (I - {i} - set is)"
        "\<forall>j \<in> (I - {i}) \<inter> set is. files st' (the (output_file (slot_of st1 j))) = Some (thread_log st1 j)"
        "\<forall>f. (\<forall>j \<in> (I - {i}) \<inter> set is. f \<noteq> the (output_file (slot_of st1 j))) \<longrightarrow> files st' f = files st1 f"
      using Cons.IH [OF st1(2)] Cons.prems by auto
    have "?f j \<noteq> ?f i" if "j \<in> I - {i}" for j
      using that table_running_files [OF Cons.prems(1) _ True, of j] by simp
    then have fi: "files st' (?f i) = Some (thread_log st i)"
      using st'(4) [rule_format, of "?f i"] st1(3,4) by fastforce
    have "exit_slots os (i # is) st = exit_slots os is st1"
      using table_runningD [OF Cons.prems(1) True] st1(1) by (simp add: slot_of_def)
    moreover have "I - set (i # is) = I - {i} - set is" by auto
    moreover have "files st' (?f j) = Some (thread_log st j)" if "j \<in> I \<inter> set (i # is)" for j
      using that fi st'(3) st1(4) by (cases "j = i") auto
    moreover have "files st' f = files st f" if "\<forall>j \<in> I \<inter> set (i # is). f \<noteq> ?f j" for f
      using that True st'(4) st1(3,4) by simp
    ultimately show ?thesis using st'(1,2) by (intro exI [of _ st']) simp
  qed
qed simp

lemma lprobe_exit_effect:
  assumes "table_running st L I" "\<not> is_error (ginfo st)"
  shows "\<exists>st'. lprobe_exit os st = Inr st' \<and> table_running st' L {}
    \<and> (\<forall>i \<in> I. files st' (the (output_file (slot_of st i))) = Some (thread_log st i))
    \<and> (\<forall>f. (\<forall>i \<in> I. f \<noteq> the (output_file (slot_of st i))) \<longrightarrow> files st' f = files st f)"
proof -
  define st1 where "st1 = (case flog (ginfo st) of
      None \<Rightarrow> st
    | Some f \<Rightarrow> st\<lparr>ginfo := (ginfo st)\<lparr>flog := None\<rparr>,
                   evs := (evs st)\<lparr>history := sys_do os (Fclose f) (history (evs st))\<rparr>\<rparr>)"
  have ex: "lprobe_exit os st = exit_slots os [0..<PROF_THREAD_MAX] st1"
    using assms(2) by (simp add: lprobe_exit_def st1_def)
  have th: "threads (ginfo st1) = threads (ginfo st)" and fs: "files st1 = files st"
    and inv: "evlist_inv (evs st1) e xs = evlist_inv (evs st) e xs" for e xs
    by (simp_all add: st1_def evlist_inv_def events_ok_def split: option.split)
  have sl: "slot_of st1 i = slot_of st i" "thread_log st1 i = thread_log st i" for i
    by (simp_all add: slot_of_def thread_log_def th fs)
  have tab: "table_running st1 L I"
    using assms(1) unfolding table_running_def running_slot_def sl(1) th fs inv .
  have sub: "set [0..<PROF_THREAD_MAX] \<subseteq> {..<PROF_THREAD_MAX}" by auto
  have "I \<subseteq> {..<PROF_THREAD_MAX}" using table_running_slot [OF assms(1)] by auto
  then have I: "I \<inter> set [0..<PROF_THREAD_MAX] = I" "I - set [0..<PROF_THREAD_MAX] = {}" by auto
  show ?thesis
    using exit_slots_effect [OF tab distinct_upt sub, of os] unfolding I ex sl fs .
qed

text \<open>A sequence of hits keeps the table of running threads.\<close>

lemma hits_keep_table:
  assumes tab: "table_running st L I" and i: "i \<in> I" and run: "running_slot st' i (L i)" and own: "same_owner st st' i"
    and evs: "evs st' = evs st" and other: "\<forall>j. j \<noteq> i \<longrightarrow> slot_of st' j = slot_of st j"
    and fs: "\<forall>g. g \<noteq> the (output_file (slot_of st i)) \<longrightarrow> files st' g = files st g"
  shows "table_running st' L I"
proof -
  have keep: "output_file (slot_of st' j) = output_file (slot_of st j)" "tevlist (slot_of st' j) = tevlist (slot_of st j)"
    "tstate (slot_of st' j) = tstate (slot_of st j)" "tid (slot_of st' j) = - 1 \<longleftrightarrow> tid (slot_of st j) = - 1" for j
    using own other run table_runningD [OF tab i] by (cases "j = i"; simp add: same_owner_def running_slot_def)+
  have "running_slot st' j (L j)" if j: "j \<in> I" for j
  proof (cases "j = i")
    case False
    have "running_slot st j (L j)" using tab j by (simp add: table_running_def)
    moreover have "files st' (the (output_file (slot_of st j))) = files st (the (output_file (slot_of st j)))"
      using fs table_running_files [OF tab j i False] by simp
    ultimately show ?thesis using False other own evs
      by (auto simp: running_slot_def same_owner_def sink_ok_def)
  qed (use run in simp)
  then show ?thesis using tab own unfolding table_running_def keep(1-3) same_owner_def by (simp add: keep(4))
qed

subsection \<open>Properties\<close>

definition example_prof :: prof where
  "example_prof = \<lparr>
     ginfo = globalinfo\<lparr>threads := (replicate PROF_THREAD_MAX zero_tinfo)[0 :=
        zero_tinfo\<lparr>tid := 42, tstate := PROF_STATE_RUNNING, tevlist := 1, output_file := Some (outfile 42)\<rparr>],
        thread_nb := 1, thread_nid := 1\<rparr>,
     evs = example_evlist,
     files = [outfile 42 \<mapsto> []]\<rparr>"

lemma example_slot:
  "slot_of example_prof i = (if i = 0
     then zero_tinfo\<lparr>tid := 42, tstate := PROF_STATE_RUNNING, tevlist := 1, output_file := Some (outfile 42)\<rparr>
     else replicate PROF_THREAD_MAX zero_tinfo ! i)"
  by (simp add: slot_of_def example_prof_def nth_list_update)

lemma example_parts:
  "evs example_prof = example_evlist" "files example_prof = [outfile 42 \<mapsto> []]"
  "length (threads (ginfo example_prof)) = PROF_THREAD_MAX"
  by (simp_all add: example_prof_def)

lemma example_running: "running_slot example_prof 0 [2, 3]"
  using example_evlist_inv
  by (simp add: running_slot_def example_slot sink_ok_def zero_tinfo_def example_parts)

lemma example_table: "table_running example_prof (\<lambda>_. [2, 3]) {0}"
  using example_running
  by (simp add: table_running_def example_slot zero_tinfo_def example_parts)

lemma example_rdpmc: "\<forall>p \<in> set [2, 3]. rdpmc_at pages (evs example_prof) p = Inr 0"
  by (simp add: rdpmc_at_def example_prof_def example_evlist_def prof_evsel__rdpmc_def zero_evsel_def)

text \<open>C2: nothing a thread measures is lost, whatever the number of hits and however often the buffer
  of 65536 records fills up in between.  After a sequence of function entries and exits the thread's
  log (file, then buffer) has grown by exactly one record per event and hit, in the order of the hits
  and of the event list, with the counter value, the time stamp, the low 16 bits of the function
  index and the event's number; the event list, other threads' slots and other files are as
  before.\<close>

theorem probe_hits_logged:
  assumes "running_slot st i xs" "threadinfo l = Some i" "\<not> is_ignore l"
    and "\<forall>h \<in> set hs. \<forall>p \<in> set xs. rdpmc_at (h_pages h) (evs st) p = Inr (c h p)"
  shows "\<exists>st'. run_hits gettid hs l st = Inr (l, st') \<and> running_slot st' i xs
    \<and> thread_log st' i = thread_log st i @ concat (map (log_of_hit c xs) hs)
    \<and> evs st' = evs st \<and> (\<forall>j. j \<noteq> i \<longrightarrow> slot_of st' j = slot_of st j)
    \<and> (\<forall>g. g \<noteq> the (output_file (slot_of st i)) \<longrightarrow> files st' g = files st g)"
  using run_hits_effect [OF assms] by blast

theorem probe_hits_logged_witness:
  "\<exists>st'. run_hits 42 [\<lparr>h_exit = False, h_func = 5, h_cyc = 100, h_pages = (\<lambda>_. example_page)\<rparr>,
       \<lparr>h_exit = True, h_func = 5, h_cyc = 170, h_pages = (\<lambda>_. example_page)\<rparr>]
       \<lparr>threadinfo = Some 0, is_ignore = False, threadid = 42\<rparr> example_prof
     = Inr (\<lparr>threadinfo = Some 0, is_ignore = False, threadid = 42\<rparr>, st') \<and> length (thread_log st' 0) = 4"
proof -
  let ?hs = "[\<lparr>h_exit = False, h_func = 5, h_cyc = 100, h_pages = (\<lambda>_. example_page)\<rparr>,
    \<lparr>h_exit = True, h_func = 5, h_cyc = 170, h_pages = (\<lambda>_. example_page)\<rparr>]"
  have "\<forall>h \<in> set ?hs. \<forall>p \<in> set [2, 3]. rdpmc_at (h_pages h) (evs example_prof) p = Inr ((\<lambda>_ _. 0) h p)"
    using example_rdpmc by auto
  from probe_hits_logged [OF example_running _ _ this, of "\<lparr>threadinfo = Some 0, is_ignore = False, threadid = 42\<rparr>" 42]
  obtain st' where "run_hits 42 ?hs \<lparr>threadinfo = Some 0, is_ignore = False, threadid = 42\<rparr> example_prof
      = Inr (\<lparr>threadinfo = Some 0, is_ignore = False, threadid = 42\<rparr>, st')"
      "thread_log st' 0 = thread_log example_prof 0 @ concat (map (log_of_hit (\<lambda>_ _. 0) [2, 3]) ?hs)"
    by auto
  moreover have "thread_log example_prof 0 = []"
    by (simp add: thread_log_def example_slot sink_log_def example_parts buffered_def zero_tinfo_def)
  ultimately show ?thesis by (auto simp: log_of_hit_def hit_records_def)
qed

text \<open>C3: \<^verbatim>\<open>lprobe_exit\<close> always returns and writes every buffered record: afterwards the output file
  of each running thread holds its complete log, no slot is running any more, and no other file was
  changed.\<close>

theorem lprobe_exit_writes_logs:
  assumes "table_running st L I" "\<not> is_error (ginfo st)"
  shows "\<exists>st'. lprobe_exit os st = Inr st' \<and> table_running st' L {}
    \<and> (\<forall>i \<in> I. files st' (the (output_file (slot_of st i))) = Some (thread_log st i))
    \<and> (\<forall>f. (\<forall>i \<in> I. f \<noteq> the (output_file (slot_of st i))) \<longrightarrow> files st' f = files st f)"
  using lprobe_exit_effect [OF assms] .

theorem lprobe_exit_writes_logs_witness:
  "\<exists>st'. lprobe_exit calm_kernel example_prof = Inr st' \<and> files st' (outfile 42) = Some []"
proof -
  have "\<not> is_error (ginfo example_prof)" by (simp add: example_prof_def globalinfo_def)
  moreover have "thread_log example_prof 0 = []" "the (output_file (slot_of example_prof 0)) = outfile 42"
    by (simp_all add: thread_log_def example_slot sink_log_def example_parts buffered_def zero_tinfo_def)
  ultimately show ?thesis
    using lprobe_exit_writes_logs [OF example_table, of calm_kernel] by auto
qed

end
