(* ===== verification/Thread_Table.thy ===== *)
theory Thread_Table
  imports Probe_Log
begin

section \<open>The thread table: slots, threads starting concurrently\<close>

text \<open>
  The invariant of the 64 slots (how many are taken, which one is next), that every operation keeps
  it, and what happens when several threads register at once.  \<^verbatim>\<open>lprobe_thread_init\<close> tests for a full
  table before it takes the lock; the step relation below interleaves the two parts of several calls.
\<close>

definition occupied :: "prof_info \<Rightarrow> nat" where
  "occupied info = length (filter (\<lambda>t. tid t \<noteq> 0) (threads info))"

definition slots_ok :: "prof_info \<Rightarrow> bool" where
  "slots_ok info \<longleftrightarrow>
     length (threads info) = PROF_THREAD_MAX \<and> unat (thread_nb info) = occupied info
     \<and> (if occupied info = PROF_THREAD_MAX then thread_nid info = UINT_MAX
        else unat (thread_nid info) < PROF_THREAD_MAX \<and> tid (threads info ! unat (thread_nid info)) = 0)"

lemma occupied_le: "length (threads info) = PROF_THREAD_MAX \<Longrightarrow> occupied info \<le> PROF_THREAD_MAX"
  using length_filter_le [of "\<lambda>t. tid t \<noteq> 0" "threads info"] by (simp add: occupied_def)

lemma occupied_update:
  assumes "i < length (threads info)" "tid (threads info ! i) = 0" "tid t \<noteq> 0"
  shows "occupied (info\<lparr>threads := (threads info)[i := t]\<rparr>) = Suc (occupied info)"
proof -
  have "threads info = take i (threads info) @ threads info ! i # drop (Suc i) (threads info)"
    using assms(1) by (rule id_take_nth_drop)
  then have "occupied info = length (filter (\<lambda>t. tid t \<noteq> 0) (take i (threads info)))
      + length (filter (\<lambda>t. tid t \<noteq> 0) (drop (Suc i) (threads info)))"
    unfolding occupied_def using assms(2) by (metis (mono_tags, lifting) filter.simps(2) filter_append length_append)
  then show ?thesis
    using assms by (simp add: occupied_def upd_conv_take_nth_drop)
qed

text \<open>The search for the next free slot: the 63 other slots, in ring order.\<close>

lemma nid_index:
  fixes n :: u32
  assumes "unat n < PROF_THREAD_MAX" "i < PROF_THREAD_MAX"
  shows "unat ((n + of_nat i) mod of_nat PROF_THREAD_MAX) = (unat n + i) mod PROF_THREAD_MAX"
proof -
  have "unat (of_nat i :: u32) = i" using assms(2) by (simp add: unat_of_nat take_bit_nat_eq_self_iff)
  moreover have "unat (n + of_nat i) = unat n + unat (of_nat i :: u32)"
    using assms calculation unat_add_lem [of n "of_nat i"] by simp
  ultimately show ?thesis by (simp add: unat_mod_distrib)
qed

lemma ring_offset:
  assumes "n < PROF_THREAD_MAX" "j < PROF_THREAD_MAX" "j \<noteq> n"
  shows "\<exists>i. 1 \<le> i \<and> i < PROF_THREAD_MAX \<and> (n + i) mod PROF_THREAD_MAX = j"
proof (cases "n < j")
  case True
  then show ?thesis using assms by (intro exI [of _ "j - n"]) auto
next
  case False
  then have "n + (PROF_THREAD_MAX + j - n) = PROF_THREAD_MAX + j" using assms by simp
  then show ?thesis using assms False by (intro exI [of _ "PROF_THREAD_MAX + j - n"]) auto
qed

lemma free_slot_exists:
  assumes "occupied info < length (threads info)"
  shows "\<exists>j < length (threads info). tid (threads info ! j) = 0"
proof (rule ccontr)
  assume "\<not> ?thesis"
  then have "filter (\<lambda>t. tid t \<noteq> 0) (threads info) = threads info"
    by (auto simp: filter_id_conv in_set_conv_nth)
  then show False using assms by (simp add: occupied_def)
qed

lemma find_Some_iff_prop: "find P xs = Some x \<Longrightarrow> P x \<and> x \<in> set xs"
  by (auto simp: find_Some_iff)

lemma update_threadnid_ok:
  assumes len: "length (threads info) = PROF_THREAD_MAX" and nb: "unat (thread_nb info) = occupied info"
    and nid: "unat (thread_nid info) < PROF_THREAD_MAX" "tid (threads info ! unat (thread_nid info)) \<noteq> 0"
  shows "slots_ok (update_threadnid info)" "threads (update_threadnid info) = threads info"
    "occupied (update_threadnid info) = occupied info" "thread_nb (update_threadnid info) = thread_nb info"
proof -
  let ?P = "\<lambda>i. tid (threads info ! unat ((thread_nid info + of_nat i) mod of_nat PROF_THREAD_MAX)) = 0"
  have full: "of_nat PROF_THREAD_MAX \<le> thread_nb info \<longleftrightarrow> PROF_THREAD_MAX \<le> occupied info"
    using nb by (simp add: word_le_nat_alt)
  show th: "threads (update_threadnid info) = threads info"
    "occupied (update_threadnid info) = occupied info" "thread_nb (update_threadnid info) = thread_nb info"
    by (simp_all add: update_threadnid_def occupied_def split: option.split)
  show "slots_ok (update_threadnid info)"
  proof (cases "PROF_THREAD_MAX \<le> occupied info")
    case True
    then have "thread_nid (update_threadnid info) = UINT_MAX" using full by (simp add: update_threadnid_def)
    then show ?thesis using True occupied_le [OF len] len nb th by (simp add: slots_ok_def)
  next
    case False
    then obtain j where j: "j < PROF_THREAD_MAX" "tid (threads info ! j) = 0"
      using free_slot_exists [of info] len by auto
    then obtain i where i: "1 \<le> i" "i < PROF_THREAD_MAX" "(unat (thread_nid info) + i) mod PROF_THREAD_MAX = j"
      using ring_offset [OF nid(1) j(1)] nid(2) by metis
    then have "?P i" using j(2) nid_index [OF nid(1) i(2)] by simp
    then have "find ?P [1..<PROF_THREAD_MAX] \<noteq> None" using i by (auto simp: find_None_iff)
    then obtain k where k: "find ?P [1..<PROF_THREAD_MAX] = Some k" by blast
    then have pk: "?P k" "k < PROF_THREAD_MAX" using find_Some_iff_prop [OF k] by auto
    have "thread_nid (update_threadnid info) = (thread_nid info + of_nat k) mod of_nat PROF_THREAD_MAX"
      using False full k by (simp add: update_threadnid_def)
    then show ?thesis
      using pk nid_index [OF nid(1) pk(2)] len nb th False by (simp add: slots_ok_def)
  qed
qed

subsection \<open>Taking a slot\<close>

lemma create_evlist_tid: "create_evlist os abi info t s = Inr (r, t', s') \<Longrightarrow> tid t' = tid t"
  by (auto simp: create_evlist_def and_then_Inr Let_def case_prod_beta split: if_splits)

lemma init_thread_ginfo:
  assumes "init_thread os abi i st = Inr st'"
  shows "\<exists>t'. ginfo st' = (ginfo st)\<lparr>threads := (threads (ginfo st))[i := t']\<rparr> \<and> tid t' = tid (threads (ginfo st) ! i)"
  using assms create_evlist_tid [of os abi "ginfo st" "threads (ginfo st) ! i" "evs st"]
  by (fastforce simp: init_thread_def open_output_def and_then_Inr Let_def upd_slot_def sys_call_def case_prod_beta)

lemma create_evlist_fault: "create_evlist os abi info t s \<noteq> Inl Out_of_bounds"
  by (auto simp: create_evlist_def and_then_Inl Let_def case_prod_beta prof_evlist__new_def split: if_splits)

lemma init_thread_fault: "init_thread os abi i st = Inl f \<Longrightarrow> f \<noteq> Out_of_bounds"
  using create_evlist_fault [of os abi "ginfo st" "threads (ginfo st) ! i" "evs st"]
  by (auto simp: init_thread_def and_then_Inl Let_def case_prod_beta)

lemma claim_slot_frame:
  assumes "n < length (threads (ginfo st))"
  shows "slot_of (claim_slot n p st) j = (if j = n then (slot_of st n)\<lparr>tid := p\<rparr> else slot_of st j)"
    "evs (claim_slot n p st) = evs st" "files (claim_slot n p st) = files st"
    "evlist_str (ginfo (claim_slot n p st)) = evlist_str (ginfo st)"
    "threads (ginfo (claim_slot n p st)) = (threads (ginfo st))[n := (slot_of st n)\<lparr>tid := p\<rparr>]"
    "thread_nb (ginfo (claim_slot n p st)) = thread_nb (ginfo st) + 1"
    "thread_nid (ginfo (claim_slot n p st)) = thread_nid (ginfo st)"
  using assms by (simp_all add: claim_slot_def Let_def upd_slot_def slot_of_def)

lemma take_slot_table:
  assumes ok: "slots_ok (ginfo st)" and room: "occupied (ginfo st) < PROF_THREAD_MAX" and p: "p \<noteq> 0"
  shows "(\<exists>f. take_slot os abi p st = Inl f \<and> f \<noteq> Out_of_bounds)
    \<or> (\<exists>st'. take_slot os abi p st = Inr st' \<and> slots_ok (ginfo st')
         \<and> occupied (ginfo st') = Suc (occupied (ginfo st)) \<and> tid (slot_of st' (unat (thread_nid (ginfo st)))) = p
         \<and> (\<forall>j. j \<noteq> unat (thread_nid (ginfo st)) \<longrightarrow> slot_of st' j = slot_of st j))"
proof -
  let ?n = "unat (thread_nid (ginfo st))" and ?th = "threads (ginfo st)"
  let ?st2 = "claim_slot ?n p st"
  have n: "?n < length ?th" "tid (?th ! ?n) = 0" and len: "length ?th = PROF_THREAD_MAX"
    using ok room by (simp_all add: slots_ok_def)
  have ts: "take_slot os abi p st = and_then (init_thread os abi ?n ?st2)
      (\<lambda>st3. Inr (st3\<lparr>ginfo := update_threadnid (ginfo st3)\<rparr>))"
    using n(1) by (simp add: take_slot_def Let_def)
  show ?thesis
  proof (cases "init_thread os abi ?n ?st2")
    case (Inl f)
    then show ?thesis using ts init_thread_fault by auto
  next
    case (Inr st3)
    then obtain t' where t': "ginfo st3 = (ginfo ?st2)\<lparr>threads := (threads (ginfo ?st2))[?n := t']\<rparr>" "tid t' = p"
      using init_thread_ginfo [OF Inr] n(1) by (auto simp: claim_slot_frame(5))
    have g: "threads (ginfo st3) = ?th[?n := t']" "thread_nb (ginfo st3) = thread_nb (ginfo st) + 1"
      "thread_nid (ginfo st3) = thread_nid (ginfo st)"
      unfolding t'(1) using claim_slot_frame [OF n(1), of p] by simp_all
    have occ: "occupied (ginfo st3) = Suc (occupied (ginfo st))"
      using occupied_update [OF n] t'(2) p g(1) by (simp add: occupied_def)
    have "unat (thread_nb (ginfo st)) = occupied (ginfo st)" using ok by (simp add: slots_ok_def)
    then have nb: "unat (thread_nb (ginfo st3)) = occupied (ginfo st3)"
      unfolding occ g(2) using room unat_add_lem [of "thread_nb (ginfo st)" 1] by simp
    have "slots_ok (update_threadnid (ginfo st3))" "threads (update_threadnid (ginfo st3)) = ?th[?n := t']"
      "occupied (update_threadnid (ginfo st3)) = Suc (occupied (ginfo st))"
      using update_threadnid_ok [of "ginfo st3"] nb g occ n len t'(2) p by simp_all
    then show ?thesis
      using ts Inr t'(2) n(1) by (auto simp: slot_of_def nth_list_update)
  qed
qed

subsection \<open>Creating the event list of a thread\<close>

text \<open>The documented behaviour of the kernel and the allocator, with memory to spare.\<close>

definition good_os :: "os \<Rightarrow> bool" where
  "good_os os \<longleftrightarrow> fresh_malloc os \<and> malloc_succeeds os \<and> fresh_fds os \<and> errno_doc os"

lemma calm_good_os: "good_os calm_kernel"
  by (simp add: good_os_def calm_fresh_malloc calm_malloc_succeeds calm_fresh_fds calm_errno_doc)

lemma new_succeeds: "malloc_succeeds os \<Longrightarrow> \<exists>e s'. prof_evlist__new os abi p s = Inr (e, s')"
  by (simp add: prof_evlist__new_def zalloc_def sys_call_def Let_def malloc_succeeds_def not_le)

lemma add_from_str_effect:
  assumes inv: "evlist_inv s e []" and os: "fresh_malloc os" and str: "NUL \<notin> set str"
  shows "\<exists>n ys s'. prof_evlist__add_from_str os abi e str s = (n, s') \<and> evlist_inv s' e ys
    \<and> set ys \<inter> live (history s) = {} \<and> live (history s') = set ys \<union> live (history s)
    \<and> open_fds (history s') = open_fds (history s) \<and> none_open s' ys \<and> untouched s s' (set (e # ys))"
proof (cases "str = []")
  case True
  then show ?thesis using inv
    by (intro exI [of _ "- EINVAL"] exI [of _ "[]"] exI [of _ s])
      (simp add: prof_evlist__add_from_str_def none_open_def)
next
  case False
  obtain ys s' where g: "add_all os abi e (added_events str) (0, s) = (int (length ys), s')"
      "grown abi e [] (added_events str) os s ys s'"
    using add_all_grown [OF inv os, of abi "added_events str" 0] by auto
  have "untouched s s' (set (e # ys))"
    by (rule untouched_mono [OF add_all_untouched [OF inv os g(1)]]) (use g(2) in \<open>auto simp: grown_def\<close>)
  then show ?thesis using g add_from_str_events [OF False str, of os abi e s] by (auto simp: grown_def)
qed

text \<open>The two outcomes of \<^verbatim>\<open>__create_evlist\<close>: a running list in fresh memory, or the state as it was.\<close>

definition created :: "evstate \<Rightarrow> addr \<Rightarrow> addr list \<Rightarrow> evstate \<Rightarrow> bool" where
  "created s e xs s' \<longleftrightarrow>
     evlist_inv s' e xs \<and> set (e # xs) \<inter> live (history s) = {}
     \<and> live (history s') = set (e # xs) \<union> live (history s) \<and> untouched s s' (set (e # xs))
     \<and> all_open s' xs \<and> acct (open_fds (history s)) s' xs"

definition restored :: "evstate \<Rightarrow> evstate \<Rightarrow> bool" where
  "restored s s' \<longleftrightarrow> live (history s') = live (history s) \<and> open_fds (history s') = open_fds (history s)
     \<and> untouched s s' (- live (history s))"

lemma delete_restores:
  assumes "evlist_inv s1 e xs" "set (e # xs) \<inter> live (history s) = {}"
    "live (history s1) = set (e # xs) \<union> live (history s)" "untouched s s1 (set (e # xs))"
    "acct (open_fds (history s)) s1 xs"
  shows "\<exists>s'. prof_evlist__delete os e s1 = Some s' \<and> restored s s'"
proof -
  obtain s' where s': "prof_evlist__delete os e s1 = Some s'"
      "live (history s') = live (history s1) - set (e # xs)"
      "open_fds (history s') = open_fds (history s1) - fds_of s1 xs"
    using evlist_delete_effect [OF assms(1)] by blast
  have "untouched s s' (set (e # xs))"
    using assms(4) delete_untouched [OF assms(1) s'(1)] untouched_trans by blast
  then have "untouched s s' (- live (history s))" by (rule untouched_mono) (use assms(2) in auto)
  then show ?thesis using s' assms(2,3,5) by (auto simp: restored_def acct_def)
qed

lemma create_evlist_effect:
  assumes os: "good_os os" and str: "NUL \<notin> set (evlist_str info)"
  shows "(\<exists>e xs s'. create_evlist os abi info t s = Inr (0, t\<lparr>tevlist := e, tstate := PROF_STATE_RUNNING\<rparr>, s')
        \<and> created s e xs s')
    \<or> (\<exists>s'. create_evlist os abi info t s = Inr (- 1, t, s') \<and> restored s s')"
proof -
  note o = os [unfolded good_os_def]
  obtain e s1 where n: "prof_evlist__new os abi (tid t) s = Inr (e, s1)" using new_succeeds o by blast
  note new = evlist_new_effect [OF conjunct1 [OF o] n] new_untouched [OF n]
  obtain k ys s2 where a: "prof_evlist__add_from_str os abi e (evlist_str info) s1 = (k, s2)" "evlist_inv s2 e ys"
      "set ys \<inter> live (history s1) = {}" "live (history s2) = set ys \<union> live (history s1)"
      "open_fds (history s2) = open_fds (history s1)" "none_open s2 ys" "untouched s1 s2 (set (e # ys))"
    using add_from_str_effect [OF new(1) conjunct1 [OF o] str, of abi] by blast
  have "untouched s s1 (set (e # ys))" by (rule untouched_mono [OF new(6)]) auto
  then have u2: "untouched s s2 (set (e # ys))" using a(7) untouched_trans by blast
  have d2: "set (e # ys) \<inter> live (history s) = {}" "live (history s2) = set (e # ys) \<union> live (history s)"
    using a(3,4) new(2,3) by auto
  have c2: "acct (open_fds (history s)) s2 ys"
    using a(5) new(4) none_open_fds [OF a(6)] by (simp add: acct_def)
  note r2 = delete_restores [OF a(2) d2 u2 c2, of os]
  obtain r s3 where st: "prof_evlist__start os e s2 = Some (r, s3)" "evlist_inv s3 e ys"
      "acct (open_fds (history s)) s3 ys" "live (history s3) = live (history s2)" "r = 0 \<and> all_open s3 ys \<or> r = - 1"
    using evlist_start_effect [OF a(2) c2] o by blast
  have "untouched s2 s3 (set (e # ys))" by (rule untouched_mono [OF start_untouched [OF a(2) st(1)]]) auto
  then have u3: "untouched s s3 (set (e # ys))" using u2 untouched_trans by blast
  have d3: "live (history s3) = set (e # ys) \<union> live (history s)" using d2(2) st(4) by simp
  note r3 = delete_restores [OF st(2) d2(1) d3 u3 st(3), of os]
  show ?thesis
  proof (cases "k < 0 \<or> r \<noteq> 0")
    case True
    then show ?thesis using n a(1) st(1,5) r2 r3 by (auto simp: create_evlist_def Let_def)
  next
    case False
    then show ?thesis using n a(1) st d2(1) d3 u3 by (auto simp: create_evlist_def Let_def created_def)
  qed
qed

subsection \<open>The invariant of the profiler\<close>

definition prof_inv :: "prof \<Rightarrow> (nat \<Rightarrow> addr list) \<Rightarrow> nat set \<Rightarrow> bool" where
  "prof_inv st L I \<longleftrightarrow>
     slots_ok (ginfo st) \<and> table_running st L I \<and> NUL \<notin> set (evlist_str (ginfo st))
     \<and> (\<forall>i \<in> I. output_file (slot_of st i) = Some (outfile (tid (slot_of st i)))
           \<and> 0 < tid (slot_of st i) \<and> tid (slot_of st i) < 2 ^ 31)
     \<and> (\<forall>i < PROF_THREAD_MAX. tid (slot_of st i) = 0 \<longrightarrow> nb_record (slot_of st i) = 0)"

lemma outfile_inject:
  "0 < a \<Longrightarrow> a < 2 ^ 31 \<Longrightarrow> 0 < b \<Longrightarrow> b < 2 ^ 31 \<Longrightarrow> outfile a = outfile b \<longleftrightarrow> a = b"
  by (auto simp: outfile_def)

lemma running_slot_kept:
  assumes "running_slot st j xs" "slot_of st' j = slot_of st j"
    "length (threads (ginfo st')) = length (threads (ginfo st))"
    "untouched (evs st) (evs st') A" "A \<inter> live (history (evs st)) = {}"
    "live (history (evs st)) \<subseteq> live (history (evs st'))"
    "files st' (the (output_file (slot_of st j))) = files st (the (output_file (slot_of st j)))"
  shows "running_slot st' j xs" "thread_log st' j = thread_log st j"
proof -
  let ?e = "tevlist (slot_of st j)"
  have e: "evlist_inv (evs st) ?e xs" using assms(1) by (simp add: running_slot_def)
  then have l: "set (?e # xs) \<subseteq> live (history (evs st))" by (simp add: evlist_inv_def)
  have "evlist_inv (evs st') ?e xs"
    by (rule evlist_inv_untouched(1) [OF e assms(4)]) (use l assms(5,6) in auto)
  then show "running_slot st' j xs"
    using assms by (auto simp: running_slot_def sink_ok_def)
  show "thread_log st' j = thread_log st j" using assms(2,7) by (simp add: thread_log_def sink_log_def)
qed

lemma open_output_frame:
  assumes "i < length (threads (ginfo st))"
  shows "ginfo (open_output os i t s st) = (ginfo st)\<lparr>threads := (threads (ginfo st))[i := slot_of (open_output os i t s st) i]\<rparr>"
    "tid (slot_of (open_output os i t s st) i) = tid t"
    "live (history (evs (open_output os i t s st))) = live (history s)"
    "untouched (evs st) s A \<Longrightarrow> untouched (evs st) (evs (open_output os i t s st)) A"
    "\<forall>g. g \<noteq> outfile (tid t) \<longrightarrow> files (open_output os i t s st) g = files st g"
    "tstate t = PROF_STATE_ERROR \<Longrightarrow> tstate (slot_of (open_output os i t s st) i) = PROF_STATE_ERROR"
  using assms by (auto simp: open_output_def sys_call_def Let_def upd_slot_def slot_of_def untouched_def)

lemma open_output_running:
  assumes i: "i < length (threads (ginfo st))" and t: "nb_record t = 0" "tid t \<noteq> - 1" "tstate t = PROF_STATE_RUNNING"
    and inv: "evlist_inv s (tevlist t) xs"
  shows "tstate (slot_of (open_output os i t s st) i) = PROF_STATE_ERROR
    \<or> (running_slot (open_output os i t s st) i xs \<and> tevlist (slot_of (open_output os i t s st) i) = tevlist t
       \<and> output_file (slot_of (open_output os i t s st) i) = Some (outfile (tid t))
       \<and> thread_log (open_output os i t s st) i = [])"
proof (cases "ret (os (history s) (Fopen (outfile (tid t)))) \<le> 0")
  case False
  let ?nm = "outfile (tid t)"
  have "evlist_inv (s\<lparr>history := history s @ [(Fopen ?nm, os (history s) (Fopen ?nm))]\<rparr>) (tevlist t) xs"
    by (rule evlist_inv_history [OF inv]) simp
  then show ?thesis using False i t
    by (simp add: open_output_def Let_def sys_call_def running_slot_def sink_ok_def thread_log_def sink_log_def buffered_def)
qed (use i in \<open>simp add: open_output_def Let_def sys_call_def\<close>)

text \<open>What initialising slot \<open>i\<close> does: a running slot with an empty log in an empty file, or a slot
  marked as failed; in both cases only fresh memory and that slot's file are touched.\<close>

lemma init_thread_effect:
  assumes os: "good_os os" and str: "NUL \<notin> set (evlist_str (ginfo st))"
    and i: "i < length (threads (ginfo st))" and nb: "nb_record (slot_of st i) = 0"
    and tid: "tid (slot_of st i) \<noteq> - 1"
  defines "nm \<equiv> outfile (tid (slot_of st i))" and "V \<equiv> live (history (evs st))"
  shows "\<exists>st' t' A. init_thread os abi i st = Inr st' \<and> ginfo st' = (ginfo st)\<lparr>threads := (threads (ginfo st))[i := t']\<rparr>
    \<and> tid t' = tid (slot_of st i) \<and> untouched (evs st) (evs st') A \<and> A \<inter> V = {} \<and> V \<subseteq> live (history (evs st'))
    \<and> (\<forall>g. g \<noteq> nm \<longrightarrow> files st' g = files st g)
    \<and> (tstate t' = PROF_STATE_ERROR
       \<or> (\<exists>xs. running_slot st' i xs \<and> set (tevlist t' # xs) \<inter> V = {} \<and> output_file t' = Some nm
             \<and> thread_log st' i = []))"
  using create_evlist_effect [OF os str, of abi "slot_of st i" "evs st"]
proof (elim disjE exE conjE)
  let ?t = "slot_of st i"
  fix e xs s1
  assume c: "create_evlist os abi (ginfo st) ?t (evs st) = Inr (0, ?t\<lparr>tevlist := e, tstate := PROF_STATE_RUNNING\<rparr>, s1)"
    "created (evs st) e xs s1"
  let ?t2 = "?t\<lparr>tevlist := e, tstate := PROF_STATE_RUNNING\<rparr>"
  let ?st = "open_output os i ?t2 s1 st"
  have "init_thread os abi i st = Inr ?st" using c(1) by (simp add: init_thread_def slot_of_def)
  then show ?thesis
    using c(2) open_output_frame [OF i, where os = os and t = ?t2 and s = s1] open_output_running [OF i, of ?t2 s1 xs os] nb tid
    by (intro exI [of _ ?st] exI [of _ "slot_of ?st i"] exI [of _ "set (e # xs)"])
      (auto simp: created_def V_def nm_def)
next
  let ?t = "slot_of st i"
  fix s1
  assume c: "create_evlist os abi (ginfo st) ?t (evs st) = Inr (- 1, ?t, s1)" "restored (evs st) s1"
  let ?st = "open_output os i (?t\<lparr>tstate := PROF_STATE_ERROR\<rparr>) s1 st"
  have "init_thread os abi i st = Inr ?st" using c(1) by (simp add: init_thread_def slot_of_def)
  then show ?thesis
    using c(2) open_output_frame [OF i, where os = os and t = "?t\<lparr>tstate := PROF_STATE_ERROR\<rparr>" and s = s1]
    by (intro exI [of _ ?st] exI [of _ "slot_of ?st i"] exI [of _ "- V"]) (auto simp: restored_def V_def nm_def)
qed

lemma table_view_cong:
  assumes "threads (ginfo st') = threads (ginfo st)" "evs st' = evs st" "files st' = files st"
  shows "slot_of st' i = slot_of st i" "running_slot st' i xs = running_slot st i xs"
    "thread_log st' i = thread_log st i"
  using assms by (simp_all add: slot_of_def running_slot_def thread_log_def)

text \<open>Adding slot \<open>n\<close>, running with the events \<open>xs\<close>, or failed, to the running slots.\<close>

lemma table_running_add:
  assumes tab: "table_running st L I" and n: "n < PROF_THREAD_MAX" "n \<notin> I"
    and len: "length (threads (ginfo st')) = PROF_THREAD_MAX"
    and same: "\<And>j. j \<noteq> n \<Longrightarrow> slot_of st' j = slot_of st j"
    and kept: "\<And>j. j \<in> I \<Longrightarrow> running_slot st' j (L j)"
    and new: "tstate (slot_of st' n) = PROF_STATE_ERROR \<and> I' = I \<or>
      running_slot st' n xs \<and> I' = insert n I
      \<and> (\<forall>j \<in> I. set (tevlist (slot_of st' n) # xs) \<inter> set (tevlist (slot_of st j) # L j) = {}
            \<and> output_file (slot_of st' n) \<noteq> output_file (slot_of st j))"
  shows "table_running st' (L(n := xs)) I'"
  unfolding table_running_def
proof (intro conjI ballI allI impI)
  show "length (threads (ginfo st')) = PROF_THREAD_MAX" by (rule len)
  fix i
  assume i: "i < PROF_THREAD_MAX"
  show "(tstate (slot_of st' i) = PROF_STATE_RUNNING \<and> tid (slot_of st' i) \<noteq> - 1) = (i \<in> I')"
    using new same [of i] tab i n(2) by (cases "i = n") (auto simp: table_running_def running_slot_def)
next
  fix i
  assume "i \<in> I'"
  then show "running_slot st' i ((L(n := xs)) i)" using new kept n(2) by auto
next
  fix i j
  assume ij: "i \<in> I'" "j \<in> I'" "i \<noteq> j"
  consider "i \<in> I" "j \<in> I" | "i = n" "j \<in> I" | "i \<in> I" "j = n" using ij new by auto
  then have "set (tevlist (slot_of st' i) # (L(n := xs)) i) \<inter> set (tevlist (slot_of st' j) # (L(n := xs)) j) = {}
      \<and> output_file (slot_of st' i) \<noteq> output_file (slot_of st' j)"
  proof cases
    case 1
    then have "i \<noteq> n" "j \<noteq> n" using n(2) by auto
    then show ?thesis using 1 tab ij(3) same by (simp add: table_running_def)
  next
    case 2
    then have "j \<noteq> n" using n(2) by auto
    then show ?thesis using 2 new ij(1) n(2) same by auto
  next
    case 3
    then have "i \<noteq> n" using n(2) by auto
    then show ?thesis using 3 new ij(2) n(2) same by fastforce
  qed
  then show "set (tevlist (slot_of st' i) # (L(n := xs)) i) \<inter> set (tevlist (slot_of st' j) # (L(n := xs)) j) = {}"
    "output_file (slot_of st' i) \<noteq> output_file (slot_of st' j)" by blast+
qed

lemma claim_init_effect:
  assumes os: "good_os os" and tab: "table_running st L I" and str: "NUL \<notin> set (evlist_str (ginfo st))"
    and n: "n < PROF_THREAD_MAX" "n \<notin> I" "nb_record (slot_of st n) = 0" and p: "p \<noteq> - 1"
    and fresh: "\<forall>i \<in> I. output_file (slot_of st i) \<noteq> Some (outfile p)"
  shows "\<exists>st' xs I'. init_thread os abi n (claim_slot n p st) = Inr st' \<and> table_running st' (L(n := xs)) I'
    \<and> I \<subseteq> I' \<and> I' \<subseteq> insert n I \<and> tid (slot_of st' n) = p \<and> (\<forall>j. j \<noteq> n \<longrightarrow> slot_of st' j = slot_of st j)
    \<and> (\<forall>j \<in> I. thread_log st' j = thread_log st j) \<and> evlist_str (ginfo st') = evlist_str (ginfo st)
    \<and> (n \<in> I' \<longrightarrow> output_file (slot_of st' n) = Some (outfile p) \<and> thread_log st' n = [])
    \<and> (n \<notin> I' \<longrightarrow> tstate (slot_of st' n) = PROF_STATE_ERROR)"
proof -
  let ?V = "live (history (evs st))"
  have len: "length (threads (ginfo st)) = PROF_THREAD_MAX" using tab by (simp add: table_running_def)
  have nl: "n < length (threads (ginfo st))" using n(1) len by simp
  note cl = claim_slot_frame [OF nl, of p]
  obtain st' t' A where i: "init_thread os abi n (claim_slot n p st) = Inr st'"
      "ginfo st' = (ginfo (claim_slot n p st))\<lparr>threads := (threads (ginfo (claim_slot n p st)))[n := t']\<rparr>" "tid t' = p"
      "untouched (evs st) (evs st') A" "A \<inter> ?V = {}" "?V \<subseteq> live (history (evs st'))"
      "\<forall>g. g \<noteq> outfile p \<longrightarrow> files st' g = files st g"
      "tstate t' = PROF_STATE_ERROR \<or> (\<exists>xs. running_slot st' n xs \<and> set (tevlist t' # xs) \<inter> ?V = {}
         \<and> output_file t' = Some (outfile p) \<and> thread_log st' n = [])"
    using init_thread_effect [OF os, of "claim_slot n p st" n abi] str n nl p cl by auto
  have sl: "slot_of st' j = (if j = n then t' else slot_of st j)" for j
    using nl i(2) cl(5) by (simp add: slot_of_def nth_list_update)
  have len': "length (threads (ginfo st')) = PROF_THREAD_MAX" using i(2) cl(5) len by simp
  have str': "evlist_str (ginfo st') = evlist_str (ginfo st)" using i(2) cl(4) by simp
  have kept: "running_slot st' j (L j) \<and> thread_log st' j = thread_log st j" if j: "j \<in> I" for j
  proof -
    have rj: "running_slot st j (L j)" using tab j by (simp add: table_running_def)
    then have "the (output_file (slot_of st j)) \<noteq> outfile p"
      using fresh j by (auto simp: running_slot_def sink_ok_def)
    moreover have "slot_of st' j = slot_of st j" using sl [of j] n(2) j by auto
    ultimately show ?thesis
      using running_slot_kept [OF rj _ _ i(4,5,6)] i(7) len len' by auto
  qed
  obtain xs I' where x: "tstate t' = PROF_STATE_ERROR \<and> I' = I
      \<or> running_slot st' n xs \<and> I' = insert n I \<and> set (tevlist t' # xs) \<inter> ?V = {}
        \<and> output_file t' = Some (outfile p) \<and> thread_log st' n = []" using i(8) by blast
  have V: "set (tevlist (slot_of st j) # L j) \<subseteq> ?V" if "j \<in> I" for j
    using tab that by (simp add: table_running_def running_slot_def evlist_inv_def)
  have disj: "set (tevlist t' # xs) \<inter> set (tevlist (slot_of st j) # L j) = {}"
    if "set (tevlist t' # xs) \<inter> ?V = {}" "j \<in> I" for j
    using V [OF that(2)] that(1) by blast
  have tn: "slot_of st' n = t'" using sl by simp
  have "table_running st' (L(n := xs)) I'"
  proof (rule table_running_add [OF tab n(1,2) len'])
    show "tstate (slot_of st' n) = PROF_STATE_ERROR \<and> I' = I \<or> running_slot st' n xs \<and> I' = insert n I
      \<and> (\<forall>j \<in> I. set (tevlist (slot_of st' n) # xs) \<inter> set (tevlist (slot_of st j) # L j) = {}
            \<and> output_file (slot_of st' n) \<noteq> output_file (slot_of st j))"
      unfolding tn using x fresh disj by metis
  qed (use sl kept in auto)
  then show ?thesis
    using i(1,3) sl kept x n(2) str' by (intro exI [of _ st'] exI [of _ xs] exI [of _ I']) auto
qed

lemma take_slot_effect:
  assumes os: "good_os os" and inv: "prof_inv st L I" and room: "occupied (ginfo st) < PROF_THREAD_MAX"
    and p: "0 < p" "p < 2 ^ 31" "\<forall>i \<in> I. tid (slot_of st i) \<noteq> p"
  defines "n \<equiv> unat (thread_nid (ginfo st))"
  shows "\<exists>st' L' I'. take_slot os abi p st = Inr st' \<and> prof_inv st' L' I' \<and> I \<subseteq> I' \<and> I' \<subseteq> insert n I
    \<and> occupied (ginfo st') = Suc (occupied (ginfo st)) \<and> tid (slot_of st' n) = p
    \<and> (\<forall>j. j \<noteq> n \<longrightarrow> slot_of st' j = slot_of st j) \<and> (\<forall>j \<in> I. L' j = L j \<and> thread_log st' j = thread_log st j)
    \<and> (n \<in> I' \<longrightarrow> thread_log st' n = []) \<and> (n \<notin> I' \<longrightarrow> tstate (slot_of st' n) = PROF_STATE_ERROR)"
proof -
  have ok: "slots_ok (ginfo st)" and tab: "table_running st L I" and str: "NUL \<notin> set (evlist_str (ginfo st))"
    using inv by (simp_all add: prof_inv_def)
  have n: "n < PROF_THREAD_MAX" "tid (slot_of st n) = 0" "length (threads (ginfo st)) = PROF_THREAD_MAX"
    using ok room by (simp_all add: slots_ok_def n_def slot_of_def)
  then have nI: "n \<notin> I" and nb: "nb_record (slot_of st n) = 0" using inv by (auto simp: prof_inv_def)
  have "\<forall>i \<in> I. output_file (slot_of st i) \<noteq> Some (outfile p)"
    using inv p outfile_inject by (auto simp: prof_inv_def)
  then obtain st3 xs I' where c: "init_thread os abi n (claim_slot n p st) = Inr st3" "table_running st3 (L(n := xs)) I'"
      "I \<subseteq> I'" "I' \<subseteq> insert n I" "\<forall>j. j \<noteq> n \<longrightarrow> slot_of st3 j = slot_of st j" "tid (slot_of st3 n) = p"
      "\<forall>j \<in> I. thread_log st3 j = thread_log st j" "evlist_str (ginfo st3) = evlist_str (ginfo st)"
      "n \<in> I' \<longrightarrow> output_file (slot_of st3 n) = Some (outfile p) \<and> thread_log st3 n = []"
      "n \<notin> I' \<longrightarrow> tstate (slot_of st3 n) = PROF_STATE_ERROR"
    using claim_init_effect [OF os tab str n(1) nI nb, of p abi] p(1) by auto
  define st' where "st' = st3\<lparr>ginfo := update_threadnid (ginfo st3)\<rparr>"
  have ts: "take_slot os abi p st = Inr st'" using n c(1) by (simp add: take_slot_def n_def [symmetric] st'_def Let_def)
  from take_slot_table [OF ok room, of p os abi] ts p(1)
  have tb: "slots_ok (ginfo st')" "occupied (ginfo st') = Suc (occupied (ginfo st))" by auto
  have th: "threads (ginfo st') = threads (ginfo st3)" "evs st' = evs st3" "files st' = files st3"
    "evlist_str (ginfo st') = evlist_str (ginfo st)"
    using c(8) by (simp_all add: st'_def update_threadnid_def split: option.split)
  note view = table_view_cong [OF th(1,2,3)]
  have "table_running st' (L(n := xs)) I'"
    using c(2) unfolding table_running_def view th(1) .
  moreover have "output_file (slot_of st3 i) = Some (outfile (tid (slot_of st3 i)))
      \<and> 0 < tid (slot_of st3 i) \<and> tid (slot_of st3 i) < 2 ^ 31" if "i \<in> I'" for i
    using that c(4-6,9) p inv by (cases "i = n") (auto simp: prof_inv_def)
  moreover have "nb_record (slot_of st3 i) = 0" if "i < PROF_THREAD_MAX" "tid (slot_of st3 i) = 0" for i
    using that c(5,6) p inv by (cases "i = n") (auto simp: prof_inv_def)
  ultimately have "prof_inv st' (L(n := xs)) I'"
    unfolding prof_inv_def view th(4) using str tb(1) by blast
  then show ?thesis
    using ts tb(2) c nI view by (intro exI [of _ st'] exI [of _ "L(n := xs)"] exI [of _ I']) auto
qed

subsection \<open>Scanning the threads that exist at start-up\<close>

text \<open>Every slot in use is running or marked as failed.\<close>

definition settled :: "prof \<Rightarrow> nat set \<Rightarrow> bool" where
  "settled st I \<longleftrightarrow> (\<forall>i < PROF_THREAD_MAX. 0 < tid (slot_of st i) \<longrightarrow> i \<in> I \<or> tstate (slot_of st i) = PROF_STATE_ERROR)"

lemma take_slot_flog: "take_slot os abi p st = Inr st' \<Longrightarrow> flog (ginfo st') = flog (ginfo st)"
  by (auto simp: take_slot_def Let_def and_then_Inr claim_slot_def upd_slot_def update_threadnid_def
      dest!: init_thread_ginfo split: if_splits option.splits)

lemma scan_slots_effect:
  assumes os: "good_os os"
  shows "prof_inv st L I \<Longrightarrow> settled st I \<Longrightarrow> occupied (ginfo st) + length ids \<le> PROF_THREAD_MAX \<Longrightarrow> distinct ids
    \<Longrightarrow> (\<forall>t \<in> set ids. 0 < t \<and> t < 2 ^ 31 \<and> (\<forall>i < PROF_THREAD_MAX. tid (slot_of st i) \<noteq> int t))
    \<Longrightarrow> \<exists>st' L' I'. scan_slots os abi (map decimal ids) st = Inr st' \<and> prof_inv st' L' I' \<and> settled st' I'
      \<and> occupied (ginfo st') = occupied (ginfo st) + length ids \<and> flog (ginfo st') = flog (ginfo st)
      \<and> (\<forall>i. tid (slot_of st i) \<noteq> 0 \<longrightarrow> slot_of st' i = slot_of st i)
      \<and> (\<forall>t \<in> set ids. \<exists>i < PROF_THREAD_MAX. tid (slot_of st' i) = int t)"
proof (induction ids arbitrary: st L I)
  case Nil
  then show ?case by auto
next
  case (Cons t ids)
  let ?n = "unat (thread_nid (ginfo st))"
  have room: "occupied (ginfo st) < PROF_THREAD_MAX" using Cons.prems(3) by simp
  have n: "?n < PROF_THREAD_MAX" "tid (slot_of st ?n) = 0" "length (threads (ginfo st)) = PROF_THREAD_MAX"
    using Cons.prems(1) room by (simp_all add: prof_inv_def slots_ok_def slot_of_def)
  have I64: "i < PROF_THREAD_MAX" if "i \<in> I" for i
    using Cons.prems(1) that table_running_slot by (auto simp: prof_inv_def)
  obtain st1 L1 I1 where s1: "take_slot os abi (int t) st = Inr st1" "prof_inv st1 L1 I1" "I \<subseteq> I1" "I1 \<subseteq> insert ?n I"
      "occupied (ginfo st1) = Suc (occupied (ginfo st))" "tid (slot_of st1 ?n) = int t"
      "\<forall>j. j \<noteq> ?n \<longrightarrow> slot_of st1 j = slot_of st j" "?n \<notin> I1 \<longrightarrow> tstate (slot_of st1 ?n) = PROF_STATE_ERROR"
    using take_slot_effect [OF os Cons.prems(1) room, of "int t" abi] Cons.prems(5) I64 by auto
  have set1: "settled st1 I1"
    unfolding settled_def
  proof (intro allI impI)
    fix i
    assume "i < PROF_THREAD_MAX" "0 < tid (slot_of st1 i)"
    then show "i \<in> I1 \<or> tstate (slot_of st1 i) = PROF_STATE_ERROR"
      using Cons.prems(2) s1(3,7,8) by (cases "i = ?n") (auto simp: settled_def)
  qed
  have new: "\<forall>u \<in> set ids. 0 < u \<and> u < 2 ^ 31 \<and> (\<forall>i < PROF_THREAD_MAX. tid (slot_of st1 i) \<noteq> int u)"
    using Cons.prems(4,5) s1(6,7) by (metis distinct.simps(2) list.set_intros(2) of_nat_eq_iff)
  obtain st' L' I' where s': "scan_slots os abi (map decimal ids) st1 = Inr st'" "prof_inv st' L' I'" "settled st' I'"
      "occupied (ginfo st') = occupied (ginfo st1) + length ids" "flog (ginfo st') = flog (ginfo st1)"
      "\<forall>i. tid (slot_of st1 i) \<noteq> 0 \<longrightarrow> slot_of st' i = slot_of st1 i"
      "\<forall>u \<in> set ids. \<exists>i < PROF_THREAD_MAX. tid (slot_of st' i) = int u"
    using Cons.IH [OF s1(2) set1 _ _ new] Cons.prems(3,4) s1(5) by auto
  have "0 < t" using Cons.prems(5) by simp
  then have "tid (slot_of st' ?n) = int t" using s'(6) s1(6) by simp
  moreover have "slot_of st' i = slot_of st i" if "tid (slot_of st i) \<noteq> 0" for i
    using that s'(6) s1(7) n(2) by metis
  moreover have "scan_slots os abi (map decimal (t # ids)) st = Inr st'"
    using s1(1) s'(1) n \<open>0 < t\<close> by (simp add: atoi_decimal Let_def)
  ultimately show ?case
    using s' s1(5) n(1) take_slot_flog [OF s1(1)]
    by (intro exI [of _ st'] exI [of _ L'] exI [of _ I']) auto
qed

lemma globalinfo_inv:
  assumes "ginfo st = globalinfo\<lparr>evlist_str := ev, min_index := a, max_index := b, sample_freq := c\<rparr>" "NUL \<notin> set ev"
  shows "prof_inv st (\<lambda>_. []) {}" "settled st {}" "occupied (ginfo st) = 0" "flog (ginfo st) = None"
    "\<forall>i < PROF_THREAD_MAX. tid (slot_of st i) = 0"
proof -
  have s: "slot_of st i = zero_tinfo" if "i < PROF_THREAD_MAX" for i
    using that assms(1) by (simp add: slot_of_def globalinfo_def)
  have th: "threads (ginfo st) = replicate PROF_THREAD_MAX zero_tinfo" using assms(1) by (simp add: globalinfo_def)
  show o: "occupied (ginfo st) = 0" unfolding occupied_def th by (simp add: zero_tinfo_def filter_empty_conv)
  show f: "flog (ginfo st) = None" using assms(1) by (simp add: globalinfo_def)
  show z: "\<forall>i < PROF_THREAD_MAX. tid (slot_of st i) = 0" using s by (simp add: zero_tinfo_def)
  have "slots_ok (ginfo st)"
    using o assms(1) unfolding slots_ok_def th by (simp add: globalinfo_def zero_tinfo_def)
  then show "prof_inv st (\<lambda>_. []) {}"
    using s th assms by (simp add: prof_inv_def table_running_def zero_tinfo_def)
  show "settled st {}" using s by (simp add: settled_def zero_tinfo_def)
qed

lemma find_tinfo_Some:
  "length (threads (ginfo st)) = PROF_THREAD_MAX \<Longrightarrow> \<exists>i < PROF_THREAD_MAX. tid (slot_of st i) = p \<Longrightarrow>
     \<exists>i. find_tinfo p (ginfo st) = Some i \<and> i < PROF_THREAD_MAX \<and> tid (slot_of st i) = p"
  unfolding find_tinfo_def slot_of_def
  by (cases "find (\<lambda>i. tid (threads (ginfo st) ! i) = p) [0..<PROF_THREAD_MAX]")
    (auto simp: find_None_iff dest: find_Some_iff_prop)

subsection \<open>Properties of start-up and registration\<close>



text \<open>C6: registering a new thread keeps the whole table intact.  As long as a slot is free and the thread's
  id is not the id of a running slot, \<^verbatim>\<open>lprobe_thread_init\<close> returns, takes exactly one more slot for it,
  never outside the table, and leaves every running slot, its events and its log as they were; with a
  full table it changes nothing.\<close>

theorem lprobe_thread_init_keeps_table:
  assumes os: "good_os os" and inv: "prof_inv st L I"
    and p: "p = mem_pid (mem_ptr ptr + tid_offset)" "0 < p" "p < 2 ^ 31" "\<forall>i \<in> I. tid (slot_of st i) \<noteq> p"
  shows "\<exists>st' L' I'. lprobe_thread_init os abi mem_ptr mem_pid tid_offset ptr st = Inr st' \<and> prof_inv st' L' I' \<and> I \<subseteq> I'
    \<and> (\<forall>j \<in> I. slot_of st' j = slot_of st j \<and> L' j = L j \<and> thread_log st' j = thread_log st j)
    \<and> (if occupied (ginfo st) = PROF_THREAD_MAX then st' = st
       else occupied (ginfo st') = Suc (occupied (ginfo st)) \<and> (\<exists>i < PROF_THREAD_MAX. tid (slot_of st' i) = p))"
proof (cases "occupied (ginfo st) = PROF_THREAD_MAX")
  case True
  then have "thread_nid (ginfo st) = UINT_MAX" using inv by (simp add: prof_inv_def slots_ok_def)
  then show ?thesis using inv True by (auto simp: lprobe_thread_init_def)
next
  case False
  have so: "slots_ok (ginfo st)" using inv by (simp add: prof_inv_def)
  then have room: "occupied (ginfo st) < PROF_THREAD_MAX"
    using False occupied_le [of "ginfo st"] by (simp add: slots_ok_def)
  let ?n = "unat (thread_nid (ginfo st))"
  have n: "?n < PROF_THREAD_MAX" "tid (slot_of st ?n) = 0" using so False by (simp_all add: slots_ok_def slot_of_def)
  have nI: "?n \<notin> I" using inv n(2) by (auto simp: prof_inv_def)
  have "thread_nid (ginfo st) \<noteq> UINT_MAX" using n(1) unat_UINT_MAX by auto
  then have "lprobe_thread_init os abi mem_ptr mem_pid tid_offset ptr st = take_slot os abi p st"
    by (simp add: lprobe_thread_init_def thread_init_locked_def p(1))
  moreover obtain st' L' I' where s: "take_slot os abi p st = Inr st'" "prof_inv st' L' I'" "I \<subseteq> I'"
      "occupied (ginfo st') = Suc (occupied (ginfo st))" "tid (slot_of st' ?n) = p"
      "\<forall>j. j \<noteq> ?n \<longrightarrow> slot_of st' j = slot_of st j" "\<forall>j \<in> I. L' j = L j \<and> thread_log st' j = thread_log st j"
    using take_slot_effect [OF os inv room p(2-4), of abi] by blast
  moreover have "slot_of st' j = slot_of st j" if "j \<in> I" for j using s(6) nI that by metis
  ultimately show ?thesis using False n(1)
    by (intro exI [of _ st'] exI [of _ L'] exI [of _ I']) auto
qed

lemma example_occupied: "occupied (ginfo example_prof) = 1"
    using occupied_update [of 0 globalinfo "zero_tinfo\<lparr>tid := 42, tstate := PROF_STATE_RUNNING, tevlist := 1, output_file := Some (outfile 42)\<rparr>"]
    by (simp add: occupied_def example_prof_def globalinfo_def zero_tinfo_def filter_empty_conv)

lemma example_prof_inv: "prof_inv example_prof (\<lambda>_. [2, 3]) {0}"
proof -
  have "slot_of example_prof 1 = zero_tinfo" by (simp add: example_slot)
  then have "slots_ok (ginfo example_prof)"
    using example_parts(3) example_occupied by (simp add: slots_ok_def slot_of_def) (simp add: example_prof_def zero_tinfo_def)
  moreover have "nb_record (slot_of example_prof i) = 0" if "i < PROF_THREAD_MAX" for i
    using that by (simp add: example_slot zero_tinfo_def)
  ultimately show ?thesis
    using example_table by (simp add: prof_inv_def example_slot zero_tinfo_def) (simp add: example_prof_def globalinfo_def)
qed

theorem lprobe_thread_init_keeps_table_witness:
  "\<exists>st' L' I'. lprobe_thread_init calm_kernel example_abi (\<lambda>a. a) (\<lambda>a. int a + 1) 720 100 example_prof = Inr st'
     \<and> prof_inv st' L' I' \<and> 0 \<in> I' \<and> slot_of st' 0 = slot_of example_prof 0"
proof -
  have "\<forall>i \<in> {0}. tid (slot_of example_prof i) \<noteq> 821" by (simp add: example_slot)
  from lprobe_thread_init_keeps_table [OF calm_good_os example_prof_inv _ _ _ this,
      of "\<lambda>a. int a + 1" "\<lambda>a. a" 100 720 example_abi] show ?thesis by auto
qed

subsection \<open>Threads that register at the same time\<close>

text \<open>Several threads inside \<^verbatim>\<open>lprobe_thread_init\<close>.  A caller first tests for a full table without the lock
  (\<open>Called\<close> to \<open>Passed\<close>, or straight to \<open>Finished\<close>), then runs the rest under the lock, which makes that
  part atomic.\<close>

datatype caller = Called int | Passed int | Finished | Crashed fault

inductive init_step :: "os \<Rightarrow> abi \<Rightarrow> prof \<times> caller list \<Rightarrow> prof \<times> caller list \<Rightarrow> bool" for os abi where
  test_room: "k < length cs \<Longrightarrow> cs ! k = Called p \<Longrightarrow> thread_nid (ginfo st) \<noteq> UINT_MAX
     \<Longrightarrow> init_step os abi (st, cs) (st, cs[k := Passed p])"
| test_full: "k < length cs \<Longrightarrow> cs ! k = Called p \<Longrightarrow> thread_nid (ginfo st) = UINT_MAX
     \<Longrightarrow> init_step os abi (st, cs) (st, cs[k := Finished])"
| locked: "k < length cs \<Longrightarrow> cs ! k = Passed p \<Longrightarrow> thread_init_locked os abi p st = Inr st'
     \<Longrightarrow> init_step os abi (st, cs) (st', cs[k := Finished])"
| crash: "k < length cs \<Longrightarrow> cs ! k = Passed p \<Longrightarrow> thread_init_locked os abi p st = Inl f
     \<Longrightarrow> init_step os abi (st, cs) (st, cs[k := Crashed f])"

fun pending :: "caller \<Rightarrow> bool" where
  "pending (Called p) = True" | "pending (Passed p) = True" | "pending _ = False"

definition out_of_bounds :: "caller list \<Rightarrow> bool" where
  "out_of_bounds cs \<longleftrightarrow> Crashed Out_of_bounds \<in> set cs"

definition room_for_all :: "prof \<times> caller list \<Rightarrow> bool" where
  "room_for_all c = (case c of (st, cs) \<Rightarrow> slots_ok (ginfo st)
     \<and> occupied (ginfo st) + length (filter pending cs) \<le> PROF_THREAD_MAX
     \<and> (\<forall>k < length cs. \<forall>p. cs ! k = Called p \<or> cs ! k = Passed p \<longrightarrow> p \<noteq> 0) \<and> \<not> out_of_bounds cs)"

lemma set_update_crash: "k < length cs \<Longrightarrow> out_of_bounds (cs[k := c]) \<Longrightarrow> out_of_bounds cs \<or> c = Crashed Out_of_bounds"
  using set_update_subset_insert [of cs k c] by (auto simp: out_of_bounds_def)

lemma room_update:
  assumes "room_for_all (st, cs)" "k < length cs" "slots_ok (ginfo st')"
    "occupied (ginfo st') + length (filter pending (cs[k := x])) \<le> PROF_THREAD_MAX"
    "\<And>p. x = Called p \<or> x = Passed p \<Longrightarrow> p \<noteq> 0" "x \<noteq> Crashed Out_of_bounds"
  shows "room_for_all (st', cs[k := x])"
  unfolding room_for_all_def prod.case
proof (intro conjI allI impI)
  fix j p
  assume "j < length (cs[k := x])" "cs[k := x] ! j = Called p \<or> cs[k := x] ! j = Passed p"
  then show "p \<noteq> 0" using assms(1,2,5) by (cases "j = k") (auto simp: room_for_all_def)
qed (use assms set_update_crash in \<open>auto simp: room_for_all_def\<close>)

lemma room_for_all_step:
  "init_step os abi c c' \<Longrightarrow> room_for_all c \<Longrightarrow> room_for_all c'"
proof (induction rule: init_step.induct)
  case (test_room k cs p st)
  then show ?case
    using filter_update [of k cs pending "Passed p"] by (intro room_update) (auto simp: room_for_all_def)
next
  case (test_full k cs p st)
  then show ?case
    using filter_update [of k cs pending Finished] by (intro room_update) (auto simp: room_for_all_def)
next
  case (locked k cs p st st')
  have f: "length (filter pending (cs[k := Finished])) + 1 = length (filter pending cs)"
    using filter_update [of k cs pending Finished] locked by simp
  have "slots_ok (ginfo st')" "occupied (ginfo st') = Suc (occupied (ginfo st))"
    using take_slot_table [of st p os abi] f locked by (auto simp: room_for_all_def thread_init_locked_def)
  moreover have "occupied (ginfo st) + length (filter pending cs) \<le> PROF_THREAD_MAX"
    using locked by (simp add: room_for_all_def)
  ultimately show ?case using locked f by (intro room_update [of st cs k st' Finished]) simp_all
next
  case (crash k cs p st f)
  have l: "length (filter pending (cs[k := Crashed f])) + 1 = length (filter pending cs)"
    using filter_update [of k cs pending "Crashed f"] crash by simp
  then have "f \<noteq> Out_of_bounds"
    using take_slot_table [of st p os abi] crash by (auto simp: room_for_all_def thread_init_locked_def)
  moreover have "slots_ok (ginfo st)" "occupied (ginfo st) + length (filter pending cs) \<le> PROF_THREAD_MAX"
    using crash by (simp_all add: room_for_all_def)
  ultimately show ?case using crash l by (intro room_update [of st cs k st "Crashed f"]) simp_all
qed

text \<open>C23: with at least as many free slots as registering threads, no interleaving makes one of them write
  outside the table, and the table's invariant holds at every point.\<close>

theorem concurrent_init_in_bounds:
  assumes "(init_step os abi)\<^sup>*\<^sup>* (st, map Called ps) (st', cs)" "slots_ok (ginfo st)" "0 \<notin> set ps"
    "occupied (ginfo st) + length ps \<le> PROF_THREAD_MAX"
  shows "slots_ok (ginfo st') \<and> \<not> out_of_bounds cs
    \<and> occupied (ginfo st') + length (filter pending cs) \<le> PROF_THREAD_MAX"
proof -
  have "room_for_all c'" if "(init_step os abi)\<^sup>*\<^sup>* c c'" "room_for_all c" for c c'
    using that by (induction rule: rtranclp_induct) (auto intro: room_for_all_step)
  moreover have "room_for_all (st, map Called ps)"
    using assms(2-4) by (auto simp: room_for_all_def out_of_bounds_def filter_map o_def in_set_conv_nth)
  ultimately have "room_for_all (st', cs)" using assms(1) by blast
  then show ?thesis by (simp add: room_for_all_def)
qed

theorem concurrent_init_in_bounds_witness:
  "\<exists>cs. (init_step calm_kernel example_abi)\<^sup>*\<^sup>* (example_prof, map Called [821, 822]) (example_prof, cs)
     \<and> cs = [Passed 821, Called 822] \<and> \<not> out_of_bounds cs"
proof -
  have ok: "slots_ok (ginfo example_prof)" using example_prof_inv by (simp add: prof_inv_def)
  have "thread_nid (ginfo example_prof) = 1" by (simp add: example_prof_def)
  then have "init_step calm_kernel example_abi (example_prof, map Called [821, 822]) (example_prof, [Passed 821, Called 822])"
    using test_room [of 0 "map Called [821, 822]" 821 example_prof] by simp
  then have r: "(init_step calm_kernel example_abi)\<^sup>*\<^sup>* (example_prof, map Called [821, 822]) (example_prof, [Passed 821, Called 822])"
    by blast
  then show ?thesis
    using concurrent_init_in_bounds [OF r ok] example_occupied by simp
qed

text \<open>C24: with fewer free slots than registering threads the unlocked test is too early.  When one slot is
  left and two threads pass the test before either takes the lock, the first one to get the lock fills the
  table and the second one indexes it with \<^verbatim>\<open>UINT_MAX\<close>, far outside.\<close>

theorem concurrent_init_race:
  assumes ok: "slots_ok (ginfo st)" and one: "occupied (ginfo st) = PROF_THREAD_MAX - 1" and p: "p \<noteq> 0"
    and first: "thread_init_locked os abi p st = Inr st'"
  shows "(init_step os abi)\<^sup>*\<^sup>* (st, [Called p, Called q]) (st', [Finished, Crashed Out_of_bounds])"
proof -
  have nid: "thread_nid (ginfo st) \<noteq> UINT_MAX" using ok one unat_UINT_MAX by (auto simp: slots_ok_def)
  have "slots_ok (ginfo st')" "occupied (ginfo st') = PROF_THREAD_MAX"
    using take_slot_table [OF ok, of p os abi] one p first by (auto simp: thread_init_locked_def)
  then have full: "thread_nid (ginfo st') = UINT_MAX" "length (threads (ginfo st')) = PROF_THREAD_MAX"
    by (simp_all add: slots_ok_def)
  then have second: "thread_init_locked os abi q st' = Inl Out_of_bounds"
    by (simp add: thread_init_locked_def take_slot_def unat_UINT_MAX)
  have "init_step os abi (st, [Called p, Called q]) (st, [Passed p, Called q])"
    using test_room [of 0 "[Called p, Called q]" p st] nid by simp
  moreover have "init_step os abi (st, [Passed p, Called q]) (st, [Passed p, Passed q])"
    using test_room [of 1 "[Passed p, Called q]" q st] nid by simp
  moreover have "init_step os abi (st, [Passed p, Passed q]) (st', [Finished, Passed q])"
    using locked [of 0 "[Passed p, Passed q]" p os abi st st'] first by simp
  moreover have "init_step os abi (st', [Finished, Passed q]) (st', [Finished, Crashed Out_of_bounds])"
    using crash [of 1 "[Finished, Passed q]" q os abi st' Out_of_bounds] second by simp
  ultimately show ?thesis by (meson converse_rtranclp_into_rtranclp rtranclp.rtrancl_refl)
qed

definition crowded_prof :: prof where
  "crowded_prof = example_prof\<lparr>ginfo := globalinfo\<lparr>
     threads := replicate (PROF_THREAD_MAX - 1) (zero_tinfo\<lparr>tid := 9\<rparr>) @ [zero_tinfo], thread_nb := 63, thread_nid := 63\<rparr>\<rparr>"

lemma crowded_prof_inv: "prof_inv crowded_prof (\<lambda>_. []) {}" "occupied (ginfo crowded_prof) = 63"
proof -
  have th: "threads (ginfo crowded_prof) = replicate 63 (zero_tinfo\<lparr>tid := 9\<rparr>) @ [zero_tinfo]"
    "thread_nb (ginfo crowded_prof) = 63" "thread_nid (ginfo crowded_prof) = 63" "evlist_str (ginfo crowded_prof) = []"
    by (simp_all add: crowded_prof_def globalinfo_def)
  show o: "occupied (ginfo crowded_prof) = 63"
    unfolding occupied_def th(1) by (simp add: zero_tinfo_def filter_id_conv)
  have "slots_ok (ginfo crowded_prof)"
    unfolding slots_ok_def o th by (simp add: nth_append zero_tinfo_def)
  moreover have "slot_of crowded_prof i \<in> {zero_tinfo\<lparr>tid := 9\<rparr>, zero_tinfo}" if "i < PROF_THREAD_MAX" for i
    using that unfolding slot_of_def th(1) by (auto simp: nth_append)
  then have "nb_record (slot_of crowded_prof i) = 0 \<and> tstate (slot_of crowded_prof i) = PROF_STATE_UNINIT"
    if "i < PROF_THREAD_MAX" for i
    using that by (fastforce simp: zero_tinfo_def)
  ultimately show "prof_inv crowded_prof (\<lambda>_. []) {}"
    by (simp add: prof_inv_def table_running_def th)
qed

theorem concurrent_init_race_witness:
  "\<exists>st'. (init_step calm_kernel example_abi)\<^sup>*\<^sup>* (crowded_prof, [Called 100, Called 101])
     (st', [Finished, Crashed Out_of_bounds])"
proof -
  obtain st' where "take_slot calm_kernel example_abi 100 crowded_prof = Inr st'"
    using take_slot_effect [OF calm_good_os crowded_prof_inv(1), of 100 example_abi] crowded_prof_inv(2) by auto
  then have "thread_init_locked calm_kernel example_abi 100 crowded_prof = Inr st'"
    by (simp add: thread_init_locked_def)
  moreover have "slots_ok (ginfo crowded_prof)" using crowded_prof_inv(1) by (simp add: prof_inv_def)
  ultimately show ?thesis
    using concurrent_init_race [of crowded_prof 100 calm_kernel example_abi st' 101] crowded_prof_inv(2) by auto
qed

end
