(* ===== verification/Hash_List.thy ===== *)
theory Hash_List
  imports Prelude
begin

section \<open>probe/list.h, second half: lists with a single-pointer head\<close>

text \<open>
  An \<^verbatim>\<open>hlist_node\<close> points to its successor and to the pointer that points to it
  (\<^verbatim>\<open>struct hlist_node **pprev\<close>): the \<^verbatim>\<open>first\<close> of a head or the \<^verbatim>\<open>next\<close> of a node.  A pointer to
  a pointer is a value of \<open>pptr\<close>; writing through the null one is a fault.  \<open>hlist h head xs\<close> says that
  the list at \<open>head\<close> consists of the nodes \<open>xs\<close>; each operation is shown to act on that sequence.
\<close>

datatype pptr = PNull | PFirst addr | PNext addr

record hheap =
  hfirst :: "addr \<Rightarrow> addr"
  hnext :: "addr \<Rightarrow> addr"
  hpprev :: "addr \<Rightarrow> pptr"

definition set_hnext :: "addr \<Rightarrow> addr \<Rightarrow> hheap \<Rightarrow> hheap" where
  "set_hnext n v h = h\<lparr>hnext := (hnext h)(n := v)\<rparr>"

definition set_hpprev :: "addr \<Rightarrow> pptr \<Rightarrow> hheap \<Rightarrow> hheap" where
  "set_hpprev n v h = h\<lparr>hpprev := (hpprev h)(n := v)\<rparr>"

definition set_hfirst :: "addr \<Rightarrow> addr \<Rightarrow> hheap \<Rightarrow> hheap" where
  "set_hfirst n v h = h\<lparr>hfirst := (hfirst h)(n := v)\<rparr>"

fun store :: "pptr \<Rightarrow> addr \<Rightarrow> hheap \<Rightarrow> fault + hheap" where
  "store PNull v h = Inl Null_pointer"
| "store (PFirst a) v h = Inr (set_hfirst a v h)"
| "store (PNext a) v h = Inr (set_hnext a v h)"

subsection \<open>The operations\<close>

definition INIT_HLIST_HEAD :: "addr \<Rightarrow> hheap \<Rightarrow> hheap" where
  "INIT_HLIST_HEAD p h = set_hfirst p NULL h"

definition INIT_HLIST_NODE :: "addr \<Rightarrow> hheap \<Rightarrow> hheap" where
  "INIT_HLIST_NODE n h = set_hpprev n PNull (set_hnext n NULL h)"

definition hlist_unhashed :: "addr \<Rightarrow> hheap \<Rightarrow> bool" where
  "hlist_unhashed n h \<longleftrightarrow> hpprev h n = PNull"

definition hlist_empty :: "addr \<Rightarrow> hheap \<Rightarrow> bool" where
  "hlist_empty p h \<longleftrightarrow> hfirst h p = NULL"

definition hlist_del_raw :: "addr \<Rightarrow> hheap \<Rightarrow> fault + hheap" where
  "hlist_del_raw n h =
     (let nxt = hnext h n; pp = hpprev h n
      in and_then (store pp nxt h) (\<lambda>h1. Inr (if nxt \<noteq> NULL then set_hpprev nxt pp h1 else h1)))"

definition hlist_del :: "addr \<Rightarrow> hheap \<Rightarrow> fault + hheap" where
  "hlist_del n h =
     and_then (hlist_del_raw n h) (\<lambda>h1. Inr (set_hpprev n PNull (set_hnext n NULL h1)))"

definition hlist_del_init :: "addr \<Rightarrow> hheap \<Rightarrow> fault + hheap" where
  "hlist_del_init n h =
     (if \<not> hlist_unhashed n h then and_then (hlist_del_raw n h) (\<lambda>h1. Inr (INIT_HLIST_NODE n h1)) else Inr h)"

definition hlist_add_head :: "addr \<Rightarrow> addr \<Rightarrow> hheap \<Rightarrow> hheap" where
  "hlist_add_head n p h =
     (let fst' = hfirst h p;
          h1 = set_hnext n fst' h;
          h2 = (if fst' \<noteq> NULL then set_hpprev fst' (PNext n) h1 else h1);
          h3 = set_hfirst p n h2
      in set_hpprev n (PFirst p) h3)"

definition hlist_add_before :: "addr \<Rightarrow> addr \<Rightarrow> hheap \<Rightarrow> fault + hheap" where
  "hlist_add_before n nxt h =
     (let h1 = set_hpprev n (hpprev h nxt) h;
          h2 = set_hnext n nxt h1;
          h3 = set_hpprev nxt (PNext n) h2
      in store (hpprev h3 n) n h3)"

definition hlist_add_behind :: "addr \<Rightarrow> addr \<Rightarrow> hheap \<Rightarrow> hheap" where
  "hlist_add_behind n prv h =
     (let h1 = set_hnext n (hnext h prv) h;
          h2 = set_hnext prv n h1;
          h3 = set_hpprev n (PNext prv) h2
      in if hnext h3 n \<noteq> NULL then set_hpprev (hnext h3 n) (PNext n) h3 else h3)"

definition hlist_add_fake :: "addr \<Rightarrow> hheap \<Rightarrow> hheap" where
  "hlist_add_fake n h = set_hpprev n (PNext n) h"

definition hlist_fake :: "addr \<Rightarrow> hheap \<Rightarrow> bool" where
  "hlist_fake n h \<longleftrightarrow> hpprev h n = PNext n"

definition hlist_move_list :: "addr \<Rightarrow> addr \<Rightarrow> hheap \<Rightarrow> hheap" where
  "hlist_move_list old new h =
     (let h1 = set_hfirst new (hfirst h old) h;
          h2 = (if hfirst h1 new \<noteq> NULL then set_hpprev (hfirst h1 new) (PFirst new) h1 else h1)
      in set_hfirst old NULL h2)"

lemmas hops = set_hnext_def set_hpprev_def set_hfirst_def INIT_HLIST_HEAD_def INIT_HLIST_NODE_def
  hlist_unhashed_def hlist_empty_def hlist_add_fake_def hlist_fake_def

text \<open>The loops end at the null pointer; \<^verbatim>\<open>hlist_entry_safe\<close> maps null to null.\<close>

definition hlist_entry_safe :: "nat \<Rightarrow> addr \<Rightarrow> addr" where
  "hlist_entry_safe off p = (if p \<noteq> NULL then p - off else NULL)"

definition hlist_for_each :: "('s \<Rightarrow> hheap) \<Rightarrow> (addr \<Rightarrow> 's \<Rightarrow> 's flow) \<Rightarrow> addr \<Rightarrow> 's \<Rightarrow> 's flow option" where
  "hlist_for_each hp body p s = walk (\<lambda>s q. hnext (hp s) q) body NULL (hfirst (hp s) p) s"

partial_function (option) hwalk_safe ::
  "('s \<Rightarrow> hheap) \<Rightarrow> (addr \<Rightarrow> 's \<Rightarrow> 's flow) \<Rightarrow> addr \<Rightarrow> 's \<Rightarrow> 's flow option" where
  "hwalk_safe hp body pos s =
     (if pos = NULL then Some (Go s)
      else let n = hnext (hp s) pos
           in case body pos s of Leave s' \<Rightarrow> Some (Leave s') | Go s' \<Rightarrow> hwalk_safe hp body n s')"

definition hlist_for_each_safe :: "('s \<Rightarrow> hheap) \<Rightarrow> (addr \<Rightarrow> 's \<Rightarrow> 's flow) \<Rightarrow> addr \<Rightarrow> 's \<Rightarrow> 's flow option" where
  "hlist_for_each_safe hp body p s = hwalk_safe hp body (hfirst (hp s) p) s"

definition hlist_for_each_entry ::
  "nat \<Rightarrow> ('s \<Rightarrow> hheap) \<Rightarrow> (addr \<Rightarrow> 's \<Rightarrow> 's flow) \<Rightarrow> addr \<Rightarrow> 's \<Rightarrow> 's flow option" where
  "hlist_for_each_entry off hp body p s = hlist_for_each hp (\<lambda>q. body (hlist_entry_safe off q)) p s"

definition hlist_for_each_entry_continue ::
  "nat \<Rightarrow> ('s \<Rightarrow> hheap) \<Rightarrow> (addr \<Rightarrow> 's \<Rightarrow> 's flow) \<Rightarrow> addr \<Rightarrow> 's \<Rightarrow> 's flow option" where
  "hlist_for_each_entry_continue off hp body pos s =
     walk (\<lambda>s q. hnext (hp s) q) (\<lambda>q. body (hlist_entry_safe off q)) NULL (hnext (hp s) (pos + off)) s"

definition hlist_for_each_entry_from ::
  "nat \<Rightarrow> ('s \<Rightarrow> hheap) \<Rightarrow> (addr \<Rightarrow> 's \<Rightarrow> 's flow) \<Rightarrow> addr \<Rightarrow> 's \<Rightarrow> 's flow option" where
  "hlist_for_each_entry_from off hp body pos s =
     (if pos = NULL then Some (Go s)
      else walk (\<lambda>s q. hnext (hp s) q) (\<lambda>q. body (hlist_entry_safe off q)) NULL (pos + off) s)"

definition hlist_for_each_entry_safe ::
  "nat \<Rightarrow> ('s \<Rightarrow> hheap) \<Rightarrow> (addr \<Rightarrow> 's \<Rightarrow> 's flow) \<Rightarrow> addr \<Rightarrow> 's \<Rightarrow> 's flow option" where
  "hlist_for_each_entry_safe off hp body p s = hlist_for_each_safe hp (\<lambda>q. body (hlist_entry_safe off q)) p s"

subsection \<open>The sequence of nodes\<close>

fun load :: "pptr \<Rightarrow> hheap \<Rightarrow> addr" where
  "load PNull h = NULL"
| "load (PFirst a) h = hfirst h a"
| "load (PNext a) h = hnext h a"

fun hseg :: "hheap \<Rightarrow> pptr \<Rightarrow> addr list \<Rightarrow> bool" where
  "hseg h r [] = True"
| "hseg h r (x # xs) = (load r h = x \<and> hpprev h x = r \<and> hseg h (PNext x) xs)"

definition endref :: "pptr \<Rightarrow> addr list \<Rightarrow> pptr" where
  "endref r xs = (if xs = [] then r else PNext (last xs))"

definition hlist :: "hheap \<Rightarrow> addr \<Rightarrow> addr list \<Rightarrow> bool" where
  "hlist h p xs \<longleftrightarrow> distinct xs \<and> NULL \<notin> set xs \<and> hseg h (PFirst p) xs \<and> load (endref (PFirst p) xs) h = NULL"

lemma endref_simps [simp]:
  "endref r [] = r" "endref r (x # xs) = endref (PNext x) xs" "endref r (xs @ [x]) = PNext x"
  by (auto simp: endref_def)

lemma endref_append [simp]: "endref r (xs @ ys) = endref (endref r xs) ys"
  by (auto simp: endref_def)

lemma hseg_append: "hseg h r (xs @ ys) \<longleftrightarrow> hseg h r xs \<and> hseg h (endref r xs) ys"
  by (induction xs arbitrary: r) auto

lemma hseg_cong:
  "(\<And>q. q \<in> insert r (PNext ` set (butlast xs)) \<Longrightarrow> load q h' = load q h)
     \<Longrightarrow> (\<And>x. x \<in> set xs \<Longrightarrow> hpprev h' x = hpprev h x) \<Longrightarrow> hseg h' r xs = hseg h r xs"
proof (induction xs arbitrary: r)
  case (Cons x xs)
  have "hseg h' (PNext x) xs = hseg h (PNext x) xs" if "xs \<noteq> []"
    using Cons.prems that by (intro Cons.IH) (auto simp del: load.simps)
  then have "hseg h' (PNext x) xs = hseg h (PNext x) xs" by (cases "xs = []") auto
  moreover have "load r h' = load r h" using Cons.prems(1) by simp
  ultimately show ?case using Cons.prems(2) by simp
qed simp

lemma endref_mem: "endref (PFirst p) xs = PFirst p \<and> xs = [] \<or> (\<exists>x \<in> set xs. endref (PFirst p) xs = PNext x \<and> x = last xs)"
  by (cases "xs = []") (auto simp: endref_def)

lemma endref_in: "\<exists>x \<in> set (z # zs). endref (PNext z) zs = PNext x"
  by (auto simp: endref_def)

lemma hlist_add_head_hlist:
  assumes "hlist h p xs" "n \<noteq> NULL" "n \<notin> set xs"
  shows "hlist (hlist_add_head n p h) p (n # xs)"
proof (cases xs)
  case Nil
  then show ?thesis using assms by (simp add: hlist_def hlist_add_head_def hops)
next
  case (Cons y ys)
  have "hseg (hlist_add_head n p h) (PNext y) ys = hseg h (PNext y) ys"
    using assms Cons by (intro hseg_cong) (auto simp: hlist_def hlist_add_head_def hops Let_def dest: in_set_butlastD)
  moreover have "load (endref (PNext y) ys) (hlist_add_head n p h) = load (endref (PNext y) ys) h"
    using assms Cons by (auto simp: hlist_def hlist_add_head_def hops Let_def endref_def)
  ultimately show ?thesis using assms Cons by (simp add: hlist_def hlist_add_head_def hops Let_def)
qed

text \<open>Unlinking and the insertions meet the list at one position: \<open>ys\<close> before it, and the pointer that
  refers to the position is \<open>endref (PFirst p) ys\<close>.\<close>

lemma hlist_split:
  "hlist h p (ys @ zs) \<longleftrightarrow> distinct (ys @ zs) \<and> NULL \<notin> set (ys @ zs) \<and> hseg h (PFirst p) ys
     \<and> hseg h (endref (PFirst p) ys) zs \<and> load (endref (endref (PFirst p) ys) zs) h = NULL"
  by (auto simp: hlist_def hseg_append)

lemma store_effect:
  assumes "r \<noteq> PNull"
  shows "\<exists>h'. store r v h = Inr h' \<and> load r h' = v \<and> hpprev h' = hpprev h
    \<and> (\<forall>q. q \<noteq> r \<longrightarrow> load q h' = load q h)"
proof (cases r)
  case (PFirst a)
  have "load q (set_hfirst a v h) = load q h" if "q \<noteq> PFirst a" for q
    using that by (cases q) (auto simp: hops)
  then show ?thesis using PFirst by (simp add: hops)
next
  case (PNext a)
  have "load q (set_hnext a v h) = load q h" if "q \<noteq> PNext a" for q
    using that by (cases q) (auto simp: hops)
  then show ?thesis using PNext by (simp add: hops)
qed (use assms in simp)

lemma endref_not_null [simp]: "endref (PFirst p) ys \<noteq> PNull"
  by (simp add: endref_def)

lemma prefix_seg:
  assumes "hseg h (PFirst p) ys" "distinct ys"
    and "\<And>q. q \<noteq> endref (PFirst p) ys \<Longrightarrow> q \<notin> PNext ` A \<Longrightarrow> load q h' = load q h"
    and "\<And>x. x \<in> set ys \<Longrightarrow> hpprev h' x = hpprev h x" "A \<inter> set ys = {}"
  shows "hseg h' (PFirst p) ys"
proof (cases ys rule: rev_cases)
  case (snoc zs z)
  have "load (PNext x) h' = load (PNext x) h" if "x \<in> set zs" for x
    using assms(3) [of "PNext x"] assms(2,5) snoc that by (auto simp del: load.simps)
  moreover have "load (PFirst p) h' = load (PFirst p) h"
    using assms(3) [of "PFirst p"] snoc by (auto simp del: load.simps)
  ultimately have "hseg h' (PFirst p) ys = hseg h (PFirst p) ys"
    using assms(4) snoc by (intro hseg_cong) (auto simp del: load.simps)
  then show ?thesis using assms(1) by simp
qed simp

lemma hlist_del_raw_effect:
  assumes d: "hlist h p (ys @ n # zs)"
  shows "\<exists>h'. hlist_del_raw n h = Inr h' \<and> hlist h' p (ys @ zs)
    \<and> (\<forall>q. q \<noteq> endref (PFirst p) ys \<longrightarrow> load q h' = load q h)
    \<and> (\<forall>x. x \<notin> set zs \<longrightarrow> hpprev h' x = hpprev h x)"
proof -
  let ?r = "endref (PFirst p) ys"
  have pp: "hpprev h n = ?r" and dist: "distinct (ys @ n # zs)" "NULL \<notin> set (ys @ n # zs)"
    and sg: "hseg h (PFirst p) ys" "hseg h (PNext n) zs" and e: "load (endref (PNext n) zs) h = NULL"
    using d by (auto simp: hlist_split)
  obtain h1 where h1: "store ?r (hnext h n) h = Inr h1" "load ?r h1 = hnext h n" "hpprev h1 = hpprev h"
      "\<And>q. q \<noteq> ?r \<Longrightarrow> load q h1 = load q h"
    using store_effect [of ?r "hnext h n" h] by auto
  let ?h' = "if hnext h n \<noteq> NULL then set_hpprev (hnext h n) ?r h1 else h1"
  have ld: "load q ?h' = load q h1" for q by (cases q) (simp_all add: hops)
  have pr: "hpprev ?h' x = (if x = hnext h n \<and> x \<noteq> NULL then ?r else hpprev h x)" for x
    using h1(3) by (simp add: hops)
  have nz: "hnext h n = (case zs of [] \<Rightarrow> NULL | z # _ \<Rightarrow> z)"
    using sg(2) e by (cases zs) auto
  have rn: "\<And>x. x \<in> set (n # zs) \<Longrightarrow> PNext x \<noteq> ?r" using dist endref_mem [of p ys] by auto
  have "hseg ?h' (PFirst p) ys"
    by (rule prefix_seg [OF sg(1), where A = "{}"]) (use dist ld h1(4) pr nz in \<open>auto split: list.splits\<close>)
  moreover have "hseg ?h' ?r zs \<and> load (endref ?r zs) ?h' = NULL"
  proof (cases zs)
    case Nil
    then show ?thesis using ld h1(2) nz by simp
  next
    case (Cons z zs')
    have "hseg ?h' (PNext z) zs' = hseg h (PNext z) zs'"
      using Cons dist rn pr nz ld h1(4) by (intro hseg_cong) (auto dest: in_set_butlastD simp del: load.simps)
    moreover have "load (endref (PNext z) zs') ?h' = load (endref (PNext z) zs') h"
      using Cons rn ld h1(4) endref_in [of z zs'] by (auto simp del: load.simps)
    ultimately show ?thesis using Cons sg(2) e ld h1(2) pr nz dist by simp
  qed
  ultimately have "hlist ?h' p (ys @ zs)" using dist by (simp add: hlist_split)
  then show ?thesis
    using h1 ld pr nz pp by (auto simp: hlist_del_raw_def Let_def split: list.splits)
qed

lemma hlist_del_effect:
  assumes "hlist h p (ys @ n # zs)"
  shows "\<exists>h'. hlist_del n h = Inr h' \<and> hlist h' p (ys @ zs) \<and> hlist_unhashed n h'"
    "\<exists>h'. hlist_del_init n h = Inr h' \<and> hlist h' p (ys @ zs) \<and> hlist_unhashed n h'"
proof -
  obtain h1 where h1: "hlist_del_raw n h = Inr h1" "hlist h1 p (ys @ zs)" using hlist_del_raw_effect [OF assms] by blast
  have n: "n \<notin> set (ys @ zs)" "hpprev h n = endref (PFirst p) ys" using assms by (auto simp: hlist_split)
  let ?h' = "set_hpprev n PNull (set_hnext n NULL h1)"
  have ld: "q \<noteq> PNext n \<Longrightarrow> load q ?h' = load q h1" for q by (cases q) (auto simp: hops)
  have "hseg ?h' (PFirst p) (ys @ zs) = hseg h1 (PFirst p) (ys @ zs)"
    using n(1) ld by (intro hseg_cong) (auto simp: hops dest: in_set_butlastD)
  moreover have "load (endref (PFirst p) (ys @ zs)) ?h' = load (endref (PFirst p) (ys @ zs)) h1"
    using endref_mem [of p "ys @ zs"] n(1) by (intro ld) auto
  ultimately have "hlist ?h' p (ys @ zs)" using h1(2) by (simp add: hlist_def)
  then show "\<exists>h'. hlist_del n h = Inr h' \<and> hlist h' p (ys @ zs) \<and> hlist_unhashed n h'"
    "\<exists>h'. hlist_del_init n h = Inr h' \<and> hlist h' p (ys @ zs) \<and> hlist_unhashed n h'"
    using h1(1) n(2) by (simp_all add: hlist_del_def hlist_del_init_def hlist_unhashed_def INIT_HLIST_NODE_def)
      (simp_all add: hops)
qed

lemma hlist_add_before_effect:
  assumes d: "hlist h p (ys @ x # zs)" and n: "n \<noteq> NULL" "n \<notin> set (ys @ x # zs)"
  shows "\<exists>h'. hlist_add_before n x h = Inr h' \<and> hlist h' p (ys @ n # x # zs)"
proof -
  let ?r = "endref (PFirst p) ys"
  have dist: "distinct (ys @ x # zs)" "NULL \<notin> set (ys @ x # zs)" and pp: "hpprev h x = ?r"
    and sg: "hseg h (PFirst p) ys" "hseg h (PNext x) zs" and e: "load (endref (PNext x) zs) h = NULL"
    using d by (auto simp: hlist_split)
  let ?h3 = "set_hpprev x (PNext n) (set_hnext n x (set_hpprev n ?r h))"
  obtain h4 where h4: "store ?r n ?h3 = Inr h4" "load ?r h4 = n" "hpprev h4 = hpprev ?h3"
      "\<And>q. q \<noteq> ?r \<Longrightarrow> load q h4 = load q ?h3"
    using store_effect [of ?r n ?h3] by auto
  have ld3: "q \<noteq> PNext n \<Longrightarrow> load q ?h3 = load q h" for q by (cases q) (auto simp: hops)
  have rn: "y \<in> set (x # zs) \<Longrightarrow> PNext y \<noteq> ?r" "PNext n \<noteq> ?r" for y using dist n(2) endref_mem [of p ys] by auto
  have pr: "hpprev h4 y = (if y = x then PNext n else if y = n then ?r else hpprev h y)" for y
    using h4(3) by (simp add: hops)
  have "hseg h4 (PFirst p) ys"
    by (rule prefix_seg [OF sg(1), where A = "{n}"]) (use dist n pr h4(4) ld3 in \<open>auto simp del: load.simps\<close>)
  moreover have ld: "load (PNext y) h4 = load (PNext y) h" if "y \<in> set (x # zs)" for y
    using h4(4) [of "PNext y"] ld3 [of "PNext y"] rn(1) [OF that] n(2) that by auto
  moreover have "hseg h4 (PNext x) zs = hseg h (PNext x) zs"
    using n(2) dist pr ld by (intro hseg_cong) (auto dest!: in_set_butlastD simp del: load.simps)
  moreover have "load (endref (PNext x) zs) h4 = load (endref (PNext x) zs) h"
    using ld endref_in [of x zs] by (auto simp del: load.simps)
  moreover have "load (PNext n) h4 = x" using h4(4) [OF rn(2)] by (simp add: hops)
  ultimately have "hlist h4 p (ys @ n # x # zs)"
    using dist n sg(2) e pr h4(2) by (auto simp: hlist_split simp del: load.simps)
  then show ?thesis using h4(1) pp n(2) by (auto simp: hlist_add_before_def Let_def hops)
qed

lemma hlist_add_behind_effect:
  assumes d: "hlist h p (ys @ x # zs)" and n: "n \<noteq> NULL" "n \<notin> set (ys @ x # zs)"
  shows "hlist (hlist_add_behind n x h) p (ys @ x # n # zs)"
proof -
  let ?h' = "hlist_add_behind n x h"
  have dist: "distinct (ys @ x # zs)" "NULL \<notin> set (ys @ x # zs)"
    and sg: "hseg h (PFirst p) ys" "hseg h (PNext x) zs" "load (endref (PFirst p) ys) h = x" "hpprev h x = endref (PFirst p) ys"
    and e: "load (endref (PNext x) zs) h = NULL"
    using d by (auto simp: hlist_split)
  have nx: "hnext h x = (case zs of [] \<Rightarrow> NULL | z # _ \<Rightarrow> z)" using sg(2) e by (cases zs) auto
  have ld: "q \<noteq> PNext n \<Longrightarrow> q \<noteq> PNext x \<Longrightarrow> load q ?h' = load q h" for q
    by (cases q) (auto simp: hlist_add_behind_def Let_def hops)
  have pr: "hpprev ?h' y = (if y = hnext h x \<and> y \<noteq> NULL then PNext n else if y = n then PNext x else hpprev h y)" for y
    using n dist by (auto simp: hlist_add_behind_def Let_def hops)
  have nw: "load (PNext x) ?h' = n" "load (PNext n) ?h' = hnext h x"
    using n dist by (auto simp: hlist_add_behind_def Let_def hops)
  have r: "endref (PFirst p) ys \<noteq> PNext n" "endref (PFirst p) ys \<noteq> PNext x"
    using dist n(2) endref_mem [of p ys] by auto
  have ldo: "load (PNext y) ?h' = load (PNext y) h" if "y \<in> set (ys @ zs)" for y
    using ld [of "PNext y"] that n(2) dist by auto
  have "hseg ?h' (PFirst p) ys = hseg h (PFirst p) ys"
    using dist n pr nx ld [of "PFirst p"] ldo
    by (intro hseg_cong) (auto dest!: in_set_butlastD simp del: load.simps split: list.splits)
  moreover have "hseg ?h' (PNext n) zs \<and> load (endref (PNext n) zs) ?h' = NULL"
  proof (cases zs)
    case Nil
    then show ?thesis using nw nx by simp
  next
    case (Cons z zs')
    have "hseg ?h' (PNext z) zs' = hseg h (PNext z) zs'"
      using Cons dist n pr nx ldo by (intro hseg_cong) (auto dest!: in_set_butlastD simp del: load.simps)
    moreover have "load (endref (PNext z) zs') ?h' = load (endref (PNext z) zs') h"
      using Cons endref_in [of z zs'] ldo by (auto simp del: load.simps)
    ultimately show ?thesis using Cons sg(2) e nw(2) pr nx dist by (simp del: load.simps)
  qed
  ultimately show ?thesis
    using dist n sg pr nx nw(1) ld [OF r] by (auto simp: hlist_split simp del: load.simps split: list.splits)
qed

lemma hlist_move_list_effect:
  assumes d: "hlist h old xs" and ne: "old \<noteq> new"
  shows "hlist (hlist_move_list old new h) new xs" "hlist (hlist_move_list old new h) old []"
proof -
  let ?h' = "hlist_move_list old new h"
  have ld: "load (PNext y) ?h' = load (PNext y) h" for y by (simp add: hlist_move_list_def hops Let_def)
  have pr: "hpprev ?h' y = (if y = hfirst h old \<and> y \<noteq> NULL then PFirst new else hpprev h y)" for y
    by (simp add: hlist_move_list_def hops Let_def)
  have f: "hfirst ?h' new = hfirst h old" using ne by (simp add: hlist_move_list_def hops Let_def)
  show "hlist ?h' old []" by (simp add: hlist_def hlist_move_list_def hops Let_def)
  show "hlist ?h' new xs"
  proof (cases xs)
    case Nil
    then show ?thesis using d f by (simp add: hlist_def)
  next
    case (Cons z zs)
    have "hseg ?h' (PNext z) zs = hseg h (PNext z) zs"
      using d Cons ld pr by (intro hseg_cong) (auto simp: hlist_def simp del: load.simps(3))
    moreover have "load (endref (PNext z) zs) ?h' = load (endref (PNext z) zs) h"
      using endref_in [of z zs] ld by (auto simp del: load.simps)
    ultimately show ?thesis using d Cons f pr by (simp add: hlist_def)
  qed
qed

text \<open>A body that leaves the links alone visits the nodes in order, and the loop ends at null.\<close>

locale quiet_hbody =
  fixes hp :: "'s \<Rightarrow> hheap" and body :: "addr \<Rightarrow> 's \<Rightarrow> 's flow"
  assumes hquiet: "hp (flow_state (body p s)) = hp s"
begin

lemma hwalk:
  "hseg (hp s) r xs \<Longrightarrow> load (endref r xs) (hp s) = NULL \<Longrightarrow> NULL \<notin> set xs \<Longrightarrow>
     walk (\<lambda>s q. hnext (hp s) q) body NULL (load r (hp s)) s = Some (run_body body xs s)"
proof (induction xs arbitrary: r s)
  case Nil
  then show ?case by (simp add: walk.simps)
next
  case (Cons x xs)
  have "walk (\<lambda>s q. hnext (hp s) q) body NULL (hnext (hp s') x) s' = Some (run_body body xs s')" if "body x s = Go s'" for s'
    using Cons.IH [of s' "PNext x"] Cons.prems hquiet [of x s] that by simp
  with Cons.prems show ?case by (subst walk.simps) (auto split: flow.splits)
qed

lemma hfor_each: "hlist (hp s) p xs \<Longrightarrow> hlist_for_each hp body p s = Some (run_body body xs s)"
  using hwalk [of s "PFirst p" xs] by (simp add: hlist_def hlist_for_each_def)

end

text \<open>The body that collects the nodes of a list leaves it alone.\<close>

definition collect_body :: "addr \<Rightarrow> hheap \<times> addr list \<Rightarrow> (hheap \<times> addr list) flow" where
  "collect_body p = (\<lambda>(h, ps). Go (h, ps @ [p]))"

interpretation collect: quiet_hbody fst collect_body
  by unfold_locales (simp add: collect_body_def case_prod_beta)

lemma run_collect: "run_body collect_body xs (h, ps) = Go (h, ps @ xs)"
  by (induction xs arbitrary: ps) (simp_all add: collect_body_def)

text \<open>C38: the operations on the single-pointer lists act on the sequence of nodes as they should.  Inserting
  at the head, before or behind a node puts the node there, deleting a node removes exactly it and marks it
  unhashed, moving a list hands all nodes to the new head, and iterating visits the nodes in order and
  ends.\<close>

theorem hlist_operations:
  assumes d: "hlist h p (ys @ x # zs)" and n: "n \<noteq> NULL" "n \<notin> set (ys @ x # zs)" and new: "p \<noteq> p'"
  shows "hlist (hlist_add_head n p h) p (n # ys @ x # zs)
    \<and> (\<exists>h'. hlist_add_before n x h = Inr h' \<and> hlist h' p (ys @ n # x # zs))
    \<and> hlist (hlist_add_behind n x h) p (ys @ x # n # zs)
    \<and> (\<exists>h'. hlist_del x h = Inr h' \<and> hlist h' p (ys @ zs) \<and> hlist_unhashed x h')
    \<and> (\<exists>h'. hlist_del_init x h = Inr h' \<and> hlist h' p (ys @ zs) \<and> hlist_unhashed x h')
    \<and> hlist (hlist_move_list p p' h) p' (ys @ x # zs) \<and> hlist_empty p (hlist_move_list p p' h)
    \<and> hlist_for_each fst collect_body p (h, []) = Some (Go (h, ys @ x # zs))"
  using hlist_add_head_hlist [OF d n] hlist_add_before_effect [OF d n] hlist_add_behind_effect [OF d n]
    hlist_del_effect [OF d] hlist_move_list_effect [OF d new] collect.hfor_each [of "(h, [])" p "ys @ x # zs"] d
  by (simp add: run_collect hlist_def hlist_empty_def)

theorem hlist_operations_witness:
  "\<exists>h'. hlist_del 3 (hlist_add_head 2 1 (hlist_add_head 3 1 (INIT_HLIST_HEAD 1 \<lparr>hfirst = \<lambda>_. 0, hnext = \<lambda>_. 0, hpprev = \<lambda>_. PNull\<rparr>)))
     = Inr h' \<and> hlist h' 1 [2]"
proof -
  let ?h = "hlist_add_head 2 1 (hlist_add_head 3 1 (INIT_HLIST_HEAD 1 \<lparr>hfirst = \<lambda>_. 0, hnext = \<lambda>_. 0, hpprev = \<lambda>_. PNull\<rparr>))"
  have "hlist ?h 1 ([2] @ 3 # [])"
    by (simp add: hlist_def hlist_add_head_def hops Let_def)
  from hlist_operations [OF this, of 7 8] show ?thesis by auto
qed

end
