(* ===== verification/Getopt.thy ===== *)
theory Getopt
  imports Prelude
begin

section \<open>The option loop of the command line tools\<close>

text \<open>
  Every command of \<^verbatim>\<open>utils/\<close> reads its arguments with the loop
  \<^verbatim>\<open>while ((c = getopt(argc, argv, optstr)) != -1) switch (c)\<close>.  This theory models what the code
  uses of the C library's \<^verbatim>\<open>getopt\<close> in its default ordering (operands are moved behind the
  options; the environment variable \<^verbatim>\<open>POSIXLY_CORRECT\<close> is not set): \<open>getopt_scan\<close> gives the sequence
  of options the calls return, with the value of \<^verbatim>\<open>optarg\<close> (the empty string where it is null), and
  the operands that remain at \<^verbatim>\<open>argv[optind]\<close>.  An option that is unknown or lacks its argument
  comes back as \<^verbatim>\<open>'?'\<close>.  \<open>opt_loop\<close> is the loop: a handler may go on, reject the arguments or
  end the program.
\<close>

datatype opt_kind = Unknown_option | Flag | With_argument

fun opt_lookup :: "string \<Rightarrow> char \<Rightarrow> opt_kind" where
  "opt_lookup [] c = Unknown_option"
| "opt_lookup (d # ds) c =
     (if d = c then (if ds \<noteq> [] \<and> hd ds = CHR '':'' then With_argument else Flag) else opt_lookup ds c)"

definition option_kind :: "string \<Rightarrow> char \<Rightarrow> opt_kind" where
  "option_kind optstr c = (if c = CHR '':'' \<or> c = CHR '';'' then Unknown_option else opt_lookup optstr c)"

type_synonym option_value = "char \<times> string"

text \<open>One argument \<^verbatim>\<open>-abc\<close>: its options, and the option that still waits for its argument.\<close>

fun scan_cluster :: "string \<Rightarrow> string \<Rightarrow> option_value list \<times> char option" where
  "scan_cluster optstr [] = ([], None)"
| "scan_cluster optstr (c # cs) =
     (case option_kind optstr c of
        Unknown_option \<Rightarrow> (let (os, w) = scan_cluster optstr cs in ((CHR ''?'', []) # os, w))
      | Flag \<Rightarrow> (let (os, w) = scan_cluster optstr cs in ((c, []) # os, w))
      | With_argument \<Rightarrow> (if cs = [] then ([], Some c) else ([(c, cs)], None)))"

fun getopt_scan :: "string \<Rightarrow> string list \<Rightarrow> option_value list \<times> string list" where
  "getopt_scan optstr [] = ([], [])"
| "getopt_scan optstr (a # as) =
     (if a = ''--'' then ([], as)
      else if length a < 2 \<or> hd a \<noteq> CHR ''-''
      then (let (os, ops) = getopt_scan optstr as in (os, a # ops))
      else (case scan_cluster optstr (tl a) of
              (os, None) \<Rightarrow> (let (os', ops) = getopt_scan optstr as in (os @ os', ops))
            | (os, Some c) \<Rightarrow>
                (case as of
                   [] \<Rightarrow> (os @ [(CHR ''?'', [])], [])
                 | b # bs \<Rightarrow> (let (os', ops) = getopt_scan optstr bs in (os @ (c, b) # os', ops)))))"

datatype 's parse = Proceed 's | Reject 's | Exit_program | Crash fault

fun parse_then :: "'s parse \<Rightarrow> ('s \<Rightarrow> 's parse) \<Rightarrow> 's parse" where
  "parse_then (Proceed s) k = k s"
| "parse_then (Reject s) k = Reject s"
| "parse_then Exit_program k = Exit_program"
| "parse_then (Crash e) k = Crash e"

fun opt_loop :: "(char \<Rightarrow> string \<Rightarrow> 's \<Rightarrow> 's parse) \<Rightarrow> option_value list \<Rightarrow> 's \<Rightarrow> 's parse" where
  "opt_loop handle [] s = Proceed s"
| "opt_loop handle ((c, optarg) # os) s = parse_then (handle c optarg s) (opt_loop handle os)"

lemma parse_then_Proceed: "parse_then m k = Proceed t \<longleftrightarrow> (\<exists>s. m = Proceed s \<and> k s = Proceed t)"
  by (cases m) auto

lemma parse_then_assoc: "parse_then (parse_then m k) l = parse_then m (\<lambda>s. parse_then (k s) l)"
  by (cases m) auto

subsection \<open>Options written out and read back\<close>

text \<open>The conventional way to write an option: the letter, and its argument as a word of its own.\<close>

definition write_option :: "string \<Rightarrow> option_value \<Rightarrow> string list" where
  "write_option optstr ov =
     (if option_kind optstr (fst ov) = With_argument then [[CHR ''-'', fst ov], snd ov] else [[CHR ''-'', fst ov]])"

definition proper_option :: "string \<Rightarrow> option_value \<Rightarrow> bool" where
  "proper_option optstr ov \<longleftrightarrow>
     fst ov \<noteq> CHR ''-'' \<and> option_kind optstr (fst ov) \<noteq> Unknown_option
     \<and> (option_kind optstr (fst ov) = Flag \<longrightarrow> snd ov = [])"

definition operand :: "string \<Rightarrow> bool" where
  "operand a \<longleftrightarrow> length a < 2 \<or> hd a \<noteq> CHR ''-''"

lemma getopt_scan_option:
  "proper_option optstr ov \<Longrightarrow>
     getopt_scan optstr (write_option optstr ov @ as)
       = (ov # fst (getopt_scan optstr as), snd (getopt_scan optstr as))"
  by (cases ov) (auto simp: proper_option_def write_option_def case_prod_beta split: opt_kind.splits)

lemma getopt_scan_options:
  "list_all (proper_option optstr) os \<Longrightarrow>
     getopt_scan optstr (concat (map (write_option optstr) os) @ as)
       = (os @ fst (getopt_scan optstr as), snd (getopt_scan optstr as))"
  by (induction os) (simp_all add: getopt_scan_option)

lemma getopt_scan_operands: "list_all operand as \<Longrightarrow> getopt_scan optstr as = ([], as)"
  by (induction as) (auto simp: operand_def)

text \<open>Operands may stand anywhere between the options: the result is the same.\<close>

lemma getopt_scan_permutes:
  "operand a \<Longrightarrow> getopt_scan optstr (a # as) = (fst (getopt_scan optstr as), a # snd (getopt_scan optstr as))"
  by (auto simp: operand_def case_prod_beta)

lemma opt_loop_append:
  "opt_loop handle (os @ os') s = parse_then (opt_loop handle os s) (opt_loop handle os')"
proof (induction os arbitrary: s)
  case (Cons ov os)
  then show ?case by (cases ov; cases "handle (fst ov) (snd ov) s") auto
qed simp

text \<open>What every handler keeps, the loop keeps, also when it stops early.\<close>

lemma opt_loop_invariant:
  assumes "P s"
    and "\<And>c a s s'. P s \<Longrightarrow> handle c a s = Proceed s' \<or> handle c a s = Reject s' \<Longrightarrow> P s'"
    and "opt_loop handle os s = Proceed s' \<or> opt_loop handle os s = Reject s'"
  shows "P s'"
  using assms(1,3)
proof (induction os arbitrary: s)
  case (Cons ov os)
  obtain c a where ov: "ov = (c, a)" by fastforce
  show ?case
  proof (cases "handle c a s")
    case (Proceed t)
    then show ?thesis using Cons ov assms(2) [OF Cons.prems(1)] by auto
  qed (use Cons.prems ov assms(2) in auto)
qed simp

end
