(* ===== verification/Instrument.thy ===== *)
theory Instrument
  imports Getopt
begin

section \<open>The instrumentation library and the host as parameters\<close>

text \<open>
  The commands of \<^verbatim>\<open>utils/\<close> drive the DyninstAPI library.  Its calls are parameters of the model.
  What a program consists of is an \<open>image\<close>, a record of the answers of the query methods; handles of
  objects, modules, functions, points and symbols are numbers, a null pointer is \<open>None\<close>.  A method
  that changes the target (loading a library, inserting a snippet, wrapping a function, letting the
  process run) is a \<open>bcall\<close>; the world records the sequence of these calls, and the parameter
  \<open>answer\<close> gives the result of a call from the calls made before it, zero standing for a null pointer
  or \<^verbatim>\<open>false\<close>.  The image, too, is a function of the calls made before: loading a library adds its
  object.  The files, the directories and the child processes are those of the host.
\<close>

type_synonym obj = nat
type_synonym modl = nat
type_synonym func = nat
type_synonym point = nat
type_synonym symbol = nat

text \<open>An argument of an inserted call: a string, a number, or an indeterminate number.\<close>

datatype const_expr = Const_string string | Const_uint u32 | Const_indeterminate

datatype call_when = BPatch_callBefore | BPatch_callAfter

datatype bcall =
    Process_create string "string list option"
  | Process_attach int
  | Open_binary string
  | Load_library string
  | Insert_snippet func "const_expr list" "point list" call_when
  | Insert_init_callback modl func "const_expr list"
  | Insert_fini_callback modl func "const_expr list"
  | One_time_code func "const_expr list"
  | Write_variable modl string u32
  | Wrap_dyn_function func func symbol "obj list"
  | Wrap_function func func symbol
  | Replace_function_call point func
  | Remove_instrumentation func
  | Continue_execution
  | Wait_for_status_change
  | Stop_execution
  | Detach bool
  | Write_file string

record image =
  img_objects :: "obj list"
  img_modules :: "modl list"
  img_find_function :: "string \<Rightarrow> func list"
  img_pthread_fields :: "(string \<times> u32) list option option"
  path_name :: "obj \<Rightarrow> string"
  obj_name :: "obj \<Rightarrow> string"
  is_system_lib :: "obj \<Rightarrow> bool"
  obj_find_function :: "obj \<Rightarrow> string \<Rightarrow> func list"
  obj_modules :: "obj \<Rightarrow> modl list"
  mod_object :: "modl \<Rightarrow> obj"
  mod_procedures :: "modl \<Rightarrow> func list"
  mod_has_variable :: "modl \<Rightarrow> string \<Rightarrow> bool"
  binary_procedures :: "nat \<Rightarrow> func list option"
  func_name :: "func \<Rightarrow> string"
  func_module :: "func \<Rightarrow> modl"
  func_nparams :: "func \<Rightarrow> nat"
  func_returns :: "func \<Rightarrow> bool"
  entry_points :: "func \<Rightarrow> point list option"
  exit_points :: "func \<Rightarrow> point list option"
  caller_points :: "func \<Rightarrow> point list"
  call_points :: "func \<Rightarrow> point list"
  called_function :: "point \<Rightarrow> func option"
  from_symtab :: "func \<Rightarrow> bool"
  find_symbol :: "func \<Rightarrow> string \<Rightarrow> symbol option"

record host =
  answer :: "bcall list \<Rightarrow> bcall \<Rightarrow> nat"
  image_at :: "bcall list \<Rightarrow> image"
  is_terminated :: "bcall list \<Rightarrow> bool"
  is_stopped :: "bcall list \<Rightarrow> bool"
  can_execute :: "string \<Rightarrow> bool"
  can_open_write :: "string \<Rightarrow> bool"
  can_mkdir :: "string \<Rightarrow> bool"
  can_alloc :: "nat \<Rightarrow> bool"
  file_stat :: "string \<Rightarrow> int + int \<times> nat"
  shell :: "string \<Rightarrow> int"

record world =
  fs :: "string \<rightharpoonup> string"
  dirs :: "string \<Rightarrow> bool"
  skiplist :: "string list"
  printed :: string
  calls :: "bcall list"

definition path_exists :: "world \<Rightarrow> string \<Rightarrow> bool" where
  "path_exists w p \<longleftrightarrow> fs w p \<noteq> None \<or> dirs w p"

definition perform :: "host \<Rightarrow> bcall \<Rightarrow> world \<Rightarrow> nat \<times> world" where
  "perform H c w = (answer H (calls w) c, w\<lparr>calls := calls w @ [c]\<rparr>)"

abbreviation the_image :: "host \<Rightarrow> world \<Rightarrow> image" where
  "the_image H w \<equiv> image_at H (calls w)"

text \<open>\<^verbatim>\<open>fopen(path, "w")\<close> truncates, \<^verbatim>\<open>fprintf\<close> appends.\<close>

definition open_write :: "host \<Rightarrow> string \<Rightarrow> world \<Rightarrow> bool \<times> world" where
  "open_write H p w = (if can_open_write H p then (True, w\<lparr>fs := (fs w)(p \<mapsto> [])\<rparr>) else (False, w))"

definition append_file :: "string \<Rightarrow> string \<Rightarrow> world \<Rightarrow> world" where
  "append_file p t w = w\<lparr>fs := (fs w)(p := map_option (\<lambda>old. old @ t) (fs w p))\<rparr>"

lemma perform_simps [simp]:
  "fst (perform H c w) = answer H (calls w) c" "calls (snd (perform H c w)) = calls w @ [c]"
  "fs (snd (perform H c w)) = fs w" "dirs (snd (perform H c w)) = dirs w"
  "skiplist (snd (perform H c w)) = skiplist w"
  by (simp_all add: perform_def)

lemma file_ops_calls [simp]:
  "calls (append_file p t w) = calls w" "calls (snd (open_write H p w)) = calls w"
  "skiplist (append_file p t w) = skiplist w" "skiplist (snd (open_write H p w)) = skiplist w"
  "dirs (append_file p t w) = dirs w" "dirs (snd (open_write H p w)) = dirs w"
  by (simp_all add: append_file_def open_write_def)

lemma append_file_fs [simp]:
  "fs w p = Some old \<Longrightarrow> fs (append_file p t w) p = Some (old @ t)"
  "q \<noteq> p \<Longrightarrow> fs (append_file p t w) q = fs w q"
  by (simp_all add: append_file_def)

subsection \<open>Calls are only ever added\<close>

text \<open>A world reached from another one: its call sequence extends the other's.  \<open>prepares\<close> says that
  the calls in between only read or change the target's code: none of them lets it run, writes it
  out or lets go of it.\<close>

definition later :: "world \<Rightarrow> world \<Rightarrow> bool" where
  "later w w' \<longleftrightarrow> (\<exists>cs. calls w' = calls w @ cs)"

definition instrumenting :: "bcall \<Rightarrow> bool" where
  "instrumenting c \<longleftrightarrow>
     (case c of Continue_execution \<Rightarrow> False | Wait_for_status_change \<Rightarrow> False | Stop_execution \<Rightarrow> False
      | Detach b \<Rightarrow> False | Write_file f \<Rightarrow> False | _ \<Rightarrow> True)"

definition prepares :: "world \<Rightarrow> world \<Rightarrow> bool" where
  "prepares w w' \<longleftrightarrow> (\<exists>cs. calls w' = calls w @ cs \<and> list_all instrumenting cs)"

lemma later_refl [simp, intro]: "later w w"
  by (simp add: later_def)

lemma later_trans [trans]: "later w w' \<Longrightarrow> later w' w'' \<Longrightarrow> later w w''"
  by (auto simp: later_def)

lemma later_perform [simp, intro]: "later w (snd (perform H c w))"
  by (simp add: later_def)

lemma prepares_refl [simp, intro]: "prepares w w"
  by (simp add: prepares_def)

lemma prepares_trans [trans]: "prepares w w' \<Longrightarrow> prepares w' w'' \<Longrightarrow> prepares w w''"
  by (fastforce simp: prepares_def)

lemma prepares_perform: "instrumenting c \<Longrightarrow> prepares w (snd (perform H c w))"
  by (simp add: prepares_def)

lemma instrumenting_simps [simp]:
  "instrumenting (Process_create b a)" "instrumenting (Process_attach p)" "instrumenting (Open_binary b)"
  "instrumenting (Load_library l)" "instrumenting (Insert_snippet f as ps wh)" "instrumenting (Insert_init_callback m f as)"
  "instrumenting (Insert_fini_callback m f as)" "instrumenting (One_time_code f as)" "instrumenting (Write_variable m v k)"
  "instrumenting (Wrap_dyn_function f g sy obs)" "instrumenting (Wrap_function f g sy)" "instrumenting (Replace_function_call q f)"
  "\<not> instrumenting Continue_execution" "\<not> instrumenting Wait_for_status_change" "\<not> instrumenting (Write_file out)"
  by (simp_all add: instrumenting_def)

lemma prepares_step: "instrumenting c \<Longrightarrow> prepares (snd (perform H c w)) w' \<Longrightarrow> prepares w w'"
  using prepares_perform prepares_trans by blast

lemma prepares_later: "prepares w w' \<Longrightarrow> later w w'"
  by (auto simp: prepares_def later_def)

lemma prepares_same_calls: "calls w' = calls w \<Longrightarrow> prepares w w'"
  by (simp add: prepares_def)

subsection \<open>The string operations of the C++ library\<close>

definition find_from :: "char \<Rightarrow> nat \<Rightarrow> string \<Rightarrow> nat option" where
  "find_from c k s = List.find (\<lambda>i. s ! i = c) [k..<length s]"

definition find_last_of :: "char \<Rightarrow> string \<Rightarrow> nat option" where
  "find_last_of c s = List.find (\<lambda>i. s ! i = c) (rev [0..<length s])"

text \<open>\<^verbatim>\<open>s.compare(0, strlen(p), p) == 0\<close>, and \<^verbatim>\<open>s.find(p) != npos\<close>.\<close>

definition starts_with :: "string \<Rightarrow> string \<Rightarrow> bool" where
  "starts_with s p \<longleftrightarrow> take (length p) s = p"

definition contains_str :: "string \<Rightarrow> string \<Rightarrow> bool" where
  "contains_str s p \<longleftrightarrow> list_ex (\<lambda>i. take (length p) (drop i s) = p) [0..<Suc (length s)]"

definition base_name :: "string \<Rightarrow> string" where
  "base_name p = (case find_last_of (CHR ''/'') p of None \<Rightarrow> p | Some i \<Rightarrow> drop (Suc i) p)"

lemma find_upt_Some:
  "List.find P [k..<n] = Some i \<longleftrightarrow> k \<le> i \<and> i < n \<and> P i \<and> (\<forall>j. k \<le> j \<and> j < i \<longrightarrow> \<not> P j)"
proof (induction "n - k" arbitrary: k)
  case (Suc d)
  then have "[k..<n] = k # [Suc k..<n]" by (simp add: upt_rec)
  moreover have "d = n - Suc k" "k < n" using Suc.hyps(2) by simp_all
  ultimately show ?case
    using Suc.hyps(1) [of "Suc k"] by (auto simp: le_less_Suc_eq Suc_le_eq dest: le_neq_implies_less)
qed (auto simp: find_None_iff)

lemma find_from_Some:
  "find_from c k s = Some i \<longleftrightarrow> k \<le> i \<and> i < length s \<and> s ! i = c \<and> (\<forall>j. k \<le> j \<and> j < i \<longrightarrow> s ! j \<noteq> c)"
  by (simp add: find_from_def find_upt_Some)

lemma map_nth_upt: "map ((!) s) [k..<length s] = drop k s"
  by (intro nth_equalityI) auto

lemma find_from_None: "find_from c k s = None \<longleftrightarrow> c \<notin> set (drop k s)"
  by (auto simp: find_from_def find_None_iff simp flip: map_nth_upt)

lemma find_from_exists: "k \<le> i \<Longrightarrow> i < length s \<Longrightarrow> s ! i = c \<Longrightarrow> \<exists>p. find_from c k s = Some p"
  by (cases "find_from c k s") (auto simp: find_from_def find_None_iff)

lemma find_from_cut:
  assumes "find_from c k s = Some i"
  shows "take (i - k) (drop k s) = takeWhile (\<lambda>x. x \<noteq> c) (drop k s)"
proof -
  have "i - k < length (drop k s)" "drop k s ! (i - k) = c" "\<forall>j < i - k. drop k s ! j \<noteq> c"
    using assms by (auto simp: find_from_Some)
  then show ?thesis by (intro takeWhile_eq_take_P_nth [symmetric]) auto
qed

lemma contains_str_iff: "contains_str s p \<longleftrightarrow> (\<exists>a b. s = a @ p @ b)"
proof
  assume "contains_str s p"
  then obtain i where "take (length p) (drop i s) = p" by (auto simp: contains_str_def list_ex_iff)
  then have "s = take i s @ p @ drop (length p) (drop i s)" by (metis append_take_drop_id)
  then show "\<exists>a b. s = a @ p @ b" by blast
next
  assume "\<exists>a b. s = a @ p @ b"
  then obtain a b where "s = a @ p @ b" by blast
  then show "contains_str s p" by (auto simp: contains_str_def list_ex_iff intro!: bexI [of _ "length a"])
qed

lemma base_name_plain: "CHR ''/'' \<notin> set f \<Longrightarrow> base_name f = f"
proof -
  assume "CHR ''/'' \<notin> set f"
  then have "find_last_of (CHR ''/'') f = None" by (auto simp: find_last_of_def find_None_iff dest: nth_mem)
  then show ?thesis by (simp add: base_name_def)
qed

lemma find_rev_upt_Some:
  "List.find P (rev [0..<n]) = Some i \<longleftrightarrow> i < n \<and> P i \<and> (\<forall>j. i < j \<and> j < n \<longrightarrow> \<not> P j)"
  by (induction n) (auto simp: less_Suc_eq)

lemma base_name_path: "CHR ''/'' \<notin> set f \<Longrightarrow> base_name (d @ CHR ''/'' # f) = f"
proof -
  assume f: "CHR ''/'' \<notin> set f"
  have "(d @ CHR ''/'' # f) ! j \<noteq> CHR ''/''" if "length d < j" "j < length (d @ CHR ''/'' # f)" for j
  proof -
    have "j - Suc (length d) < length f" using that by auto
    then have "f ! (j - Suc (length d)) \<noteq> CHR ''/''" using f by (metis nth_mem)
    then show ?thesis using that by (simp add: nth_append nth_Cons')
  qed
  then have "find_last_of (CHR ''/'') (d @ CHR ''/'' # f) = Some (length d)"
    by (simp add: find_last_of_def find_rev_upt_Some del: upt_Suc)
  then show ?thesis by (simp add: base_name_def)
qed

subsection \<open>A small program to instrument\<close>

text \<open>An image with the program \<^verbatim>\<open>/opt/app\<close> (object 1) that has the functions \<^verbatim>\<open>main\<close>, \<^verbatim>\<open>run\<close>,
  \<^verbatim>\<open>_init\<close> and \<^verbatim>\<open>_fini\<close>, a system library (object 2) and the probe library (object 3, function 7), and a
  host on which every call succeeds and the process ends after two status changes; the witnesses
  run the model on it.\<close>

definition small_image :: image where
  "small_image =
     \<lparr>img_objects = [1, 2], img_modules = [1],
      img_find_function = (\<lambda>p. if p = ''^main'' then [1] else if p = ''^_init'' then [3] else if p = ''^_fini'' then [4] else []),
      img_pthread_fields = None,
      path_name = (\<lambda>ob. if ob = 1 then ''/opt/app'' else if ob = 2 then ''/lib64/libc.so'' else ''/opt/libprobe.so''),
      obj_name = (\<lambda>ob. if ob = 1 then ''app'' else if ob = 2 then ''libc.so'' else ''libprobe.so''),
      is_system_lib = (\<lambda>ob. ob = 2),
      obj_find_function = (\<lambda>ob p. if ob = 3 then [7] else if p = ''(.*)'' then [1, 2] else if p = ''main'' then [1] else if p = ''run'' then [2] else []),
      obj_modules = (\<lambda>ob. [ob]), mod_object = (\<lambda>m. m), mod_procedures = (\<lambda>m. if m = 1 then [1, 2, 3, 4] else []),
      mod_has_variable = (\<lambda>m v. m = 3), binary_procedures = (\<lambda>b. Some [1, 2, 3, 4]),
      func_name = (\<lambda>f. if f = 1 then ''main'' else if f = 2 then ''run'' else if f = 3 then ''_init'' else ''_fini''),
      func_module = (\<lambda>f. if f = 7 then 3 else 1), func_nparams = (\<lambda>f. 2), func_returns = (\<lambda>f. f = 1),
      entry_points = (\<lambda>f. Some [10 * f]), exit_points = (\<lambda>f. Some [10 * f + 1, 10 * f + 2]),
      caller_points = (\<lambda>f. []), call_points = (\<lambda>f. []), called_function = (\<lambda>_. None),
      from_symtab = (\<lambda>_. True), find_symbol = (\<lambda>_ _. Some 9)\<rparr>"

definition small_answer :: "bcall list \<Rightarrow> bcall \<Rightarrow> nat" where
  "small_answer cs c = (case c of Load_library l \<Rightarrow> 3 | One_time_code f as \<Rightarrow> 0 | _ \<Rightarrow> 1)"

definition small_host :: host where
  "small_host =
     \<lparr>answer = small_answer, image_at = (\<lambda>_. small_image),
      is_terminated = (\<lambda>cs. 2 \<le> length (filter (\<lambda>c. c = Wait_for_status_change) cs)), is_stopped = (\<lambda>_. True),
      can_execute = (\<lambda>_. True), can_open_write = (\<lambda>_. True), can_mkdir = (\<lambda>_. True), can_alloc = (\<lambda>_. True),
      file_stat = (\<lambda>p. Inr (if p = ''/opt/app'' then 1 else 2, 14)), shell = (\<lambda>_. 0)\<rparr>"

definition small_world :: world where
  "small_world = \<lparr>fs = [''/opt/app'' \<mapsto> ''ELF''], dirs = (\<lambda>p. p = ''/home''), skiplist = [], printed = [], calls = []\<rparr>"

lemma small_host_simps:
  "answer small_host = small_answer" "image_at small_host cs = small_image"
  "is_terminated small_host cs = (2 \<le> length (filter (\<lambda>c. c = Wait_for_status_change) cs))"
  "is_stopped small_host cs = True" "can_execute small_host p = True" "can_alloc small_host n = True"
  by (simp_all add: small_host_def)

lemmas small_defs = small_image_def small_answer_def small_host_def small_world_def

end
