(* ===== verification/Funcmap.thy ===== *)
theory Funcmap
  imports Instrument
begin

section \<open>utils/funcmap.[ch] and utils/funcmaptest.cc: the map from function names to numbers\<close>

text \<open>
  A function map numbers the functions of an ELF file, either from the file itself through the
  instrumentation library or from a cache file with one name per line; in wrapping mode it also
  writes and compiles a C file with a wrapper per function.  The class is the record \<open>func_map\<close>: the
  vector \<open>funcs\<close>, the map \<open>func_indices\<close> of names to 32-bit numbers, the path of the open wrapper
  file.  The static set \<^verbatim>\<open>skiplist\<close> and the files are parts of the world.  Output is written
  through at once: the buffering of \<^verbatim>\<open>FILE\<close> is not modelled.  Methods return \<^verbatim>\<open>false\<close> as in the code,
  and a fault where the code would index outside an array.
\<close>

abbreviation (input) FUNC_NAME_MAX :: nat where "FUNC_NAME_MAX \<equiv> 256"

abbreviation (input) newline :: char where "newline \<equiv> CHR 0x0A"
abbreviation (input) tab :: char where "tab \<equiv> CHR 0x09"
abbreviation (input) nul :: char where "nul \<equiv> CHR 0x00"
abbreviation (input) quote :: char where "quote \<equiv> CHR 0x22"
abbreviation (input) backslash :: char where "backslash \<equiv> CHR 0x5C"

definition FUNCMAP_DIR :: string where
  "FUNCMAP_DIR = ''/home/jiaru/lprofile/lprofile_cache/funcmap/''"

definition FUNCMAP_PREFIX :: string where
  "FUNCMAP_PREFIX = ''LPROFILE_WRAP_''"

datatype cache_state =
  FUNCMAP_STATE_CACHED | FUNCMAP_STATE_UPDATE | FUNCMAP_STATE_ENOELF | FUNCMAP_STATE_ECACHE

abbreviation (input) FUNCMAP_SYMBOL_HOOK :: nat where "FUNCMAP_SYMBOL_HOOK \<equiv> 0"
abbreviation (input) FUNCMAP_SYMBOL_WRAP :: nat where "FUNCMAP_SYMBOL_WRAP \<equiv> 1"
abbreviation (input) FUNCMAP_FILE_SRC :: nat where "FUNCMAP_FILE_SRC \<equiv> 0"
abbreviation (input) FUNCMAP_FILE_LIB :: nat where "FUNCMAP_FILE_LIB \<equiv> 1"

record func_map =
  elf_name :: string
  elf_path :: string
  fm_obj :: "obj option"
  funcs :: "string list"
  func_indices :: "string \<rightharpoonup> u32"
  wrapper :: "string option"
  is_wrap :: bool

subsection \<open>Construction\<close>

definition initSkipList :: "world \<Rightarrow> world" where
  "initSkipList w =
     (if 0 < length (skiplist w) then w
      else w\<lparr>skiplist := [''_init'', ''_fini'', ''__popcountdi2'', ''__do_global_dtors_aux'']\<rparr>)"

definition FuncMap_named :: "string \<Rightarrow> string \<Rightarrow> bool \<Rightarrow> world \<Rightarrow> func_map \<times> world" where
  "FuncMap_named name path wrap w =
     (\<lparr>elf_name = name, elf_path = path, fm_obj = None, funcs = [], func_indices = Map.empty,
       wrapper = None, is_wrap = wrap\<rparr>, if skiplist w = [] then initSkipList w else w)"

definition FuncMap_path :: "string \<Rightarrow> bool \<Rightarrow> func_map" where
  "FuncMap_path path wrap =
     \<lparr>elf_name = base_name path, elf_path = path, fm_obj = None, funcs = [], func_indices = Map.empty,
      wrapper = None, is_wrap = wrap\<rparr>"

definition FuncMap_object :: "host \<Rightarrow> obj \<Rightarrow> bool \<Rightarrow> world \<Rightarrow> func_map \<times> world" where
  "FuncMap_object H target wrap w =
     (\<lparr>elf_name = obj_name (the_image H w) target, elf_path = path_name (the_image H w) target,
       fm_obj = Some target, funcs = [], func_indices = Map.empty, wrapper = None, is_wrap = wrap\<rparr>,
      if skiplist w = [] then initSkipList w else w)"

definition FuncMap_destroy :: "func_map \<Rightarrow> func_map" where
  "FuncMap_destroy fm = (if wrapper fm \<noteq> None then fm\<lparr>wrapper := None\<rparr> else fm)"

definition cache_file :: "func_map \<Rightarrow> string" where
  "cache_file fm = FUNCMAP_DIR @ elf_name fm"

abbreviation (input) ENOENT :: int where "ENOENT \<equiv> 2"

definition checkState :: "host \<Rightarrow> func_map \<Rightarrow> cache_state" where
  "checkState H fm =
     (case file_stat H (elf_path fm) of
        Inl e \<Rightarrow> FUNCMAP_STATE_ENOELF
      | Inr (last_update, _) \<Rightarrow>
          (case file_stat H (cache_file fm) of
             Inl e \<Rightarrow> (if e = ENOENT then FUNCMAP_STATE_UPDATE else FUNCMAP_STATE_ECACHE)
           | Inr (cached, sz) \<Rightarrow>
               if cached < last_update then FUNCMAP_STATE_UPDATE
               else if sz = 0 then FUNCMAP_STATE_UPDATE
               else FUNCMAP_STATE_CACHED))"

subsection \<open>Numbering\<close>

definition addFunction :: "string list \<Rightarrow> string \<Rightarrow> func_map \<Rightarrow> u32 \<times> func_map" where
  "addFunction skips f fm =
     (if func_indices fm f \<noteq> None then (UINT_MAX, fm)
      else if f \<in> set skips then (UINT_MAX, fm)
      else let index = of_nat (length (funcs fm))
           in (index, fm\<lparr>funcs := funcs fm @ [f], func_indices := (func_indices fm)(f \<mapsto> index)\<rparr>))"

definition getFunctionID :: "string \<Rightarrow> func_map \<Rightarrow> u32" where
  "getFunctionID f fm = (case func_indices fm f of None \<Rightarrow> UINT_MAX | Some i \<Rightarrow> i)"

subsection \<open>The wrapper source\<close>

definition FUNC_PRE :: string where "FUNC_PRE = ''lprobe_func_entry''"
definition FUNC_POST :: string where "FUNC_POST = ''lprobe_func_exit''"

definition getWrapFilePath :: "string \<Rightarrow> nat \<Rightarrow> string" where
  "getWrapFilePath elf typ =
     FUNCMAP_DIR @ FUNCMAP_PREFIX @ elf @ (if typ = FUNCMAP_FILE_SRC then ''.c'' else ''.so'')"

definition getWrapSymbolName :: "u32 \<Rightarrow> nat \<Rightarrow> string" where
  "getWrapSymbolName index typ =
     (if typ = FUNCMAP_SYMBOL_HOOK then ''LPROFILE_HOOK_func'' @ decimal (unat index)
      else if typ = FUNCMAP_SYMBOL_WRAP then ''LPROFILE_WRAP_func'' @ decimal (unat index)
      else [])"

definition wrap_param :: "bool \<Rightarrow> nat \<Rightarrow> string" where
  "wrap_param is_proto i =
     (if 0 < i then '', '' else []) @ (if is_proto then ''void *p'' else ''p'') @ decimal i"

definition generateWrapParam :: "bool \<Rightarrow> nat \<Rightarrow> string" where
  "generateWrapParam is_proto nb_params = ''('' @ concat (map (wrap_param is_proto) [0..<nb_params]) @ '')''"

definition generateWrapDef :: "u32 \<Rightarrow> nat \<Rightarrow> bool \<Rightarrow> nat \<Rightarrow> bool \<Rightarrow> string" where
  "generateWrapDef index typ is_proto nb_params has_ret =
     (if is_proto then (if has_ret then ''void *'' else ''void '') else [])
       @ getWrapSymbolName index typ @ generateWrapParam is_proto nb_params"

definition wrapper_prologue :: string where
  "wrapper_prologue =
     ''#include <stdio.h>'' @ [newline]
       @ ''void '' @ FUNC_PRE @ ''(unsigned int);'' @ [newline]
       @ ''void '' @ FUNC_POST @ ''(unsigned int);'' @ [newline]"

definition wrapper_text :: "string \<Rightarrow> nat \<Rightarrow> bool \<Rightarrow> u32 \<Rightarrow> string" where
  "wrapper_text name nparams has_ret index =
     generateWrapDef index FUNCMAP_SYMBOL_HOOK True nparams has_ret @ '';'' @ [newline]
       @ generateWrapDef index FUNCMAP_SYMBOL_WRAP True nparams has_ret @ '' {'' @ [newline]
       @ (if has_ret then [tab] @ ''void *ret;'' @ [newline] else [])
       @ [tab] @ FUNC_PRE @ ''('' @ decimal (unat index) @ '');'' @ [newline]
       @ (if has_ret then [tab] @ ''ret = 0;'' @ [newline] else [])
       @ [tab] @ ''fprintf(stdout, '' @ [quote] @ ''wrap func'' @ decimal (unat index) @ '' :'' @ name
       @ [backslash] @ ''n'' @ [quote] @ '');'' @ [newline]
       @ [tab] @ FUNC_POST @ ''('' @ decimal (unat index) @ '');'' @ [newline]
       @ (if has_ret then [tab] @ ''return ret;'' @ [newline] else [])
       @ ''}'' @ [newline]"

definition generateWrapper :: "host \<Rightarrow> func \<Rightarrow> u32 \<Rightarrow> func_map \<Rightarrow> world \<Rightarrow> bool \<times> func_map \<times> world" where
  "generateWrapper H f index fm w =
     (let wrap_file = getWrapFilePath (elf_name fm) FUNCMAP_FILE_SRC;
          (ok, fm1, w1) =
            (case wrapper fm of
               Some _ \<Rightarrow> (True, fm, w)
             | None \<Rightarrow>
                 let (opened, w') = open_write H wrap_file w
                 in if \<not> opened then (False, fm, w')
                    else (True, fm\<lparr>wrapper := Some wrap_file\<rparr>, append_file wrap_file wrapper_prologue w'))
      in if \<not> ok then (False, fm1, w1)
         else let img = the_image H w1
              in (True, fm1,
                  append_file (the (wrapper fm1))
                    (wrapper_text (func_name img f) (func_nparams img f) (func_returns img f) index) w1))"

definition compileWrapper :: "host \<Rightarrow> func_map \<Rightarrow> bool \<times> func_map" where
  "compileWrapper H fm =
     (case wrapper fm of
        None \<Rightarrow> (True, fm)
      | Some _ \<Rightarrow>
          let srcfile = getWrapFilePath (elf_name fm) FUNCMAP_FILE_SRC;
              libfile = getWrapFilePath (elf_name fm) FUNCMAP_FILE_LIB;
              cmd = ''gcc -g -o '' @ libfile @ '' -shared -fPIC '' @ srcfile @ '' -lprobe''
          in (shell H cmd = 0, fm\<lparr>wrapper := None\<rparr>))"

subsection \<open>The cache file\<close>

text \<open>\<^verbatim>\<open>fgets\<close> into a buffer of \<open>Suc n\<close> bytes: up to \<open>n\<close> characters, through the first newline.\<close>

fun fgets :: "nat \<Rightarrow> string \<Rightarrow> string \<times> string" where
  "fgets 0 s = ([], s)"
| "fgets (Suc n) [] = ([], [])"
| "fgets (Suc n) (c # cs) = (if c = newline then ([c], cs) else let (l, r) = fgets n cs in (c # l, r))"

lemma fgets_consumes: "length (snd (fgets n s)) + length (fst (fgets n s)) = length s"
  by (induction n s rule: fgets.induct) (auto simp: case_prod_beta)

lemma fgets_progress: "s \<noteq> [] \<Longrightarrow> length (snd (fgets (Suc n) s)) < length s"
  using fgets_consumes [of n "tl s"] by (cases s) (auto simp: case_prod_beta)

lemma fgets_shorter: "(line, rest) = fgets 255 s \<Longrightarrow> s \<noteq> [] \<Longrightarrow> length rest < length s"
  using fgets_progress [of s 254] by (simp add: numeral_eq_Suc) (metis snd_conv)

definition chop_newline :: "string \<Rightarrow> fault + string" where
  "chop_newline buf =
     (let str = takeWhile (\<lambda>c. c \<noteq> nul) buf
      in if str = [] then Inl Out_of_bounds
         else if last str = newline then Inr (butlast str) else Inr str)"

function read_names :: "string list \<Rightarrow> string \<Rightarrow> func_map \<Rightarrow> fault + func_map" where
  "read_names skips file fm =
     (if file = [] then Inr fm
      else let (line, rest) = fgets (FUNC_NAME_MAX - 1) file
           in and_then (chop_newline line) (\<lambda>f. read_names skips rest (snd (addFunction skips f fm))))"
  by auto
termination
  by (relation "measure (\<lambda>(_, file, _). length file)") (auto dest: fgets_shorter)

declare read_names.simps [simp del]

definition loadFromCache :: "func_map \<Rightarrow> world \<Rightarrow> fault + bool \<times> func_map" where
  "loadFromCache fm w =
     (case fs w (cache_file fm) of
        None \<Rightarrow> Inr (False, fm)
      | Some file \<Rightarrow> and_then (read_names (skiplist w) file fm) (\<lambda>fm'. Inr (True, fm')))"

function build_dirs :: "host \<Rightarrow> string \<Rightarrow> nat \<Rightarrow> world \<Rightarrow> bool \<times> world" where
  "build_dirs H path pos w =
     (case find_from (CHR ''/'') pos path of
        None \<Rightarrow> (True, w)
      | Some p \<Rightarrow>
          if p = 0 then build_dirs H path (Suc p) w
          else let subpath = take p path
               in if path_exists w subpath then build_dirs H path (Suc p) w
                  else if can_mkdir H subpath
                  then build_dirs H path (Suc p) (w\<lparr>dirs := (dirs w)(subpath := True)\<rparr>)
                  else (False, w))"
  by auto
termination
  by (relation "measure (\<lambda>(_, path, pos, _). length path - pos)") (auto simp: find_from_Some)

declare build_dirs.simps [simp del]

definition buildDir :: "host \<Rightarrow> world \<Rightarrow> bool \<times> world" where
  "buildDir H w = build_dirs H FUNCMAP_DIR 0 w"

definition cache_text :: "string list \<Rightarrow> string" where
  "cache_text fns = concat (map (\<lambda>f. f @ [newline]) fns)"

definition updateCache :: "host \<Rightarrow> func_map \<Rightarrow> world \<Rightarrow> bool \<times> world" where
  "updateCache H fm w =
     (let (built, w1) = buildDir H w
      in if \<not> built then (False, w1)
         else let (opened, w2) = open_write H (cache_file fm) w1
              in if \<not> opened then (False, w2)
                 else (True, append_file (cache_file fm) (cache_text (funcs fm)) w2))"

subsection \<open>Loading\<close>

fun add_procedures :: "host \<Rightarrow> func list \<Rightarrow> func_map \<Rightarrow> world \<Rightarrow> bool \<times> func_map \<times> world" where
  "add_procedures H [] fm w = (True, fm, w)"
| "add_procedures H (f # fl) fm w =
     (let (func_idx, fm1) = addFunction (skiplist w) (func_name (the_image H w) f) fm
      in if is_wrap fm \<and> func_idx \<noteq> UINT_MAX
         then let (ok, fm2, w2) = generateWrapper H f func_idx fm1 w
              in if ok then add_procedures H fl fm2 w2 else (False, fm2, w2)
         else add_procedures H fl fm1 w)"

text \<open>The loop over the modules of an object: the inner loop runs \<open>j\<close> over the functions of module
  \<open>i\<close>, and reads the function at index \<open>i\<close> in each round.\<close>

fun add_modules :: "host \<Rightarrow> nat \<Rightarrow> modl list \<Rightarrow> func_map \<Rightarrow> world \<Rightarrow> fault + bool \<times> func_map \<times> world" where
  "add_modules H i [] fm w = Inr (True, fm, w)"
| "add_modules H i (m # ms) fm w =
     (let tmp_funcs = mod_procedures (the_image H w) m
      in if tmp_funcs = [] then add_modules H (Suc i) ms fm w
         else if length tmp_funcs \<le> i then Inl Out_of_bounds
         else let (ok, fm1, w1) = add_procedures H (map (\<lambda>j. tmp_funcs ! i) [0..<length tmp_funcs]) fm w
              in if ok then add_modules H (Suc i) ms fm1 w1 else Inr (False, fm1, w1))"

definition list_elf :: "host \<Rightarrow> func_map \<Rightarrow> world \<Rightarrow> fault + bool \<times> func_map \<times> world" where
  "list_elf H fm w =
     (case fm_obj fm of
        None \<Rightarrow>
          (let (binary, w1) = perform H (Open_binary (elf_path fm)) w
           in if binary = 0 then Inr (False, fm, w1)
              else (case binary_procedures (the_image H w1) binary of
                      None \<Rightarrow> Inr (False, fm, w1)
                    | Some funclist \<Rightarrow> Inr (add_procedures H funclist fm w1)))
      | Some ob \<Rightarrow> add_modules H 0 (obj_modules (the_image H w) ob) fm w)"

definition loadFromELF :: "host \<Rightarrow> func_map \<Rightarrow> world \<Rightarrow> fault + bool \<times> func_map \<times> world" where
  "loadFromELF H fm w =
     and_then (list_elf H fm w) (\<lambda>(ok, fm1, w1).
       if \<not> ok then Inr (False, fm1, w1)
       else let (compiled, fm2) = (if is_wrap fm1 \<and> 0 < length (funcs fm1) then compileWrapper H fm1 else (True, fm1))
            in if \<not> compiled then Inr (False, fm2, w1)
               else let (updated, w2) = updateCache H fm2 w1 in Inr (updated, fm2, w2))"

definition load :: "host \<Rightarrow> bool \<Rightarrow> func_map \<Rightarrow> world \<Rightarrow> fault + bool \<times> func_map \<times> world" where
  "load H force_update fm w =
     (if force_update then loadFromELF H fm w
      else (case checkState H fm of
              FUNCMAP_STATE_CACHED \<Rightarrow> and_then (loadFromCache fm w) (\<lambda>(ok, fm'). Inr (ok, fm', w))
            | FUNCMAP_STATE_UPDATE \<Rightarrow> loadFromELF H fm w
            | _ \<Rightarrow> Inr (False, fm, w)))"

subsection \<open>The funcmap command\<close>

record funcmap_test =
  ft_elf_path :: string
  force_update :: bool
  funcmap :: "func_map option"

definition FuncMapTest_new :: funcmap_test where
  "FuncMapTest_new = \<lparr>ft_elf_path = [], force_update = False, funcmap = None\<rparr>"

definition FuncMapTest_option :: "world \<Rightarrow> char \<Rightarrow> string \<Rightarrow> funcmap_test \<Rightarrow> funcmap_test parse" where
  "FuncMapTest_option w c optarg t =
     (if c = CHR ''e'' then (if path_exists w optarg then Proceed (t\<lparr>ft_elf_path := optarg\<rparr>) else Reject t)
      else if c = CHR ''f'' then Proceed (t\<lparr>force_update := True\<rparr>)
      else Reject t)"

definition FuncMapTest_parseArgs :: "world \<Rightarrow> string list \<Rightarrow> funcmap_test \<Rightarrow> funcmap_test parse" where
  "FuncMapTest_parseArgs w args t =
     parse_then (opt_loop (FuncMapTest_option w) (fst (getopt_scan ''e:f'' args)) t)
       (\<lambda>t'. if length (ft_elf_path t') = 0 then Reject t' else Proceed t')"

definition FuncMapTest_init :: "host \<Rightarrow> funcmap_test \<Rightarrow> world \<Rightarrow> fault + bool \<times> funcmap_test \<times> world" where
  "FuncMapTest_init H t w =
     and_then (load H (force_update t) (FuncMap_path (ft_elf_path t) False) w) (\<lambda>(ok, fmap, w').
       if \<not> ok then Inr (False, t, w') else Inr (True, t\<lparr>funcmap := Some fmap\<rparr>, w'))"

definition FuncMapTest_process :: "funcmap_test \<Rightarrow> world \<Rightarrow> fault + bool \<times> funcmap_test \<times> world" where
  "FuncMapTest_process t w = Inr (True, t, w)"

definition FuncMapTest_destroy :: "funcmap_test \<Rightarrow> world \<Rightarrow> fault + funcmap_test \<times> world" where
  "FuncMapTest_destroy t w = Inr (if funcmap t \<noteq> None then t\<lparr>funcmap := None\<rparr> else t, w)"

subsection \<open>The numbering is a bijection\<close>

definition numbering :: "func_map \<Rightarrow> bool" where
  "numbering fm \<longleftrightarrow> distinct (funcs fm)
     \<and> (\<forall>f i. func_indices fm f = Some i \<longleftrightarrow> (\<exists>k < length (funcs fm). funcs fm ! k = f \<and> i = of_nat k))"

lemma numbering_None: "numbering fm \<Longrightarrow> func_indices fm f = None \<longleftrightarrow> f \<notin> set (funcs fm)"
  unfolding numbering_def by (metis in_set_conv_nth not_None_eq)

lemma numbering_nth: "numbering fm \<Longrightarrow> k < length (funcs fm) \<Longrightarrow> func_indices fm (funcs fm ! k) = Some (of_nat k)"
  unfolding numbering_def by blast

lemma numbering_fresh [simp]: "numbering (FuncMap_path path wrap)"
  by (simp add: numbering_def FuncMap_path_def)

lemma numbering_addFunction: 
  assumes "numbering fm" shows "numbering (snd (addFunction skips f fm))"
proof (cases "func_indices fm f \<noteq> None \<or> f \<in> set skips")
  case False
  then have new: "f \<notin> set (funcs fm)" using numbering_None [OF assms] by blast
  have "func_indices fm g = Some i \<longleftrightarrow> (\<exists>k < length (funcs fm). funcs fm ! k = g \<and> i = of_nat k)" for g i
    using assms by (simp add: numbering_def)
  then show ?thesis using False new assms
    by (auto simp: addFunction_def numbering_def Let_def nth_append less_Suc_eq)
qed (use assms in \<open>auto simp: addFunction_def\<close>)

text \<open>The names one after another: each new name that is not skipped goes to the end.\<close>

definition add_name :: "string list \<Rightarrow> string list \<Rightarrow> string \<Rightarrow> string list" where
  "add_name skips fns f = (if f \<in> set fns \<or> f \<in> set skips then fns else fns @ [f])"

lemma funcs_addFunction: "numbering fm \<Longrightarrow> funcs (snd (addFunction skips f fm)) = add_name skips (funcs fm) f"
  using numbering_None [of fm f] by (auto simp: addFunction_def add_name_def Let_def)

lemma addFunction_keeps [simp]:
  "is_wrap (snd (addFunction skips f fm)) = is_wrap fm" "elf_name (snd (addFunction skips f fm)) = elf_name fm"
  "wrapper (snd (addFunction skips f fm)) = wrapper fm" "fm_obj (snd (addFunction skips f fm)) = fm_obj fm"
  "elf_path (snd (addFunction skips f fm)) = elf_path fm"
  by (simp_all add: addFunction_def Let_def)

lemma add_name_fold:
  "foldl (add_name skips) fns xs = fns @ rev (remdups (rev (filter (\<lambda>f. f \<notin> set fns \<and> f \<notin> set skips) xs)))"
proof (induction xs rule: rev_induct)
  case (snoc x xs)
  then show ?case by (auto simp: add_name_def)
qed simp

lemma generateWrapper_keeps:
  assumes "generateWrapper H f i fm w = (ok, fm', w')"
  shows "funcs fm' = funcs fm" "func_indices fm' = func_indices fm" "elf_name fm' = elf_name fm"
    "is_wrap fm' = is_wrap fm" "calls w' = calls w" "skiplist w' = skiplist w" "dirs w' = dirs w"
  using assms by (auto simp: generateWrapper_def Let_def open_write_def split: option.splits if_splits)

lemma numbering_cong: "funcs fm' = funcs fm \<Longrightarrow> func_indices fm' = func_indices fm \<Longrightarrow> numbering fm' = numbering fm"
  by (simp add: numbering_def)

lemma numbering_wrapper [simp]: "numbering (fm\<lparr>wrapper := x\<rparr>) = numbering fm"
  by (simp add: numbering_def)

lemma add_procedures_names:
  assumes "add_procedures H fl fm w = (True, fm', w')" "numbering fm"
  shows "numbering fm' \<and> calls w' = calls w \<and> skiplist w' = skiplist w \<and> elf_name fm' = elf_name fm
    \<and> funcs fm' = foldl (add_name (skiplist w)) (funcs fm) (map (func_name (the_image H w)) fl)"
  using assms
proof (induction fl arbitrary: fm w)
  case (Cons f fl)
  let ?r = "addFunction (skiplist w) (func_name (the_image H w) f) fm"
  have num: "numbering (snd ?r)" and fns: "funcs (snd ?r) = add_name (skiplist w) (funcs fm) (func_name (the_image H w) f)"
    using numbering_addFunction [OF Cons.prems(2)] funcs_addFunction [OF Cons.prems(2)] by simp_all
  show ?case
  proof (cases "is_wrap fm \<and> fst ?r \<noteq> UINT_MAX")
    case True
    obtain ok fm2 w2 where g: "generateWrapper H f (fst ?r) (snd ?r) w = (ok, fm2, w2)" by (metis prod_cases3)
    note keeps = generateWrapper_keeps [OF g]
    have "add_procedures H fl fm2 w2 = (True, fm', w')"
      using Cons.prems(1) True g by (simp add: case_prod_beta Let_def split: if_splits)
    moreover have "numbering fm2" using num numbering_cong [OF keeps(1,2)] by simp
    ultimately show ?thesis using Cons.IH [of fm2 w2] keeps fns by simp
  next
    case False
    then have "add_procedures H fl (snd ?r) w = (True, fm', w')"
      using Cons.prems(1) by (simp add: case_prod_beta Let_def split: if_splits)
    then show ?thesis using Cons.IH [of "snd ?r" w] num fns by simp
  qed
qed simp

text \<open>The reference: the first occurrence of each name, in order.\<close>

definition first_occurrences :: "'a list \<Rightarrow> 'a list" where
  "first_occurrences xs = rev (remdups (rev xs))"

lemma build_dirs_keeps:
  "calls (snd (build_dirs H path k w)) = calls w \<and> skiplist (snd (build_dirs H path k w)) = skiplist w
   \<and> fs (snd (build_dirs H path k w)) = fs w"
proof (induction H path k w rule: build_dirs.induct)
  case (1 H path pos w)
  then show ?case by (subst (1 2 3) build_dirs.simps) (auto simp: Let_def split: option.split)
qed

lemma updateCache_effect:
  assumes "fst (updateCache H fm w)"
  shows "fs (snd (updateCache H fm w)) (cache_file fm) = Some (cache_text (funcs fm))"
    "calls (snd (updateCache H fm w)) = calls w" "skiplist (snd (updateCache H fm w)) = skiplist w"
  using assms build_dirs_keeps [of H FUNCMAP_DIR 0 w]
  by (auto simp: updateCache_def buildDir_def Let_def open_write_def append_file_def case_prod_beta split: if_splits)

lemma compileWrapper_keeps:
  "funcs (snd (compileWrapper H fm)) = funcs fm \<and> func_indices (snd (compileWrapper H fm)) = func_indices fm
   \<and> elf_name (snd (compileWrapper H fm)) = elf_name fm"
  by (simp add: compileWrapper_def Let_def split: option.split)

lemma loadFromELF_effect:
  assumes "loadFromELF H (FuncMap_path path wrap) w = Inr (True, fm, w')"
  obtains procs where
    "binary_procedures (the_image H w') (answer H (calls w) (Open_binary path)) = Some procs"
    "calls w' = calls w @ [Open_binary path]" "skiplist w' = skiplist w" "numbering fm" "elf_name fm = base_name path"
    "funcs fm = first_occurrences (filter (\<lambda>f. f \<notin> set (skiplist w)) (map (func_name (the_image H w')) procs))"
    "fs w' (cache_file fm) = Some (cache_text (funcs fm))"
proof -
  let ?w1 = "snd (perform H (Open_binary path) w)"
  obtain fm1 w1 where l: "list_elf H (FuncMap_path path wrap) w = Inr (True, fm1, w1)"
    and c: "fm = (if is_wrap fm1 \<and> 0 < length (funcs fm1) then snd (compileWrapper H fm1) else fm1)"
    and u: "fst (updateCache H fm w1)" "w' = snd (updateCache H fm w1)"
    using assms by (fastforce simp: loadFromELF_def and_then_Inr Let_def case_prod_beta split: if_splits)
  obtain procs where procs: "binary_procedures (the_image H ?w1) (answer H (calls w) (Open_binary path)) = Some procs"
    and a: "add_procedures H procs (FuncMap_path path wrap) ?w1 = (True, fm1, w1)"
    using l by (auto simp: list_elf_def FuncMap_path_def case_prod_beta Let_def split: if_splits option.splits)
  from add_procedures_names [OF a numbering_fresh]
  have n: "numbering fm1" "calls w1 = calls ?w1" "skiplist w1 = skiplist w" "elf_name fm1 = base_name path"
    and f: "funcs fm1 = first_occurrences (filter (\<lambda>f. f \<notin> set (skiplist w)) (map (func_name (the_image H ?w1)) procs))"
    by (simp_all add: FuncMap_path_def add_name_fold first_occurrences_def)
  have k: "funcs fm = funcs fm1" "func_indices fm = func_indices fm1" "elf_name fm = elf_name fm1"
    using c compileWrapper_keeps [of H fm1] by auto
  note e = updateCache_effect [OF u(1), folded u(2)]
  show thesis
    by (rule that [of procs])
      (use procs n f k e numbering_cong [OF k(1,2)] in simp_all)
qed

lemma getFunctionID_nth:
  "numbering fm \<Longrightarrow> k < length (funcs fm) \<Longrightarrow> getFunctionID (funcs fm ! k) fm = of_nat k"
  by (simp add: getFunctionID_def numbering_nth)

lemma getFunctionID_unknown: "numbering fm \<Longrightarrow> f \<notin> set (funcs fm) \<Longrightarrow> getFunctionID f fm = UINT_MAX"
  using numbering_None [of fm f] by (simp add: getFunctionID_def)

text \<open>Fewer than \<open>2 ^ 32 - 1\<close> names: the number of a known name is below the marker for unknown ones.\<close>

lemma getFunctionID_known:
  assumes "numbering fm" "length (funcs fm) < 2 ^ 32 - 1" "f \<in> set (funcs fm)"
  shows "getFunctionID f fm \<noteq> UINT_MAX \<and> unat (getFunctionID f fm) < length (funcs fm)
    \<and> funcs fm ! unat (getFunctionID f fm) = f"
proof -
  obtain k where k: "k < length (funcs fm)" "funcs fm ! k = f" using assms(3) by (auto simp: in_set_conv_nth)
  then have id: "getFunctionID f fm = of_nat k" using getFunctionID_nth [OF assms(1)] by blast
  have "unat (of_nat k :: u32) = k" using k(1) assms(2) by (simp add: unat_of_nat take_bit_nat_eq_self)
  then show ?thesis using k id assms(2) unat_UINT_MAX by auto
qed

subsection \<open>Writing the cache and reading it back\<close>

definition cacheable :: "string \<Rightarrow> bool" where
  "cacheable f \<longleftrightarrow> newline \<notin> set f \<and> nul \<notin> set f \<and> length f < FUNC_NAME_MAX - 1"

lemma fgets_line: "newline \<notin> set f \<Longrightarrow> length f < n \<Longrightarrow> fgets n (f @ newline # rest) = (f @ [newline], rest)"
proof (induction f arbitrary: n)
  case Nil then show ?case by (cases n) simp_all
next
  case (Cons c f) then show ?case by (cases n) auto
qed

lemma fgets_full: "newline \<notin> set f \<Longrightarrow> n \<le> length f \<Longrightarrow> fgets n (f @ rest) = (take n f, drop n f @ rest)"
proof (induction f arbitrary: n)
  case (Cons c f) then show ?case by (cases n) auto
qed simp

lemma chop_newline_line: "nul \<notin> set f \<Longrightarrow> chop_newline (f @ [newline]) = Inr f"
proof -
  assume "nul \<notin> set f"
  then have "takeWhile (\<lambda>c. c \<noteq> nul) (f @ [newline]) = f @ [newline]" by (auto simp: takeWhile_eq_all_conv)
  then show ?thesis by (simp add: chop_newline_def)
qed

lemma chop_newline_plain: "nul \<notin> set f \<Longrightarrow> newline \<notin> set f \<Longrightarrow> f \<noteq> [] \<Longrightarrow> chop_newline f = Inr f"
proof -
  assume f: "nul \<notin> set f" "newline \<notin> set f" "f \<noteq> []"
  then have all: "takeWhile (\<lambda>c. c \<noteq> nul) f = f" by (auto simp: takeWhile_eq_all_conv)
  moreover have "last f \<noteq> newline" using f by (metis last_in_set)
  then show ?thesis using f(3) by (simp add: chop_newline_def all)
qed

lemma read_names_line:
  assumes "cacheable f"
  shows "read_names skips (f @ newline # rest) fm = read_names skips rest (snd (addFunction skips f fm))"
proof -
  have "fgets 255 (f @ newline # rest) = (f @ [newline], rest)"
    using assms by (intro fgets_line) (simp_all add: cacheable_def)
  then show ?thesis using assms
    by (subst read_names.simps) (simp add: chop_newline_line cacheable_def)
qed

lemma read_names_cache:
  "list_all cacheable fns \<Longrightarrow>
     read_names skips (cache_text fns) fm = Inr (foldl (\<lambda>fm f. snd (addFunction skips f fm)) fm fns)"
proof (induction fns arbitrary: fm)
  case Nil then show ?case by (subst read_names.simps) (simp add: cache_text_def)
next
  case (Cons f fns)
  then show ?case by (simp add: cache_text_def read_names_line)
qed

lemma foldl_addFunction:
  "numbering fm \<Longrightarrow>
     numbering (foldl (\<lambda>fm f. snd (addFunction skips f fm)) fm fns)
     \<and> funcs (foldl (\<lambda>fm f. snd (addFunction skips f fm)) fm fns) = foldl (add_name skips) (funcs fm) fns"
  by (induction fns arbitrary: fm) (simp_all add: numbering_addFunction funcs_addFunction)

lemma numbering_determines:
  assumes "numbering fm" "numbering fm'" "funcs fm = funcs fm'"
  shows "func_indices fm = func_indices fm'"
proof
  fix f
  show "func_indices fm f = func_indices fm' f"
    using numbering_nth [OF assms(1)] numbering_nth [OF assms(2)] numbering_None [OF assms(1)]
      numbering_None [OF assms(2)] assms(3) by (metis in_set_conv_nth)
qed

lemma first_occurrences_idem: "distinct xs \<Longrightarrow> first_occurrences xs = xs"
  by (simp add: first_occurrences_def distinct_remdups_id)

lemma set_first_occurrences [simp]: "set (first_occurrences xs) = set xs"
  by (simp add: first_occurrences_def)

lemma loadFromCache_written:
  assumes w: "fs w (cache_file fm) = Some (cache_text fns)" and fm: "funcs fm = []" "numbering fm"
    and fns: "list_all cacheable fns" "distinct fns" "set fns \<inter> set (skiplist w) = {}"
  shows "\<exists>fm'. loadFromCache fm w = Inr (True, fm') \<and> funcs fm' = fns \<and> numbering fm'"
proof -
  have "filter (\<lambda>f. f \<notin> set (skiplist w)) fns = fns" using fns(3) by (auto simp: filter_id_conv)
  then have "foldl (add_name (skiplist w)) [] fns = fns"
    using fns(2) by (simp add: add_name_fold distinct_remdups_id)
  then show ?thesis using foldl_addFunction [OF fm(2), of "skiplist w" fns] fm(1)
    by (simp add: loadFromCache_def w read_names_cache [OF fns(1)])
qed

subsection \<open>Directories\<close>

lemma build_dirs_monotone: "path_exists w p \<Longrightarrow> path_exists (snd (build_dirs H path k w)) p"
proof (induction H path k w rule: build_dirs.induct)
  case (1 H path pos w)
  then show ?case by (subst build_dirs.simps) (auto simp: Let_def path_exists_def split: option.split)
qed

lemma build_dirs_found: 
  "find_from (CHR ''/'') pos path = Some p \<Longrightarrow> 0 < p \<Longrightarrow>
   build_dirs H path pos w =
     (if path_exists w (take p path) then build_dirs H path (Suc p) w
      else if can_mkdir H (take p path)
      then build_dirs H path (Suc p) (w\<lparr>dirs := (dirs w)(take p path := True)\<rparr>)
      else (False, w))"
  by (subst build_dirs.simps) (simp add: Let_def)

text \<open>The slashes from a position on: the one found, and those behind it.\<close>

lemma slash_cases:
  assumes "find_from c pos path = Some p" "pos \<le> k" "k < length path" "path ! k = c"
  shows "k = p \<or> Suc p \<le> k"
  using assms by (auto simp: find_from_Some not_less_eq_eq)

lemma build_dirs_complete:
  "fst (build_dirs H path pos w) \<Longrightarrow> pos \<le> k \<Longrightarrow> 0 < k \<Longrightarrow> k < length path \<Longrightarrow> path ! k = CHR ''/''
     \<Longrightarrow> path_exists (snd (build_dirs H path pos w)) (take k path)"
proof (induction H path pos w rule: build_dirs.induct)
  case (1 H path pos w)
  obtain p where p: "find_from (CHR ''/'') pos path = Some p"
    using find_from_exists [OF 1(5,7,8)] by blast
  show ?case
  proof (cases "p = 0")
    case True
    then have "build_dirs H path pos w = build_dirs H path (Suc 0) w" using p by (subst build_dirs.simps) simp
    then show ?thesis using 1(1) [OF p True] 1(4-8) True by simp
  next
    case False
    let ?w = "if path_exists w (take p path) then w else w\<lparr>dirs := (dirs w)(take p path := True)\<rparr>"
    have step: "build_dirs H path pos w = build_dirs H path (Suc p) ?w"
      using 1(4) False by (auto simp: build_dirs_found [OF p] split: if_splits)
    have can: "path_exists w (take p path) \<or> can_mkdir H (take p path)"
      using 1(4) False by (auto simp: build_dirs_found [OF p] split: if_splits)
    have "path_exists ?w (take p path)" by (simp add: path_exists_def)
    then have "path_exists (snd (build_dirs H path (Suc p) ?w)) (take p path)" by (rule build_dirs_monotone)
    moreover have "path_exists (snd (build_dirs H path (Suc p) ?w)) (take k path)" if "Suc p \<le> k"
      using 1(2) [OF p False refl] 1(3) [OF p False refl] that 1(4,6-8) step can
      by (auto split: if_splits)
    ultimately show ?thesis using slash_cases [OF p 1(5,7,8)] by (auto simp: step)
  qed
qed

lemma build_dirs_fails:
  "\<not> fst (build_dirs H path pos w) \<Longrightarrow>
     \<exists>k. 0 < k \<and> k < length path \<and> path ! k = CHR ''/'' \<and> \<not> path_exists w (take k path) \<and> \<not> can_mkdir H (take k path)"
proof (induction H path pos w rule: build_dirs.induct)
  case (1 H path pos w)
  obtain p where p: "find_from (CHR ''/'') pos path = Some p"
    using 1(4) by (subst (asm) build_dirs.simps) (auto split: option.splits)
  then have at: "p < length path" "path ! p = CHR ''/''" by (auto simp: find_from_Some)
  show ?case
  proof (cases "p = 0")
    case True
    then have "build_dirs H path pos w = build_dirs H path (Suc 0) w" using p by (subst build_dirs.simps) simp
    then show ?thesis using 1(1) [OF p True] 1(4) True by simp
  next
    case False
    then show ?thesis using 1(2) [OF p False refl] 1(3) [OF p False refl] 1(4) at
      by (auto simp: build_dirs_found [OF p] path_exists_def split: if_splits)
  qed
qed

subsection \<open>Properties\<close>

text \<open>C11: loading a function map from an ELF file numbers the functions in the order in which the
  library lists them: the table holds the first occurrence of every name that is not on the skip list,
  the number of a name is its position in the table, a name outside the table has the number
  \<^verbatim>\<open>UINT_MAX\<close>, and the cache file lists the table.\<close>

theorem funcmap_elf_numbering:
  assumes "loadFromELF H (FuncMap_path path wrap) w = Inr (True, fm, w')"
  shows "\<exists>procs. binary_procedures (the_image H w') (answer H (calls w) (Open_binary path)) = Some procs
    \<and> funcs fm = first_occurrences (filter (\<lambda>f. f \<notin> set (skiplist w)) (map (func_name (the_image H w')) procs))
    \<and> (\<forall>k < length (funcs fm). getFunctionID (funcs fm ! k) fm = of_nat k)
    \<and> (\<forall>f. f \<notin> set (funcs fm) \<longrightarrow> getFunctionID f fm = UINT_MAX)
    \<and> fs w' (FUNCMAP_DIR @ base_name path) = Some (cache_text (funcs fm))"
proof -
  from loadFromELF_effect [OF assms] obtain procs where
    "binary_procedures (the_image H w') (answer H (calls w) (Open_binary path)) = Some procs"
    "numbering fm" "elf_name fm = base_name path"
    "funcs fm = first_occurrences (filter (\<lambda>f. f \<notin> set (skiplist w)) (map (func_name (the_image H w')) procs))"
    "fs w' (cache_file fm) = Some (cache_text (funcs fm))" .
  then show ?thesis
    by (metis cache_file_def getFunctionID_nth getFunctionID_unknown)
qed

theorem funcmap_elf_numbering_witness:
  "\<exists>fm w'. loadFromELF small_host (FuncMap_path ''/opt/app'' False) small_world = Inr (True, fm, w')
     \<and> fs w' (FUNCMAP_DIR @ ''app'') = Some (cache_text (funcs fm)) \<and> funcs fm = [''main'', ''run'', ''_init'', ''_fini'']"
proof -
  have "case loadFromELF small_host (FuncMap_path ''/opt/app'' False) small_world of
      Inl _ \<Rightarrow> False | Inr (ok, fm, w') \<Rightarrow> ok \<and> funcs fm = [''main'', ''run'', ''_init'', ''_fini'']"
    by code_simp
  then obtain fm w' where l: "loadFromELF small_host (FuncMap_path ''/opt/app'' False) small_world = Inr (True, fm, w')"
    and "funcs fm = [''main'', ''run'', ''_init'', ''_fini'']" by (auto split: sum.splits)
  moreover have "base_name ''/opt/app'' = ''app''" by code_simp
  ultimately show ?thesis using funcmap_elf_numbering [OF l] by auto
qed

text \<open>C7: the cache round trip.  After a forced load from the ELF file has succeeded, a later load that
  finds the cache up to date gives every function the same number, provided the names have no line
  break or null character and fit into the read buffer.\<close>

theorem funcmap_cache_roundtrip:
  assumes forced: "load H True (FuncMap_path path wrap) w = Inr (True, fm, w')"
    and cached: "checkState H (FuncMap_path path wrap') = FUNCMAP_STATE_CACHED"
    and names: "list_all cacheable (funcs fm)"
  shows "\<exists>fm'. load H False (FuncMap_path path wrap') w' = Inr (True, fm', w')
    \<and> funcs fm' = funcs fm \<and> (\<forall>f. getFunctionID f fm' = getFunctionID f fm)"
proof -
  have "loadFromELF H (FuncMap_path path wrap) w = Inr (True, fm, w')" using forced by (simp add: load_def)
  from loadFromELF_effect [OF this] obtain procs where
    e: "skiplist w' = skiplist w" "numbering fm" "elf_name fm = base_name path"
    "funcs fm = first_occurrences (filter (\<lambda>f. f \<notin> set (skiplist w)) (map (func_name (the_image H w')) procs))"
    "fs w' (cache_file fm) = Some (cache_text (funcs fm))" .
  let ?fm = "FuncMap_path path wrap'"
  have "set (funcs fm) \<inter> set (skiplist w') = {}" using e(1,4) by auto
  moreover have "cache_file ?fm = cache_file fm" by (simp add: cache_file_def e(3)) (simp add: FuncMap_path_def)
  ultimately obtain fm' where "loadFromCache ?fm w' = Inr (True, fm')" "funcs fm' = funcs fm" "numbering fm'"
    using loadFromCache_written [of w' ?fm "funcs fm"] e(2,5) names
    by (auto simp: FuncMap_path_def numbering_def)
  then show ?thesis using cached numbering_determines [of fm' fm] e(2)
    by (auto simp: load_def getFunctionID_def)
qed

theorem funcmap_cache_roundtrip_witness:
  "\<exists>fm w' fm'. load small_host True (FuncMap_path ''/opt/app'' True) small_world = Inr (True, fm, w')
     \<and> load small_host False (FuncMap_path ''/opt/app'' False) w' = Inr (True, fm', w')
     \<and> getFunctionID ''run'' fm' = getFunctionID ''run'' fm"
proof -
  have "case load small_host True (FuncMap_path ''/opt/app'' True) small_world of
      Inl _ \<Rightarrow> False | Inr (ok, fm, w') \<Rightarrow> ok \<and> list_all cacheable (funcs fm)"
    by code_simp
  then obtain fm w' where l: "load small_host True (FuncMap_path ''/opt/app'' True) small_world = Inr (True, fm, w')"
    and c: "list_all cacheable (funcs fm)" by (auto split: sum.splits)
  have "checkState small_host (FuncMap_path ''/opt/app'' False) = FUNCMAP_STATE_CACHED" by code_simp
  from funcmap_cache_roundtrip [OF l this c] l show ?thesis by blast
qed

text \<open>A function name that does not fit into the read buffer breaks the round trip: the line is
  read in two pieces, the pieces become functions of their own, and the name itself is not found.\<close>

lemma funcmap_long_name:
  assumes "funcs fm = [f]" "elf_name fm = base_name path" and upd: "updateCache H fm w = (True, w')"
    and skips: "skiplist w = []" and f: "newline \<notin> set f" "nul \<notin> set f" "255 < length f" "length f < 510"
  shows "\<exists>fm'. loadFromCache (FuncMap_path path wrap) w' = Inr (True, fm') \<and> getFunctionID f fm' = UINT_MAX
    \<and> set (funcs fm') = {take 255 f, drop 255 f}"
proof -
  let ?fm = "FuncMap_path path wrap" let ?fm1 = "snd (addFunction [] (take 255 f) ?fm)"
  have cache: "fs w' (cache_file ?fm) = Some (cache_text [f])" "skiplist w' = []"
    using updateCache_effect [of H fm w] upd assms(1,2) skips by (auto simp: cache_file_def FuncMap_path_def)
  have "chop_newline (take 255 f) = Inr (take 255 f)"
    using f by (intro chop_newline_plain) (auto dest: in_set_takeD)
  then have one: "read_names [] (f @ [newline]) ?fm = read_names [] (drop 255 f @ [newline]) ?fm1"
    using fgets_full [OF f(1), of 255 "[newline]"] f(3) by (subst read_names.simps) simp
  have "nul \<notin> set (drop 255 f)" "newline \<notin> set (drop 255 f)" using f(1,2) by (meson in_set_dropD)+
  then have "cacheable (drop 255 f)" using f(4) by (simp add: cacheable_def)
  then have two: "read_names [] (drop 255 f @ [newline]) ?fm1 = Inr (snd (addFunction [] (drop 255 f) ?fm1))"
    using read_names_line [of "drop 255 f" "[]" "[]"] by (simp add: read_names.simps [of _ "[]"])
  let ?fm2 = "snd (addFunction [] (drop 255 f) ?fm1)"
  have num: "numbering ?fm1" "numbering ?fm2" by (simp_all add: numbering_addFunction)
  have "funcs ?fm = []" by (simp add: FuncMap_path_def)
  then have names: "set (funcs ?fm2) = {take 255 f, drop 255 f}"
    using funcs_addFunction [OF num(1), of "[]" "drop 255 f"] funcs_addFunction [OF numbering_fresh, of "[]" "take 255 f" path wrap]
    by (auto simp: add_name_def)
  moreover have "f \<noteq> take 255 f" "f \<noteq> drop 255 f" using f(3) by (metis length_take min_less_iff_conj nat_neq_iff, metis length_drop diff_less f(3) gr0I less_zeroE nat_neq_iff zero_less_numeral)
  ultimately have "getFunctionID f ?fm2 = UINT_MAX" by (intro getFunctionID_unknown [OF num(2)]) auto
  moreover have "loadFromCache ?fm w' = Inr (True, ?fm2)"
    using cache one two by (simp add: loadFromCache_def cache_text_def)
  ultimately show ?thesis using names by blast
qed

lemma funcmap_long_name_example:
  "let f = replicate 300 (CHR ''a''); fm = (FuncMap_path ''/opt/app'' False)\<lparr>funcs := [f]\<rparr>;
       w' = snd (updateCache small_host fm small_world)
   in \<exists>fm'. loadFromCache (FuncMap_path ''/opt/app'' False) w' = Inr (True, fm') \<and> getFunctionID f fm' = UINT_MAX"
proof -
  let ?f = "replicate 300 (CHR ''a'')" let ?fm = "(FuncMap_path ''/opt/app'' False)\<lparr>funcs := [?f]\<rparr>"
  have "fst (buildDir small_host small_world)" by code_simp
  then have "updateCache small_host ?fm small_world = (True, snd (updateCache small_host ?fm small_world))"
    by (simp add: updateCache_def case_prod_beta Let_def open_write_def small_host_def)
  from funcmap_long_name [OF _ _ this, of ?f "''/opt/app''" False] show ?thesis
    by (auto simp: Let_def small_world_def FuncMap_path_def)
qed

text \<open>Building the cache directory.  The loop ends; when it reports success every directory on the
  way to the cache exists, and it fails only at a directory that was missing and cannot be created.\<close>

lemma buildDir_creates_path:
  "(fst (buildDir H w) \<longrightarrow>
      (\<forall>k. 0 < k \<and> k < length FUNCMAP_DIR \<and> FUNCMAP_DIR ! k = CHR ''/''
           \<longrightarrow> path_exists (snd (buildDir H w)) (take k FUNCMAP_DIR)))
   \<and> (\<not> fst (buildDir H w) \<longrightarrow>
      (\<exists>k. 0 < k \<and> k < length FUNCMAP_DIR \<and> FUNCMAP_DIR ! k = CHR ''/''
           \<and> \<not> path_exists w (take k FUNCMAP_DIR) \<and> \<not> can_mkdir H (take k FUNCMAP_DIR)))"
  unfolding buildDir_def using build_dirs_complete [of H FUNCMAP_DIR 0 w] build_dirs_fails [of H FUNCMAP_DIR 0 w]
  by blast

lemma buildDir_creates_path_example:
  "path_exists (snd (buildDir small_host small_world)) ''/home/jiaru/lprofile''"
proof -
  have "fst (buildDir small_host small_world)" by code_simp
  moreover have "FUNCMAP_DIR ! 20 = CHR ''/''" "20 < length FUNCMAP_DIR"
    "take 20 FUNCMAP_DIR = ''/home/jiaru/lprofile''" by (simp_all add: FUNCMAP_DIR_def)
  ultimately show ?thesis using buildDir_creates_path [of small_host small_world] by (metis zero_less_numeral)
qed

end
