(* ===== verification/Count.thy ===== *)
theory Count
  imports Funcmap "HOL-Library.List_Lexorder" "HOL-Library.Char_ord"
begin

section \<open>utils/count.[ch]: target functions and the calls inserted into them\<close>

text \<open>
  \<^verbatim>\<open>CountUtil\<close> is shared by the commands that instrument a program: it parses the common options,
  finds the target functions of the user's objects, numbers them through the function maps, inserts
  the calls of the probe's entry and exit functions, builds the arguments of the probe's start-up
  function and wraps \<^verbatim>\<open>pthread_create\<close>.  The class is the record \<open>count_util\<close>.  The field \<open>freq\<close> has no
  initial value in the code: \<open>None\<close> is the indeterminate value.  The ordered map \<^verbatim>\<open>elf_targets\<close> is
  an association list in the order of its keys.  The configuration without \<^verbatim>\<open>USE_FUNCCNT\<close>, the one the
  header selects, is modelled.  Log messages are not modelled.
\<close>

record target_func =
  tf_func :: func
  tf_index :: u32
  tf_elf :: string
  tf_is_user :: bool

definition TargetFunc :: "func \<Rightarrow> u32 \<Rightarrow> string \<Rightarrow> bool \<Rightarrow> target_func" where
  "TargetFunc f i e b = \<lparr>tf_func = f, tf_index = i, tf_elf = e, tf_is_user = b\<rparr>"

type_synonym elfmap = "(string \<times> nat list) list"

record count_util =
  pattern :: string
  cu_output :: string
  evlist :: string
  logfile :: string
  freq :: "u32 option"
  libcnt :: "obj option"
  func_pre :: "func option"
  func_post :: "func option"
  func_init :: "func option"
  func_tinit :: "func option"
  func_exit :: "func option"
  func_texit :: "func option"
  range_min :: u32
  range_max :: u32
  target_funcs :: "target_func list"
  elf_targets :: elfmap

definition LIBCNT :: string where "LIBCNT = ''/home/jiaru/lprofile/build/probe/libprobe.so''"
definition LIBTIDOFFSET :: string where "LIBTIDOFFSET = ''tid_offset''"
definition FUNC_INIT :: string where "FUNC_INIT = ''lprobe_init''"
definition FUNC_EXIT :: string where "FUNC_EXIT = ''lprobe_exit''"
definition WRAP_TINIT :: string where "WRAP_TINIT = ''lprobe_pthread_create''"
definition WRAP_TEXIT :: string where "WRAP_TEXIT = ''lprobe_pthread_exit''"
definition FUNCC_ARG :: string where "FUNCC_ARG = ''f:e:l:F:o:''"
definition PATTERN_ALL :: string where "PATTERN_ALL = ''(.*)''"
definition EVLIST_DEF :: string where "EVLIST_DEF = ''l1d-read-misses''"
definition LOGFILE_DEF :: string where "LOGFILE_DEF = ''profile.log''"
definition LIBPTHREAD_NAME :: string where "LIBPTHREAD_NAME = ''libpthread''"

definition CountUtil :: count_util where
  "CountUtil =
     \<lparr>pattern = PATTERN_ALL, cu_output = [], evlist = [], logfile = [], freq = None, libcnt = None,
      func_pre = None, func_post = None, func_init = None, func_tinit = None, func_exit = None,
      func_texit = None, range_min = 0, range_max = 0, target_funcs = [], elf_targets = []\<rparr>"

subsection \<open>Options\<close>

definition getOptStr :: string where
  "getOptStr = FUNCC_ARG"

definition parseOption :: "char \<Rightarrow> string \<Rightarrow> count_util \<Rightarrow> count_util option" where
  "parseOption opt optarg cu =
     (if opt = CHR ''f'' then Some (cu\<lparr>pattern := optarg\<rparr>)
      else if opt = CHR ''o'' then Some (cu\<lparr>cu_output := optarg\<rparr>)
      else if opt = CHR ''e'' then Some (cu\<lparr>evlist := optarg\<rparr>)
      else if opt = CHR ''F'' then
        (let n = (of_int (atoi optarg) :: u32)
         in if n = 0 then None else Some (cu\<lparr>freq := Some n\<rparr>))
      else if opt = CHR ''l'' then Some (cu\<lparr>logfile := optarg\<rparr>)
      else None)"

subsection \<open>Finding the target functions\<close>

fun elf_push :: "string \<Rightarrow> nat \<Rightarrow> elfmap \<Rightarrow> elfmap" where
  "elf_push e i [] = [(e, [i])]"
| "elf_push e i ((e', is) # m) =
     (if e = e' then (e', is @ [i]) # m
      else if e < e' then (e, [i]) # (e', is) # m
      else (e', is) # elf_push e i m)"

definition addTargetFunc :: "func \<Rightarrow> u32 \<Rightarrow> string \<Rightarrow> bool \<Rightarrow> count_util \<Rightarrow> count_util" where
  "addTargetFunc f idx elf user cu =
     (let tfs = target_funcs cu @ [TargetFunc f idx elf user]
      in cu\<lparr>target_funcs := tfs, elf_targets := elf_push elf (length tfs - 1) (elf_targets cu)\<rparr>)"

fun match_found :: "image \<Rightarrow> obj \<Rightarrow> func_map \<Rightarrow> func list \<Rightarrow> count_util \<Rightarrow> count_util" where
  "match_found img ob fmap [] cu = cu"
| "match_found img ob fmap (f # fl) cu =
     (let index = getFunctionID (func_name img f) fmap
      in if index = UINT_MAX then match_found img ob fmap fl cu
         else match_found img ob fmap fl (addTargetFunc f index (obj_name img ob) True cu))"

definition matchFunc :: "image \<Rightarrow> obj \<Rightarrow> func_map \<Rightarrow> string \<Rightarrow> count_util \<Rightarrow> count_util" where
  "matchFunc img ob fmap pat cu = match_found img ob fmap (obj_find_function img ob pat) cu"

function match_from :: "(string \<Rightarrow> 's \<Rightarrow> 's) \<Rightarrow> string \<Rightarrow> nat \<Rightarrow> 's \<Rightarrow> 's" where
  "match_from match pat cur s =
     (case find_from (CHR '','') cur pat of
        None \<Rightarrow> match (drop cur pat) s
      | Some p \<Rightarrow>
          let s' = match (take (p - cur) (drop cur pat)) s
          in if length pat \<le> p + 1 then s' else match_from match pat (p + 1) s')"
  by auto
termination
  by (relation "measure (\<lambda>(_, pat, cur, _). length pat - cur)") (auto simp: find_from_Some)

declare match_from.simps [simp del]

definition matchFuncs :: "image \<Rightarrow> obj \<Rightarrow> func_map \<Rightarrow> string \<Rightarrow> count_util \<Rightarrow> count_util" where
  "matchFuncs img ob fmap pat cu = match_from (matchFunc img ob fmap) pat 0 cu"

definition skiplib :: "string list" where "skiplib = [''libpapi'', ''libpfm'']"
definition osprefix :: "string list" where "osprefix = [''/usr/lib64/'', ''/lib64/'', ''/usr/local/gcc/'']"

definition is_user_obj :: "image \<Rightarrow> obj \<Rightarrow> bool" where
  "is_user_obj img ob \<longleftrightarrow>
     (if is_system_lib img ob then False
      else if list_ex (starts_with (path_name img ob)) osprefix then False
      else \<not> list_ex (contains_str (obj_name img ob)) skiplib)"

definition getUserObjs :: "image \<Rightarrow> obj list" where
  "getUserObjs img = filter (is_user_obj img) (img_objects img)"

fun target_objs :: "host \<Rightarrow> bool \<Rightarrow> obj list \<Rightarrow> count_util \<Rightarrow> world \<Rightarrow> fault + bool \<times> count_util \<times> world" where
  "target_objs H wrap [] cu w = Inr (True, cu, w)"
| "target_objs H wrap (ob # obs) cu w =
     and_then (load H True (FuncMap_path (path_name (the_image H w) ob) wrap) w) (\<lambda>(ok, fmap, w1).
       if \<not> ok then Inr (False, cu, w1)
       else target_objs H wrap obs (matchFuncs (the_image H w1) ob fmap (pattern cu) cu) w1)"

definition getTargetFuncs :: "host \<Rightarrow> bool \<Rightarrow> count_util \<Rightarrow> world \<Rightarrow> fault + bool \<times> count_util \<times> world" where
  "getTargetFuncs H wrap cu w =
     and_then (target_objs H wrap (getUserObjs (the_image H w)) cu w) (\<lambda>(ok, cu1, w1).
       if \<not> ok then Inr (False, cu1, w1)
       else if length (target_funcs cu1) = 0 then Inr (False, cu1, w1)
       else Inr (True, cu1, w1))"

subsection \<open>The probe library\<close>

definition findFunction :: "image \<Rightarrow> obj \<Rightarrow> string \<Rightarrow> func option" where
  "findFunction img ob name =
     (let tfuncs = obj_find_function img ob name
      in if length tfuncs = 0 then None else Some (tfuncs ! 0))"

definition loadFunctions :: "host \<Rightarrow> count_util \<Rightarrow> world \<Rightarrow> bool \<times> count_util \<times> world" where
  "loadFunctions H cu0 w0 =
     (let (l, w) = perform H (Load_library LIBCNT) w0;
          find = findFunction (the_image H w) l
      in if l = 0 then (False, cu0\<lparr>libcnt := None\<rparr>, w)
         else let cu1 = cu0\<lparr>libcnt := Some l, func_pre := find FUNC_PRE, func_post := find FUNC_POST\<rparr>
         in if func_pre cu1 = None \<or> func_post cu1 = None then (False, cu1, w)
         else let cu2 = cu1\<lparr>func_init := find FUNC_INIT, func_tinit := find WRAP_TINIT\<rparr>
         in if func_init cu2 = None \<or> func_tinit cu2 = None then (False, cu2, w)
         else let cu3 = cu2\<lparr>func_exit := find FUNC_EXIT, func_texit := find WRAP_TEXIT\<rparr>
         in if func_exit cu3 = None \<or> func_texit cu3 = None then (False, cu3, w)
         else (True, cu3, w))"

subsection \<open>Inserting the probes\<close>

fun insert_targets :: "host \<Rightarrow> func \<Rightarrow> func \<Rightarrow> target_func list \<Rightarrow> world \<Rightarrow> bool \<times> world" where
  "insert_targets H pre post [] w = (True, w)"
| "insert_targets H pre post (tf # tfs) w =
     (if \<not> tf_is_user tf then insert_targets H pre post tfs w
      else if tf_index tf = UINT_MAX then insert_targets H pre post tfs w
      else case entry_points (the_image H w) (tf_func tf) of
             None \<Rightarrow> insert_targets H pre post tfs w
           | Some pentry \<Rightarrow>
               (case exit_points (the_image H w) (tf_func tf) of
                  None \<Rightarrow> insert_targets H pre post tfs w
                | Some pexit \<Rightarrow>
                    let cnt_arg = [Const_uint (tf_index tf)];
                        (handle, w1) = perform H (Insert_snippet pre cnt_arg pentry BPatch_callBefore) w
                    in if handle = 0 then (False, w1)
                       else let (handle, w2) = perform H (Insert_snippet post cnt_arg pexit BPatch_callAfter) w1
                            in if handle = 0 then (False, w2) else insert_targets H pre post tfs w2))"

definition insertCount :: "host \<Rightarrow> count_util \<Rightarrow> world \<Rightarrow> bool \<times> world" where
  "insertCount H cu w = insert_targets H (the (func_pre cu)) (the (func_post cu)) (target_funcs cu) w"

fun clear_targets :: "host \<Rightarrow> target_func list \<Rightarrow> world \<Rightarrow> world" where
  "clear_targets H [] w = w"
| "clear_targets H (tf # tfs) w = clear_targets H tfs (snd (perform H (Remove_instrumentation (tf_func tf)) w))"

definition clearSnippet :: "host \<Rightarrow> count_util \<Rightarrow> world \<Rightarrow> world" where
  "clearSnippet H cu w = clear_targets H (target_funcs cu) w"

text \<open>The loop of \<^verbatim>\<open>calculateRange\<close>, on the pair of \<open>max\<close> and \<open>min\<close>.\<close>

definition range_step :: "u32 \<times> u32 \<Rightarrow> target_func \<Rightarrow> u32 \<times> u32" where
  "range_step mm tf =
     (let (mx, mn) = mm; idx = tf_index tf
      in if idx = UINT_MAX then mm
         else (if mx < idx then idx else mx, if mn > idx then idx else mn))"

definition calculateRange :: "count_util \<Rightarrow> count_util" where
  "calculateRange cu =
     (let (mx, mn) = foldl range_step (0, UINT_MAX) (target_funcs cu)
      in cu\<lparr>range_min := mn, range_max := mx\<rparr>)"

definition buildInitArgs :: "count_util \<Rightarrow> const_expr list \<times> count_util" where
  "buildInitArgs cu =
     (let cu1 = (if length (evlist cu) = 0 then cu\<lparr>evlist := EVLIST_DEF\<rparr> else cu);
          cu2 = (if length (logfile cu1) = 0 then cu1\<lparr>logfile := LOGFILE_DEF\<rparr> else cu1);
          cu3 = calculateRange cu2
      in ([Const_string (evlist cu3), Const_string (logfile cu3), Const_uint (range_min cu3), Const_uint (range_max cu3),
           case freq cu3 of None \<Rightarrow> Const_indeterminate | Some n \<Rightarrow> Const_uint n], cu3))"

subsection \<open>Wrapping thread creation\<close>

definition findHookSymbol :: "image \<Rightarrow> func \<Rightarrow> string \<Rightarrow> symbol option" where
  "findHookSymbol img func_wrap orgname =
     (if \<not> from_symtab img func_wrap then None else find_symbol img func_wrap (''HOOK_'' @ orgname))"

definition wrapFunction :: "host \<Rightarrow> string \<Rightarrow> func option \<Rightarrow> count_util \<Rightarrow> world \<Rightarrow> fault + bool \<times> world" where
  "wrapFunction H funcstr wrap cu w =
     (let img = the_image H w; tfuncs = img_find_function img (''^'' @ funcstr)
      in if length tfuncs = 0 then Inr (False, w)
         else let func_orig = tfuncs ! 0
         in and_then
              (case wrap of
                 Some f \<Rightarrow> Inr (Some f)
               | None \<Rightarrow>
                   (case libcnt cu of
                      None \<Rightarrow> Inl Null_pointer
                    | Some l \<Rightarrow>
                        let found = obj_find_function img l (''^lprobe_'' @ funcstr)
                        in Inr (if length found = 0 then None else Some (found ! 0))))
              (\<lambda>func_wrap.
                 case func_wrap of
                   None \<Rightarrow> Inr (False, w)
                 | Some fw \<Rightarrow>
                     (case findHookSymbol img fw funcstr of
                        None \<Rightarrow> Inr (False, w)
                      | Some hooksym \<Rightarrow>
                          let (r, w') = perform H (Wrap_dyn_function func_orig fw hooksym (getUserObjs img)) w
                          in Inr (r \<noteq> 0, w'))))"

text \<open>The sum of the sizes of the fields before the one named \<^verbatim>\<open>tid\<close>, in 32 bits.\<close>

fun tid_fields :: "(string \<times> u32) list \<Rightarrow> u32 \<Rightarrow> u32" where
  "tid_fields [] offset = offset"
| "tid_fields ((name, sz) # flds) offset = (if name = ''tid'' then offset else tid_fields flds (offset + sz))"

abbreviation (input) UINT32_MAX :: u32 where "UINT32_MAX \<equiv> - 1"

definition findTIDOffset :: "image \<Rightarrow> u32" where
  "findTIDOffset img =
     (case List.find (\<lambda>ob. starts_with (obj_name img ob) LIBPTHREAD_NAME) (img_objects img) of
        None \<Rightarrow> UINT32_MAX
      | Some objpthread \<Rightarrow>
          (case img_pthread_fields img of
             None \<Rightarrow> UINT32_MAX
           | Some None \<Rightarrow> UINT32_MAX
           | Some (Some flds) \<Rightarrow> tid_fields flds 0))"

definition wrapPthreadFunc :: "host \<Rightarrow> count_util \<Rightarrow> world \<Rightarrow> fault + bool \<times> world" where
  "wrapPthreadFunc H cu w =
     (let offset = findTIDOffset (the_image H w)
      in if offset = UINT32_MAX then Inr (True, w)
         else (case libcnt cu of
                 None \<Rightarrow> Inl Null_pointer
               | Some l \<Rightarrow>
                   (case obj_modules (the_image H w) l of
                      [] \<Rightarrow> Inl Out_of_bounds
                    | m # _ \<Rightarrow>
                        if \<not> mod_has_variable (the_image H w) m LIBTIDOFFSET then Inr (False, w)
                        else let (_, w1) = perform H (Write_variable m LIBTIDOFFSET offset) w
                             in wrapFunction H ''pthread_create'' (func_tinit cu) cu w1)))"

subsection \<open>The targets by ELF file\<close>

text \<open>The map of ELF names: its keys are in ascending order, and each key holds the positions of its
  targets in the vector, in ascending order.\<close>

definition positions :: "string \<Rightarrow> target_func list \<Rightarrow> nat list" where
  "positions e tfs = filter (\<lambda>i. tf_elf (tfs ! i) = e) [0..<length tfs]"

definition grouped :: "count_util \<Rightarrow> bool" where
  "grouped cu \<longleftrightarrow>
     sorted_wrt (<) (map fst (elf_targets cu))
     \<and> set (map fst (elf_targets cu)) = tf_elf ` set (target_funcs cu)
     \<and> (\<forall>(e, is) \<in> set (elf_targets cu). is = positions e (target_funcs cu))"

lemma elf_push_keys: "set (map fst (elf_push e i m)) = insert e (set (map fst m))"
  by (induction e i m rule: elf_push.induct) auto

lemma elf_push_sorted: "sorted_wrt (<) (map fst m) \<Longrightarrow> sorted_wrt (<) (map fst (elf_push e i m))"
proof (induction e i m rule: elf_push.induct)
  case (2 e i e' "is" m)
  have "e' < x" if "x \<in> set (map fst (elf_push e i m))" "e' < e" for x
    using that 2(2) unfolding elf_push_keys by auto
  then show ?case using 2 by (auto simp: not_less)
qed simp

lemma elf_push_values:
  assumes "(e', is) \<in> set (elf_push e i m)" "sorted_wrt (<) (map fst m)"
  shows "e' \<noteq> e \<and> (e', is) \<in> set m \<or> e' = e \<and> (\<exists>old. (e, old) \<in> set m \<and> is = old @ [i])
    \<or> e' = e \<and> is = [i] \<and> e \<notin> set (map fst m)"
  using assms
proof (induction e i m rule: elf_push.induct)
  case (2 e i k ks m)
  then show ?case by (auto split: if_splits)
qed simp

lemma positions_snoc:
  "positions e (tfs @ [tf]) = positions e tfs @ (if tf_elf tf = e then [length tfs] else [])"
proof -
  have "filter (\<lambda>i. tf_elf ((tfs @ [tf]) ! i) = e) [0..<length tfs] = positions e tfs"
    unfolding positions_def by (intro filter_cong) (auto simp: nth_append)
  then show ?thesis by (simp add: positions_def)
qed

lemma positions_none: "e \<notin> tf_elf ` set tfs \<Longrightarrow> positions e tfs = []"
  by (auto simp: positions_def filter_empty_conv)

lemma grouped_fresh [simp]: "grouped CountUtil"
  by (simp add: grouped_def CountUtil_def)

lemma grouped_addTargetFunc:
  assumes "grouped cu" shows "grouped (addTargetFunc f idx elf user cu)"
proof -
  let ?tfs = "target_funcs cu" let ?new = "elf_push elf (length ?tfs) (elf_targets cu)"
  have s: "sorted_wrt (<) (map fst (elf_targets cu))" and k: "set (map fst (elf_targets cu)) = tf_elf ` set ?tfs"
    and v: "\<And>e is. (e, is) \<in> set (elf_targets cu) \<Longrightarrow> is = positions e ?tfs"
    using assms by (auto simp: grouped_def)
  have "is = positions e (?tfs @ [TargetFunc f idx elf user])" if "(e, is) \<in> set ?new" for e "is"
    using elf_push_values [OF that s] v positions_none [of e ?tfs] k
    by (auto simp: positions_snoc TargetFunc_def)
  then show ?thesis
    using elf_push_sorted [OF s] elf_push_keys [of elf "length ?tfs" "elf_targets cu"] k
    by (auto simp: grouped_def addTargetFunc_def TargetFunc_def)
qed

lemma grouped_match_found: "grouped cu \<Longrightarrow> grouped (match_found img ob fmap fl cu)"
  by (induction fl arbitrary: cu) (simp_all add: Let_def grouped_addTargetFunc)

subsection \<open>The list of patterns\<close>

text \<open>The reference: the parts of the string between the commas, where an empty part behind a last comma does
  not count.\<close>

fun split_commas :: "string \<Rightarrow> string list" where
  "split_commas [] = [[]]"
| "split_commas (c # cs) =
     (if c = CHR '','' then [] # split_commas cs
      else (case split_commas cs of [] \<Rightarrow> [[c]] | p # ps \<Rightarrow> (c # p) # ps))"

definition patterns :: "string \<Rightarrow> string list" where
  "patterns pat = (let ps = split_commas pat in if 1 < length ps \<and> last ps = [] then butlast ps else ps)"

lemma split_commas_not_Nil [simp]: "split_commas pat \<noteq> []"
  by (cases pat) (auto split: list.split)

lemma split_commas_plain: "CHR '','' \<notin> set xs \<Longrightarrow> split_commas xs = [xs]"
  by (induction xs) auto

lemma split_commas_append: "CHR '','' \<notin> set xs \<Longrightarrow> split_commas (xs @ CHR '','' # ys) = xs # split_commas ys"
  by (induction xs) auto

lemma split_commas_single: "split_commas ys = [[]] \<longleftrightarrow> ys = []"
  by (cases ys) (auto split: list.splits)

lemma patterns_plain: "CHR '','' \<notin> set xs \<Longrightarrow> patterns xs = [xs]"
  by (simp add: patterns_def split_commas_plain)

lemma patterns_append:
  assumes "CHR '','' \<notin> set xs"
  shows "patterns (xs @ CHR '','' # ys) = (if ys = [] then [xs] else xs # patterns ys)"
proof (cases "ys = []")
  case False
  then have "last (split_commas ys) = [] \<Longrightarrow> 1 < length (split_commas ys)"
    using split_commas_single [of ys] by (cases "split_commas ys") (auto simp: neq_Nil_conv split: if_splits)
  then show ?thesis using assms False by (auto simp: patterns_def split_commas_append Let_def)
qed (use assms in \<open>simp add: patterns_def split_commas_append\<close>)

lemma match_from_patterns: "match_from match pat cur s = foldl (\<lambda>s p. match p s) s (patterns (drop cur pat))"
proof (induction match pat cur s rule: match_from.induct)
  case (1 match pat cur s)
  show ?case
  proof (cases "find_from (CHR '','') cur pat")
    case None
    then have "patterns (drop cur pat) = [drop cur pat]" by (simp add: find_from_None patterns_plain)
    then show ?thesis using None by (subst match_from.simps) simp
  next
    case (Some p)
    let ?x = "take (p - cur) (drop cur pat)"
    have x: "CHR '','' \<notin> set ?x"
      unfolding find_from_cut [OF Some] by (auto dest: set_takeWhileD)
    have p: "cur \<le> p" "p < length pat" "pat ! p = CHR '',''" using Some by (auto simp: find_from_Some)
    then have "drop cur pat = ?x @ CHR '','' # drop (Suc p) pat"
      by (metis Cons_nth_drop_Suc append_take_drop_id drop_drop le_add_diff_inverse2)
    then have "patterns (drop cur pat) = (if length pat \<le> Suc p then [?x] else ?x # patterns (drop (Suc p) pat))"
      using patterns_append [OF x, of "drop (Suc p) pat"] by simp
    then show ?thesis using 1 [OF Some refl] Some by (subst match_from.simps) (simp add: Let_def)
  qed
qed

lemma grouped_matchFuncs: "grouped cu \<Longrightarrow> grouped (matchFuncs img ob fmap pat cu)"
proof -
  have "grouped cu \<Longrightarrow> grouped (foldl (\<lambda>s p. matchFunc img ob fmap p s) cu ps)" for ps
    by (induction ps arbitrary: cu) (simp_all add: matchFunc_def grouped_match_found)
  then show "grouped cu \<Longrightarrow> grouped (matchFuncs img ob fmap pat cu)"
    by (simp add: matchFuncs_def match_from_patterns)
qed

lemma grouped_target_objs:
  "target_objs H wrap obs cu w = Inr (ok, cu', w') \<Longrightarrow> grouped cu \<Longrightarrow> grouped cu'"
proof (induction obs arbitrary: cu w)
  case (Cons ob obs)
  then show ?case by (auto simp: and_then_Inr grouped_matchFuncs split: if_splits)
qed simp

subsection \<open>The range of numbers\<close>

lemma range_fold:
  "foldl range_step (a, b) tfs = (mx, mn) \<Longrightarrow>
     a \<le> mx \<and> mn \<le> b \<and> (\<forall>tf \<in> set tfs. tf_index tf \<noteq> UINT_MAX \<longrightarrow> mn \<le> tf_index tf \<and> tf_index tf \<le> mx)"
proof (induction tfs arbitrary: a b)
  case (Cons tf tfs)
  obtain a' b' where s: "range_step (a, b) tf = (a', b')" by fastforce
  then have "a' \<le> mx \<and> mn \<le> b' \<and> (\<forall>tf \<in> set tfs. tf_index tf \<noteq> UINT_MAX \<longrightarrow> mn \<le> tf_index tf \<and> tf_index tf \<le> mx)"
    using Cons by simp
  moreover have "a \<le> a'" "b' \<le> b" "tf_index tf \<noteq> UINT_MAX \<Longrightarrow> tf_index tf \<le> a' \<and> b' \<le> tf_index tf"
    using s by (auto simp: range_step_def Let_def split: if_splits)
  ultimately show ?case by (auto intro: order_trans)
qed simp

lemma range_attained:
  "foldl range_step (a, b) tfs = (mx, mn) \<Longrightarrow>
     (mx = a \<or> mx \<in> tf_index ` set tfs) \<and> (mn = b \<or> mn \<in> tf_index ` set tfs)"
proof (induction tfs arbitrary: a b)
  case (Cons tf tfs)
  obtain a' b' where s: "range_step (a, b) tf = (a', b')" by fastforce
  then have "(mx = a' \<or> mx \<in> tf_index ` set tfs) \<and> (mn = b' \<or> mn \<in> tf_index ` set tfs)" using Cons by simp
  then show ?case using s by (auto simp: range_step_def Let_def split: if_splits)
qed simp

subsection \<open>What is inserted\<close>

text \<open>The functions that get probes, and the two calls each of them gets.\<close>

definition probed :: "image \<Rightarrow> target_func \<Rightarrow> bool" where
  "probed img tf \<longleftrightarrow> tf_is_user tf \<and> tf_index tf \<noteq> UINT_MAX
     \<and> entry_points img (tf_func tf) \<noteq> None \<and> exit_points img (tf_func tf) \<noteq> None"

definition probe_calls :: "image \<Rightarrow> func \<Rightarrow> func \<Rightarrow> target_func \<Rightarrow> bcall list" where
  "probe_calls img pre post tf =
     [Insert_snippet pre [Const_uint (tf_index tf)] (the (entry_points img (tf_func tf))) BPatch_callBefore,
      Insert_snippet post [Const_uint (tf_index tf)] (the (exit_points img (tf_func tf))) BPatch_callAfter]"

text \<open>What the instrumentation library leaves alone: inserting a snippet does not change where the
  entry and exit points of the functions are.\<close>

definition stable_points :: "host \<Rightarrow> bool" where
  "stable_points H \<longleftrightarrow>
     (\<forall>cs f as ps wh. entry_points (image_at H (cs @ [Insert_snippet f as ps wh])) = entry_points (image_at H cs)
        \<and> exit_points (image_at H (cs @ [Insert_snippet f as ps wh])) = exit_points (image_at H cs))"

lemma stable_points_two:
  assumes "stable_points H"
  shows "entry_points (image_at H (cs @ [Insert_snippet f as ps wh, Insert_snippet f' as' ps' wh'])) = entry_points (image_at H cs)"
    "exit_points (image_at H (cs @ [Insert_snippet f as ps wh, Insert_snippet f' as' ps' wh'])) = exit_points (image_at H cs)"
proof -
  have "cs @ [Insert_snippet f as ps wh, Insert_snippet f' as' ps' wh'] = (cs @ [Insert_snippet f as ps wh]) @ [Insert_snippet f' as' ps' wh']"
    by simp
  then show "entry_points (image_at H (cs @ [Insert_snippet f as ps wh, Insert_snippet f' as' ps' wh'])) = entry_points (image_at H cs)"
    "exit_points (image_at H (cs @ [Insert_snippet f as ps wh, Insert_snippet f' as' ps' wh'])) = exit_points (image_at H cs)"
    using assms unfolding stable_points_def by metis+
qed

lemma insert_targets_skipped:
  "\<not> probed (the_image H w) tf \<Longrightarrow> insert_targets H pre post (tf # tfs) w = insert_targets H pre post tfs w"
  by (auto simp: probed_def split: option.splits)

lemma insert_targets_probed:
  assumes "probed (the_image H w) tf" "probe_calls (the_image H w) pre post tf = [c1, c2]"
  shows "insert_targets H pre post (tf # tfs) w =
    (let (h1, w1) = perform H c1 w; (h2, w2) = perform H c2 w1
     in if h1 = 0 then (False, w1) else if h2 = 0 then (False, w2) else insert_targets H pre post tfs w2)"
  using assms by (auto simp: probed_def probe_calls_def case_prod_beta Let_def split: option.splits)

lemma insert_targets_effect:
  assumes st: "stable_points H"
  shows "insert_targets H pre post tfs w = (ok, w') \<Longrightarrow>
     (ok \<longrightarrow> calls w' = calls w @ concat (map (probe_calls (the_image H w) pre post) (filter (probed (the_image H w)) tfs)))
     \<and> (\<not> ok \<longrightarrow> (\<exists>cs c. calls w' = cs @ [c] \<and> answer H cs c = 0))"
proof (induction tfs arbitrary: w)
  case (Cons tf tfs)
  let ?img = "the_image H w"
  show ?case
  proof (cases "probed ?img tf")
    case False
    then show ?thesis using Cons insert_targets_skipped [OF False] by auto
  next
    case True
    obtain c1 c2 where c: "probe_calls ?img pre post tf = [c1, c2]" by (simp add: probe_calls_def)
    let ?w2 = "snd (perform H c2 (snd (perform H c1 w)))"
    have "probed (the_image H ?w2) = probed ?img" "probe_calls (the_image H ?w2) = probe_calls ?img"
      using c stable_points_two [OF st] by (auto simp: probed_def probe_calls_def fun_eq_iff)
    then show ?thesis using insert_targets_probed [OF True c] Cons.prems True c Cons.IH [of ?w2]
      by (auto simp: case_prod_beta Let_def split: if_splits)
  qed
qed simp

subsection \<open>Properties\<close>

text \<open>C36: the range handed to the probe's start-up function covers the numbers of all target
  functions: no target lies outside, and both ends are numbers of targets.\<close>

theorem init_range_covers_targets:
  assumes "buildInitArgs cu = (args, cu')" "\<exists>tf \<in> set (target_funcs cu). tf_index tf \<noteq> UINT_MAX"
  shows "\<exists>mn mx. args ! 2 = Const_uint mn \<and> args ! 3 = Const_uint mx \<and> target_funcs cu' = target_funcs cu
    \<and> (\<forall>tf \<in> set (target_funcs cu). tf_index tf \<noteq> UINT_MAX \<longrightarrow> mn \<le> tf_index tf \<and> tf_index tf \<le> mx)
    \<and> mn \<in> tf_index ` set (target_funcs cu) \<and> mx \<in> tf_index ` set (target_funcs cu)"
proof -
  obtain mx mn where f: "foldl range_step (0, UINT_MAX) (target_funcs cu) = (mx, mn)" by fastforce
  obtain tf where tf: "tf \<in> set (target_funcs cu)" "tf_index tf \<noteq> UINT_MAX" using assms(2) by blast
  then have le: "mn \<le> tf_index tf" "tf_index tf \<le> mx" using range_fold [OF f] by auto
  have "mn \<noteq> UINT_MAX" using le(1) tf(2) by (metis word_order.extremum_uniqueI)
  moreover have "mx = 0 \<Longrightarrow> mx = tf_index tf" using le(2) by (simp add: word_le_0_iff)
  ultimately have "mn \<in> tf_index ` set (target_funcs cu)" "mx \<in> tf_index ` set (target_funcs cu)"
    using range_attained [OF f] tf(1) by auto
  then show ?thesis
    using assms(1) range_fold [OF f] f by (auto simp: buildInitArgs_def calculateRange_def Let_def split: if_splits)
qed

theorem init_range_covers_targets_witness:
  "\<exists>mn mx. fst (buildInitArgs (addTargetFunc 1 7 ''app'' True (addTargetFunc 2 3 ''app'' True CountUtil))) ! 2 = Const_uint mn
     \<and> mn \<le> 3 \<and> (7::u32) \<le> mx"
  using init_range_covers_targets
    [of "addTargetFunc 1 7 ''app'' True (addTargetFunc 2 3 ''app'' True CountUtil)"
        "fst (buildInitArgs (addTargetFunc 1 7 ''app'' True (addTargetFunc 2 3 ''app'' True CountUtil)))"
        "snd (buildInitArgs (addTargetFunc 1 7 ''app'' True (addTargetFunc 2 3 ''app'' True CountUtil)))"]
  by (auto simp: addTargetFunc_def TargetFunc_def CountUtil_def)

text \<open>C35: the targets are grouped by ELF file: after the search for target functions each ELF name
  occurs once, in order, and holds exactly the positions of its targets in the vector, whether the
  search succeeded or not.\<close>

theorem getTargetFuncs_grouped:
  assumes "getTargetFuncs H wrap CountUtil w = Inr (ok, cu, w')"
  shows "sorted_wrt (<) (map fst (elf_targets cu))
    \<and> set (map fst (elf_targets cu)) = tf_elf ` set (target_funcs cu)
    \<and> (\<forall>(e, is) \<in> set (elf_targets cu). is = filter (\<lambda>i. tf_elf (target_funcs cu ! i) = e) [0..<length (target_funcs cu)])
    \<and> (ok \<longrightarrow> target_funcs cu \<noteq> [])"
proof -
  have "\<exists>ok. target_objs H wrap (getUserObjs (the_image H w)) CountUtil w = Inr (ok, cu, w')"
    using assms by (auto simp: getTargetFuncs_def and_then_Inr split: if_splits)
  then have "grouped cu" using grouped_target_objs grouped_fresh by blast
  then show ?thesis using assms
    by (auto simp: grouped_def positions_def getTargetFuncs_def and_then_Inr split: if_splits)
qed

theorem getTargetFuncs_grouped_witness:
  "\<exists>cu w'. getTargetFuncs small_host False CountUtil small_world = Inr (True, cu, w')
     \<and> sorted_wrt (<) (map fst (elf_targets cu)) \<and> target_funcs cu \<noteq> []"
proof -
  have "case getTargetFuncs small_host False CountUtil small_world of Inl _ \<Rightarrow> False | Inr (ok, cu, w') \<Rightarrow> ok"
    by code_simp
  then obtain cu w' where g: "getTargetFuncs small_host False CountUtil small_world = Inr (True, cu, w')"
    by (auto split: sum.splits)
  from getTargetFuncs_grouped [OF g] g show ?thesis by blast
qed

text \<open>C12: inserting the probes.  On success the calls made are, for each target function of the user
  that has a number and entry and exit points, in order, one entry probe before its entry points
  and one exit probe after its exit points, both with the function's number as argument; it fails
  only when the library refused the last of the calls it made.\<close>

theorem insertCount_calls:
  assumes "stable_points H" "insertCount H cu w = (ok, w')"
  shows "(ok \<longrightarrow> calls w' = calls w @ concat (map (probe_calls (the_image H w) (the (func_pre cu)) (the (func_post cu)))
                  (filter (probed (the_image H w)) (target_funcs cu))))
    \<and> (\<not> ok \<longrightarrow> (\<exists>cs c. calls w' = cs @ [c] \<and> answer H cs c = 0))"
  using insert_targets_effect [OF assms(1)] assms(2) by (simp add: insertCount_def)

theorem insertCount_calls_witness:
  "calls (snd (insertCount small_host (addTargetFunc 1 7 ''app'' True (CountUtil\<lparr>func_pre := Some 8, func_post := Some 9\<rparr>)) small_world))
     = [Insert_snippet 8 [Const_uint 7] [10] BPatch_callBefore, Insert_snippet 9 [Const_uint 7] [11, 12] BPatch_callAfter]"
proof -
  let ?cu = "addTargetFunc 1 7 ''app'' True (CountUtil\<lparr>func_pre := Some 8, func_post := Some 9\<rparr>)"
  have "stable_points small_host" by (simp add: stable_points_def small_host_def)
  moreover have "insertCount small_host ?cu small_world = (True, snd (insertCount small_host ?cu small_world))"
    by (simp add: insertCount_def addTargetFunc_def TargetFunc_def CountUtil_def small_defs perform_def Let_def)
  ultimately show ?thesis using insertCount_calls [of small_host ?cu small_world True]
    by (simp add: addTargetFunc_def TargetFunc_def CountUtil_def small_defs probed_def probe_calls_def)
qed

text \<open>The list of patterns of the option \<^verbatim>\<open>-f\<close>: matching it is matching its comma-separated parts
  one after the other, and an empty part behind a last comma does not count.\<close>

lemma matchFuncs_patterns:
  "matchFuncs img ob fmap pat cu = foldl (\<lambda>cu p. matchFunc img ob fmap p cu) cu (patterns pat)"
  by (simp add: matchFuncs_def match_from_patterns)

end
