(* ===== verification/Launch.thy ===== *)
theory Launch
  imports Count
begin

section \<open>Commands that start a target\<close>

text \<open>
  The commands \<^verbatim>\<open>prof\<close>, \<^verbatim>\<open>wrap\<close> and \<^verbatim>\<open>replace\<close> have the same shape: they parse the common options, create a
  process (or open the binary for editing when \<^verbatim>\<open>-w\<close> is given), look for the target functions,
  instrument them, and let the process run until it ends (or write the edited binary).  This
  theory holds what the three classes share: their fields, the option handler, the start of the
  target and the final step.  The constructors leave \<^verbatim>\<open>muttee_argv\<close> without a value, which the
  destructors then read: the model keeps the unset pointer apart from the null pointer.
\<close>

datatype target_mode = LPROFILE_MODE_PROC | LPROFILE_MODE_EDIT

datatype argv_ptr = Argv_unset | Argv_null | Argv "string list"

record mutatee_test =
  mode :: target_mode
  muttee_bin :: string
  edit_output :: string
  muttee_argv :: argv_ptr
  muttee_argc :: nat
  cnt :: count_util

definition mutatee_test_new :: mutatee_test where
  "mutatee_test_new =
     \<lparr>mode = LPROFILE_MODE_PROC, muttee_bin = [], edit_output = [], muttee_argv = Argv_unset, muttee_argc = 0,
      cnt = CountUtil\<rparr>"

text \<open>\<^verbatim>\<open>zfree\<close>: free the array unless the pointer is null.\<close>

definition zfree_argv :: "argv_ptr \<Rightarrow> fault + argv_ptr" where
  "zfree_argv p = (case p of Argv_unset \<Rightarrow> Inl Indeterminate_value | _ \<Rightarrow> Inr Argv_null)"

definition mutatee_option :: "char \<Rightarrow> string \<Rightarrow> mutatee_test \<Rightarrow> mutatee_test parse" where
  "mutatee_option c optarg t =
     (if c = CHR ''w'' then Proceed (t\<lparr>mode := LPROFILE_MODE_EDIT, edit_output := optarg\<rparr>)
      else if c = CHR ''h'' then Exit_program
      else (case parseOption c optarg (cnt t) of None \<Rightarrow> Reject t | Some cu \<Rightarrow> Proceed (t\<lparr>cnt := cu\<rparr>)))"

text \<open>The part of \<^verbatim>\<open>parseArgs\<close> behind the options, with the operands that are left: the program and its arguments.\<close>

definition mutatee_operands :: "host \<Rightarrow> string list \<Rightarrow> mutatee_test \<Rightarrow> mutatee_test parse" where
  "mutatee_operands H argv t0 =
     (let t = t0\<lparr>muttee_bin := argv ! 0\<rparr>
      in if \<not> can_execute H (muttee_bin t) then Reject t
         else if mode t = LPROFILE_MODE_EDIT then Proceed (t\<lparr>muttee_argv := Argv_null, muttee_argc := 0\<rparr>)
         else let t1 = t\<lparr>muttee_argc := length argv\<rparr>
              in if 0 < length argv
                 then (if \<not> can_alloc H (8 * (length argv + 1)) then Reject (t1\<lparr>muttee_argv := Argv_null\<rparr>)
                       else Proceed (t1\<lparr>muttee_argv := Argv argv\<rparr>))
                 else Proceed (t1\<lparr>muttee_argv := Argv_null\<rparr>))"

text \<open>The start of the target in \<^verbatim>\<open>init\<close>, and the search for target functions.\<close>

definition start_call :: "mutatee_test \<Rightarrow> fault + bcall" where
  "start_call t =
     (if mode t = LPROFILE_MODE_PROC
      then (case muttee_argv t of
              Argv_unset \<Rightarrow> Inl Indeterminate_value
            | Argv_null \<Rightarrow> Inr (Process_create (muttee_bin t) None)
            | Argv a \<Rightarrow> Inr (Process_create (muttee_bin t) (Some a)))
      else Inr (Open_binary (muttee_bin t)))"

definition start_target :: "host \<Rightarrow> bool \<Rightarrow> mutatee_test \<Rightarrow> world \<Rightarrow> fault + bool \<times> mutatee_test \<times> world" where
  "start_target H wrap t w =
     and_then (start_call t) (\<lambda>c.
       let (as, w1) = perform H c w
       in if as = 0 then Inr (False, t, w1)
          else and_then (getTargetFuncs H wrap (cnt t) w1) (\<lambda>(ok, cu, w2). Inr (ok, t\<lparr>cnt := cu\<rparr>, w2)))"

text \<open>\<^verbatim>\<open>while (!proc->isTerminated()) bpatch.waitForStatusChange();\<close>\<close>

partial_function (option) wait_terminated :: "host \<Rightarrow> world \<Rightarrow> world option" where
  "wait_terminated H w =
     (if is_terminated H (calls w) then Some w
      else wait_terminated H (snd (perform H Wait_for_status_change w)))"

definition run_or_write :: "host \<Rightarrow> mutatee_test \<Rightarrow> world \<Rightarrow> fault + bool \<times> mutatee_test \<times> world" where
  "run_or_write H t w =
     (if mode t = LPROFILE_MODE_PROC
      then and_then (or_endless (wait_terminated H (snd (perform H Continue_execution w)))) (\<lambda>w'. Inr (True, t, w'))
      else let (written, w') = perform H (Write_file (edit_output t)) w in Inr (written \<noteq> 0, t, w'))"

text \<open>The chains \<^verbatim>\<open>if (!step()) return false;\<close> of the \<^verbatim>\<open>process\<close> methods.\<close>

definition then_if ::
  "fault + bool \<times> 't \<times> world \<Rightarrow> ('t \<Rightarrow> world \<Rightarrow> fault + bool \<times> 't \<times> world) \<Rightarrow> fault + bool \<times> 't \<times> world" where
  "then_if m k = and_then m (\<lambda>(ok, t, w). if ok then k t w else Inr (False, t, w))"

lemma then_if_Inr:
  "then_if m k = Inr (ok, t, w) \<longleftrightarrow>
     \<not> ok \<and> m = Inr (False, t, w) \<or> (\<exists>t1 w1. m = Inr (True, t1, w1) \<and> k t1 w1 = Inr (ok, t, w))"
  by (auto simp: then_if_def and_then_Inr split: if_splits)

lemma then_ifE:
  assumes "then_if m k = Inr (ok, t, w)"
  obtains "\<not> ok" "m = Inr (False, t, w)" | t1 w1 where "m = Inr (True, t1, w1)" "k t1 w1 = Inr (ok, t, w)"
  using assms by (auto simp: then_if_Inr)

lemma then_if_Inl:
  "then_if m k = Inl f \<longleftrightarrow> m = Inl f \<or> (\<exists>t1 w1. m = Inr (True, t1, w1) \<and> k t1 w1 = Inl f)"
  by (auto simp: then_if_def and_then_Inl split: if_splits)

subsection \<open>Waiting for the end of the target\<close>

definition waited :: "nat \<Rightarrow> world \<Rightarrow> world" where
  "waited n w = w\<lparr>calls := calls w @ replicate n Wait_for_status_change\<rparr>"

lemma waited_0 [simp]: "waited 0 w = w"
  by (simp add: waited_def)

lemma waited_Suc: "waited (Suc n) w = waited n (snd (perform H Wait_for_status_change w))"
  by (simp add: waited_def perform_def)

text \<open>The loop ends at the first status change after which the process is gone.\<close>

lemma wait_terminated_ends:
  "is_terminated H (calls (waited n w)) \<Longrightarrow> (\<And>m. m < n \<Longrightarrow> \<not> is_terminated H (calls (waited m w)))
     \<Longrightarrow> wait_terminated H w = Some (waited n w)"
proof (induction n arbitrary: w)
  case 0
  then show ?case by (subst wait_terminated.simps) simp
next
  case (Suc n)
  let ?w = "snd (perform H Wait_for_status_change w)"
  have "wait_terminated H ?w = Some (waited n ?w)"
    using Suc.prems(1) Suc.prems(2) [OF Suc_mono]
    by (intro Suc.IH) (simp_all add: waited_Suc [where H = H])
  moreover have "\<not> is_terminated H (calls w)" using Suc.prems(2) [of 0] by simp
  ultimately show ?case by (subst wait_terminated.simps) (simp add: waited_Suc [where H = H])
qed

lemma wait_terminated_result:
  assumes "wait_terminated H w = Some w'"
  shows "is_terminated H (calls w') \<and> (\<exists>n. w' = waited n w)"
  using wait_terminated.raw_induct [of "\<lambda>H w w'. is_terminated H (calls w') \<and> (\<exists>n. w' = waited n w)" H w w']
proof (rule meta_mp)
  fix loop H w w'
  assume IH: "\<And>H w w'. loop H w = Some w' \<Longrightarrow> is_terminated H (calls w') \<and> (\<exists>n. w' = waited n w)"
    and run: "(if is_terminated H (calls w) then Some w else loop H (snd (perform H Wait_for_status_change w))) = Some w'"
  show "is_terminated H (calls w') \<and> (\<exists>n. w' = waited n w)"
  proof (cases "is_terminated H (calls w)")
    case True
    then show ?thesis using run by (auto intro: exI [of _ 0])
  next
    case False
    then show ?thesis using run IH by (metis waited_Suc)
  qed
qed (use assms in auto)

lemma wait_terminated_least:
  assumes "is_terminated H (calls (waited n w))"
  shows "\<exists>k \<le> n. wait_terminated H w = Some (waited k w)"
proof -
  let ?k = "LEAST k. is_terminated H (calls (waited k w))"
  have "wait_terminated H w = Some (waited ?k w)"
    using LeastI [of "\<lambda>k. is_terminated H (calls (waited k w))", OF assms]
    by (intro wait_terminated_ends) (auto dest: not_less_Least)
  then show ?thesis using Least_le [of "\<lambda>k. is_terminated H (calls (waited k w))", OF assms] by blast
qed

subsection \<open>What the shared steps do to the target\<close>

lemma generateWrapper_calls: "calls (snd (snd (generateWrapper H f i fm w))) = calls w"
  by (metis generateWrapper_keeps(5) prod.collapse)

lemma add_procedures_calls: "calls (snd (snd (add_procedures H fl fm w))) = calls w"
proof (induction fl arbitrary: fm w)
  case (Cons f fl)
  then show ?case by (simp add: case_prod_beta Let_def generateWrapper_calls)
qed simp

lemma add_modules_calls: "add_modules H i ms fm w = Inr (ok, fm', w') \<Longrightarrow> calls w' = calls w"
proof (induction ms arbitrary: i fm w)
  case (Cons m ms)
  let ?fl = "mod_procedures (the_image H w) m"
  let ?r = "add_procedures H (map (\<lambda>j. ?fl ! i) [0..<length ?fl]) fm w"
  have "add_modules H (Suc i) ms fm w = Inr (ok, fm', w') \<or> w' = snd (snd ?r)
      \<or> add_modules H (Suc i) ms (fst (snd ?r)) (snd (snd ?r)) = Inr (ok, fm', w')"
    using Cons.prems by (simp add: case_prod_beta Let_def split: if_splits)
  then show ?case using Cons.IH add_procedures_calls by metis
qed simp

lemma updateCache_calls: "calls (snd (updateCache H fm w)) = calls w"
  using build_dirs_keeps [of H FUNCMAP_DIR 0 w] by (simp add: updateCache_def buildDir_def case_prod_beta Let_def)

lemma list_elf_prepares:
  assumes "list_elf H fm w = Inr (ok, fm', w')" shows "prepares w w'"
proof (cases "fm_obj fm")
  case None
  let ?w1 = "snd (perform H (Open_binary (elf_path fm)) w)"
  have "w' = ?w1 \<or> (\<exists>fl. add_procedures H fl fm ?w1 = (ok, fm', w'))"
    using assms None by (auto simp: list_elf_def case_prod_beta Let_def split: if_splits option.splits)
  then have "calls w' = calls ?w1"
  proof (elim disjE exE)
    fix fl assume "add_procedures H fl fm ?w1 = (ok, fm', w')"
    then show ?thesis using add_procedures_calls [of H fl fm ?w1] by simp
  qed simp
  then show ?thesis by (simp add: prepares_def)
qed (use assms in \<open>auto simp: list_elf_def intro: prepares_same_calls dest: add_modules_calls\<close>)

lemma load_prepares:
  assumes "load H force fm w = Inr (ok, fm', w')" shows "prepares w w'"
proof -
  have "prepares w w'" if elf: "loadFromELF H fm w = Inr (ok, fm', w')"
  proof -
    obtain ok1 fm1 w1 where l: "list_elf H fm w = Inr (ok1, fm1, w1)" and "calls w' = calls w1"
      using elf updateCache_calls
      by (fastforce simp: loadFromELF_def and_then_Inr case_prod_beta Let_def split: if_splits)
    then show ?thesis using list_elf_prepares [OF l] prepares_same_calls prepares_trans by blast
  qed
  then show ?thesis using assms
    by (auto simp: load_def and_then_Inr split: if_splits cache_state.splits)
qed

lemma target_objs_prepares:
  "target_objs H wrap obs cu w = Inr (ok, cu', w') \<Longrightarrow> prepares w w'"
proof (induction obs arbitrary: cu w)
  case (Cons ob obs)
  then obtain ok1 fm w1 where "load H True (FuncMap_path (path_name (the_image H w) ob) wrap) w = Inr (ok1, fm, w1)"
    and "prepares w1 w'"
    by (fastforce simp: and_then_Inr split: if_splits)
  then show ?case using load_prepares prepares_trans by blast
qed simp

lemma getTargetFuncs_prepares: "getTargetFuncs H wrap cu w = Inr (ok, cu', w') \<Longrightarrow> prepares w w'"
  by (auto simp: getTargetFuncs_def and_then_Inr split: if_splits dest: target_objs_prepares)

lemma start_target_prepares:
  assumes "start_target H wrap t w = Inr (ok, t', w')" shows "prepares w w'"
proof -
  obtain c where c: "start_call t = Inr c"
    and "w' = snd (perform H c w) \<or> (\<exists>ok cu. getTargetFuncs H wrap (cnt t) (snd (perform H c w)) = Inr (ok, cu, w'))"
    using assms by (auto simp: start_target_def and_then_Inr case_prod_beta Let_def split: if_splits)
  moreover have "instrumenting c" using c by (auto simp: start_call_def split: if_splits argv_ptr.splits)
  ultimately show ?thesis using prepares_step [of c H w w'] getTargetFuncs_prepares by auto
qed

lemma loadFunctions_calls: "calls (snd (snd (loadFunctions H cu w))) = calls w @ [Load_library LIBCNT]"
  by (simp add: loadFunctions_def case_prod_beta Let_def)

lemma insert_targets_prepares: "insert_targets H pre post tfs w = (ok, w') \<Longrightarrow> prepares w w'"
proof (induction tfs arbitrary: w)
  case (Cons tf tfs)
  show ?case
  proof (cases "probed (the_image H w) tf")
    case False
    then show ?thesis using Cons insert_targets_skipped [OF False] by simp
  next
    case True
    obtain c1 c2 where c: "probe_calls (the_image H w) pre post tf = [c1, c2]" "instrumenting c1" "instrumenting c2"
      by (simp add: probe_calls_def)
    let ?w1 = "snd (perform H c1 w)" let ?w2 = "snd (perform H c2 ?w1)"
    have "prepares w ?w1" "prepares ?w1 ?w2" using c by (simp_all add: prepares_perform)
    moreover have "w' = ?w1 \<or> w' = ?w2 \<or> prepares ?w2 w'"
      using Cons insert_targets_probed [OF True c(1)] by (auto simp: case_prod_beta Let_def split: if_splits)
    ultimately show ?thesis using prepares_trans by blast
  qed
qed simp

lemma wrapFunction_prepares:
  assumes "wrapFunction H f wrap cu w = Inr (ok, w')" shows "prepares w w'"
proof -
  have "w' = w \<or> (\<exists>g h sy obs. w' = snd (perform H (Wrap_dyn_function g h sy obs) w))"
    using assms by (auto simp: wrapFunction_def and_then_Inr Let_def case_prod_beta split: if_splits option.splits)
  then show ?thesis by (auto intro: prepares_perform)
qed

lemma wrapPthreadFunc_prepares:
  assumes "wrapPthreadFunc H cu w = Inr (ok, w')" shows "prepares w w'"
proof -
  have "w' = w \<or> (\<exists>m k. wrapFunction H ''pthread_create'' (func_tinit cu) cu (snd (perform H (Write_variable m LIBTIDOFFSET k) w)) = Inr (ok, w'))"
    using assms by (auto simp: wrapPthreadFunc_def Let_def case_prod_beta split: if_splits option.splits list.splits)
  then show ?thesis using wrapFunction_prepares prepares_step [of "Write_variable _ _ _"] by (metis instrumenting_simps(9) prepares_refl)
qed

end
