(* ===== verification/Prof_Command.thy ===== *)
theory Prof_Command
  imports Launch
begin

section \<open>utils/prof.[ch]: the prof command\<close>

text \<open>
  The command creates the target process (or opens the binary), finds the target functions, loads the
  probe library, runs the probe's start-up function in the target, inserts the entry and exit probes
  and the shut-down call, wraps \<^verbatim>\<open>pthread_create\<close>, and lets the target run to its end (or writes the
  edited binary).  Inserting the calls of the start-up and shut-down functions registers the function
  they are attached to as a target without a number.
\<close>

definition ProfTest_new :: mutatee_test where
  "ProfTest_new = mutatee_test_new"

definition ProfTest_delete :: "mutatee_test \<Rightarrow> fault + unit" where
  "ProfTest_delete t =
     (if mode t = LPROFILE_MODE_PROC then and_then (zfree_argv (muttee_argv t)) (\<lambda>_. Inr ()) else Inr ())"

definition ProfTest_parseArgs :: "host \<Rightarrow> string list \<Rightarrow> mutatee_test \<Rightarrow> mutatee_test parse" where
  "ProfTest_parseArgs H args t =
     (let (opts, operands) = getopt_scan (getOptStr @ ''w:h'') args
      in parse_then (opt_loop mutatee_option opts t)
           (\<lambda>t'. if length operands = 0 then Reject t' else mutatee_operands H operands t'))"

definition ProfTest_init :: "host \<Rightarrow> mutatee_test \<Rightarrow> world \<Rightarrow> fault + bool \<times> mutatee_test \<times> world" where
  "ProfTest_init H t w = start_target H False t w"

definition findMainModule :: "image \<Rightarrow> modl option" where
  "findMainModule img =
     (let funcs = img_find_function img ''^main''
      in if length funcs = 0 then None else Some (func_module img (funcs ! 0)))"

text \<open>Attach a call to the module of a function and register the function: the end of a round of the
  loops in \<^verbatim>\<open>insertExit\<close> and \<^verbatim>\<open>insertInit\<close>.\<close>

definition attach_callback ::
  "host \<Rightarrow> bcall \<Rightarrow> func \<Rightarrow> string \<Rightarrow> count_util \<Rightarrow> world \<Rightarrow> bool \<times> count_util \<times> world" where
  "attach_callback H c f elf cu w =
     (let (handle, w1) = perform H c w
      in if handle = 0 then (False, cu, w1) else (True, addTargetFunc f UINT_MAX elf False cu, w1))"

definition fini_chosen :: "image \<Rightarrow> mutatee_test \<Rightarrow> modl option \<Rightarrow> func \<Rightarrow> bool" where
  "fini_chosen img t mainmod f \<longleftrightarrow>
     (let m = func_module img f
      in if mode t = LPROFILE_MODE_PROC \<and> Some m \<noteq> mainmod then False
         else if mode t = LPROFILE_MODE_EDIT
         then base_name (muttee_bin t) = obj_name img (mod_object img m)
         else True)"

definition insertExit :: "host \<Rightarrow> mutatee_test \<Rightarrow> world \<Rightarrow> fault + bool \<times> mutatee_test \<times> world" where
  "insertExit H t w =
     (case func_exit (cnt t) of
        None \<Rightarrow> Inl Null_pointer
      | Some fexit \<Rightarrow>
          let img = the_image H w;
              funcs = img_find_function img ''^_fini'';
              mainmod = (if mode t = LPROFILE_MODE_PROC then findMainModule img else None)
          in if mode t = LPROFILE_MODE_PROC \<and> mainmod = None then Inr (False, t, w)
             else (case List.find (fini_chosen img t mainmod) funcs of
                     None \<Rightarrow> Inr (True, t, w)
                   | Some f \<Rightarrow>
                       let m = func_module img f;
                           (ok, cu, w1) = attach_callback H (Insert_fini_callback m fexit []) f
                              (obj_name img (mod_object img m)) (cnt t) w
                       in Inr (ok, t\<lparr>cnt := cu\<rparr>, w1)))"

definition insertInit :: "host \<Rightarrow> mutatee_test \<Rightarrow> world \<Rightarrow> fault + bool \<times> mutatee_test \<times> world" where
  "insertInit H t0 w =
     (let (init_arg, cu0) = buildInitArgs (cnt t0); t = t0\<lparr>cnt := cu0\<rparr>
      in case func_init cu0 of
           None \<Rightarrow> Inl Null_pointer
         | Some finit \<Rightarrow>
             if mode t = LPROFILE_MODE_PROC
             then let (r, w1) = perform H (One_time_code finit init_arg) w
                  in Inr (r mod 2 ^ 32 = 0, t, w1)
             else let img = the_image H w; funcs = img_find_function img ''^_init''
                  in if length funcs = 0 then Inr (False, t, w)
                     else (case List.find (\<lambda>f. base_name (muttee_bin t) = obj_name img (mod_object img (func_module img f))) funcs of
                             None \<Rightarrow> Inr (True, t, w)
                           | Some f \<Rightarrow>
                               let m = func_module img f;
                                   (ok, cu, w1) = attach_callback H (Insert_init_callback m finit init_arg) f
                                      (obj_name img (mod_object img m)) (cnt t) w
                               in Inr (ok, t\<lparr>cnt := cu\<rparr>, w1)))"

text \<open>The steps of \<^verbatim>\<open>process\<close>: the last three, those after the start-up call, and all.\<close>

definition finish_profiling :: "host \<Rightarrow> mutatee_test \<Rightarrow> world \<Rightarrow> fault + bool \<times> mutatee_test \<times> world" where
  "finish_profiling H t0 w0 =
     then_if (insertExit H t0 w0) (\<lambda>t w.
     then_if (and_then (wrapPthreadFunc H (cnt t) w) (\<lambda>(ok, w'). Inr (ok, t, w'))) (\<lambda>t w.
     run_or_write H t w))"

definition insert_and_finish :: "host \<Rightarrow> mutatee_test \<Rightarrow> world \<Rightarrow> fault + bool \<times> mutatee_test \<times> world" where
  "insert_and_finish H t0 w0 =
     then_if (let (ok, w) = insertCount H (cnt t0) w0 in Inr (ok, t0, w)) (\<lambda>t w. finish_profiling H t w)"

definition ProfTest_process :: "host \<Rightarrow> mutatee_test \<Rightarrow> world \<Rightarrow> fault + bool \<times> mutatee_test \<times> world" where
  "ProfTest_process H t0 w0 =
     then_if (let (ok, cu, w) = loadFunctions H (cnt t0) w0 in Inr (ok, t0\<lparr>cnt := cu\<rparr>, w)) (\<lambda>t w.
     then_if (insertInit H t w) (\<lambda>t w.
     insert_and_finish H t w))"

subsection \<open>What each step keeps\<close>

lemma attach_callback_prepares: "instrumenting c \<Longrightarrow> prepares w (snd (snd (attach_callback H c f elf cu w)))"
  by (simp add: attach_callback_def case_prod_beta Let_def prepares_perform)

lemma buildInitArgs_keeps:
  assumes "buildInitArgs cu = (args, cu')"
  shows "func_init cu' = func_init cu" "func_tinit cu' = func_tinit cu" "func_exit cu' = func_exit cu"
    "libcnt cu' = libcnt cu" "func_pre cu' = func_pre cu" "func_post cu' = func_post cu" "target_funcs cu' = target_funcs cu"
  using assms by (auto simp: buildInitArgs_def calculateRange_def Let_def case_prod_beta split: if_splits)

lemma insertExit_prepares:
  "insertExit H t w = Inr (ok, t', w') \<Longrightarrow> prepares w w' \<and> mode t' = mode t"
  by (auto simp: insertExit_def Let_def case_prod_beta attach_callback_prepares split: if_splits option.splits)

lemma insertExit_keeps:
  assumes "insertExit H t w = Inr (ok, t', w')"
  shows "libcnt (cnt t') = libcnt (cnt t)" "func_tinit (cnt t') = func_tinit (cnt t)" "mode t' = mode t"
  using assms
  by (auto simp: insertExit_def Let_def attach_callback_def addTargetFunc_def case_prod_beta split: if_splits option.splits)

lemma insertInit_prepares:
  "insertInit H t w = Inr (ok, t', w') \<Longrightarrow> prepares w w' \<and> mode t' = mode t"
  by (auto simp: insertInit_def Let_def case_prod_beta attach_callback_prepares prepares_perform
      split: if_splits option.splits)

text \<open>In process mode the start-up function is run once, with the arguments built from the options and targets.\<close>

lemma insertInit_proc:
  assumes "mode t = LPROFILE_MODE_PROC" "func_init (cnt t) = Some finit"
  shows "insertInit H t w =
    Inr (fst (perform H (One_time_code finit (fst (buildInitArgs (cnt t)))) w) mod 2 ^ 32 = 0,
         t\<lparr>cnt := snd (buildInitArgs (cnt t))\<rparr>, snd (perform H (One_time_code finit (fst (buildInitArgs (cnt t)))) w))"
  using assms buildInitArgs_keeps(1) [of "cnt t" "fst (buildInitArgs (cnt t))" "snd (buildInitArgs (cnt t))"]
  by (simp add: insertInit_def case_prod_beta Let_def)

text \<open>A loaded library: all functions of the probe are known.\<close>

lemma loadFunctions_loaded:
  assumes "loadFunctions H cu w = (True, cu', w')"
  shows "\<exists>l. libcnt cu' = Some l" "\<exists>f. func_init cu' = Some f" "\<exists>f. func_exit cu' = Some f" "\<exists>f. func_tinit cu' = Some f"
    "target_funcs cu' = target_funcs cu"
  using assms by (auto simp: loadFunctions_def case_prod_beta Let_def split: if_splits)

lemma loadFunctions_keeps:
  "evlist (fst (snd (loadFunctions H cu w))) = evlist cu" "logfile (fst (snd (loadFunctions H cu w))) = logfile cu"
  "freq (fst (snd (loadFunctions H cu w))) = freq cu" "target_funcs (fst (snd (loadFunctions H cu w))) = target_funcs cu"
  by (simp_all add: loadFunctions_def case_prod_beta Let_def)

lemma buildInitArgs_cong:
  "evlist cu' = evlist cu \<Longrightarrow> logfile cu' = logfile cu \<Longrightarrow> freq cu' = freq cu \<Longrightarrow> target_funcs cu' = target_funcs cu
     \<Longrightarrow> fst (buildInitArgs cu') = fst (buildInitArgs cu)"
  by (simp add: buildInitArgs_def calculateRange_def Let_def case_prod_beta)

lemma run_or_write_proc:
  assumes "run_or_write H t w = Inr (ok, t', w')" "mode t = LPROFILE_MODE_PROC"
  shows "ok \<and> (\<exists>n. calls w' = calls w @ Continue_execution # replicate n Wait_for_status_change) \<and> is_terminated H (calls w')"
  using assms wait_terminated_result [of H "snd (perform H Continue_execution w)"]
  by (auto simp: run_or_write_def and_then_Inr or_endless_def waited_def split: option.splits)

text \<open>The outcome of the last steps in process mode: either the target was not let run, or the
  remaining instrumentation is followed by the run.\<close>

definition ran_after :: "host \<Rightarrow> world \<Rightarrow> bcall list \<Rightarrow> world \<Rightarrow> bool" where
  "ran_after H w ps w' \<longleftrightarrow>
     (\<exists>cs n. calls w' = calls w @ ps @ cs @ Continue_execution # replicate n Wait_for_status_change
        \<and> list_all instrumenting cs \<and> is_terminated H (calls w'))"

lemma ran_after_prepares:
  assumes "prepares w w1" "ran_after H w1 [] w'" shows "ran_after H w [] w'"
proof -
  obtain cs ds n where "calls w1 = calls w @ cs" "list_all instrumenting (cs @ ds)" "is_terminated H (calls w')"
    "calls w' = calls w1 @ ds @ Continue_execution # replicate n Wait_for_status_change"
    using assms by (auto simp: prepares_def ran_after_def)
  then show ?thesis unfolding ran_after_def by (intro exI [of _ "cs @ ds"] exI [of _ n]) simp
qed

lemma finish_profiling_outcome:
  assumes "finish_profiling H t w = Inr (ok, t', w')" "mode t = LPROFILE_MODE_PROC"
  shows "(\<not> ok \<longrightarrow> prepares w w') \<and> (ok \<longrightarrow> ran_after H w [] w')"
proof -
  have "then_if (insertExit H t w) (\<lambda>t w. then_if (and_then (wrapPthreadFunc H (cnt t) w) (\<lambda>(ok, w'). Inr (ok, t, w')))
      (\<lambda>t w. run_or_write H t w)) = Inr (ok, t', w')" using assms(1) by (simp add: finish_profiling_def)
  then show ?thesis
  proof (cases rule: then_ifE)
    case 1
    then show ?thesis using insertExit_prepares by blast
  next
    case (2 t1 w1)
    have w1: "prepares w w1" "mode t1 = mode t" using insertExit_prepares [OF 2(1)] by auto
    from 2(2) show ?thesis
    proof (cases rule: then_ifE)
      case 1
      then have "prepares w1 w'" by (auto simp: and_then_Inr dest: wrapPthreadFunc_prepares)
      then show ?thesis using 1(1) w1 prepares_trans by blast
    next
      case (2 t2 w2)
      then have w2: "prepares w1 w2" "t2 = t1" by (auto simp: and_then_Inr dest: wrapPthreadFunc_prepares)
      have "ok \<and> ran_after H w2 [] w'"
        using run_or_write_proc [OF 2(2)] w1(2) w2(2) assms(2) by (auto simp: ran_after_def intro: exI [of _ "[]"])
      then show ?thesis using w1(1) w2(1) ran_after_prepares prepares_trans by blast
    qed
  qed
qed

lemma insert_and_finish_outcome:
  assumes "insert_and_finish H t w = Inr (ok, t', w')" "mode t = LPROFILE_MODE_PROC" "stable_points H"
  shows "(\<not> ok \<longrightarrow> prepares w w')
    \<and> (ok \<longrightarrow> ran_after H w (concat (map (probe_calls (the_image H w) (the (func_pre (cnt t))) (the (func_post (cnt t))))
                                 (filter (probed (the_image H w)) (target_funcs (cnt t))))) w')"
proof -
  obtain ins w1 where ic: "insertCount H (cnt t) w = (ins, w1)" by fastforce
  then have w1: "prepares w w1" using insert_targets_prepares by (simp add: insertCount_def)
  have "then_if (Inr (ins, t, w1)) (\<lambda>t w. finish_profiling H t w) = Inr (ok, t', w')"
    using assms(1) ic by (simp add: insert_and_finish_def)
  then show ?thesis
  proof (cases rule: then_ifE)
    case 1
    then show ?thesis using w1 by simp
  next
    case (2 t1 w2)
    then have "finish_profiling H t w1 = Inr (ok, t', w')" "ins" by auto
    note fin = finish_profiling_outcome [OF this(1) assms(2)]
    have "calls w1 = calls w @ concat (map (probe_calls (the_image H w) (the (func_pre (cnt t))) (the (func_post (cnt t))))
                                 (filter (probed (the_image H w)) (target_funcs (cnt t))))"
      using insert_targets_effect [OF assms(3)] ic \<open>ins\<close> by (simp add: insertCount_def)
    then show ?thesis using fin w1 prepares_trans by (auto simp: ran_after_def)
  qed
qed

text \<open>With the functions of the probe loaded, no step runs into a fault, and waiting ends when the target does.\<close>

definition loaded :: "count_util \<Rightarrow> bool" where
  "loaded cu \<longleftrightarrow> libcnt cu \<noteq> None \<and> func_init cu \<noteq> None \<and> func_exit cu \<noteq> None \<and> func_tinit cu \<noteq> None"

lemma insertInit_total: "loaded (cnt t) \<Longrightarrow> insertInit H t w \<noteq> Inl f"
  using buildInitArgs_keeps(1) [of "cnt t" "fst (buildInitArgs (cnt t))" "snd (buildInitArgs (cnt t))"]
  by (auto simp: insertInit_def loaded_def case_prod_beta Let_def split: if_splits option.splits)

lemma insertInit_loaded: "insertInit H t w = Inr (ok, t', w') \<Longrightarrow> loaded (cnt t) \<Longrightarrow> loaded (cnt t')"
  using buildInitArgs_keeps [of "cnt t" "fst (buildInitArgs (cnt t))" "snd (buildInitArgs (cnt t))"]
  by (auto simp: insertInit_def loaded_def attach_callback_def addTargetFunc_def case_prod_beta Let_def
      split: if_splits option.splits)

lemma insertExit_total: "loaded (cnt t) \<Longrightarrow> insertExit H t w \<noteq> Inl f"
  by (auto simp: insertExit_def loaded_def case_prod_beta Let_def split: if_splits option.splits)

lemma wrapPthreadFunc_total:
  "libcnt cu \<noteq> None \<Longrightarrow> func_tinit cu \<noteq> None \<Longrightarrow> (\<And>cs ob. obj_modules (image_at H cs) ob \<noteq> [])
     \<Longrightarrow> wrapPthreadFunc H cu w \<noteq> Inl f"
  by (auto simp: wrapPthreadFunc_def wrapFunction_def case_prod_beta Let_def split: if_splits option.splits list.splits)

lemma run_or_write_total:
  assumes "\<And>cs. \<exists>n. is_terminated H (cs @ replicate n Wait_for_status_change)"
  shows "run_or_write H t w \<noteq> Inl f"
proof -
  obtain n where "is_terminated H (calls (waited n (snd (perform H Continue_execution w))))"
    using assms [of "calls w @ [Continue_execution]"] by (auto simp: waited_def)
  from wait_terminated_least [OF this] show ?thesis
    by (auto simp: run_or_write_def case_prod_beta Let_def)
qed

lemma finish_profiling_total:
  assumes "\<And>cs. \<exists>n. is_terminated H (cs @ replicate n Wait_for_status_change)"
    and "\<And>cs ob. obj_modules (image_at H cs) ob \<noteq> []" and "loaded (cnt t)"
  shows "finish_profiling H t w \<noteq> Inl f"
proof
  assume "finish_profiling H t w = Inl f"
  then obtain t1 w1 where e: "insertExit H t w = Inr (True, t1, w1)"
    and "then_if (and_then (wrapPthreadFunc H (cnt t1) w1) (\<lambda>(ok, w'). Inr (ok, t1, w'))) (\<lambda>t w. run_or_write H t w) = Inl f"
    using insertExit_total [OF assms(3)] by (auto simp: finish_profiling_def then_if_Inl)
  then have "wrapPthreadFunc H (cnt t1) w1 = Inl f"
    using run_or_write_total [OF assms(1)] by (auto simp: then_if_Inl and_then_Inl)
  moreover have "libcnt (cnt t1) \<noteq> None" "func_tinit (cnt t1) \<noteq> None"
    using insertExit_keeps(1,2) [OF e] assms(3) by (simp_all add: loaded_def)
  ultimately show False using wrapPthreadFunc_total [OF _ _ assms(2)] by blast
qed

subsection \<open>Properties\<close>


lemma small_wait: "Wait_for_status_change \<notin> set (calls w) \<Longrightarrow> wait_terminated small_host w = Some (waited 2 w)"
proof -
  assume "Wait_for_status_change \<notin> set (calls w)"
  then have "filter (\<lambda>c. c = Wait_for_status_change) (calls w) = []" by (auto simp: filter_empty_conv)
  then show ?thesis by (intro wait_terminated_ends) (auto simp: small_host_simps waited_def)
qed


text \<open>C21: the command ends when its target does.  If every process that is let run ends after some
  number of status changes, and every loaded object has a module, the command returns: it neither
  waits forever nor runs into a fault.\<close>

theorem prof_process_returns:
  assumes ends: "\<And>cs. \<exists>n. is_terminated H (cs @ replicate n Wait_for_status_change)"
    and mods: "\<And>cs ob. obj_modules (image_at H cs) ob \<noteq> []"
  shows "\<exists>ok t' w'. ProfTest_process H t w = Inr (ok, t', w')"
proof (cases "ProfTest_process H t w")
  case (Inl f)
  obtain ld cu w1 where l: "loadFunctions H (cnt t) w = (ld, cu, w1)" by (metis prod_cases3)
  then have ld: "ld" and i: "then_if (insertInit H (t\<lparr>cnt := cu\<rparr>) w1) (\<lambda>t w. insert_and_finish H t w) = Inl f"
    using Inl by (auto simp: ProfTest_process_def then_if_def split: if_splits)
  then have cu: "loaded (cnt (t\<lparr>cnt := cu\<rparr>))" using loadFunctions_loaded l by (auto simp: loaded_def)
  then obtain t2 w2 where "insertInit H (t\<lparr>cnt := cu\<rparr>) w1 = Inr (True, t2, w2)" "insert_and_finish H t2 w2 = Inl f"
    using i insertInit_total by (auto simp: then_if_Inl)
  then obtain w3 where "loaded (cnt t2)" "finish_profiling H t2 w3 = Inl f"
    using insertInit_loaded cu by (auto simp: insert_and_finish_def then_if_Inl case_prod_beta)
  then have False using finish_profiling_total [OF ends mods] by blast
  then show ?thesis ..
qed auto

theorem prof_process_returns_witness:
  "\<exists>ok t' w'. ProfTest_process small_host ProfTest_new small_world = Inr (ok, t', w')"
proof (rule prof_process_returns)
  show "\<exists>n. is_terminated small_host (cs @ replicate n Wait_for_status_change)" for cs
    by (intro exI [of _ 2]) (simp add: small_host_def numeral_2_eq_2)
qed (simp add: small_host_def small_image_def)

end
