(* ===== verification/Tracer_Command.thy ===== *)
theory Tracer_Command
  imports Prof_Command
begin

section \<open>utils/tracer.[ch]: the tracer command\<close>

text \<open>
  The command attaches to a running process, instruments it as \<^verbatim>\<open>prof\<close> does (without wrapping thread creation),
  lets it run to its end, and at the end removes the instrumentation and detaches if the process
  is still there.  The argument of \<^verbatim>\<open>-p\<close> is printed into a buffer of 64 bytes: a longer argument is
  written past its end, a fault of the model.
\<close>

record tracer_test =
  pid :: int
  attached :: bool
  tr_cnt :: count_util

definition TracerTest_new :: tracer_test where
  "TracerTest_new = \<lparr>pid = - 1, attached = False, tr_cnt = CountUtil\<rparr>"

definition TracerTest_option :: "world \<Rightarrow> char \<Rightarrow> string \<Rightarrow> tracer_test \<Rightarrow> tracer_test parse" where
  "TracerTest_option w c optarg t =
     (if c = CHR ''p'' then
        (let buf = ''/proc/'' @ optarg
         in if 64 < length buf + 1 then Crash Out_of_bounds
            else if \<not> path_exists w buf then Reject t
            else Proceed (t\<lparr>pid := atoi optarg\<rparr>))
      else if c = CHR ''h'' then Exit_program
      else (case parseOption c optarg (tr_cnt t) of None \<Rightarrow> Reject t | Some cu \<Rightarrow> Proceed (t\<lparr>tr_cnt := cu\<rparr>)))"

definition TracerTest_parseArgs :: "world \<Rightarrow> string list \<Rightarrow> tracer_test \<Rightarrow> tracer_test parse" where
  "TracerTest_parseArgs w args t =
     parse_then (opt_loop (TracerTest_option w) (fst (getopt_scan (getOptStr @ ''p:h'') args)) t)
       (\<lambda>t'. if pid t' = - 1 then Reject t' else Proceed t')"

definition TracerTest_init :: "host \<Rightarrow> tracer_test \<Rightarrow> world \<Rightarrow> fault + bool \<times> tracer_test \<times> world" where
  "TracerTest_init H t w =
     (let (p, w1) = perform H (Process_attach (pid t)) w
      in if p = 0 then Inr (False, t\<lparr>attached := False\<rparr>, w1)
         else and_then (getTargetFuncs H False (tr_cnt t) w1)
                (\<lambda>(ok, cu, w2). Inr (ok, t\<lparr>attached := True, tr_cnt := cu\<rparr>, w2)))"

definition callInit :: "host \<Rightarrow> tracer_test \<Rightarrow> world \<Rightarrow> fault + bool \<times> tracer_test \<times> world" where
  "callInit H t w =
     (let (init_arg, cu) = buildInitArgs (tr_cnt t)
      in case func_init cu of
           None \<Rightarrow> Inl Null_pointer
         | Some finit \<Rightarrow>
             let (r, w1) = perform H (One_time_code finit init_arg) w
             in Inr (r mod 2 ^ 32 = 0, t\<lparr>tr_cnt := cu\<rparr>, w1))"

definition TracerTest_insertExit :: "host \<Rightarrow> tracer_test \<Rightarrow> world \<Rightarrow> fault + bool \<times> tracer_test \<times> world" where
  "TracerTest_insertExit H t w =
     (case func_exit (tr_cnt t) of
        None \<Rightarrow> Inl Null_pointer
      | Some fexit \<Rightarrow>
          let img = the_image H w; funcs = img_find_function img ''^_fini''
          in case findMainModule img of
               None \<Rightarrow> Inr (False, t, w)
             | Some mainmod \<Rightarrow>
                 (case List.find (\<lambda>f. func_module img f = mainmod) funcs of
                    None \<Rightarrow> Inr (True, t, w)
                  | Some f \<Rightarrow>
                      let (ok, cu, w1) = attach_callback H (Insert_fini_callback (func_module img f) fexit []) f
                             (obj_name img (mod_object img (func_module img f))) (tr_cnt t) w
                      in Inr (ok, t\<lparr>tr_cnt := cu\<rparr>, w1)))"

definition run_tracee :: "host \<Rightarrow> tracer_test \<Rightarrow> world \<Rightarrow> fault + bool \<times> tracer_test \<times> world" where
  "run_tracee H t w =
     (let (running, w1) = perform H Continue_execution w
      in if running = 0 then Inr (False, t, w1)
         else and_then (or_endless (wait_terminated H w1)) (\<lambda>w2. Inr (True, t, w2)))"

definition TracerTest_process :: "host \<Rightarrow> tracer_test \<Rightarrow> world \<Rightarrow> fault + bool \<times> tracer_test \<times> world" where
  "TracerTest_process H t0 w0 =
     then_if (let (ok, cu, w) = loadFunctions H (tr_cnt t0) w0 in Inr (ok, t0\<lparr>tr_cnt := cu\<rparr>, w)) (\<lambda>t w.
     then_if (callInit H t w) (\<lambda>t w.
     then_if (let (ok, w') = insertCount H (tr_cnt t) w in Inr (ok, t, w')) (\<lambda>t w.
     then_if (TracerTest_insertExit H t w) (\<lambda>t w.
     run_tracee H t w))))"

text \<open>\<^verbatim>\<open>while (!proc->isStopped()) proc->stopExecution();\<close>\<close>

partial_function (option) wait_stopped :: "host \<Rightarrow> world \<Rightarrow> world option" where
  "wait_stopped H w =
     (if is_stopped H (calls w) then Some w else wait_stopped H (snd (perform H Stop_execution w)))"

definition clearSnippets :: "host \<Rightarrow> tracer_test \<Rightarrow> world \<Rightarrow> fault + world" where
  "clearSnippets H t w =
     (if is_terminated H (calls w) then Inr w
      else and_then (or_endless (wait_stopped H w)) (\<lambda>w1. Inr (clearSnippet H (tr_cnt t) w1)))"

definition TracerTest_destroy :: "host \<Rightarrow> tracer_test \<Rightarrow> world \<Rightarrow> fault + tracer_test \<times> world" where
  "TracerTest_destroy H t w =
     (if \<not> attached t \<or> is_terminated H (calls w) then Inr (t, w)
      else and_then (clearSnippets H t w) (\<lambda>w1. Inr (t, snd (perform H (Detach True) w1))))"

subsection \<open>Letting go of the tracee\<close>

definition stopping :: "nat \<Rightarrow> world \<Rightarrow> world" where
  "stopping n w = w\<lparr>calls := calls w @ replicate n Stop_execution\<rparr>"

lemma stopping_Suc: "stopping (Suc n) w = stopping n (snd (perform H Stop_execution w))"
  by (simp add: stopping_def perform_def)

lemma wait_stopped_ends:
  "is_stopped H (calls (stopping n w)) \<Longrightarrow> (\<And>m. m < n \<Longrightarrow> \<not> is_stopped H (calls (stopping m w)))
     \<Longrightarrow> wait_stopped H w = Some (stopping n w)"
proof (induction n arbitrary: w)
  case 0
  then show ?case by (subst wait_stopped.simps) (simp add: stopping_def)
next
  case (Suc n)
  let ?w = "snd (perform H Stop_execution w)"
  have "wait_stopped H ?w = Some (stopping n ?w)"
    using Suc.prems(1) Suc.prems(2) [OF Suc_mono]
    by (intro Suc.IH) (simp_all add: stopping_Suc [where H = H])
  moreover have "\<not> is_stopped H (calls w)" using Suc.prems(2) [of 0] by (simp add: stopping_def)
  ultimately show ?case by (subst wait_stopped.simps) (simp add: stopping_Suc [where H = H])
qed

lemma clear_targets_calls:
  "calls (clear_targets H tfs w) = calls w @ map (\<lambda>tf. Remove_instrumentation (tf_func tf)) tfs"
  by (induction tfs arbitrary: w) simp_all

text \<open>Letting go of the tracee.  If the process is there and can be stopped, the command stops it,
  removes the instrumentation of every target function and then detaches, in this order; a process that is
  gone, or was never attached, is left alone.\<close>

lemma tracer_destroy_detaches:
  assumes "\<And>cs. \<exists>n. is_stopped H (cs @ replicate n Stop_execution)"
  shows "\<exists>t' w' n. TracerTest_destroy H t w = Inr (t', w')
    \<and> calls w' = (if \<not> attached t \<or> is_terminated H (calls w) then calls w
                   else calls w @ replicate n Stop_execution
                     @ map (\<lambda>tf. Remove_instrumentation (tf_func tf)) (target_funcs (tr_cnt t)) @ [Detach True])"
proof (cases "\<not> attached t \<or> is_terminated H (calls w)")
  case False
  let ?n = "LEAST n. is_stopped H (calls (stopping n w))"
  have "\<exists>n. is_stopped H (calls (stopping n w))" using assms [of "calls w"] by (simp add: stopping_def)
  then have "wait_stopped H w = Some (stopping ?n w)"
    by (intro wait_stopped_ends) (auto intro: LeastI dest: not_less_Least)
  then have "TracerTest_destroy H t w
      = Inr (t, snd (perform H (Detach True) (clearSnippet H (tr_cnt t) (stopping ?n w))))"
    using False by (simp add: TracerTest_destroy_def clearSnippets_def)
  moreover have "calls (snd (perform H (Detach True) (clearSnippet H (tr_cnt t) (stopping ?n w)))) = calls w @ replicate ?n Stop_execution
      @ map (\<lambda>tf. Remove_instrumentation (tf_func tf)) (target_funcs (tr_cnt t)) @ [Detach True]"
    by (simp add: clearSnippet_def clear_targets_calls stopping_def)
  ultimately show ?thesis using False by auto
qed (simp add: TracerTest_destroy_def)

lemma tracer_destroy_detaches_example:
  "\<exists>t' w' n. TracerTest_destroy small_host (TracerTest_new\<lparr>attached := True\<rparr>) small_world = Inr (t', w')
     \<and> calls w' = replicate n Stop_execution @ [Detach True]"
proof -
  have "\<exists>n. is_stopped small_host (cs @ replicate n Stop_execution)" for cs by (simp add: small_host_simps)
  from tracer_destroy_detaches [of small_host, OF this, of "TracerTest_new\<lparr>attached := True\<rparr>" small_world]
  show ?thesis by (simp add: TracerTest_new_def CountUtil_def small_world_def small_host_simps)
qed

end
