(* ===== verification/Wrap_Commands.thy ===== *)
theory Wrap_Commands
  imports Tracer_Command
begin

section \<open>utils/wrap.[ch], utils/replace.[ch] and utils/simple.[ch]\<close>

text \<open>
  The commands \<^verbatim>\<open>wrap\<close> and \<^verbatim>\<open>replace\<close> load, for every ELF file with target functions, the wrapper library that
  the function map compiled for it, and redirect each target to its wrapper: \<^verbatim>\<open>wrap\<close> exchanges the
  function, \<^verbatim>\<open>replace\<close> exchanges the calls of the function and then the wrapper's call of the hook.
  Both report success whatever happened to the single functions.  The command \<^verbatim>\<open>simple\<close> lists the
  functions of a fixed program.
\<close>

definition WrapTest_new :: mutatee_test where
  "WrapTest_new = mutatee_test_new"

definition WrapTest_delete :: "mutatee_test \<Rightarrow> fault + unit" where
  "WrapTest_delete t = and_then (zfree_argv (muttee_argv t)) (\<lambda>_. Inr ())"

text \<open>Without an operand \<^verbatim>\<open>argv[0]\<close> is the null pointer that ends the array.\<close>

definition WrapTest_parseArgs :: "host \<Rightarrow> string list \<Rightarrow> mutatee_test \<Rightarrow> mutatee_test parse" where
  "WrapTest_parseArgs H args t =
     (let (opts, operands) = getopt_scan (getOptStr @ ''w:h'') args
      in parse_then (opt_loop mutatee_option opts t)
           (\<lambda>t'. if operands = [] then Crash Null_pointer else mutatee_operands H operands t'))"

definition WrapTest_init :: "host \<Rightarrow> mutatee_test \<Rightarrow> world \<Rightarrow> fault + bool \<times> mutatee_test \<times> world" where
  "WrapTest_init H t w = start_target H True t w"

definition WrapTest_findHookSymbol :: "image \<Rightarrow> func \<Rightarrow> u32 \<Rightarrow> symbol option" where
  "WrapTest_findHookSymbol img func_wrap index =
     (if \<not> from_symtab img func_wrap then None
      else find_symbol img func_wrap (getWrapSymbolName index FUNCMAP_SYMBOL_HOOK))"

definition WrapTest_handleFunction :: "host \<Rightarrow> obj \<Rightarrow> target_func \<Rightarrow> world \<Rightarrow> world" where
  "WrapTest_handleFunction H libwrap tf w =
     (let img = the_image H w
      in case findFunction img libwrap (getWrapSymbolName (tf_index tf) FUNCMAP_SYMBOL_WRAP) of
           None \<Rightarrow> w
         | Some func_wrap \<Rightarrow>
             (case WrapTest_findHookSymbol img func_wrap (tf_index tf) of
                None \<Rightarrow> w
              | Some hook_sym \<Rightarrow> snd (perform H (Wrap_function (tf_func tf) func_wrap hook_sym) w)))"

definition handle_elf ::
  "(obj \<Rightarrow> target_func \<Rightarrow> world \<Rightarrow> world) \<Rightarrow> host \<Rightarrow> target_func list \<Rightarrow> string \<times> nat list \<Rightarrow> world \<Rightarrow> world" where
  "handle_elf handle H tfs target w =
     (let (libwrap, w1) = perform H (Load_library (getWrapFilePath (fst target) FUNCMAP_FILE_LIB)) w
      in if libwrap = 0 then w1 else fold (\<lambda>i. handle libwrap (tfs ! i)) (snd target) w1)"

definition WrapTest_handleElf :: "host \<Rightarrow> target_func list \<Rightarrow> string \<times> nat list \<Rightarrow> world \<Rightarrow> world" where
  "WrapTest_handleElf H = handle_elf (WrapTest_handleFunction H) H"

definition WrapTest_process :: "host \<Rightarrow> mutatee_test \<Rightarrow> world \<Rightarrow> fault + bool \<times> mutatee_test \<times> world" where
  "WrapTest_process H t w =
     (let (lib, w1) = perform H (Load_library LIBCNT) w
      in if lib = 0 then Inr (False, t, w1)
         else run_or_write H t (fold (WrapTest_handleElf H (target_funcs (cnt t))) (elf_targets (cnt t)) w1))"

subsection \<open>The replace command\<close>

definition ReplaceTest_new :: mutatee_test where
  "ReplaceTest_new = mutatee_test_new"

definition ReplaceTest_delete :: "mutatee_test \<Rightarrow> fault + unit" where
  "ReplaceTest_delete t = and_then (zfree_argv (muttee_argv t)) (\<lambda>_. Inr ())"

definition ReplaceTest_parseArgs :: "host \<Rightarrow> string list \<Rightarrow> mutatee_test \<Rightarrow> mutatee_test parse" where
  "ReplaceTest_parseArgs H args t =
     (let (opts, operands) = getopt_scan (getOptStr @ ''w:h'') args
      in parse_then (opt_loop mutatee_option opts t)
           (\<lambda>t'. if operands = [] then Crash Null_pointer else mutatee_operands H operands t'))"

definition ReplaceTest_init :: "host \<Rightarrow> mutatee_test \<Rightarrow> world \<Rightarrow> fault + bool \<times> mutatee_test \<times> world" where
  "ReplaceTest_init H t w = start_target H True t w"

fun replace_calls :: "host \<Rightarrow> func \<Rightarrow> point list \<Rightarrow> world \<Rightarrow> bool \<times> world" where
  "replace_calls H f [] w = (True, w)"
| "replace_calls H f (p # ps) w =
     (let (r, w1) = perform H (Replace_function_call p f) w
      in if r = 0 then (False, w1) else replace_calls H f ps w1)"

definition ReplaceTest_handleFunction :: "host \<Rightarrow> obj \<Rightarrow> target_func \<Rightarrow> world \<Rightarrow> world" where
  "ReplaceTest_handleFunction H libwrap tf w =
     (case findFunction (the_image H w) libwrap (getWrapSymbolName (tf_index tf) FUNCMAP_SYMBOL_WRAP) of
        None \<Rightarrow> w
      | Some func_wrap \<Rightarrow>
          let (ok, w1) = replace_calls H func_wrap (caller_points (the_image H w) (tf_func tf)) w
          in if \<not> ok then w1
             else (case List.find (\<lambda>p. called_function (the_image H w1) p = None) (call_points (the_image H w1) func_wrap) of
                     None \<Rightarrow> w1
                   | Some hook_point \<Rightarrow> snd (perform H (Replace_function_call hook_point (tf_func tf)) w1)))"

definition ReplaceTest_handleElf :: "host \<Rightarrow> target_func list \<Rightarrow> string \<times> nat list \<Rightarrow> world \<Rightarrow> world" where
  "ReplaceTest_handleElf H = handle_elf (ReplaceTest_handleFunction H) H"

definition ReplaceTest_process :: "host \<Rightarrow> mutatee_test \<Rightarrow> world \<Rightarrow> fault + bool \<times> mutatee_test \<times> world" where
  "ReplaceTest_process H t w =
     (let (lib, w1) = perform H (Load_library LIBCNT) w
      in if lib = 0 then Inr (False, t, w1)
         else run_or_write H t (fold (ReplaceTest_handleElf H (target_funcs (cnt t))) (elf_targets (cnt t)) w1))"

subsection \<open>The simple command\<close>

definition SIMPLE_MUTTEE :: string where "SIMPLE_MUTTEE = ''/home/jiaru/vpp/vpp''"
definition SIMPLE_FUNC :: string where "SIMPLE_FUNC = ''acl_in_l2_ip4_node_fn_avx2''"

record simple_test =
  targets :: "(func \<times> obj \<times> u32 \<times> bool) list"

definition SimpleTest_new :: simple_test where
  "SimpleTest_new = \<lparr>targets = []\<rparr>"

definition syslib :: "string list" where
  "syslib = [''libc.so'', ''libdl.so'', ''libpthread.so'']"

definition SimpleTest_isSystemLib :: "image \<Rightarrow> obj \<Rightarrow> bool" where
  "SimpleTest_isSystemLib img ob \<longleftrightarrow>
     (if is_system_lib img ob then True else list_ex (starts_with (obj_name img ob)) syslib)"

text \<open>The names it logs; the statements that would fill \<^verbatim>\<open>targets\<close> are commented out.\<close>

definition findTarget :: "image \<Rightarrow> string \<Rightarrow> string list \<times> simple_test \<Rightarrow> string list \<times> simple_test" where
  "findTarget img targ logged =
     (fst logged @ concat (map (\<lambda>m. if SimpleTest_isSystemLib img (mod_object img m) then []
                                     else map (func_name img) (mod_procedures img m)) (img_modules img)), snd logged)"

definition findTargets :: "image \<Rightarrow> simple_test \<Rightarrow> bool \<times> string list \<times> simple_test" where
  "findTargets img t =
     (let (logged, t') = match_from (findTarget img) SIMPLE_FUNC 0 ([], t)
      in (length (targets t') \<noteq> 0, logged, t'))"

definition SimpleTest_findHookSymbol :: "image \<Rightarrow> func \<Rightarrow> string \<Rightarrow> symbol option" where
  "SimpleTest_findHookSymbol img func_wrap orgname =
     (if \<not> from_symtab img func_wrap then None else find_symbol img func_wrap (''__'' @ orgname))"

definition SimpleTest_parseArgs :: "string list \<Rightarrow> simple_test \<Rightarrow> simple_test parse" where
  "SimpleTest_parseArgs args t = Proceed t"

definition SimpleTest_init :: "host \<Rightarrow> simple_test \<Rightarrow> world \<Rightarrow> fault + bool \<times> simple_test \<times> world" where
  "SimpleTest_init H t w =
     (let (p, w1) = perform H (Process_create SIMPLE_MUTTEE None) w
      in if p = 0 then Inr (False, t, w1)
         else let (ok, logged, t') = findTargets (the_image H w1) t in Inr (ok, t', w1))"

definition SimpleTest_process :: "simple_test \<Rightarrow> world \<Rightarrow> fault + bool \<times> simple_test \<times> world" where
  "SimpleTest_process t w = Inr (True, t, w)"

subsection \<open>Which calls the commands make\<close>

definition adds :: "(bcall \<Rightarrow> bool) \<Rightarrow> world \<Rightarrow> world \<Rightarrow> bool" where
  "adds P w w' \<longleftrightarrow> (\<exists>cs. calls w' = calls w @ cs \<and> list_all P cs)"

lemma adds_refl [simp]: "adds P w w"
  by (simp add: adds_def)

lemma adds_trans: "adds P w w' \<Longrightarrow> adds P w' w'' \<Longrightarrow> adds P w w''"
  by (fastforce simp: adds_def)

lemma adds_perform: "P c \<Longrightarrow> adds P w (snd (perform H c w))"
  by (simp add: adds_def)

lemma adds_fold: "(\<And>x w. x \<in> set xs \<Longrightarrow> adds P w (f x w)) \<Longrightarrow> adds P w (fold f xs w)"
proof (induction xs arbitrary: w)
  case (Cons x xs)
  then show ?case using adds_trans [of P w "f x w"] by simp
qed simp

text \<open>The calls of a command that redirects functions: it loads libraries, redirects the given functions,
  lets the target run or writes it.  There is no call of the probe's start-up function among them.\<close>

definition redirects :: "func set \<Rightarrow> bcall \<Rightarrow> bool" where
  "redirects F c \<longleftrightarrow>
     (case c of Load_library l \<Rightarrow> True | Wrap_function f g sy \<Rightarrow> f \<in> F | Replace_function_call p f \<Rightarrow> True
      | Continue_execution \<Rightarrow> True | Wait_for_status_change \<Rightarrow> True | Write_file out \<Rightarrow> True | _ \<Rightarrow> False)"

lemma redirects_simps [simp]:
  "redirects F (Load_library l)" "redirects F (Wrap_function f g sy) = (f \<in> F)" "redirects F (Replace_function_call p f)"
  "redirects F Continue_execution" "redirects F Wait_for_status_change" "redirects F (Write_file out)"
  "\<not> redirects F (One_time_code f args)" "\<not> redirects F (Insert_init_callback m f args)"
  by (simp_all add: redirects_def)

lemma WrapTest_handleFunction_adds: "tf_func tf \<in> F \<Longrightarrow> adds (redirects F) w (WrapTest_handleFunction H l tf w)"
  by (auto simp: WrapTest_handleFunction_def Let_def adds_perform split: option.split)

lemma replace_calls_adds: "adds (redirects F) w (snd (replace_calls H f ps w))"
proof (induction ps arbitrary: w)
  case (Cons p ps)
  have "adds (redirects F) w (snd (perform H (Replace_function_call p f) w))" by (simp add: adds_perform)
  then show ?case using Cons adds_trans by (fastforce simp: case_prod_beta Let_def)
qed simp

lemma ReplaceTest_handleFunction_adds: "adds (redirects F) w (ReplaceTest_handleFunction H l tf w)"
proof -
  have "adds (redirects F) w (snd (perform H (Replace_function_call p g) (snd (replace_calls H f ps w))))" for p f g ps
    using replace_calls_adds adds_perform [of "redirects F"] adds_trans by (metis redirects_simps(3))
  then show ?thesis
    by (auto simp: ReplaceTest_handleFunction_def Let_def case_prod_beta replace_calls_adds split: option.split)
qed

lemma handle_elf_adds:
  assumes "\<And>l i w. i \<in> set (snd e) \<Longrightarrow> adds (redirects F) w (handle l (tfs ! i) w)"
  shows "adds (redirects F) w (handle_elf handle H tfs e w)"
proof -
  let ?c = "Load_library (getWrapFilePath (fst e) FUNCMAP_FILE_LIB)"
  have one: "adds (redirects F) w (snd (perform H ?c w))" by (simp add: adds_perform)
  have "adds (redirects F) (snd (perform H ?c w)) (fold (\<lambda>i. handle l (tfs ! i)) (snd e) (snd (perform H ?c w)))" for l
    using assms by (intro adds_fold) simp
  then show ?thesis using one adds_trans by (auto simp: handle_elf_def case_prod_beta Let_def)
qed

lemma run_or_write_adds:
  assumes "run_or_write H t w = Inr (ok, t', w')" shows "adds (redirects F) w w'"
proof (cases "mode t")
  case LPROFILE_MODE_PROC
  then show ?thesis using run_or_write_proc [OF assms] by (auto simp: adds_def list_all_iff)
next
  case LPROFILE_MODE_EDIT
  then show ?thesis using assms by (auto simp: run_or_write_def case_prod_beta Let_def adds_perform)
qed

text \<open>The positions in a grouped target list are in range.\<close>

lemma grouped_positions: "grouped cu \<Longrightarrow> e \<in> set (elf_targets cu) \<Longrightarrow> i \<in> set (snd e) \<Longrightarrow> i < length (target_funcs cu)"
  by (cases e) (auto simp: grouped_def positions_def)

lemma redirect_process_adds:
  assumes h: "\<And>e l i w. e \<in> set (elf_targets cu) \<Longrightarrow> i \<in> set (snd e)
      \<Longrightarrow> adds (redirects F) w (handle l (target_funcs cu ! i) w)"
    and run: "run_or_write H t (fold (handle_elf handle H (target_funcs cu)) (elf_targets cu)
                (snd (perform H (Load_library LIBCNT) w))) = Inr (ok, t', w')"
  shows "adds (redirects F) w w'"
proof -
  let ?w1 = "snd (perform H (Load_library LIBCNT) w)"
  have "adds (redirects F) w ?w1" by (simp add: adds_perform)
  moreover have "adds (redirects F) ?w1 (fold (handle_elf handle H (target_funcs cu)) (elf_targets cu) ?w1)"
    by (intro adds_fold handle_elf_adds h)
  ultimately show ?thesis using run_or_write_adds [OF run] adds_trans by blast
qed

lemma handle_elf_cong: "WrapTest_handleElf H = handle_elf (WrapTest_handleFunction H) H"
  "ReplaceTest_handleElf H = handle_elf (ReplaceTest_handleFunction H) H"
  by (simp_all add: WrapTest_handleElf_def ReplaceTest_handleElf_def)

lemma redirected_calls:
  assumes "WrapTest_process H t w = Inr (ok, t', w') \<or> ReplaceTest_process H t w = Inr (ok, t', w')"
    and "\<And>e i. e \<in> set (elf_targets (cnt t)) \<Longrightarrow> i \<in> set (snd e) \<Longrightarrow> tf_func (target_funcs (cnt t) ! i) \<in> F"
  shows "adds (redirects F) w w'"
proof -
  let ?w1 = "snd (perform H (Load_library LIBCNT) w)"
  have "w' = ?w1
      \<or> run_or_write H t (fold (handle_elf (WrapTest_handleFunction H) H (target_funcs (cnt t))) (elf_targets (cnt t)) ?w1) = Inr (ok, t', w')
      \<or> run_or_write H t (fold (handle_elf (ReplaceTest_handleFunction H) H (target_funcs (cnt t))) (elf_targets (cnt t)) ?w1) = Inr (ok, t', w')"
    using assms(1)
    by (auto simp: WrapTest_process_def ReplaceTest_process_def handle_elf_cong case_prod_beta Let_def split: if_splits)
  then show ?thesis
  proof (elim disjE)
    assume "run_or_write H t (fold (handle_elf (WrapTest_handleFunction H) H (target_funcs (cnt t))) (elf_targets (cnt t)) ?w1) = Inr (ok, t', w')"
    then show ?thesis by (rule redirect_process_adds [rotated]) (intro WrapTest_handleFunction_adds assms(2))
  next
    assume "run_or_write H t (fold (handle_elf (ReplaceTest_handleFunction H) H (target_funcs (cnt t))) (elf_targets (cnt t)) ?w1) = Inr (ok, t', w')"
    then show ?thesis by (rule redirect_process_adds [rotated]) (rule ReplaceTest_handleFunction_adds)
  qed (simp add: adds_perform)
qed

subsection \<open>Properties\<close>

text \<open>C40: the commands \<^verbatim>\<open>wrap\<close> and \<^verbatim>\<open>replace\<close> never start the probe.  Whatever their outcome, the calls they
  make on the target are loads of libraries, exchanges of target functions and of calls, and the run or the
  writing of the file: the start-up function that opens the event counters and registers the threads is
  neither run nor inserted.\<close>

theorem redirect_commands_never_start_probe:
  assumes "WrapTest_process H t w = Inr (ok, t', w') \<or> ReplaceTest_process H t w = Inr (ok, t', w')" "grouped (cnt t)"
  shows "\<exists>cs. calls w' = calls w @ cs \<and> list_all (redirects (tf_func ` set (target_funcs (cnt t)))) cs
    \<and> (\<forall>m f args. One_time_code f args \<notin> set cs \<and> Insert_init_callback m f args \<notin> set cs)"
proof -
  let ?F = "tf_func ` set (target_funcs (cnt t))"
  have "tf_func (target_funcs (cnt t) ! i) \<in> ?F" if "e \<in> set (elf_targets (cnt t))" "i \<in> set (snd e)" for e i
    using grouped_positions [OF assms(2) that] by simp
  then have "adds (redirects ?F) w w'" using redirected_calls [OF assms(1)] by blast
  then obtain cs where cs: "calls w' = calls w @ cs" "list_all (redirects ?F) cs" by (auto simp: adds_def)
  then have "\<forall>m f args. One_time_code f args \<notin> set cs \<and> Insert_init_callback m f args \<notin> set cs"
    by (metis list_all_iff redirects_simps(7,8))
  then show ?thesis using cs by blast
qed

theorem redirect_commands_never_start_probe_witness:
  "\<exists>t' w' cs. WrapTest_process small_host WrapTest_new small_world = Inr (True, t', w') \<and> calls w' = cs
     \<and> (\<forall>f args. One_time_code f args \<notin> set cs)"
proof -
  have "calls (snd (perform small_host Continue_execution (snd (perform small_host (Load_library LIBCNT) small_world))))
      = [Load_library LIBCNT, Continue_execution]" by (simp add: small_world_def)
  then obtain w' where run: "WrapTest_process small_host WrapTest_new small_world = Inr (True, WrapTest_new, w')"
    using small_wait [of "snd (perform small_host Continue_execution (snd (perform small_host (Load_library LIBCNT) small_world)))"]
    by (simp add: WrapTest_process_def WrapTest_new_def mutatee_test_new_def CountUtil_def run_or_write_def case_prod_beta
        Let_def small_host_simps small_answer_def)
  have "grouped (cnt WrapTest_new)" by (simp add: WrapTest_new_def mutatee_test_new_def)
  from redirect_commands_never_start_probe [OF disjI1 [OF run] this] run show ?thesis
    by (auto simp: small_world_def)
qed

text \<open>The symbols of the wrapper library: the wrapper and the hook of a function have different
  names, and no two functions share one.\<close>

lemma wrap_symbols_distinct:
  assumes "k \<le> FUNCMAP_SYMBOL_WRAP" "l \<le> FUNCMAP_SYMBOL_WRAP"
  shows "getWrapSymbolName i k = getWrapSymbolName j l \<longleftrightarrow> i = j \<and> k = l"
  using assms by (auto simp: getWrapSymbolName_def le_Suc_eq word_unat_eq_iff)

lemma wrap_symbols_distinct_example:
  "getWrapSymbolName 1 FUNCMAP_SYMBOL_HOOK \<noteq> getWrapSymbolName 11 FUNCMAP_SYMBOL_HOOK"
  using wrap_symbols_distinct [of 0 0 1 11] by simp

text \<open>The command \<^verbatim>\<open>simple\<close> always fails: its search for target functions leaves the list of
  targets empty.\<close>

lemma simple_init_fails: "\<exists>w'. SimpleTest_init H SimpleTest_new w = Inr (False, SimpleTest_new, w')"
proof -
  have "snd (foldl (\<lambda>s p. findTarget img p s) s ps) = snd s" for img ps s
    by (induction ps arbitrary: s) (simp_all add: findTarget_def)
  then show ?thesis
    by (simp add: SimpleTest_init_def findTargets_def match_from_patterns case_prod_beta Let_def SimpleTest_new_def)
qed

end
