(* ===== verification/Report.thy ===== *)
theory Report
  imports Profile Instrument
begin

section \<open>utils/report.[ch]: printing a data file\<close>

text \<open>
  A data file is the sequence of the probe's records as they lie in memory: 24 bytes each, the fields
  in little-endian order with four bytes of padding before the counter value (the x86-64 layout of
  \<^verbatim>\<open>struct prof_record\<close>, which \<^verbatim>\<open>probe/profile.h\<close> and \<^verbatim>\<open>utils/report.h\<close> declare alike).  \<open>record_bytes\<close> is
  the image of a record, for any value of the padding; \<open>record_of\<close> reads the fields back.  The
  command reads the file record by record and prints a line for each.
\<close>

subsection \<open>Records as bytes\<close>

fun le_bytes :: "nat \<Rightarrow> nat \<Rightarrow> string" where
  "le_bytes 0 v = []"
| "le_bytes (Suc n) v = char_of (v mod 256) # le_bytes n (v div 256)"

fun le_val :: "string \<Rightarrow> nat" where
  "le_val [] = 0"
| "le_val (c # cs) = of_char c + 256 * le_val cs"

definition record_bytes :: "string \<Rightarrow> prof_record \<Rightarrow> string" where
  "record_bytes pad r =
     le_bytes 8 (unat (ts r)) @ le_bytes 2 (unat (func_idx r)) @ le_bytes 1 (unat (pos r)) @ le_bytes 1 (unat (ev_idx r))
       @ pad @ le_bytes 8 (unat (count r))"

definition record_of :: "string \<Rightarrow> prof_record" where
  "record_of b =
     \<lparr>ts = of_nat (le_val (take 8 b)), func_idx = of_nat (le_val (take 2 (drop 8 b))),
      pos = of_nat (le_val (take 1 (drop 10 b))), ev_idx = of_nat (le_val (take 1 (drop 11 b))),
      count = of_nat (le_val (take 8 (drop 16 b)))\<rparr>"

abbreviation (input) RECORD_SIZE :: nat where "RECORD_SIZE \<equiv> 24"

abbreviation (input) PROF_RECORD_POS_PRE :: u8 where "PROF_RECORD_POS_PRE \<equiv> 0"

subsection \<open>The command\<close>

record report_test =
  datafile :: string
  is_count :: bool

definition ReportTest_new :: report_test where
  "ReportTest_new = \<lparr>datafile = [], is_count = False\<rparr>"

definition sp :: string where "sp = '' ''"
definition nl :: string where "nl = [CHR 0x0A]"

definition count_line :: "prof_record \<Rightarrow> prof_record \<Rightarrow> string" where
  "count_line prev r =
     decimal (unat (func_idx r)) @ sp @ decimal (unat (ts r - ts prev)) @ sp @ decimal (unat (count r - count prev)) @ nl"

definition record_line :: "prof_record \<Rightarrow> string" where
  "record_line r =
     decimal (unat (ts r)) @ sp @ decimal (unat (func_idx r)) @ sp @ decimal (unat (pos r)) @ sp
       @ decimal (unat (ev_idx r)) @ sp @ decimal (unat (count r)) @ nl"

text \<open>The stack of entry records is a local variable of the function: it is empty at every call.\<close>

definition processRecord :: "report_test \<Rightarrow> prof_record \<Rightarrow> bool \<times> string" where
  "processRecord t r =
     (let stack = ([] :: prof_record list)
      in if is_count t
         then (if pos r = PROF_RECORD_POS_PRE
               then let stack' = stack @ [r] in (True, [])
               else if length stack < 1 then (False, [])
               else if func_idx (last stack) = func_idx r \<or> pos (last stack) = PROF_RECORD_POS_PRE
               then (True, count_line (last stack) r)
               else (True, []))
         else (True, record_line r))"

definition ReportTest_option :: "world \<Rightarrow> char \<Rightarrow> string \<Rightarrow> report_test \<Rightarrow> report_test parse" where
  "ReportTest_option w c optarg t =
     (if c = CHR ''f'' then (if \<not> path_exists w optarg then Reject t else Proceed (t\<lparr>datafile := optarg\<rparr>))
      else if c = CHR ''c'' then Reject (t\<lparr>is_count := True\<rparr>)
      else Reject t)"

definition ReportTest_parseArgs :: "world \<Rightarrow> string list \<Rightarrow> report_test \<Rightarrow> report_test parse" where
  "ReportTest_parseArgs w args t =
     parse_then (opt_loop (ReportTest_option w) (fst (getopt_scan ''f:c'' args)) t)
       (\<lambda>t'. if length (datafile t') = 0 then Reject t' else Proceed t')"

text \<open>The loop of \<^verbatim>\<open>process\<close> on the bytes that are left in the file: a record that is cut short ends it.\<close>

function report_loop :: "report_test \<Rightarrow> string \<Rightarrow> string" where
  "report_loop t b =
     (if length b < RECORD_SIZE then []
      else let (ok, out) = processRecord t (record_of (take RECORD_SIZE b))
           in out @ (if ok then report_loop t (drop RECORD_SIZE b) else []))"
  by auto
termination by (relation "measure (length \<circ> snd)") auto

declare report_loop.simps [simp del]

definition ReportTest_process :: "report_test \<Rightarrow> world \<Rightarrow> fault + bool \<times> report_test \<times> world" where
  "ReportTest_process t w =
     (case fs w (datafile t) of
        None \<Rightarrow> Inr (False, t, w)
      | Some b \<Rightarrow> Inr (True, t, w\<lparr>printed := printed w @ report_loop t b\<rparr>))"

subsection \<open>Reading back what was written\<close>

lemma length_le_bytes [simp]: "length (le_bytes n v) = n"
  by (induction n arbitrary: v) simp_all

lemma le_val_bytes: "v < 256 ^ n \<Longrightarrow> le_val (le_bytes n v) = v"
proof (induction n arbitrary: v)
  case (Suc n)
  then have "v div 256 < 256 ^ n" by (simp add: div_less_iff_less_mult mult.commute)
  then show ?case using Suc.IH by simp
qed simp

lemma le_word:
  "le_val (le_bytes 8 (unat (x :: u64))) = unat x" "le_val (le_bytes 2 (unat (y :: u16))) = unat y"
  "le_val (le_bytes (Suc 0) (unat (z :: u8))) = unat z"
  by (rule le_val_bytes, rule less_le_trans [OF unsigned_less], simp)+

lemma length_record_bytes [simp]: "length pad = 4 \<Longrightarrow> length (record_bytes pad r) = RECORD_SIZE"
  by (simp add: record_bytes_def)

lemma record_of_bytes: "length pad = 4 \<Longrightarrow> record_of (record_bytes pad r) = r"
  by (simp add: record_of_def record_bytes_def le_word del: le_bytes.simps)

text \<open>The file: each record with its own padding, and the bytes of a record cut short behind them.\<close>

definition file_bytes :: "(string \<times> prof_record) list \<Rightarrow> string" where
  "file_bytes prs = concat (map (\<lambda>(pad, r). record_bytes pad r) prs)"

lemma report_loop_record:
  assumes "length pad = 4"
  shows "report_loop t (record_bytes pad r @ b) =
    snd (processRecord t r) @ (if fst (processRecord t r) then report_loop t b else [])"
  using assms by (subst report_loop.simps) (simp add: record_of_bytes case_prod_beta Let_def)

lemma report_loop_short: "length b < RECORD_SIZE \<Longrightarrow> report_loop t b = []"
  by (subst report_loop.simps) simp

lemma report_loop_file:
  assumes "\<not> is_count t" "\<forall>(pad, r) \<in> set prs. length pad = 4" "length rest < RECORD_SIZE"
  shows "report_loop t (file_bytes prs @ rest) = concat (map (record_line \<circ> snd) prs)"
  using assms(2)
proof (induction prs)
  case Nil
  then show ?case using assms(3) by (simp add: file_bytes_def report_loop_short)
next
  case (Cons pr prs)
  then show ?case using assms(1)
    by (cases pr) (simp add: file_bytes_def report_loop_record processRecord_def Let_def)
qed

lemma report_option_counts:
  "ReportTest_option w c a t = Proceed t' \<Longrightarrow> is_count t' = is_count t"
  by (auto simp: ReportTest_option_def split: if_splits)

lemma report_options_count:
  "opt_loop (ReportTest_option w) os t = Proceed t' \<Longrightarrow> is_count t' = is_count t \<and> CHR ''c'' \<notin> fst ` set os"
proof (induction os arbitrary: t)
  case (Cons ov os)
  obtain c a where ov: "ov = (c, a)" by fastforce
  then obtain t1 where o: "ReportTest_option w c a t = Proceed t1" and l: "opt_loop (ReportTest_option w) os t1 = Proceed t'"
    using Cons.prems by (auto simp: parse_then_Proceed)
  have "c \<noteq> CHR ''c''" using o by (auto simp: ReportTest_option_def)
  then show ?case using Cons.IH [OF l] report_option_counts [OF o] ov by simp
qed simp

subsection \<open>Properties\<close>

text \<open>C8: reading a data file back.  For a file that consists of any records as they lie in memory,
  whatever their padding and with a last record possibly cut short, the command prints one line per
  complete record, in order, with the time stamp, function number, position, event number and counter
  value of the record, and succeeds.\<close>

theorem report_prints_records:
  assumes "fs w (datafile t) = Some (file_bytes prs @ rest)" "\<not> is_count t"
    and "\<forall>(pad, r) \<in> set prs. length pad = 4" "length rest < RECORD_SIZE"
  shows "ReportTest_process t w = Inr (True, t, w\<lparr>printed := printed w @ concat (map (record_line \<circ> snd) prs)\<rparr>)"
  using report_loop_file [OF assms(2-4)] assms(1) by (simp add: ReportTest_process_def)

theorem report_prints_records_witness:
  "\<exists>w. ReportTest_process (ReportTest_new\<lparr>datafile := ''prof.42''\<rparr>) w
     = Inr (True, ReportTest_new\<lparr>datafile := ''prof.42''\<rparr>, w\<lparr>printed := ''100 5 0 0 17'' @ nl @ ''170 5 1 0 29'' @ nl\<rparr>)"
proof -
  let ?prs = "[(''abcd'', \<lparr>ts = 100, func_idx = 5, pos = 0, ev_idx = 0, count = 17\<rparr>),
    (''efgh'', \<lparr>ts = 170, func_idx = 5, pos = 1, ev_idx = 0, count = 29\<rparr>)]"
  let ?w = "small_world\<lparr>fs := [''prof.42'' \<mapsto> file_bytes ?prs]\<rparr>" let ?t = "ReportTest_new\<lparr>datafile := ''prof.42''\<rparr>"
  have "concat (map (record_line \<circ> snd) ?prs) = ''100 5 0 0 17'' @ nl @ ''170 5 1 0 29'' @ nl"
    by code_simp
  then show ?thesis using report_prints_records [of ?w ?t ?prs "[]"]
    by (intro exI [of _ ?w]) (simp add: ReportTest_new_def small_world_def)
qed

text \<open>The counting mode cannot be used.  The option \<^verbatim>\<open>-c\<close> that selects it is always rejected as
  unknown, so no accepted command line has it; and in that mode the first exit record would end
  the output, since its entry record was kept in a variable that is gone.\<close>

lemma report_count_mode_unusable:
  "(\<forall>t. ReportTest_parseArgs w args ReportTest_new = Proceed t \<longrightarrow>
      \<not> is_count t \<and> CHR ''c'' \<notin> fst ` set (fst (getopt_scan ''f:c'' args)))
   \<and> (\<forall>t pad r b. is_count t \<and> pos r \<noteq> PROF_RECORD_POS_PRE \<and> length pad = 4
        \<longrightarrow> report_loop t (record_bytes pad r @ b) = [])"
  using report_options_count [of w "fst (getopt_scan ''f:c'' args)" ReportTest_new]
  by (auto simp: ReportTest_parseArgs_def parse_then_Proceed ReportTest_new_def report_loop_record processRecord_def Let_def
      split: if_splits)

lemma report_count_mode_unusable_example:
  "report_loop (ReportTest_new\<lparr>is_count := True\<rparr>)
     (record_bytes ''abcd'' \<lparr>ts = 170, func_idx = 5, pos = 1, ev_idx = 0, count = 29\<rparr>) = []
   \<and> ReportTest_parseArgs (small_world\<lparr>fs := [''prof.42'' \<mapsto> []]\<rparr>) [''-f'', ''prof.42''] ReportTest_new = Proceed (ReportTest_new\<lparr>datafile := ''prof.42''\<rparr>)"
proof -
  let ?w = "small_world\<lparr>fs := [''prof.42'' \<mapsto> []]\<rparr>"
  have "ReportTest_parseArgs ?w [''-f'', ''prof.42''] ReportTest_new = Proceed (ReportTest_new\<lparr>datafile := ''prof.42''\<rparr>)"
    by (simp add: ReportTest_parseArgs_def option_kind_def ReportTest_option_def path_exists_def)
  moreover have "report_loop (ReportTest_new\<lparr>is_count := True\<rparr>)
      (record_bytes ''abcd'' \<lparr>ts = 170, func_idx = 5, pos = 1, ev_idx = 0, count = 29\<rparr> @ []) = []"
    by (rule report_count_mode_unusable [of ?w "[''-f'', ''prof.42'']", THEN conjunct2, rule_format]) simp
  ultimately show ?thesis by simp
qed

end
