(* ===== verification/Lprofile_Main.thy ===== *)
theory Lprofile_Main
  imports Wrap_Commands Report
begin

section \<open>utils/test.[ch]: the commands of lprofile\<close>

text \<open>
  \<^verbatim>\<open>main\<close> looks up the command by its name and drives the object it constructs through the virtual methods of
  \<^verbatim>\<open>class Test\<close>: parse the arguments, initialise, process, destroy, delete; a failing step skips to the
  deletion.  \<open>run_test\<close> is that part, for any implementation of the class.  The class is the locale
  \<open>test_command\<close>: its operations, and the law that none of them takes back a call made on the target.  Each of
  the seven commands is an interpretation.  \<^verbatim>\<open>getopt\<close> starts at the element behind the command name.
\<close>

definition run_test ::
  "(world \<Rightarrow> string list \<Rightarrow> 't \<Rightarrow> 't parse) \<Rightarrow> ('t \<Rightarrow> world \<Rightarrow> fault + bool \<times> 't \<times> world)
     \<Rightarrow> ('t \<Rightarrow> world \<Rightarrow> fault + bool \<times> 't \<times> world) \<Rightarrow> ('t \<Rightarrow> world \<Rightarrow> fault + 't \<times> world) \<Rightarrow> ('t \<Rightarrow> fault + unit)
     \<Rightarrow> 't \<Rightarrow> string list \<Rightarrow> world \<Rightarrow> fault + int \<times> world" where
  "run_test parseArgs init process destroy delete t0 args w =
     (let delete_test = (\<lambda>r t w. and_then (delete t) (\<lambda>_. Inr (r, w)))
      in case parseArgs w args t0 of
           Crash e \<Rightarrow> Inl e
         | Exit_program \<Rightarrow> Inr (0, w)
         | Reject t \<Rightarrow> delete_test 1 t w
         | Proceed t \<Rightarrow>
             and_then (init t w) (\<lambda>(ok, t1, w1).
               if \<not> ok then delete_test 1 t1 w1
               else and_then (process t1 w1) (\<lambda>(ok, t2, w2).
                      and_then (destroy t2 w2) (\<lambda>(t3, w3). delete_test (if ok then 0 else 1) t3 w3))))"

text \<open>The empty \<^verbatim>\<open>destroy\<close> methods, and the destructors with an empty body.\<close>

definition destroy_nothing :: "'t \<Rightarrow> world \<Rightarrow> fault + 't \<times> world" where
  "destroy_nothing t w = Inr (t, w)"

definition delete_nothing :: "'t \<Rightarrow> fault + unit" where
  "delete_nothing t = Inr ()"

definition lprofile_main :: "host \<Rightarrow> string list \<Rightarrow> world \<Rightarrow> fault + int \<times> world" where
  "lprofile_main H argv w =
     (if length argv < 2 then Inr (1, w)
      else let cmd = argv ! 1; args = drop 2 argv
      in if cmd = ''funcmap'' then
           run_test FuncMapTest_parseArgs (FuncMapTest_init H) FuncMapTest_process FuncMapTest_destroy delete_nothing
             FuncMapTest_new args w
         else if cmd = ''prof'' then
           run_test (\<lambda>_. ProfTest_parseArgs H) (ProfTest_init H) (ProfTest_process H) destroy_nothing ProfTest_delete
             ProfTest_new args w
         else if cmd = ''wrap'' then
           run_test (\<lambda>_. WrapTest_parseArgs H) (WrapTest_init H) (WrapTest_process H) destroy_nothing WrapTest_delete
             WrapTest_new args w
         else if cmd = ''replace'' then
           run_test (\<lambda>_. ReplaceTest_parseArgs H) (ReplaceTest_init H) (ReplaceTest_process H) destroy_nothing ReplaceTest_delete
             ReplaceTest_new args w
         else if cmd = ''report'' then
           run_test ReportTest_parseArgs (\<lambda>t w. Inr (True, t, w)) ReportTest_process destroy_nothing delete_nothing
             ReportTest_new args w
         else if cmd = ''simple'' then
           run_test (\<lambda>_. SimpleTest_parseArgs) (SimpleTest_init H) SimpleTest_process destroy_nothing delete_nothing
             SimpleTest_new args w
         else if cmd = ''tracer'' then
           run_test TracerTest_parseArgs (TracerTest_init H) (TracerTest_process H) (TracerTest_destroy H) delete_nothing
             TracerTest_new args w
         else if cmd = ''help'' then Inr (0, w)
         else Inr (1, w))"

subsection \<open>The interface of a command\<close>

locale test_command =
  fixes init :: "'t \<Rightarrow> world \<Rightarrow> fault + bool \<times> 't \<times> world"
    and process :: "'t \<Rightarrow> world \<Rightarrow> fault + bool \<times> 't \<times> world"
    and destroy :: "'t \<Rightarrow> world \<Rightarrow> fault + 't \<times> world"
  assumes init_later: "init t w = Inr (ok, t', w') \<Longrightarrow> later w w'"
    and process_later: "process t w = Inr (ok, t', w') \<Longrightarrow> later w w'"
    and destroy_later: "destroy t w = Inr (t', w') \<Longrightarrow> later w w'"
begin

lemma run_outcome:
  assumes "run_test parseArgs init process destroy delete t0 args w = Inr (r, w')"
  shows "later w w' \<and> (r = 0 \<or> r = 1)
    \<and> (r = 0 \<longrightarrow> parseArgs w args t0 = Exit_program
         \<or> (\<exists>t t1 w1 t2 w2. parseArgs w args t0 = Proceed t \<and> init t w = Inr (True, t1, w1) \<and> process t1 w1 = Inr (True, t2, w2)))"
proof (cases "parseArgs w args t0")
  case (Proceed t)
  then obtain ok t1 w1 where i: "init t w = Inr (ok, t1, w1)"
    using assms by (auto simp: run_test_def and_then_Inr)
  show ?thesis
  proof (cases ok)
    case False
    then show ?thesis using assms Proceed i init_later [OF i] by (auto simp: run_test_def and_then_Inr)
  next
    case True
    then obtain ok2 t2 w2 t3 where p: "process t1 w1 = Inr (ok2, t2, w2)" and d: "destroy t2 w2 = Inr (t3, w')"
      and r: "r = (if ok2 then 0 else 1)"
      using assms Proceed i by (auto simp: run_test_def and_then_Inr)
    have "later w w'" using init_later [OF i] process_later [OF p] destroy_later [OF d] later_trans by blast
    then show ?thesis using r Proceed i p True by auto
  qed
qed (use assms in \<open>auto simp: run_test_def and_then_Inr\<close>)

end

lemma destroy_nothing_later: "destroy_nothing t w = Inr (t', w') \<Longrightarrow> later w w'"
  by (simp add: destroy_nothing_def)

lemma later_printed: "later w (w\<lparr>printed := p\<rparr>)"
  by (simp add: later_def)

lemma load_later: "load H force fm w = Inr (ok, fm', w') \<Longrightarrow> later w w'"
  using load_prepares prepares_later by blast

lemma start_target_later: "start_target H wrap t w = Inr (ok, t', w') \<Longrightarrow> later w w'"
  using start_target_prepares prepares_later by blast

lemma wait_terminated_later: "wait_terminated H w = Some w' \<Longrightarrow> later w w'"
  using wait_terminated_result by (fastforce simp: waited_def later_def)

lemma run_or_write_later: "run_or_write H t w = Inr (ok, t', w') \<Longrightarrow> later w w'"
  using run_or_write_adds [of H t w ok t' w'] by (auto simp: adds_def later_def)

lemma then_if_later:
  assumes "then_if m k = Inr (ok, t', w')" "\<And>ok t1 w1. m = Inr (ok, t1, w1) \<Longrightarrow> later w w1"
    "\<And>t1 w1. k t1 w1 = Inr (ok, t', w') \<Longrightarrow> later w1 w'"
  shows "later w w'"
  using assms(1) by (cases rule: then_ifE) (use assms(2,3) later_trans in blast)+

lemma loadFunctions_later: "later w (snd (snd (loadFunctions H cu w)))"
  by (simp add: loadFunctions_calls later_def)

lemma insertCount_later: "later w (snd (insertCount H cu w))"
  using insert_targets_prepares [of H _ _ _ w] prepares_later by (metis insertCount_def prod.collapse)

lemma finish_profiling_later: "finish_profiling H t w = Inr (ok, t', w') \<Longrightarrow> later w w'"
  unfolding finish_profiling_def
  by (erule then_if_later; (erule then_if_later)?)
    (auto simp: and_then_Inr dest!: insertExit_prepares wrapPthreadFunc_prepares intro: prepares_later run_or_write_later)

lemma ProfTest_process_later: "ProfTest_process H t w = Inr (ok, t', w') \<Longrightarrow> later w w'"
  unfolding ProfTest_process_def insert_and_finish_def
  by (erule then_if_later; (erule then_if_later)?; (erule then_if_later)?)
    (auto simp: case_prod_beta insertCount_later loadFunctions_later dest!: insertInit_prepares
      intro: prepares_later finish_profiling_later)

lemma callInit_later: "callInit H t w = Inr (ok, t', w') \<Longrightarrow> later w w'"
  by (auto simp: callInit_def case_prod_beta Let_def split: option.splits)

lemma TracerTest_insertExit_later: "TracerTest_insertExit H t w = Inr (ok, t', w') \<Longrightarrow> later w w'"
  by (auto simp: TracerTest_insertExit_def Let_def case_prod_beta attach_callback_prepares intro: prepares_later
      split: option.splits)

lemma run_tracee_later: "run_tracee H t w = Inr (ok, t', w') \<Longrightarrow> later w w'"
proof -
  assume "run_tracee H t w = Inr (ok, t', w')"
  then have "w' = snd (perform H Continue_execution w) \<or> wait_terminated H (snd (perform H Continue_execution w)) = Some w'"
    by (auto simp: run_tracee_def and_then_Inr or_endless_def case_prod_beta Let_def split: if_splits option.splits)
  then show "later w w'" using wait_terminated_later later_trans [OF later_perform] by blast
qed

lemma TracerTest_process_later: "TracerTest_process H t w = Inr (ok, t', w') \<Longrightarrow> later w w'"
  unfolding TracerTest_process_def
  by (erule then_if_later; (erule then_if_later)?; (erule then_if_later)?; (erule then_if_later)?)
    (auto simp: case_prod_beta insertCount_later loadFunctions_later
      intro: callInit_later TracerTest_insertExit_later run_tracee_later)

lemma TracerTest_destroy_later: "TracerTest_destroy H t w = Inr (t', w') \<Longrightarrow> later w w'"
proof -
  assume d: "TracerTest_destroy H t w = Inr (t', w')"
  have stop: "wait_stopped H w = Some w1 \<Longrightarrow> later w w1" for w1
    using wait_stopped.raw_induct [of "\<lambda>H w w1. later w w1" H w w1] later_trans [OF later_perform]
    by (metis (no_types, lifting) later_refl option.inject)
  have clear: "later w1 (clearSnippet H cu w1)" for w1 cu
    by (simp add: clearSnippet_def clear_targets_calls later_def)
  from d show "later w w'"
    by (auto simp: TracerTest_destroy_def clearSnippets_def and_then_Inr or_endless_def split: if_splits option.splits
        intro: later_trans [OF later_trans [OF stop clear]])
qed

lemma TracerTest_init_later: "TracerTest_init H t w = Inr (ok, t', w') \<Longrightarrow> later w w'"
  using getTargetFuncs_prepares [THEN prepares_later] later_trans [OF later_perform]
  by (fastforce simp: TracerTest_init_def and_then_Inr case_prod_beta Let_def split: if_splits)

lemma redirect_later:
  "WrapTest_process H t w = Inr (ok, t', w') \<or> ReplaceTest_process H t w = Inr (ok, t', w') \<Longrightarrow> later w w'"
  using redirected_calls [of H t w ok t' w' UNIV] by (auto simp: adds_def later_def)

interpretation funcmap_cmd: test_command "FuncMapTest_init H" FuncMapTest_process FuncMapTest_destroy for H
  by unfold_locales
    (auto simp: FuncMapTest_init_def FuncMapTest_process_def FuncMapTest_destroy_def and_then_Inr intro: load_later split: if_splits)

interpretation prof_cmd: test_command "ProfTest_init H" "ProfTest_process H" destroy_nothing for H
  by unfold_locales (auto simp: ProfTest_init_def intro: start_target_later ProfTest_process_later destroy_nothing_later)

interpretation wrap_cmd: test_command "WrapTest_init H" "WrapTest_process H" destroy_nothing for H
  by unfold_locales (auto simp: WrapTest_init_def intro: start_target_later redirect_later destroy_nothing_later)

interpretation replace_cmd: test_command "ReplaceTest_init H" "ReplaceTest_process H" destroy_nothing for H
  by unfold_locales (auto simp: ReplaceTest_init_def intro: start_target_later redirect_later destroy_nothing_later)

interpretation report_cmd: test_command "\<lambda>t w. Inr (True, t, w)" ReportTest_process destroy_nothing
  by unfold_locales (auto simp: ReportTest_process_def intro: later_printed destroy_nothing_later split: option.splits)

interpretation simple_cmd: test_command "SimpleTest_init H" SimpleTest_process destroy_nothing for H
  by unfold_locales
    (auto simp: SimpleTest_init_def SimpleTest_process_def case_prod_beta Let_def intro: destroy_nothing_later split: if_splits)

interpretation tracer_cmd: test_command "TracerTest_init H" "TracerTest_process H" "TracerTest_destroy H" for H
  by unfold_locales (auto intro: TracerTest_init_later TracerTest_process_later TracerTest_destroy_later)

subsection \<open>Properties\<close>

definition command_names :: "string list" where
  "command_names = [''funcmap'', ''prof'', ''wrap'', ''replace'', ''report'', ''simple'', ''tracer'', ''help'']"



text \<open>The command line of the target.  Behind \<^verbatim>\<open>--\<close> the program and its arguments reach the target
  exactly as given, whatever they look like; an unknown option letter that follows the program without
  \<^verbatim>\<open>--\<close> is not left to the program but rejected.\<close>

lemma prof_target_arguments:
  assumes opts: "list_all (proper_option (getOptStr @ ''w:h'')) os" "opt_loop mutatee_option os ProfTest_new = Proceed t"
    and target: "mode t = LPROFILE_MODE_PROC" "target \<noteq> []" "can_execute H (hd target)" "can_alloc H (8 * (length target + 1))"
  shows "ProfTest_parseArgs H (concat (map (write_option (getOptStr @ ''w:h'')) os) @ ''--'' # target) ProfTest_new
      = Proceed (t\<lparr>muttee_bin := hd target, muttee_argc := length target, muttee_argv := Argv target\<rparr>)
    \<and> (\<forall>c rest. operand (hd target) \<and> c \<noteq> CHR ''-'' \<and> option_kind (getOptStr @ ''w:h'') c = Unknown_option
         \<longrightarrow> ProfTest_parseArgs H (hd target # [CHR ''-'', c] # rest) ProfTest_new = Reject ProfTest_new)"
proof (intro conjI allI impI)
  have "getopt_scan (getOptStr @ ''w:h'') (concat (map (write_option (getOptStr @ ''w:h'')) os) @ ''--'' # target) = (os, target)"
    using getopt_scan_options [OF opts(1)] by simp
  then show "ProfTest_parseArgs H (concat (map (write_option (getOptStr @ ''w:h'')) os) @ ''--'' # target) ProfTest_new
      = Proceed (t\<lparr>muttee_bin := hd target, muttee_argc := length target, muttee_argv := Argv target\<rparr>)"
    using opts(2) target by (simp add: ProfTest_parseArgs_def mutatee_operands_def hd_conv_nth)
next
  fix c rest
  assume c: "operand (hd target) \<and> c \<noteq> CHR ''-'' \<and> option_kind (getOptStr @ ''w:h'') c = Unknown_option"
  have "getopt_scan (getOptStr @ ''w:h'') ([CHR ''-'', c] # rest)
      = ((CHR ''?'', []) # fst (getopt_scan (getOptStr @ ''w:h'') rest), snd (getopt_scan (getOptStr @ ''w:h'') rest))"
    using c by (simp add: case_prod_beta)
  moreover have "mutatee_option (CHR ''?'') [] ProfTest_new = Reject ProfTest_new"
    by (simp add: mutatee_option_def parseOption_def)
  ultimately show "ProfTest_parseArgs H (hd target # [CHR ''-'', c] # rest) ProfTest_new = Reject ProfTest_new"
    using c by (simp add: ProfTest_parseArgs_def getopt_scan_permutes del: getopt_scan.simps)
qed

lemma prof_target_arguments_example:
  "ProfTest_parseArgs small_host [''-f'', ''main,run'', ''--'', ''/opt/app'', ''-n'', ''3''] ProfTest_new
     = Proceed (ProfTest_new\<lparr>cnt := CountUtil\<lparr>pattern := ''main,run''\<rparr>, muttee_bin := ''/opt/app'', muttee_argc := 3,
                  muttee_argv := Argv [''/opt/app'', ''-n'', ''3'']\<rparr>)
   \<and> ProfTest_parseArgs small_host [''/opt/app'', ''-n'', ''3''] ProfTest_new = Reject ProfTest_new"
proof -
  let ?os = "[(CHR ''f'', ''main,run'')]" let ?t = "ProfTest_new\<lparr>cnt := CountUtil\<lparr>pattern := ''main,run''\<rparr>\<rparr>"
  let ?opt = "getOptStr @ ''w:h''"
  have o: "list_all (proper_option ?opt) ?os" "concat (map (write_option ?opt) ?os) = [''-f'', ''main,run'']"
    "option_kind ?opt (CHR ''n'') = Unknown_option" "operand ''/opt/app''"
    by (simp_all add: proper_option_def write_option_def option_kind_def getOptStr_def FUNCC_ARG_def operand_def)
  have l: "opt_loop mutatee_option ?os ProfTest_new = Proceed ?t" "mode ?t = LPROFILE_MODE_PROC"
    by (simp_all add: mutatee_option_def parseOption_def ProfTest_new_def mutatee_test_new_def)
  note p = prof_target_arguments [OF o(1) l, of "[''/opt/app'', ''-n'', ''3'']" small_host]
  have "ProfTest_parseArgs small_host ([''-f'', ''main,run''] @ ''--'' # [''/opt/app'', ''-n'', ''3'']) ProfTest_new
      = Proceed (?t\<lparr>muttee_bin := ''/opt/app'', muttee_argc := 3, muttee_argv := Argv [''/opt/app'', ''-n'', ''3'']\<rparr>)"
    using p [THEN conjunct1] unfolding o(2) by (simp add: small_host_simps)
  moreover have "ProfTest_parseArgs small_host (''/opt/app'' # [CHR ''-'', CHR ''n''] # [''3'']) ProfTest_new = Reject ProfTest_new"
    using p [THEN conjunct2] o(3,4) by (simp add: small_host_simps del: getopt_scan.simps)
  ultimately show ?thesis by simp
qed

text \<open>A usage error of \<^verbatim>\<open>prof\<close> in process mode ends in undefined behaviour: the arguments are rejected
  before \<^verbatim>\<open>muttee_argv\<close> has a value, and deleting the command frees it.\<close>

lemma prof_usage_error_frees_unset:
  assumes "opt_loop mutatee_option (fst (getopt_scan (getOptStr @ ''w:h'') args)) ProfTest_new = Reject t"
    and "mode t = LPROFILE_MODE_PROC"
  shows "lprofile_main H (prog # ''prof'' # args) w = Inl Indeterminate_value"
proof -
  have "muttee_argv t = Argv_unset"
  proof (rule opt_loop_invariant [where P = "\<lambda>t. muttee_argv t = Argv_unset" and handle = mutatee_option])
    show "muttee_argv ProfTest_new = Argv_unset" by (simp add: ProfTest_new_def mutatee_test_new_def)
  next
    fix c a s s'
    assume "muttee_argv s = Argv_unset" "mutatee_option c a s = Proceed s' \<or> mutatee_option c a s = Reject s'"
    then show "muttee_argv s' = Argv_unset" by (auto simp: mutatee_option_def split: if_splits option.splits)
  qed (use assms(1) in blast)
  then show ?thesis using assms
    by (simp add: lprofile_main_def run_test_def ProfTest_parseArgs_def case_prod_beta ProfTest_delete_def zfree_argv_def Let_def
        del: getopt_scan.simps)
qed

lemma prof_usage_error_frees_unset_example:
  "lprofile_main small_host [''lprofile'', ''prof'', ''-x''] small_world = Inl Indeterminate_value"
proof (rule prof_usage_error_frees_unset)
  show "opt_loop mutatee_option (fst (getopt_scan (getOptStr @ ''w:h'') [''-x''])) ProfTest_new = Reject ProfTest_new"
    by (simp add: option_kind_def getOptStr_def FUNCC_ARG_def mutatee_option_def parseOption_def)
qed (simp add: ProfTest_new_def mutatee_test_new_def)

end
