(* ===== verification/Spec2Isabelle.thy ===== *)
theory Spec2Isabelle
  imports Trap_Writer RT_Init RT_Memory_Map RT_Search Thread_Table Hash_List Lprofile_Main
begin

text \<open>
  \<^bold>\<open>The program.\<close>  lprofile counts hardware events around the functions of a multi-threaded program.  It has two
  halves.  The \<^emph>\<open>probe\<close> (\<^verbatim>\<open>src/probe\<close>, C) is a shared library loaded into the profiled program:
  on entry and exit of an instrumented function it reads the events of the calling thread and appends a record per event
  to the thread's data file.  The \<^emph>\<open>commands\<close> (\<^verbatim>\<open>src/utils\<close>, C++) number the functions of the target, choose the ones
  to be probed, load the probe library into the target through the DyninstAPI library, insert the calls, run the
  target, and print the data files.  The two halves meet in three places: the start-up call with its argument string,
  the function number passed to the probes, and the format of a record.  Underneath is the \<^emph>\<open>run-time library\<close> of
  DyninstAPI (\<^verbatim>\<open>src/Dyninst-8.2.1/dyninstAPI_RT\<close>, C), which is loaded into the target together with the probe: the inserted code asks it
  for the index of the calling thread, traps go through its handler, memory for inserted code comes from it, and it tells
  the controlling process what happens in the target.  What it reads there, when the target is a rewritten file, was laid out by
  the \<^emph>\<open>instrumentation library\<close> itself (\<^verbatim>\<open>src/Dyninst-8.2.1/dyninstAPI/src\<close>, C++): the memory given to inserted code, the
  bytes of the rewritten file, the table of traps.  The development follows these cuts.

  \<^bold>\<open>The probe: theories and sources.\<close>
  \<^item> \<open>Prelude\<close>: C integers as words of their width, addresses, faults (null pointer, access out of bounds, indeterminate
    value, endless loop), loop bodies that fall through or leave, and the \<^verbatim>\<open>for\<close> loops over linked structures.
  \<^item> \<open>Intrusive_List\<close> and \<open>Hash_List\<close> (\<^verbatim>\<open>list.h\<close>): each list operation and iteration macro on an
    explicit heap of nodes.  \<open>dlist\<close> and its hash-list counterpart relate a heap to a HOL list; every operation is
    shown to do to that list what its name says, and to leave other nodes alone.
  \<^item> \<open>Environment\<close>: system calls and allocation, answered by an arbitrary function of the trace of earlier calls; the
    trace records what the program holds (descriptors, blocks), so that \<open>no leak\<close> is a statement about it.
  \<^item> \<open>Util\<close> (\<^verbatim>\<open>util.h\<close>, \<^verbatim>\<open>array.c\<close>, \<^verbatim>\<open>array.h\<close>), \<open>Pmu\<close> (\<^verbatim>\<open>pmu.c\<close>), \<open>Evsel\<close> and \<open>Counter_Read\<close> (\<^verbatim>\<open>evsel.c\<close>, \<^verbatim>\<open>evsel.h\<close>),
    \<open>Evlist\<close> and \<open>Isolation\<close> (\<^verbatim>\<open>evlist.c\<close>), \<open>Threadmap\<close> (\<^verbatim>\<open>threadmap.c\<close>): records for the structs, a definition per
    function, error returns as branches, faults as \<open>Inl\<close>.  Shown: which calls succeed and what they then hold,
    that a failed start closes what it opened, that a life cycle leaks neither memory nor descriptors, that counters
    read from the shared page are a consistent snapshot, and that lists of different threads do not interfere.
  \<^item> \<open>Profile\<close> (\<^verbatim>\<open>profile.c\<close>, \<^verbatim>\<open>profile.h\<close>, \<^verbatim>\<open>emptyprobe.c\<close>): the table of 64 thread slots, start-up, registration of
    threads, the entry and exit probes, shut-down.  \<open>Thread_Table\<close> holds the invariant of the table and the step
    relation of threads that register concurrently (the full-table test is made before the lock is taken);
    \<open>Probe_Log\<close> shows that buffer and file together refine an append-only log.

  \<^bold>\<open>The commands: theories and sources.\<close>
  \<^item> \<open>Getopt\<close>: the scan of \<^verbatim>\<open>getopt\<close> (clusters, attached and separate arguments, operands moved to the end,
    \<^verbatim>\<open>--\<close>) and the option loop the commands share.
  \<^item> \<open>Instrument\<close>: the DyninstAPI calls and the file system as the commands see them.  What the library answers is
    the parameter \<open>host\<close>; the state \<open>world\<close> records the calls in order, the files and the standard output.
  \<^item> \<open>Funcmap\<close> (\<^verbatim>\<open>funcmap.cc\<close>, \<^verbatim>\<open>funcmaptest.cc\<close>): numbering, cache file, generated wrappers.  \<open>Count\<close> (\<^verbatim>\<open>count.cc\<close>): common
    options, target functions, start-up arguments, insertion and removal of probes.
  \<^item> \<open>Launch\<close> and \<open>Prof_Command\<close> (\<^verbatim>\<open>prof.cc\<close>), \<open>Tracer_Command\<close> (\<^verbatim>\<open>tracer.cc\<close>), \<open>Wrap_Commands\<close> (\<^verbatim>\<open>wrap.cc\<close>,
    \<^verbatim>\<open>replace.cc\<close>, \<^verbatim>\<open>simple.cc\<close>), \<open>Report\<close> (\<^verbatim>\<open>report.cc\<close>), \<open>Lprofile_Main\<close> (\<^verbatim>\<open>test.cc\<close>, \<^verbatim>\<open>test.h\<close>).  A command object
    is a record, a method a function from object and world to result, object and world.  Shown: the order of the calls a
    command makes (the target runs only after start-up, probes and shut-down call are in place), that it returns once
    the target ends, round trips of the cache file, of the data file and of the target's arguments, the exit
    status for every command line, and the inputs on which the commands fail or fault.

  \<^bold>\<open>The run-time library: theories and sources\<close> (x86-64, Linux).
  \<^item> \<open>RT_Lock\<close> (\<^verbatim>\<open>RTthread-x86-64.c\<close>, \<^verbatim>\<open>RTcommon.c\<close>): the lock, as functions and as steps of competing threads: at most
    one is inside, in any interleaving.
  \<^item> \<open>RT_Thread\<close> (\<^verbatim>\<open>RTthread.c\<close>): the hash table from thread ids to indices refines a map; every thread finds its
    own index.
  \<^item> \<open>RT_Trap\<close> and \<open>RT_Trap_Map\<close> (\<^verbatim>\<open>RTcommon.c\<close>, \<^verbatim>\<open>RTlinux.c\<close>): the search for the target of a trap, restarted when the table
    changes meanwhile, and the tables of rewritten libraries, found through the loader's list: the handler leads every
    trap where the table of its library says.
  \<^item> \<open>RT_Heap\<close> (\<^verbatim>\<open>RTheap.c\<close>) and \<open>RT_Memory_Map\<close> (\<^verbatim>\<open>RTheap-linux.c\<close>): memory between two bounds, never over a segment that is
    mapped; the linked list of regions as a sequence; the segments read from the memory map of the process.
  \<^item> \<open>RT_Events\<close> (\<^verbatim>\<open>RTcommon.c\<close>, \<^verbatim>\<open>RTlinux.c\<close>, \<^verbatim>\<open>RTmemEmulator.c\<close>): events published and signalled to the mutator, whose
    answers are the parameter \<open>w\<close>; the cache of targets is least-recently-used; stopping a thread.
  \<^item> \<open>RT_Search\<close> (\<^verbatim>\<open>RTcommon.c\<close>, \<^verbatim>\<open>RTmemEmulator.c\<close>): two bisections over address intervals decide what a linear search
    decides.  \<open>RT_Init\<close> (\<^verbatim>\<open>RTcommon.c\<close>, \<^verbatim>\<open>RTlinux.c\<close>, \<^verbatim>\<open>RTposix.c\<close>): what start-up leaves.

  \<^bold>\<open>The instrumentation library: theories and sources.\<close>
  \<^item> \<open>Code_Range\<close> (\<^verbatim>\<open>codeRange.C\<close>, \<^verbatim>\<open>codeRange.h\<close>): the red-black tree of address ranges refines a map from start
    addresses; a search finds the range at or before an address.
  \<^item> \<open>Inferior_Heap\<close> (\<^verbatim>\<open>infHeap.h\<close>, \<^verbatim>\<open>infHeap.C\<close>, \<^verbatim>\<open>addressSpace.C\<close>): the memory given to inserted code, as lists of free
    and active blocks; blocks that are held at the same time never overlap, and no byte is lost when a block is split, freed or merged.
  \<^item> \<open>Binary_Edit\<close> and \<open>File_Image\<close> (\<^verbatim>\<open>binaryEdit.C\<close>, \<^verbatim>\<open>binaryEdit.h\<close>, \<^verbatim>\<open>unix.C\<close>): a file that is being rewritten; where its new memory
    lies, reads and writes through the tracked ranges, and the new section of the written file: what was written last at an address is
    what the section holds there.
  \<^item> \<open>Trap_Writer\<close> (\<^verbatim>\<open>addressSpace.C\<close>, \<^verbatim>\<open>trapMappings.h\<close>): the table of traps as the library writes it, read back by the handler
    of \<open>RT_Trap_Map\<close>: in the rewritten program every trap leads where the library had decided.

  \<^bold>\<open>Interfaces.\<close>  \<open>node_list\<close> (a list of nodes, for clients that build and drain one), \<open>quiet_body\<close>, \<open>unlinking_body\<close>
  and \<open>quiet_hbody\<close> (loop bodies that leave the links alone, or unlink the current node), \<open>evsel_op\<close> and its extension
  \<open>evsel_fd_op\<close> (operations on one event that a list applies to all of its events), \<open>record_sink\<close> (a writer that
  refines a log), \<open>test_command\<close> (the virtual methods \<^verbatim>\<open>main\<close> drives), \<open>range_index\<close> (an index of address ranges),
  \<open>inferior_memory\<close> (an allocator of memory in the target, for clients that run a session of requests and releases).  Each is
  interpreted on the definitions of the model, \<open>test_command\<close> for all seven commands.

  \<^bold>\<open>Loops.\<close>  A loop with no bound of its own is a partial function whose value is \<open>None\<close> when it does not end:
  the list walks (shown to end on well-formed lists), the seqlock loop of the shared counter page, \<^verbatim>\<open>readn\<close>, the loops that
  wait for the target to stop or end, and in the run-time library the spinning, probing and searching loops, the stop until the
  mutator answers, and the loops that start over when a table has changed; in the instrumentation library, the write
  that crosses from one tracked range to the next; each is shown to end under the
  conditions its property states.  All others are total, with a measure where the recursion is not
  structural.  No definition takes fuel.

  \<^bold>\<open>This theory\<close> holds the properties that span components: the chain from a probe hit to the line the report
  prints, and the width of a function number along that chain.

  \<^bold>\<open>Not modelled.\<close>
  \<^item> The rest of \<^verbatim>\<open>src/Dyninst-8.2.1\<close>, a third-party library in C++: parsing of binaries and symbol tables, code generation and
    relocation, process control.  The commands call it, and its answers are parameters.  Of a file that is being rewritten: old
    segments, symbols, relocations and dependencies, which pass through the symbol-table library.
  \<^item> Of the run-time library: versions for other systems and processors, saving a mutated binary (\<^verbatim>\<open>RTmutatedBinary_ELF.c\<close>), the
    event socket, loading of libraries, the signal wrappers.
  \<^item> Memory ordering below the level of single accesses: the steps of the lock are sequentially consistent.
  \<^item> Log, usage and listing output (\<^verbatim>\<open>LPROFILE_*\<close>, \<^verbatim>\<open>LPROBE_*\<close>, \<^verbatim>\<open>LOG_*\<close>, \<^verbatim>\<open>printAll\<close>, \<^verbatim>\<open>findCaller\<close>), except the output of the report.
  \<^item> Buffering inside \<^verbatim>\<open>FILE\<close> and short writes: a \<^verbatim>\<open>fwrite\<close> appends all of its records.
  \<^item> \<^verbatim>\<open>POSIXLY_CORRECT\<close> in \<^verbatim>\<open>getopt\<close>; the build configuration \<^verbatim>\<open>USE_FUNCCNT\<close>; code under \<^verbatim>\<open>#if 0\<close>.
  \<^item> Data races other than those of thread registration, the lock, and tables that change during a search: the probes of one thread touch only its own slot.
  \<^item> \<^verbatim>\<open>src/test\<close>: sample programs to be profiled.
\<close>

section \<open>Properties that span components\<close>

subsection \<open>From the probes to the report\<close>

text \<open>C1: what is measured is what is reported.  A running thread goes through any sequence of function
  entries and exits, then the program shuts down; its data file then holds its log, one record per event and hit, and
  the report command, run on the bytes of that file, prints exactly one line per record, in
  order.\<close>

theorem measured_and_reported:
  assumes tab: "table_running st L I" "i \<in> I" "\<not> is_error (ginfo st)" and l: "threadinfo l = Some i" "\<not> is_ignore l"
    and val: "\<forall>h \<in> set hs. \<forall>p \<in> set (L i). rdpmc_at (h_pages h) (evs st) p = Inr (c h p)"
  shows "\<exists>st1 st2 log. run_hits gettid hs l st = Inr (l, st1) \<and> lprobe_exit os st1 = Inr st2
    \<and> files st2 (the (output_file (slot_of st i))) = Some log
    \<and> log = thread_log st i @ concat (map (log_of_hit c (L i)) hs)
    \<and> (\<forall>pads w t. length pads = length log \<and> (\<forall>p \<in> set pads. length p = 4) \<and> \<not> is_count t
          \<and> fs w (datafile t) = Some (file_bytes (zip pads log))
        \<longrightarrow> ReportTest_process t w = Inr (True, t, w\<lparr>printed := printed w @ concat (map record_line log)\<rparr>))"
proof -
  have run: "running_slot st i (L i)" using tab by (simp add: table_running_def)
  obtain st1 where h: "run_hits gettid hs l st = Inr (l, st1)" "running_slot st1 i (L i)" "same_owner st st1 i"
      "thread_log st1 i = thread_log st i @ concat (map (log_of_hit c (L i)) hs)" "evs st1 = evs st"
      "\<forall>j. j \<noteq> i \<longrightarrow> slot_of st1 j = slot_of st j"
      "\<forall>g. g \<noteq> the (output_file (slot_of st i)) \<longrightarrow> files st1 g = files st g"
    using run_hits_effect [OF run l val, of gettid] by blast
  have "table_running st1 L I" using hits_keep_table [OF tab(1,2) h(2,3,5,6,7)] .
  moreover have "\<not> is_error (ginfo st1)" "output_file (slot_of st1 i) = output_file (slot_of st i)"
    using h(3) tab(3) by (simp_all add: same_owner_def)
  ultimately obtain st2 where e: "lprobe_exit os st1 = Inr st2"
    "files st2 (the (output_file (slot_of st i))) = Some (thread_log st1 i)"
    using lprobe_exit_effect [of st1 L I os] tab(2) by auto
  have rep: "ReportTest_process t w = Inr (True, t, w\<lparr>printed := printed w @ concat (map record_line log)\<rparr>)"
    if "length pads = length log" "\<forall>p \<in> set pads. length p = 4" "\<not> is_count t"
      "fs w (datafile t) = Some (file_bytes (zip pads log))" for pads log w t
  proof -
    have "\<forall>(pad, r) \<in> set (zip pads log). length pad = 4" using that(2) by (auto dest: set_zip_leftD)
    moreover have "map (record_line \<circ> snd) (zip pads log) = map record_line log"
      using that(1) by (simp flip: map_map)
    ultimately show ?thesis
      using report_loop_file [OF that(3), of "zip pads log" "[]"] that(4) by (simp add: ReportTest_process_def)
  qed
  show ?thesis using h(1,4) e rep by blast
qed

theorem measured_and_reported_witness:
  "\<exists>st1 st2 log. run_hits 42 [\<lparr>h_exit = False, h_func = 5, h_cyc = 100, h_pages = (\<lambda>_. example_page)\<rparr>]
       \<lparr>threadinfo = Some 0, is_ignore = False, threadid = 42\<rparr> example_prof
     = Inr (\<lparr>threadinfo = Some 0, is_ignore = False, threadid = 42\<rparr>, st1)
     \<and> lprobe_exit calm_kernel st1 = Inr st2 \<and> files st2 (outfile 42) = Some log \<and> length log = 2"
proof -
  let ?hs = "[\<lparr>h_exit = False, h_func = 5, h_cyc = 100, h_pages = (\<lambda>_. example_page)\<rparr>]"
  have val: "\<forall>h \<in> set ?hs. \<forall>p \<in> set ((\<lambda>_. [2, 3]) 0). rdpmc_at (h_pages h) (evs example_prof) p = Inr ((\<lambda>_ _. 0) h p)"
    using example_rdpmc by auto
  have "\<not> is_error (ginfo example_prof)" by (simp add: example_prof_def globalinfo_def)
  from measured_and_reported [where l = "\<lparr>threadinfo = Some 0, is_ignore = False, threadid = 42\<rparr>"
      and gettid = 42 and os = calm_kernel, OF example_table _ this _ _ val]
  obtain st1 st2 log where "run_hits 42 ?hs \<lparr>threadinfo = Some 0, is_ignore = False, threadid = 42\<rparr> example_prof
      = Inr (\<lparr>threadinfo = Some 0, is_ignore = False, threadid = 42\<rparr>, st1)" "lprobe_exit calm_kernel st1 = Inr st2"
      "files st2 (the (output_file (slot_of example_prof 0))) = Some log"
      "log = thread_log example_prof 0 @ concat (map (log_of_hit (\<lambda>_ _. 0) [2, 3]) ?hs)" by auto
  moreover have "thread_log example_prof 0 = []" "the (output_file (slot_of example_prof 0)) = outfile 42"
    by (simp_all add: thread_log_def example_slot sink_log_def example_parts buffered_def zero_tinfo_def)
  ultimately show ?thesis by (auto simp: log_of_hit_def hit_records_def)
qed

subsection \<open>From the function map to the record\<close>



subsection \<open>A probe that was never started\<close>

text \<open>The wrappers call the probes also when the command that inserted them never ran the probe's start-up
  function: the table of threads is then the initial one, and a probe hit of any thread changes nothing but
  its own decision to ignore further hits.\<close>

lemma unstarted_probe_ignores:
  assumes "ginfo st = globalinfo" "gettid \<noteq> 0" "\<not> is_ignore l" "threadinfo l = None"
  shows "lprobe_func pages gettid cyc is_post func_index l st
    = Inr (l\<lparr>threadid := gettid, is_ignore := True\<rparr>, st)"
proof -
  have "find_tinfo gettid globalinfo = None"
    using assms(2) by (auto simp: find_tinfo_def find_None_iff globalinfo_def zero_tinfo_def)
  then show ?thesis using assms by (simp add: lprobe_func_def Let_def)
qed

end
